(* ===== verification/Prelude.thy ===== *)
theory Prelude
  imports Main "HOL-Library.Word" "HOL-Library.Monad_Syntax" "HOL-Library.Code_Target_Nat"
begin

text \<open>
  Shared vocabulary of the development: Rust's \<open>usize\<close> arithmetic on a 64-bit target and the
  generic lemmas on bits, sorted lists and options that the component theories use.

  A \<open>usize\<close> value is a natural number below \<open>usize_lim\<close> (that is, \<open>2 ^ 64\<close>). The operators
  follow the release profile of the workspace, in which overflow checks are off: \<open>+\<close>, \<open>-\<close> and
  \<open>*\<close> wrap around, and \<open>debug_assert!\<close> is absent. The checked variants return \<open>None\<close> on overflow.
  A panic (\<open>expect\<close>, \<open>assert!\<close>, \<open>panic!\<close>, an index out of range) is the value \<open>None\<close> of an
  \<open>option\<close> that wraps the result of the operation.
\<close>

section \<open>Collections of facts\<close>

named_theorems usize_defs "definitions of the usize operators"
named_theorems usize_simps "usize operators away from the wrap-around"

section \<open>The type usize\<close>

type_synonym usize = nat

definition usize_lim :: nat where
  "usize_lim = 2 ^ 64"

definition usize_max :: usize where
  "usize_max = usize_lim - 1"

definition usize_add :: "usize \<Rightarrow> usize \<Rightarrow> usize" where
  "usize_add a b = (a + b) mod usize_lim"

definition usize_sub :: "usize \<Rightarrow> usize \<Rightarrow> usize" where
  "usize_sub a b = (if b \<le> a then a - b else usize_lim - (b - a))"

definition usize_mul :: "usize \<Rightarrow> usize \<Rightarrow> usize" where
  "usize_mul a b = (a * b) mod usize_lim"

definition usize_not :: "usize \<Rightarrow> usize" where
  "usize_not a = usize_lim - 1 - a"

definition usize_checked_add :: "usize \<Rightarrow> usize \<Rightarrow> usize option" where
  "usize_checked_add a b = (if a + b < usize_lim then Some (a + b) else None)"

definition usize_checked_sub :: "usize \<Rightarrow> usize \<Rightarrow> usize option" where
  "usize_checked_sub a b = (if b \<le> a then Some (a - b) else None)"

definition usize_checked_mul :: "usize \<Rightarrow> usize \<Rightarrow> usize option" where
  "usize_checked_mul a b = (if a * b < usize_lim then Some (a * b) else None)"

text \<open>Wrapping addition on \<open>u8\<close> and the truncating cast \<open>as u32\<close>.\<close>

definition u8_add :: "nat \<Rightarrow> nat \<Rightarrow> nat" where
  "u8_add a b = (a + b) mod 2 ^ 8"

definition as_u32 :: "nat \<Rightarrow> nat" where
  "as_u32 a = a mod 2 ^ 32"

text \<open>\<open>usize::is_power_of_two\<close> and \<open>usize::is_multiple_of\<close>.\<close>

definition is_power_of_two :: "usize \<Rightarrow> bool" where
  "is_power_of_two n = list_ex (\<lambda>k. n = 2 ^ k) [0..<64]"

definition is_multiple_of :: "usize \<Rightarrow> usize \<Rightarrow> bool" where
  "is_multiple_of a b = (if b = 0 then a = 0 else a mod b = 0)"

lemmas [usize_defs] =
  usize_add_def usize_sub_def usize_mul_def usize_not_def usize_checked_add_def
  usize_checked_sub_def usize_checked_mul_def usize_max_def

lemma usize_lim_pos [simp]: "0 < usize_lim" "usize_lim \<noteq> 0" "Suc 0 < usize_lim"
  by (simp_all add: usize_lim_def)

lemma usize_add_exact [usize_simps]: "a + b < usize_lim \<Longrightarrow> usize_add a b = a + b"
  by (simp add: usize_add_def)

lemma usize_sub_exact [usize_simps]: "b \<le> a \<Longrightarrow> usize_sub a b = a - b"
  by (simp add: usize_sub_def)

lemma usize_mul_exact [usize_simps]: "a * b < usize_lim \<Longrightarrow> usize_mul a b = a * b"
  by (simp add: usize_mul_def)

lemma usize_add_bound [simp]: "usize_add a b < usize_lim"
  by (simp add: usize_add_def)

lemma usize_mul_bound [simp]: "usize_mul a b < usize_lim"
  by (simp add: usize_mul_def)

lemma usize_sub_bound: "a < usize_lim \<Longrightarrow> b < usize_lim \<Longrightarrow> usize_sub a b < usize_lim"
  by (auto simp: usize_sub_def)

lemma usize_checked_add_Some [simp]:
  "usize_checked_add a b = Some c \<longleftrightarrow> c = a + b \<and> a + b < usize_lim"
  by (auto simp: usize_checked_add_def)

lemma usize_checked_add_None [simp]:
  "usize_checked_add a b = None \<longleftrightarrow> usize_lim \<le> a + b"
  by (auto simp: usize_checked_add_def)

lemma usize_checked_sub_Some [simp]:
  "usize_checked_sub a b = Some c \<longleftrightarrow> b \<le> a \<and> c = a - b"
  by (auto simp: usize_checked_sub_def)

lemma usize_checked_sub_None [simp]: "usize_checked_sub a b = None \<longleftrightarrow> a < b"
  by (auto simp: usize_checked_sub_def)

lemma is_power_of_two_iff: "is_power_of_two n \<longleftrightarrow> (\<exists>k<64. n = 2 ^ k)"
  by (auto simp: is_power_of_two_def list_ex_iff)

lemma is_power_of_twoE:
  assumes "is_power_of_two n"
  obtains k where "k < 64" "n = 2 ^ k" "0 < n" "n < usize_lim"
proof -
  from assms obtain k where k: "k < 64" "n = 2 ^ k"
    by (auto simp: is_power_of_two_iff)
  then have "(2::nat) ^ k < 2 ^ 64"
    by (intro power_strict_increasing) simp_all
  with k show ?thesis
    by (intro that [of k]) (simp_all add: usize_lim_def)
qed

section \<open>Bit masks\<close>

unbundle bit_operations_syntax

lemma and_mask_nat: "(a::nat) AND (2 ^ k - 1) = a mod 2 ^ k"
  by (metis mask_eq_exp_minus_1 take_bit_eq_mask take_bit_eq_mod)

text \<open>Clearing the low \<open>k\<close> bits, as \<open>a & !(2^k - 1)\<close> does, rounds down to a multiple.\<close>

lemma and_not_mask_nat:
  assumes a: "a < usize_lim" and k: "k \<le> 64"
  shows "a AND usize_not (2 ^ k - 1) = a - a mod 2 ^ k"
proof -
  have le: "(2::nat) ^ k \<le> 2 ^ 64"
    using k by (intro power_increasing) simp_all
  have "push_bit k (mask (64 - k) :: nat) = 2 ^ 64 - 2 ^ k"
    using k by (simp add: push_bit_eq_mult mask_eq_exp_minus_1 diff_mult_distrib flip: power_add)
  then have not_mask: "usize_not (2 ^ k - 1) = push_bit k (mask (64 - k))"
    using le by (simp add: usize_not_def usize_lim_def)
  have bound: "bit a n \<Longrightarrow> n < 64" for n
    using a by (metis bit_take_bit_iff less_irrefl take_bit_nat_eq_self_iff usize_lim_def)
  have "a AND push_bit k (mask (64 - k)) = push_bit k (drop_bit k a)"
    by (rule bit_eqI) (auto simp: bit_and_iff bit_push_bit_iff bit_mask_iff bit_drop_bit_eq
        dest: bound)
  also have "\<dots> = a div 2 ^ k * 2 ^ k"
    by (simp add: push_bit_eq_mult drop_bit_eq_div)
  also have "\<dots> = a - a mod 2 ^ k"
    by (simp add: minus_mod_eq_div_mult)
  finally show ?thesis
    unfolding not_mask .
qed

end
