(* ===== verification/MemoryAddr.thy ===== *)
theory MemoryAddr
  imports Prelude
begin

text \<open>
  The crate \<open>memory/memory_addr\<close>: alignment of addresses (\<open>lib.rs\<close>), the arithmetic of the trait
  \<open>MemoryAddr\<close> (\<open>addr.rs\<close>), half-open address ranges (\<open>range.rs\<close>) and the page iterators
  (\<open>iter.rs\<close>). An address type is a transparent wrapper of \<open>usize\<close>, so its conversions from and
  to \<open>usize\<close> are the identity here. An \<open>isize\<close> is an integer in \<open>[-2^63, 2^63)\<close>.
\<close>

section \<open>Alignment\<close>

definition PAGE_SIZE_4K :: usize where
  "PAGE_SIZE_4K = 4096"

definition PAGE_SIZE_2M :: usize where
  "PAGE_SIZE_2M = 2097152"

definition PAGE_SIZE_1G :: usize where
  "PAGE_SIZE_1G = 1073741824"

definition align_down :: "usize \<Rightarrow> usize \<Rightarrow> usize" where
  "align_down addr align = addr AND usize_not (usize_sub align 1)"

definition align_up :: "usize \<Rightarrow> usize \<Rightarrow> usize" where
  "align_up addr align = usize_sub (usize_add addr align) 1 AND usize_not (usize_sub align 1)"

definition align_offset :: "usize \<Rightarrow> usize \<Rightarrow> usize" where
  "align_offset addr align = addr AND usize_sub align 1"

definition is_aligned :: "usize \<Rightarrow> usize \<Rightarrow> bool" where
  "is_aligned addr align \<longleftrightarrow> align_offset addr align = 0"

definition align_down_4k :: "usize \<Rightarrow> usize" where
  "align_down_4k addr = align_down addr PAGE_SIZE_4K"

definition align_up_4k :: "usize \<Rightarrow> usize" where
  "align_up_4k addr = align_up addr PAGE_SIZE_4K"

definition align_offset_4k :: "usize \<Rightarrow> usize" where
  "align_offset_4k addr = align_offset addr PAGE_SIZE_4K"

definition is_aligned_4k :: "usize \<Rightarrow> bool" where
  "is_aligned_4k addr = is_aligned addr PAGE_SIZE_4K"

section \<open>Address arithmetic\<close>

type_synonym isize = int

definition isize_lim :: int where
  "isize_lim = 2 ^ 63"

text \<open>The cast \<open>x as isize\<close> reads the 64 bits as two's complement.\<close>

definition usize_as_isize :: "usize \<Rightarrow> isize" where
  "usize_as_isize x = (if int x < isize_lim then int x else int x - 2 * isize_lim)"

definition addr_offset :: "usize \<Rightarrow> isize \<Rightarrow> usize option" where
  "addr_offset self off =
     (if 0 \<le> int self + off \<and> int self + off < int usize_lim
      then Some (nat (int self + off)) else None)"

definition addr_wrapping_offset :: "usize \<Rightarrow> isize \<Rightarrow> usize" where
  "addr_wrapping_offset self off = nat ((int self + off) mod int usize_lim)"

definition addr_offset_from :: "usize \<Rightarrow> usize \<Rightarrow> isize option" where
  "addr_offset_from self base =
     (let result = usize_as_isize (usize_sub self base)
      in if (0 < result) \<noteq> (base < self) then None else Some result)"

definition addr_add :: "usize \<Rightarrow> usize \<Rightarrow> usize option" where
  "addr_add self rhs = usize_checked_add self rhs"

definition addr_wrapping_add :: "usize \<Rightarrow> usize \<Rightarrow> usize" where
  "addr_wrapping_add self rhs = usize_add self rhs"

definition addr_overflowing_add :: "usize \<Rightarrow> usize \<Rightarrow> usize \<times> bool" where
  "addr_overflowing_add self rhs = (usize_add self rhs, usize_lim \<le> self + rhs)"

definition addr_checked_add :: "usize \<Rightarrow> usize \<Rightarrow> usize option" where
  "addr_checked_add self rhs = usize_checked_add self rhs"

definition addr_sub :: "usize \<Rightarrow> usize \<Rightarrow> usize option" where
  "addr_sub self rhs = usize_checked_sub self rhs"

definition addr_wrapping_sub :: "usize \<Rightarrow> usize \<Rightarrow> usize" where
  "addr_wrapping_sub self rhs = usize_sub self rhs"

definition addr_overflowing_sub :: "usize \<Rightarrow> usize \<Rightarrow> usize \<times> bool" where
  "addr_overflowing_sub self rhs = (usize_sub self rhs, self < rhs)"

definition addr_checked_sub :: "usize \<Rightarrow> usize \<Rightarrow> usize option" where
  "addr_checked_sub self rhs = usize_checked_sub self rhs"

definition addr_sub_addr :: "usize \<Rightarrow> usize \<Rightarrow> usize option" where
  "addr_sub_addr self rhs = usize_checked_sub self rhs"

definition addr_wrapping_sub_addr :: "usize \<Rightarrow> usize \<Rightarrow> usize" where
  "addr_wrapping_sub_addr self rhs = usize_sub self rhs"

definition addr_overflowing_sub_addr :: "usize \<Rightarrow> usize \<Rightarrow> usize \<times> bool" where
  "addr_overflowing_sub_addr self rhs = (usize_sub self rhs, self < rhs)"

definition addr_checked_sub_addr :: "usize \<Rightarrow> usize \<Rightarrow> usize option" where
  "addr_checked_sub_addr self rhs = usize_checked_sub self rhs"

section \<open>Address ranges\<close>

record addr_range =
  ar_start :: usize
  ar_end :: usize

definition range_new :: "usize \<Rightarrow> usize \<Rightarrow> addr_range option" where
  "range_new s e = (if s \<le> e then Some \<lparr>ar_start = s, ar_end = e\<rparr> else None)"

definition range_try_new :: "usize \<Rightarrow> usize \<Rightarrow> addr_range option" where
  "range_try_new s e = (if s \<le> e then Some \<lparr>ar_start = s, ar_end = e\<rparr> else None)"

definition range_new_unchecked :: "usize \<Rightarrow> usize \<Rightarrow> addr_range" where
  "range_new_unchecked s e = \<lparr>ar_start = s, ar_end = e\<rparr>"

definition range_from_start_size :: "usize \<Rightarrow> usize \<Rightarrow> addr_range option" where
  "range_from_start_size s sz =
     (case addr_checked_add s sz of
        Some e \<Rightarrow> Some \<lparr>ar_start = s, ar_end = e\<rparr>
      | None \<Rightarrow> None)"

definition range_try_from_start_size :: "usize \<Rightarrow> usize \<Rightarrow> addr_range option" where
  "range_try_from_start_size s sz =
     map_option (\<lambda>e. \<lparr>ar_start = s, ar_end = e\<rparr>) (addr_checked_add s sz)"

definition range_from_start_size_unchecked :: "usize \<Rightarrow> usize \<Rightarrow> addr_range" where
  "range_from_start_size_unchecked s sz = \<lparr>ar_start = s, ar_end = addr_wrapping_add s sz\<rparr>"

definition range_is_empty :: "addr_range \<Rightarrow> bool" where
  "range_is_empty r \<longleftrightarrow> ar_start r \<ge> ar_end r"

definition range_size :: "addr_range \<Rightarrow> usize" where
  "range_size r = addr_wrapping_sub_addr (ar_end r) (ar_start r)"

definition range_contains :: "addr_range \<Rightarrow> usize \<Rightarrow> bool" where
  "range_contains r addr \<longleftrightarrow> ar_start r \<le> addr \<and> addr < ar_end r"

definition range_contains_range :: "addr_range \<Rightarrow> addr_range \<Rightarrow> bool" where
  "range_contains_range r other \<longleftrightarrow> ar_start r \<le> ar_start other \<and> ar_end other \<le> ar_end r"

definition range_contained_in :: "addr_range \<Rightarrow> addr_range \<Rightarrow> bool" where
  "range_contained_in r other = range_contains_range other r"

definition range_overlaps :: "addr_range \<Rightarrow> addr_range \<Rightarrow> bool" where
  "range_overlaps r other \<longleftrightarrow> ar_start r < ar_end other \<and> ar_start other < ar_end r"

definition range_default :: addr_range where
  "range_default = \<lparr>ar_start = 0, ar_end = 0\<rparr>"

section \<open>Page iterators\<close>

text \<open>
  \<open>PageIter\<close> and \<open>DynPageIter\<close> differ only in where the page size is kept (a const generic, a
  field). The state of the iterator is returned by \<open>next\<close>; the outer \<open>option\<close> is the panic of
  \<open>MemoryAddr::add\<close>.
\<close>

record page_iter =
  pi_start :: usize
  pi_end :: usize

definition page_iter_new :: "usize \<Rightarrow> usize \<Rightarrow> usize \<Rightarrow> page_iter option" where
  "page_iter_new page_size s e =
     (if \<not> is_power_of_two page_size \<or> \<not> is_aligned s page_size \<or> \<not> is_aligned e page_size
      then None else Some \<lparr>pi_start = s, pi_end = e\<rparr>)"

definition page_iter_next :: "usize \<Rightarrow> page_iter \<Rightarrow> (usize option \<times> page_iter) option" where
  "page_iter_next page_size it =
     (if pi_start it < pi_end it
      then do {
        s \<leftarrow> addr_add (pi_start it) page_size;
        Some (Some (pi_start it), it\<lparr>pi_start := s\<rparr>)
      }
      else Some (None, it))"

record dyn_page_iter =
  dpi_start :: usize
  dpi_end :: usize
  dpi_page_size :: usize

definition dyn_page_iter_new :: "usize \<Rightarrow> usize \<Rightarrow> usize \<Rightarrow> dyn_page_iter option" where
  "dyn_page_iter_new s e page_size =
     (if \<not> is_power_of_two page_size \<or> \<not> is_aligned s page_size \<or> \<not> is_aligned e page_size
      then None else Some \<lparr>dpi_start = s, dpi_end = e, dpi_page_size = page_size\<rparr>)"

definition dyn_page_iter_next :: "dyn_page_iter \<Rightarrow> (usize option \<times> dyn_page_iter) option" where
  "dyn_page_iter_next it =
     (if dpi_start it < dpi_end it
      then do {
        s \<leftarrow> addr_add (dpi_start it) (dpi_page_size it);
        Some (Some (dpi_start it), it\<lparr>dpi_start := s\<rparr>)
      }
      else Some (None, it))"

text \<open>
  A \<open>for\<close> loop over an iterator: it calls \<open>next\<close> until the answer is \<open>None\<close> and collects the
  items. The fuel counts the calls; \<open>None\<close> stands for a panic or for too little fuel.
\<close>

fun page_iter_collect :: "nat \<Rightarrow> usize \<Rightarrow> page_iter \<Rightarrow> usize list option" where
  "page_iter_collect 0 page_size it = None"
| "page_iter_collect (Suc fuel) page_size it =
     (case page_iter_next page_size it of
        None \<Rightarrow> None
      | Some (None, _) \<Rightarrow> Some []
      | Some (Some a, it') \<Rightarrow> map_option ((#) a) (page_iter_collect fuel page_size it'))"

section \<open>Lemmas on alignment\<close>

lemma align_offset_pow2: "align_offset a (2 ^ k) = a mod 2 ^ k"
  by (simp add: align_offset_def usize_simps and_mask_nat [simplified])

lemma is_aligned_pow2: "is_aligned a (2 ^ k) \<longleftrightarrow> 2 ^ k dvd a"
  by (simp add: is_aligned_def align_offset_pow2 dvd_eq_mod_eq_0)

lemma align_down_pow2:
  "a < usize_lim \<Longrightarrow> k \<le> 64 \<Longrightarrow> align_down a (2 ^ k) = a - a mod 2 ^ k"
  using and_not_mask_nat [of a k] by (simp add: align_down_def usize_simps)

lemma align_up_pow2:
  assumes "a + 2 ^ k \<le> usize_lim" "k < 64"
  shows "align_up a (2 ^ k) = (a + 2 ^ k - 1) - (a + 2 ^ k - 1) mod 2 ^ k"
proof (cases "a + 2 ^ k = usize_lim")
  case True
  then have "usize_sub (usize_add a (2 ^ k)) 1 = a + 2 ^ k - 1"
    by (simp add: usize_add_def usize_sub_def)
  with True and_not_mask_nat [of "a + 2 ^ k - 1" k] assms show ?thesis
    by (simp add: align_up_def usize_simps)
next
  case False
  with assms have "usize_sub (usize_add a (2 ^ k)) 1 = a + 2 ^ k - 1"
    by (simp add: usize_simps Suc_le_eq)
  with False and_not_mask_nat [of "a + 2 ^ k - 1" k] assms show ?thesis
    by (simp add: align_up_def usize_simps)
qed

lemma round_down_le: "b - b mod m \<le> (b::nat)"
  by simp

lemma round_down_dvd: "m dvd b - b mod (m::nat)"
  by (simp add: minus_mod_eq_mult_div)

lemma dvd_less_gap: "m dvd x \<Longrightarrow> m dvd y \<Longrightarrow> x < y \<Longrightarrow> x + m \<le> (y::nat)"
  by (metis dvd_diff_nat dvd_imp_le le_add_diff_inverse less_imp_le_nat nat_add_left_cancel_le
      zero_less_diff)

lemma round_down_greatest:
  assumes "m dvd x" "x \<le> b"
  shows "x \<le> b - b mod (m::nat)"
proof -
  from assms obtain c where "x = m * c"
    by auto
  with assms(2) have "c \<le> b div m" if "0 < m"
    using that div_le_mono [of "m * c" b m] by simp
  with \<open>x = m * c\<close> show ?thesis
    by (cases "m = 0") (auto simp: minus_mod_eq_mult_div)
qed

lemma round_up_least:
  fixes a m :: nat
  defines "b \<equiv> a + m - 1"
  assumes "0 < m"
  shows "a \<le> b - b mod m" "b - b mod m < a + m" "m dvd x \<Longrightarrow> a \<le> x \<Longrightarrow> b - b mod m \<le> x"
proof -
  have "b mod m < m"
    using assms by simp
  then show "a \<le> b - b mod m" "b - b mod m < a + m"
    using assms by linarith+
  show "b - b mod m \<le> x" if "m dvd x" "a \<le> x"
  proof (rule ccontr)
    assume "\<not> b - b mod m \<le> x"
    with that round_down_dvd [of m b] have "x + m \<le> b - b mod m"
      by (intro dvd_less_gap) auto
    also have "\<dots> \<le> b"
      by simp
    finally show False
      using \<open>a \<le> x\<close> assms by linarith
  qed
qed

text \<open>For a power-of-two alignment \<open>align_down\<close> returns the greatest aligned address that does
  not exceed its argument, and \<open>align_offset\<close> is the distance to it.\<close>

theorem align_down_greatest:
  assumes "is_power_of_two align" "a < usize_lim"
  shows "is_aligned (align_down a align) align \<and> align_down a align \<le> a \<and>
    align_down a align + align_offset a align = a \<and>
    (\<forall>x. is_aligned x align \<and> x \<le> a \<longrightarrow> x \<le> align_down a align)"
proof -
  from assms(1) obtain k where k: "k < 64" "align = 2 ^ k"
    by (rule is_power_of_twoE)
  then have down: "align_down a align = a - a mod 2 ^ k"
    using assms(2) by (simp add: align_down_pow2)
  show ?thesis
    using round_down_dvd [of "2 ^ k" a] round_down_greatest [of "2 ^ k" _ a]
    unfolding down by (simp add: k is_aligned_pow2 align_offset_pow2)
qed

theorem align_down_greatest_witness:
  "align_down 4097 4096 = 4096 \<and> is_aligned (align_down 4097 4096) 4096"
proof -
  have h: "is_power_of_two 4096" "4097 < usize_lim"
    by code_simp+
  have "align_down 4097 4096 = 4096"
    by code_simp
  with align_down_greatest [OF h] show ?thesis
    by simp
qed

text \<open>C39: for a power-of-two alignment \<open>align_up\<close> returns the least aligned address that is not
  below its argument, provided the rounding does not leave the address space.\<close>

theorem align_up_least:
  assumes "is_power_of_two align" "a + align \<le> usize_lim"
  shows "is_aligned (align_up a align) align \<and> a \<le> align_up a align \<and>
    align_up a align < a + align \<and>
    (\<forall>x. is_aligned x align \<and> a \<le> x \<longrightarrow> align_up a align \<le> x)"
proof -
  from assms(1) obtain k where k: "k < 64" "align = 2 ^ k"
    by (rule is_power_of_twoE)
  let ?b = "a + 2 ^ k - 1"
  have up: "align_up a align = ?b - ?b mod 2 ^ k"
    using assms(2) k by (simp add: align_up_pow2)
  show ?thesis
    unfolding up unfolding k(2) is_aligned_pow2
    using round_up_least [where m = "2 ^ k" and a = a] round_down_dvd [of "2 ^ k" ?b] by simp
qed

theorem align_up_least_witness:
  "align_up 4097 4096 = 8192 \<and> is_aligned (align_up 4097 4096) 4096"
proof -
  have h: "is_power_of_two 4096" "4097 + 4096 \<le> usize_lim"
    by code_simp+
  have "align_up 4097 4096 = 8192"
    by code_simp
  with align_up_least [OF h] show ?thesis
    by simp
qed

section \<open>Lemmas on address arithmetic\<close>

lemma offset_from_eq:
  assumes "a < usize_lim" "b < usize_lim"
  shows "addr_offset_from a b =
    (if - isize_lim \<le> int a - int b \<and> int a - int b < isize_lim
     then Some (int a - int b) else None)"
proof (cases "b \<le> a")
  case True
  then show ?thesis
    using assms
    by (auto simp: addr_offset_from_def Let_def usize_as_isize_def usize_sub_def isize_lim_def
        usize_lim_def of_nat_diff)
next
  case False
  then show ?thesis
    using assms
    by (auto simp: addr_offset_from_def Let_def usize_as_isize_def usize_sub_def isize_lim_def
        usize_lim_def of_nat_diff)
qed

text \<open>\<open>offset_from\<close> returns the signed distance of two addresses exactly when that distance
  is representable as an \<open>isize\<close> and panics otherwise, and \<open>offset\<close> by a returned distance gives
  the first address back.\<close>

theorem offset_from_exact:
  assumes "a < usize_lim" "b < usize_lim"
  shows "addr_offset_from a b =
      (if - isize_lim \<le> int a - int b \<and> int a - int b < isize_lim
       then Some (int a - int b) else None)
    \<and> (\<forall>d. addr_offset_from a b = Some d \<longrightarrow> addr_offset b d = Some a)"
  using assms by (auto simp: offset_from_eq addr_offset_def)

theorem offset_from_exact_witness:
  "addr_offset_from 4096 8192 = Some (-4096) \<and> addr_offset 8192 (-4096) = Some 4096 \<and>
   addr_offset_from (usize_lim - 1) 0 = None"
  using offset_from_exact [of 4096 8192] offset_from_exact [of "usize_lim - 1" 0]
  by (simp add: usize_lim_def isize_lim_def)

section \<open>Lemmas on address ranges\<close>

definition range_valid :: "addr_range \<Rightarrow> bool" where
  "range_valid r \<longleftrightarrow> ar_start r \<le> ar_end r \<and> ar_end r < usize_lim"

definition range_set :: "addr_range \<Rightarrow> usize set" where
  "range_set r = {ar_start r..<ar_end r}"

lemma range_size_eq: "ar_start r \<le> ar_end r \<Longrightarrow> range_size r = ar_end r - ar_start r"
  by (simp add: range_size_def addr_wrapping_sub_addr_def usize_simps)

lemma range_try_from_start_size_Some:
  "range_try_from_start_size s n = Some r \<longleftrightarrow>
     r = \<lparr>ar_start = s, ar_end = s + n\<rparr> \<and> s + n < usize_lim"
  by (auto simp: range_try_from_start_size_def addr_checked_add_def)

lemma range_try_from_start_size_None:
  "range_try_from_start_size s n = None \<longleftrightarrow> usize_lim \<le> s + n"
  by (auto simp: range_try_from_start_size_def addr_checked_add_def)

lemma range_overlaps_iff:
  assumes "\<not> range_is_empty r" "\<not> range_is_empty q"
  shows "range_overlaps r q \<longleftrightarrow> range_set r \<inter> range_set q \<noteq> {}"
proof -
  have "range_set r \<inter> range_set q = {max (ar_start r) (ar_start q)..<min (ar_end r) (ar_end q)}"
    by (auto simp: range_set_def)
  then show ?thesis
    using assms by (auto simp: range_overlaps_def range_is_empty_def)
qed

lemma range_contains_iff: "range_contains r a \<longleftrightarrow> a \<in> range_set r"
  by (auto simp: range_contains_def range_set_def)

lemma range_contains_range_iff:
  "\<not> range_is_empty q \<Longrightarrow> range_contains_range r q \<longleftrightarrow> range_set q \<subseteq> range_set r"
  by (auto simp: range_contains_range_def range_set_def range_is_empty_def ivl_subset)

section \<open>The page iterator\<close>

lemma page_iter_collect_from:
  assumes "0 < p" "e < usize_lim" "p dvd e - s" "s \<le> e" "(e - s) div p < fuel"
  shows "page_iter_collect fuel p \<lparr>pi_start = s, pi_end = e\<rparr> =
    Some (map (\<lambda>i. s + i * p) [0..<(e - s) div p])"
  using assms
proof (induction fuel arbitrary: s)
  case (Suc fuel)
  show ?case
  proof (cases "s < e")
    case True
    then have step: "s + p \<le> e"
      using dvd_imp_le [OF Suc.prems(3)] by simp
    have n: "(e - s) div p = Suc ((e - (s + p)) div p)"
      using step Suc.prems(1) le_div_geq [of p "e - s"] by simp
    have "p dvd e - (s + p)"
      using dvd_diff_nat [OF Suc.prems(3) dvd_refl] by simp
    then have IH: "page_iter_collect fuel p \<lparr>pi_start = s + p, pi_end = e\<rparr> =
        Some (map (\<lambda>i. s + p + i * p) [0..<(e - (s + p)) div p])"
      using Suc.prems n step by (intro Suc.IH) simp_all
    have "map (\<lambda>i. s + i * p) [0..<Suc m] = s # map (\<lambda>i. s + p + i * p) [0..<m]" for m
      by (simp add: upt_conv_Cons map_Suc_upt [symmetric] del: upt_Suc)
    then show ?thesis
      using True step Suc.prems IH n by (simp add: page_iter_next_def addr_add_def
          usize_checked_add_def del: upt_Suc)
  qed (use Suc.prems in \<open>simp add: page_iter_next_def\<close>)
qed simp

text \<open>C37: a page iterator accepted by \<open>PageIter::new\<close> over a non-inverted range visits every page
  of the range in order, exactly once, and never panics; \<open>(e - s) / page_size + 1\<close> calls of
  \<open>next\<close> are enough.\<close>

theorem page_iter_visits_every_page:
  assumes "page_iter_new p s e = Some it" "s \<le> e" "e < usize_lim" "(e - s) div p < fuel"
  shows "page_iter_collect fuel p it = Some (map (\<lambda>i. s + i * p) [0..<(e - s) div p]) \<and>
    p dvd e - s"
proof -
  from assms(1) have it: "it = \<lparr>pi_start = s, pi_end = e\<rparr>" and "is_power_of_two p"
    and al: "is_aligned s p" "is_aligned e p"
    by (auto simp: page_iter_new_def split: if_splits)
  then obtain k where k: "p = 2 ^ k"
    by (auto elim: is_power_of_twoE)
  with al have "p dvd e - s"
    by (simp add: is_aligned_pow2 dvd_diff_nat)
  with page_iter_collect_from [of p e s fuel] assms k show ?thesis
    by (simp add: it)
qed

theorem page_iter_visits_every_page_witness:
  "page_iter_collect 3 4096 \<lparr>pi_start = 4096, pi_end = 12288\<rparr> = Some [4096, 8192]"
proof -
  have "page_iter_new 4096 4096 12288 = Some \<lparr>pi_start = 4096, pi_end = 12288\<rparr>"
    by code_simp
  from page_iter_visits_every_page [OF this, of 3] show ?thesis
    by (simp add: usize_lim_def upt_conv_Cons)
qed

end
