(* ===== verification/MemoryArea.thy ===== *)
theory MemoryArea
  imports MemoryAddr
begin

text \<open>
  Memory areas, \<open>memory/memory_set/src/area.rs\<close>, with the error type of \<open>lib.rs\<close> and the trait
  \<open>MappingBackend\<close> of \<open>backend.rs\<close>. A backend is code supplied by the caller: it is a record of
  functions, an argument of every operation that calls it, and nothing is assumed of it. An operation
  that takes \<open>&mut MutationContext\<close> and \<open>&mut PageTable\<close> passes the pair of both through; one that
  takes \<open>&mut self\<close> returns the new area next to its result. The outer \<open>option\<close> is \<open>None\<close> on a panic.
\<close>

datatype mapping_error = InvalidParam | AlreadyExists | BadState | NeedsRepair

type_synonym 'a mapping_result = "mapping_error + 'a"

record ('b, 'f, 'c, 'p) mapping_backend =
  b_map :: "'b \<Rightarrow> usize \<Rightarrow> usize \<Rightarrow> 'f \<Rightarrow> 'c \<times> 'p \<Rightarrow> bool \<times> 'c \<times> 'p"
  b_validate_map :: "'b \<Rightarrow> usize \<Rightarrow> usize \<Rightarrow> 'f \<Rightarrow> 'p \<Rightarrow> bool"
  b_unmap :: "'b \<Rightarrow> usize \<Rightarrow> usize \<Rightarrow> 'c \<times> 'p \<Rightarrow> bool \<times> 'c \<times> 'p"
  b_validate_unmap :: "'b \<Rightarrow> usize \<Rightarrow> usize \<Rightarrow> 'p \<Rightarrow> bool"
  b_validate_protect :: "'b \<Rightarrow> usize \<Rightarrow> usize \<Rightarrow> 'f \<Rightarrow> 'p \<Rightarrow> bool"
  b_protect :: "'b \<Rightarrow> usize \<Rightarrow> usize \<Rightarrow> 'f \<Rightarrow> 'c \<times> 'p \<Rightarrow> bool \<times> 'c \<times> 'p"
  b_split :: "'b \<Rightarrow> usize \<Rightarrow> 'b option \<times> 'b"
  b_shrink_left :: "'b \<Rightarrow> usize \<Rightarrow> bool \<times> 'b"
  b_shrink_right :: "'b \<Rightarrow> usize \<Rightarrow> bool \<times> 'b"

record ('b, 'f) memory_area =
  ma_range :: addr_range
  ma_flags :: 'f
  ma_reported :: 'f
  ma_max :: 'f
  ma_backend :: 'b

section \<open>Constructors and accessors\<close>

definition area_try_new_with_permissions ::
  "usize \<Rightarrow> usize \<Rightarrow> 'f \<Rightarrow> 'f \<Rightarrow> 'f \<Rightarrow> 'b \<Rightarrow> ('b, 'f) memory_area mapping_result" where
  "area_try_new_with_permissions start sz fl rep mx be =
     (case range_try_from_start_size start sz of
        None \<Rightarrow> Inl InvalidParam
      | Some r \<Rightarrow>
          if range_is_empty r then Inl InvalidParam
          else Inr \<lparr>ma_range = r, ma_flags = fl, ma_reported = rep, ma_max = mx, ma_backend = be\<rparr>)"

definition area_try_new_with_reported_flags ::
  "usize \<Rightarrow> usize \<Rightarrow> 'f \<Rightarrow> 'f \<Rightarrow> 'b \<Rightarrow> ('b, 'f) memory_area mapping_result" where
  "area_try_new_with_reported_flags start sz fl rep be =
     (case range_try_from_start_size start sz of
        None \<Rightarrow> Inl InvalidParam
      | Some r \<Rightarrow>
          if range_is_empty r then Inl InvalidParam
          else Inr \<lparr>ma_range = r, ma_flags = fl, ma_reported = rep, ma_max = fl, ma_backend = be\<rparr>)"

definition area_try_new ::
  "usize \<Rightarrow> usize \<Rightarrow> 'f \<Rightarrow> 'b \<Rightarrow> ('b, 'f) memory_area mapping_result" where
  "area_try_new start sz fl be = area_try_new_with_reported_flags start sz fl fl be"

definition area_new_with_reported_flags ::
  "usize \<Rightarrow> usize \<Rightarrow> 'f \<Rightarrow> 'f \<Rightarrow> 'b \<Rightarrow> ('b, 'f) memory_area option" where
  "area_new_with_reported_flags start sz fl rep be = do {
     r \<leftarrow> range_from_start_size start sz;
     Some \<lparr>ma_range = r, ma_flags = fl, ma_reported = rep, ma_max = fl, ma_backend = be\<rparr>
   }"

definition area_new :: "usize \<Rightarrow> usize \<Rightarrow> 'f \<Rightarrow> 'b \<Rightarrow> ('b, 'f) memory_area option" where
  "area_new start sz fl be = area_new_with_reported_flags start sz fl fl be"

definition area_new_with_permissions ::
  "usize \<Rightarrow> usize \<Rightarrow> 'f \<Rightarrow> 'f \<Rightarrow> 'f \<Rightarrow> 'b \<Rightarrow> ('b, 'f) memory_area option" where
  "area_new_with_permissions start sz fl rep mx be = do {
     r \<leftarrow> range_from_start_size start sz;
     Some \<lparr>ma_range = r, ma_flags = fl, ma_reported = rep, ma_max = mx, ma_backend = be\<rparr>
   }"

definition area_start :: "('b, 'f) memory_area \<Rightarrow> usize" where
  "area_start a = ar_start (ma_range a)"

definition area_end :: "('b, 'f) memory_area \<Rightarrow> usize" where
  "area_end a = ar_end (ma_range a)"

definition area_size :: "('b, 'f) memory_area \<Rightarrow> usize" where
  "area_size a = range_size (ma_range a)"

definition replace_backend :: "('b, 'f) memory_area \<Rightarrow> 'b \<Rightarrow> 'b \<times> ('b, 'f) memory_area" where
  "replace_backend a be = (ma_backend a, a\<lparr>ma_backend := be\<rparr>)"

definition set_flags_with_reported_flags ::
  "('b, 'f) memory_area \<Rightarrow> 'f \<Rightarrow> 'f \<Rightarrow> ('b, 'f) memory_area" where
  "set_flags_with_reported_flags a fl rep = a\<lparr>ma_flags := fl, ma_reported := rep\<rparr>"

section \<open>Page-table operations\<close>

text \<open>\<open>then_some(()).ok_or(BadState)\<close>.\<close>

definition or_bad_state :: "bool \<Rightarrow> unit mapping_result" where
  "or_bad_state ok = (if ok then Inr () else Inl BadState)"

definition map_area ::
  "('b, 'f, 'c, 'p) mapping_backend \<Rightarrow> ('b, 'f) memory_area \<Rightarrow> 'c \<times> 'p \<Rightarrow>
     unit mapping_result \<times> 'c \<times> 'p" where
  "map_area B a env =
     (let (ok, env') = b_map B (ma_backend a) (area_start a) (area_size a) (ma_flags a) env
      in (or_bad_state ok, env'))"

definition area_validate_map ::
  "('b, 'f, 'c, 'p) mapping_backend \<Rightarrow> ('b, 'f) memory_area \<Rightarrow> 'p \<Rightarrow> unit mapping_result" where
  "area_validate_map B a pt =
     or_bad_state (b_validate_map B (ma_backend a) (area_start a) (area_size a) (ma_flags a) pt)"

definition unmap_range ::
  "('b, 'f, 'c, 'p) mapping_backend \<Rightarrow> ('b, 'f) memory_area \<Rightarrow> usize \<Rightarrow> usize \<Rightarrow> 'c \<times> 'p \<Rightarrow>
     unit mapping_result \<times> 'c \<times> 'p" where
  "unmap_range B a start sz env =
     (let (ok, env') = b_unmap B (ma_backend a) start sz env in (or_bad_state ok, env'))"

definition unmap_area ::
  "('b, 'f, 'c, 'p) mapping_backend \<Rightarrow> ('b, 'f) memory_area \<Rightarrow> 'c \<times> 'p \<Rightarrow>
     unit mapping_result \<times> 'c \<times> 'p" where
  "unmap_area B a env = unmap_range B a (area_start a) (area_size a) env"

definition validate_unmap_range ::
  "('b, 'f, 'c, 'p) mapping_backend \<Rightarrow> ('b, 'f) memory_area \<Rightarrow> usize \<Rightarrow> usize \<Rightarrow> 'p \<Rightarrow>
     unit mapping_result" where
  "validate_unmap_range B a start sz pt =
     or_bad_state (b_validate_unmap B (ma_backend a) start sz pt)"

definition protect_range ::
  "('b, 'f, 'c, 'p) mapping_backend \<Rightarrow> ('b, 'f) memory_area \<Rightarrow> usize \<Rightarrow> usize \<Rightarrow> 'f \<Rightarrow> 'c \<times> 'p \<Rightarrow>
     unit mapping_result \<times> 'c \<times> 'p" where
  "protect_range B a start sz fl env =
     (let (ok, env') = b_protect B (ma_backend a) start sz fl env in (or_bad_state ok, env'))"

section \<open>Changes of the range\<close>

definition shrink_left_metadata ::
  "('b, 'f, 'c, 'p) mapping_backend \<Rightarrow> ('b, 'f) memory_area \<Rightarrow> usize \<Rightarrow>
     unit mapping_result \<times> ('b, 'f) memory_area" where
  "shrink_left_metadata B a new_size =
     (if new_size = 0 \<or> new_size \<ge> area_size a then (Inl InvalidParam, a)
      else let unmap_size = usize_sub (area_size a) new_size in
        case addr_checked_add (ar_start (ma_range a)) unmap_size of
          None \<Rightarrow> (Inl InvalidParam, a)
        | Some new_start \<Rightarrow>
            let (ok, be) = b_shrink_left B (ma_backend a) unmap_size; a' = a\<lparr>ma_backend := be\<rparr> in
            if \<not> ok then (Inl BadState, a')
            else (Inr (), a'\<lparr>ma_range := (ma_range a)\<lparr>ar_start := new_start\<rparr>\<rparr>))"

definition shrink_right_metadata ::
  "('b, 'f, 'c, 'p) mapping_backend \<Rightarrow> ('b, 'f) memory_area \<Rightarrow> usize \<Rightarrow>
     unit mapping_result \<times> ('b, 'f) memory_area" where
  "shrink_right_metadata B a new_size =
     (if new_size = 0 \<or> new_size \<ge> area_size a then (Inl InvalidParam, a)
      else let unmap_size = usize_sub (area_size a) new_size in
        case addr_checked_sub (ar_end (ma_range a)) unmap_size of
          None \<Rightarrow> (Inl InvalidParam, a)
        | Some new_end \<Rightarrow>
            let (ok, be) = b_shrink_right B (ma_backend a) unmap_size; a' = a\<lparr>ma_backend := be\<rparr> in
            if \<not> ok then (Inl BadState, a')
            else (Inr (), a'\<lparr>ma_range := (ma_range a)\<lparr>ar_end := new_end\<rparr>\<rparr>))"

definition grow_right ::
  "('b, 'f, 'c, 'p) mapping_backend \<Rightarrow> ('b, 'f) memory_area \<Rightarrow> usize \<Rightarrow> 'c \<times> 'p \<Rightarrow>
     unit mapping_result \<times> ('b, 'f) memory_area \<times> 'c \<times> 'p" where
  "grow_right B a additional_size env =
     (if additional_size = 0 \<or> \<not> is_aligned_4k (area_end a) \<or>
         \<not> is_multiple_of additional_size PAGE_SIZE_4K
      then (Inl InvalidParam, a, env)
      else let map_start = area_end a in
        case addr_checked_add (ar_end (ma_range a)) additional_size of
          None \<Rightarrow> (Inl InvalidParam, a, env)
        | Some new_end \<Rightarrow>
            if \<not> b_validate_map B (ma_backend a) map_start additional_size (ma_flags a) (snd env)
            then (Inl BadState, a, env)
            else let (ok, env1) = b_map B (ma_backend a) map_start additional_size (ma_flags a) env in
              if \<not> ok
              then let (undone, env2) = b_unmap B (ma_backend a) map_start additional_size env1 in
                (Inl (if undone then BadState else NeedsRepair), a, env2)
              else (Inr (), a\<lparr>ma_range := (ma_range a)\<lparr>ar_end := new_end\<rparr>\<rparr>, env1))"

definition area_split ::
  "('b, 'f, 'c, 'p) mapping_backend \<Rightarrow> ('b, 'f) memory_area \<Rightarrow> usize \<Rightarrow>
     (('b, 'f) memory_area option mapping_result \<times> ('b, 'f) memory_area) option" where
  "area_split B a pos =
     (if area_start a < pos \<and> pos < area_end a
      then do {
        align_diff \<leftarrow> addr_sub_addr pos (area_start a);
        let (right, be) = b_split B (ma_backend a) align_diff;
        let a1 = a\<lparr>ma_backend := be\<rparr>;
        (case right of
           None \<Rightarrow> Some (Inl BadState, a1)
         | Some rb \<Rightarrow>
             (case addr_checked_sub_addr (area_end a) pos of
                None \<Rightarrow> Some (Inl InvalidParam, a1)
              | Some sz \<Rightarrow> do {
                  new_area \<leftarrow> area_new_with_reported_flags pos sz (ma_flags a) (ma_reported a) rb;
                  Some (Inr (Some (new_area\<lparr>ma_max := ma_max a\<rparr>)),
                        a1\<lparr>ma_range := (ma_range a)\<lparr>ar_end := pos\<rparr>\<rparr>)
                }))
      }
      else Some (Inr None, a))"

section \<open>Lemmas\<close>

definition area_ok :: "('b, 'f) memory_area \<Rightarrow> bool" where
  "area_ok a \<longleftrightarrow> area_start a < area_end a \<and> area_end a < usize_lim"

text \<open>The permissions an area gives to each of its addresses.\<close>

definition area_attrs :: "('b, 'f) memory_area \<Rightarrow> 'f \<times> 'f \<times> 'f" where
  "area_attrs a = (ma_flags a, ma_reported a, ma_max a)"

definition area_addrs :: "('b, 'f) memory_area \<Rightarrow> usize set" where
  "area_addrs a = {area_start a..<area_end a}"

lemma area_size_eq: "area_ok a \<Longrightarrow> area_size a = area_end a - area_start a"
  by (simp add: area_ok_def area_size_def area_start_def area_end_def range_size_eq)

lemma shrink_left_ok:
  assumes "area_ok a" "shrink_left_metadata B a n = (Inr (), a')"
  shows "area_ok a'" "area_start a' = area_end a - n" "area_end a' = area_end a"
    "area_attrs a' = area_attrs a" "0 < n" "n < area_end a - area_start a"
  using assms area_size_eq [OF assms(1)]
  by (auto simp: shrink_left_metadata_def area_ok_def area_start_def area_end_def area_attrs_def
      addr_checked_add_def usize_checked_add_def Let_def usize_simps
      split: if_splits option.splits prod.splits)

lemma shrink_right_ok:
  assumes "area_ok a" "shrink_right_metadata B a n = (Inr (), a')"
  shows "area_ok a'" "area_end a' = area_start a + n" "area_start a' = area_start a"
    "area_attrs a' = area_attrs a" "0 < n" "n < area_end a - area_start a"
  using assms area_size_eq [OF assms(1)]
  by (auto simp: shrink_right_metadata_def area_ok_def area_start_def area_end_def area_attrs_def
      addr_checked_sub_def usize_checked_sub_def Let_def usize_simps
      split: if_splits option.splits prod.splits)

lemma grow_right_ok:
  assumes "area_ok a" "grow_right B a n env = (Inr (), a', env')"
  shows "area_ok a'" "area_end a' = area_end a + n" "area_start a' = area_start a"
    "area_attrs a' = area_attrs a" "0 < n" "ma_backend a' = ma_backend a"
  using assms
  by (auto simp: grow_right_def area_ok_def area_start_def area_end_def area_attrs_def
      addr_checked_add_def usize_checked_add_def Let_def
      split: if_splits option.splits prod.splits)

lemma grow_right_err:
  assumes "grow_right B a n env = (Inl err, a', env')"
  shows "a' = a"
  using assms by (auto simp: grow_right_def Let_def split: if_splits option.splits prod.splits)

lemma area_split_total:
  assumes "area_ok a"
  shows "\<exists>r. area_split B a pos = Some r"
  using assms
  by (auto simp: area_split_def area_ok_def addr_sub_addr_def addr_checked_sub_addr_def Let_def
      usize_checked_sub_def area_new_with_reported_flags_def range_from_start_size_def
      addr_checked_add_def usize_checked_add_def split: option.splits prod.splits)

lemma area_split_ok:
  assumes "area_ok a" "area_split B a pos = Some (Inr (Some r), l)"
  shows "area_ok l" "area_ok r" "area_start l = area_start a" "area_end l = pos"
    "area_start r = pos" "area_end r = area_end a" "area_start a < pos" "pos < area_end a"
    "area_attrs l = area_attrs a" "area_attrs r = area_attrs a"
  using assms
  by (auto simp: area_split_def area_ok_def addr_sub_addr_def addr_checked_sub_addr_def Let_def
      usize_checked_sub_def area_new_with_reported_flags_def range_from_start_size_def
      addr_checked_add_def usize_checked_add_def area_start_def area_end_def area_attrs_def
      split: option.splits prod.splits if_splits)

end
