(* ===== verification/BTreeMap.thy ===== *)
theory BTreeMap
  imports Prelude
begin

text \<open>
  The part of \<open>alloc::collections::BTreeMap\<close> with \<open>usize\<close> keys that the sources use, as an
  association list in key order: insertion and removal return what was stored, iteration and
  \<open>range\<close> follow the key order. \<open>range(lo..hi)\<close> panics when \<open>lo > hi\<close>, which is \<open>None\<close> here.
\<close>

type_synonym 'v btree = "(usize \<times> 'v) list"

abbreviation bt_wf :: "'v btree \<Rightarrow> bool" where
  "bt_wf m \<equiv> sorted_wrt (<) (map fst m)"

abbreviation bt_get :: "'v btree \<Rightarrow> usize \<Rightarrow> 'v option" where
  "bt_get m k \<equiv> map_of m k"

fun bt_insert :: "usize \<Rightarrow> 'v \<Rightarrow> 'v btree \<Rightarrow> 'v btree" where
  "bt_insert k v [] = [(k, v)]"
| "bt_insert k v ((k', v') # m) =
     (if k < k' then (k, v) # (k', v') # m
      else if k = k' then (k, v) # m
      else (k', v') # bt_insert k v m)"

definition bt_remove :: "usize \<Rightarrow> 'v btree \<Rightarrow> 'v btree" where
  "bt_remove k m = filter (\<lambda>kv. fst kv \<noteq> k) m"

definition bt_values :: "'v btree \<Rightarrow> 'v list" where
  "bt_values m = map snd m"

definition bt_range :: "usize \<Rightarrow> usize \<Rightarrow> 'v btree \<Rightarrow> 'v btree option" where
  "bt_range lo hi m = (if lo > hi then None else Some (filter (\<lambda>kv. lo \<le> fst kv \<and> fst kv < hi) m))"

fun list_last :: "'a list \<Rightarrow> 'a option" where
  "list_last [] = None"
| "list_last [x] = Some x"
| "list_last (x # y # xs) = list_last (y # xs)"

fun list_first :: "'a list \<Rightarrow> 'a option" where
  "list_first [] = None"
| "list_first (x # xs) = Some x"

text \<open>\<open>range(..k).last()\<close>, \<open>range(..=k).last()\<close> and \<open>range(k..).next()\<close>.\<close>

definition bt_last_before :: "usize \<Rightarrow> 'v btree \<Rightarrow> (usize \<times> 'v) option" where
  "bt_last_before k m = list_last (filter (\<lambda>kv. fst kv < k) m)"

definition bt_last_upto :: "usize \<Rightarrow> 'v btree \<Rightarrow> (usize \<times> 'v) option" where
  "bt_last_upto k m = list_last (filter (\<lambda>kv. fst kv \<le> k) m)"

definition bt_first_from :: "usize \<Rightarrow> 'v btree \<Rightarrow> (usize \<times> 'v) option" where
  "bt_first_from k m = list_first (filter (\<lambda>kv. k \<le> fst kv) m)"

section \<open>Lemmas\<close>

lemma list_last_None [simp]: "list_last xs = None \<longleftrightarrow> xs = []"
  by (induction xs rule: list_last.induct) auto

lemma list_last_append [simp]: "list_last (xs @ [x]) = Some x"
  by (induction xs rule: list_last.induct) auto

lemma list_first_None [simp]: "list_first xs = None \<longleftrightarrow> xs = []"
  by (cases xs) auto

lemma list_last_Some: "list_last xs = Some x \<longleftrightarrow> (\<exists>ys. xs = ys @ [x])"
  by (cases xs rule: rev_cases) auto

lemma list_first_Some: "list_first xs = Some x \<longleftrightarrow> (\<exists>ys. xs = x # ys)"
  by (cases xs) auto

lemma bt_wf_filter [simp]: "bt_wf m \<Longrightarrow> bt_wf (filter P m)"
  by (induction m) auto

lemma list_last_sorted:
  assumes "bt_wf m" "list_last m = Some kv"
  shows "kv \<in> set m \<and> (\<forall>kv'\<in>set m. fst kv' \<le> fst kv)"
  using assms by (fastforce simp: list_last_Some sorted_wrt_append)

lemma list_first_sorted:
  assumes "bt_wf m" "list_first m = Some kv"
  shows "kv \<in> set m \<and> (\<forall>kv'\<in>set m. fst kv \<le> fst kv')"
  using assms by (fastforce simp: list_first_Some)

lemma bt_last_before_None: "bt_last_before k m = None \<longleftrightarrow> (\<forall>kv\<in>set m. k \<le> fst kv)"
  by (auto simp: bt_last_before_def filter_empty_conv not_less)

lemma bt_last_before_Some:
  "bt_wf m \<Longrightarrow> bt_last_before k m = Some kv \<Longrightarrow>
     kv \<in> set m \<and> fst kv < k \<and> (\<forall>kv'\<in>set m. fst kv' < k \<longrightarrow> fst kv' \<le> fst kv)"
  by (auto simp: bt_last_before_def dest!: list_last_sorted [rotated])

lemma bt_last_upto_None: "bt_last_upto k m = None \<longleftrightarrow> (\<forall>kv\<in>set m. k < fst kv)"
  by (auto simp: bt_last_upto_def filter_empty_conv not_le)

lemma bt_last_upto_Some:
  "bt_wf m \<Longrightarrow> bt_last_upto k m = Some kv \<Longrightarrow>
     kv \<in> set m \<and> fst kv \<le> k \<and> (\<forall>kv'\<in>set m. fst kv' \<le> k \<longrightarrow> fst kv' \<le> fst kv)"
  by (auto simp: bt_last_upto_def dest!: list_last_sorted [rotated])

lemma bt_first_from_None: "bt_first_from k m = None \<longleftrightarrow> (\<forall>kv\<in>set m. fst kv < k)"
  by (auto simp: bt_first_from_def filter_empty_conv not_le)

lemma bt_first_from_Some:
  "bt_wf m \<Longrightarrow> bt_first_from k m = Some kv \<Longrightarrow>
     kv \<in> set m \<and> k \<le> fst kv \<and> (\<forall>kv'\<in>set m. k \<le> fst kv' \<longrightarrow> fst kv \<le> fst kv')"
  by (auto simp: bt_first_from_def dest!: list_first_sorted [rotated])

lemma bt_wf_distinct: "bt_wf m \<Longrightarrow> distinct (map fst m)"
  by (induction m) auto

lemma bt_get_iff: "bt_wf m \<Longrightarrow> bt_get m k = Some v \<longleftrightarrow> (k, v) \<in> set m"
  by (simp add: bt_wf_distinct)

lemma bt_get_None: "bt_get m k = None \<longleftrightarrow> (\<forall>kv\<in>set m. fst kv \<noteq> k)"
  by (auto simp: map_of_eq_None_iff)

lemma set_bt_remove [simp]: "set (bt_remove k m) = {kv \<in> set m. fst kv \<noteq> k}"
  by (auto simp: bt_remove_def)

lemma bt_wf_remove [simp]: "bt_wf m \<Longrightarrow> bt_wf (bt_remove k m)"
  by (simp add: bt_remove_def)

lemma set_bt_insert:
  "bt_wf m \<Longrightarrow> set (bt_insert k v m) = insert (k, v) {kv \<in> set m. fst kv \<noteq> k}"
proof (induction m)
  case (Cons kv m)
  obtain k' v' where [simp]: "kv = (k', v')"
    by (cases kv)
  from Cons.prems have "k \<le> k' \<Longrightarrow> {kv \<in> set m. fst kv \<noteq> k} = set m"
    by force
  then show ?case
    using Cons by auto
qed simp

lemma bt_wf_insert: "bt_wf m \<Longrightarrow> bt_wf (bt_insert k v m)"
proof (induction m)
  case (Cons kv m)
  then show ?case
    by (cases kv) (fastforce simp: set_bt_insert)
qed simp

lemma bt_get_insert: "bt_get (bt_insert k v m) = (bt_get m)(k \<mapsto> v)" if "bt_wf m"
  using that by (induction m) (auto simp: fun_eq_iff map_of_eq_None_iff)

lemma bt_get_remove: "bt_get (bt_remove k m) = (bt_get m)(k := None)"
  by (induction m) (auto simp: bt_remove_def fun_eq_iff)

end
