(* ===== verification/GapTree.thy ===== *)
theory GapTree
  imports Prelude
begin

text \<open>
  The address-ordered AVL tree of free ranges of \<open>memory/memory_set/src/gaps/tree.rs\<close>. A \<open>Link\<close>
  (\<open>Option<Box<GapNode>>\<close>) is a value of \<open>gap_link\<close>; a node keeps its half-open range, its two
  children, the greatest free length below it and its \<open>u8\<close> height. Functions that own a node and
  may reach an \<open>expect\<close> return an \<open>option\<close>, with \<open>None\<close> for the panic.
\<close>

section \<open>The tree and its operations\<close>

datatype gap_link =
    NoGap
  | GapNode (range_start: usize) (range_end: usize) (left_link: gap_link) (right_link: gap_link)
      (max_length: usize) (node_height: nat)

fun gap_height :: "gap_link \<Rightarrow> nat" where
  "gap_height NoGap = 0"
| "gap_height (GapNode s e l r m h) = h"

fun gap_max :: "gap_link \<Rightarrow> usize" where
  "gap_max NoGap = 0"
| "gap_max (GapNode s e l r m h) = m"

definition max3 :: "usize \<Rightarrow> usize \<Rightarrow> usize \<Rightarrow> usize" where
  "max3 a b c = max (max a b) c"

fun refresh :: "gap_link \<Rightarrow> gap_link" where
  "refresh NoGap = NoGap"
| "refresh (GapNode s e l r m h) =
     GapNode s e l r (max3 (usize_sub e s) (gap_max l) (gap_max r))
       (u8_add 1 (max (gap_height l) (gap_height r)))"

fun balance_factor :: "gap_link \<Rightarrow> int" where
  "balance_factor NoGap = 0"
| "balance_factor (GapNode s e l r m h) = int (gap_height l) - int (gap_height r)"

fun rotate_left :: "gap_link \<Rightarrow> gap_link option" where
  "rotate_left (GapNode s e l (GapNode ps pe pl pr pm ph) m h) =
     Some (refresh (GapNode ps pe (refresh (GapNode s e l pl m h)) pr pm ph))"
| "rotate_left _ = None"

fun rotate_right :: "gap_link \<Rightarrow> gap_link option" where
  "rotate_right (GapNode s e (GapNode ps pe pl pr pm ph) r m h) =
     Some (refresh (GapNode ps pe pl (refresh (GapNode s e pr r m h)) pm ph))"
| "rotate_right _ = None"

fun balance_refreshed :: "gap_link \<Rightarrow> gap_link option" where
  "balance_refreshed NoGap = None"
| "balance_refreshed (GapNode s e l r m h) =
     (let difference = balance_factor (GapNode s e l r m h) in
      if difference > 1 then
        (case l of
           NoGap \<Rightarrow> None
         | GapNode _ _ _ _ _ _ \<Rightarrow>
             do {
               l' \<leftarrow> (if balance_factor l < 0 then rotate_left l else Some l);
               rotate_right (GapNode s e l' r m h)
             })
      else if difference < -1 then
        (case r of
           NoGap \<Rightarrow> None
         | GapNode _ _ _ _ _ _ \<Rightarrow>
             do {
               r' \<leftarrow> (if balance_factor r > 0 then rotate_right r else Some r);
               rotate_left (GapNode s e l r' m h)
             })
      else Some (GapNode s e l r m h))"

definition balance :: "gap_link \<Rightarrow> gap_link option" where
  "balance self = balance_refreshed (refresh self)"

fun gap_insert :: "gap_link \<Rightarrow> usize \<times> usize \<Rightarrow> gap_link option" where
  "gap_insert NoGap (s, e) = Some (GapNode s e NoGap NoGap (usize_sub e s) 1)"
| "gap_insert (GapNode rs re l r m h) (s, e) =
     (if s < rs then do { l' \<leftarrow> gap_insert l (s, e); balance (GapNode rs re l' r m h) }
      else if s > rs then do { r' \<leftarrow> gap_insert r (s, e); balance (GapNode rs re l r' m h) }
      else balance (GapNode s e l r m h))"

text \<open>\<open>take_first\<close> returns the remaining tree and the detached leftmost node.\<close>

fun take_first :: "gap_link \<Rightarrow> (gap_link \<times> gap_link) option" where
  "take_first NoGap = None"
| "take_first (GapNode s e l r m h) =
     (case l of
        NoGap \<Rightarrow> Some (r, GapNode s e NoGap NoGap m h)
      | GapNode _ _ _ _ _ _ \<Rightarrow>
          do {
            (l', first) \<leftarrow> take_first l;
            root \<leftarrow> balance (GapNode s e l' r m h);
            Some (root, first)
          })"

fun gap_remove :: "gap_link \<Rightarrow> usize \<Rightarrow> gap_link option" where
  "gap_remove NoGap s = Some NoGap"
| "gap_remove (GapNode rs re l r m h) s =
     (if s < rs then do { l' \<leftarrow> gap_remove l s; balance (GapNode rs re l' r m h) }
      else if s > rs then do { r' \<leftarrow> gap_remove r s; balance (GapNode rs re l r' m h) }
      else
        (case r of
           NoGap \<Rightarrow> Some l
         | GapNode _ _ _ _ _ _ \<Rightarrow>
             do {
               (r', replacement) \<leftarrow> take_first r;
               balance (GapNode (range_start replacement) (range_end replacement) l r'
                 (max_length replacement) (node_height replacement))
             }))"

fun predecessor_from :: "(usize \<times> usize) option \<Rightarrow> gap_link \<Rightarrow> usize \<Rightarrow> (usize \<times> usize) option" where
  "predecessor_from result NoGap s = result"
| "predecessor_from result (GapNode rs re l r m h) s =
     (if rs \<le> s then predecessor_from (Some (rs, re)) r s else predecessor_from result l s)"

definition predecessor :: "gap_link \<Rightarrow> usize \<Rightarrow> (usize \<times> usize) option" where
  "predecessor root s = predecessor_from None root s"

fun successor_from :: "(usize \<times> usize) option \<Rightarrow> gap_link \<Rightarrow> usize \<Rightarrow> (usize \<times> usize) option" where
  "successor_from result NoGap s = result"
| "successor_from result (GapNode rs re l r m h) s =
     (if rs \<ge> s then successor_from (Some (rs, re)) l s else successor_from result r s)"

definition successor :: "gap_link \<Rightarrow> usize \<Rightarrow> (usize \<times> usize) option" where
  "successor root s = successor_from None root s"

section \<open>The invariant\<close>

fun gap_inorder :: "gap_link \<Rightarrow> (usize \<times> usize) list" where
  "gap_inorder NoGap = []"
| "gap_inorder (GapNode s e l r m h) = gap_inorder l @ (s, e) # gap_inorder r"

fun gap_avl :: "gap_link \<Rightarrow> bool" where
  "gap_avl NoGap \<longleftrightarrow> True"
| "gap_avl (GapNode s e l r m h) \<longleftrightarrow>
     gap_avl l \<and> gap_avl r \<and>
     gap_height l \<le> gap_height r + 1 \<and> gap_height r \<le> gap_height l + 1 \<and>
     h = 1 + max (gap_height l) (gap_height r) \<and>
     m = max3 (usize_sub e s) (gap_max l) (gap_max r)"

abbreviation sorted_gaps :: "(usize \<times> usize) list \<Rightarrow> bool" where
  "sorted_gaps gs \<equiv> sorted_wrt (<) (map fst gs)"

text \<open>What insertion and removal do to the sorted list of ranges.\<close>

fun upd_gap :: "usize \<Rightarrow> usize \<Rightarrow> (usize \<times> usize) list \<Rightarrow> (usize \<times> usize) list" where
  "upd_gap s e [] = [(s, e)]"
| "upd_gap s e ((a, b) # gs) =
     (if s < a then (s, e) # (a, b) # gs
      else if s > a then (a, b) # upd_gap s e gs else (s, e) # gs)"

definition del_gap :: "usize \<Rightarrow> (usize \<times> usize) list \<Rightarrow> (usize \<times> usize) list" where
  "del_gap s gs = filter (\<lambda>g. fst g \<noteq> s) gs"

section \<open>Rebalancing\<close>

lemma u8_add_small [simp]: "x < 255 \<Longrightarrow> u8_add (Suc 0) x = Suc x"
  by (simp add: u8_add_def)

lemma gap_height_pos: "gap_avl t \<Longrightarrow> t \<noteq> NoGap \<Longrightarrow> 0 < gap_height t"
  by (cases t) auto

lemma gap_height_0 [simp]: "gap_avl t \<Longrightarrow> gap_height t = 0 \<longleftrightarrow> t = NoGap"
  by (cases t) auto

text \<open>
  Rebalancing a node whose subtrees are balanced and differ in height by at most two: no
  \<open>expect\<close> fails, the order of the ranges is kept, and the height is that of the taller subtree
  or one more.
\<close>

lemma balance_ok:
  assumes "gap_avl l" "gap_avl r" "gap_height l < 250" "gap_height r < 250"
    and "gap_height l \<le> gap_height r + 2" "gap_height r \<le> gap_height l + 2"
  shows "\<exists>t. balance (GapNode s e l r m h) = Some t \<and> gap_avl t \<and>
    gap_inorder t = gap_inorder l @ (s, e) # gap_inorder r \<and>
    max (gap_height l) (gap_height r) \<le> gap_height t \<and>
    gap_height t \<le> Suc (max (gap_height l) (gap_height r)) \<and>
    (gap_height l \<le> gap_height r + 1 \<and> gap_height r \<le> gap_height l + 1 \<longrightarrow>
     gap_height t = Suc (max (gap_height l) (gap_height r)))"
proof -
  consider (left) "gap_height l = gap_height r + 2" | (right) "gap_height r = gap_height l + 2"
    | (even) "gap_height l \<le> gap_height r + 1" "gap_height r \<le> gap_height l + 1"
    using assms(5,6) by linarith
  then show ?thesis
  proof cases
    case left
    then obtain ls le ll lr lm lh where l: "l = GapNode ls le ll lr lm lh"
      by (cases l) auto
    show ?thesis
      using assms left
      by (cases lr) (auto simp: balance_def l)
  next
    case right
    then obtain rs re rl rr rm rh where r: "r = GapNode rs re rl rr rm rh"
      by (cases r) auto
    show ?thesis
      using assms right
      by (cases rl) (auto simp: balance_def r)
  next
    case even
    then show ?thesis
      using assms by (auto simp: balance_def)
  qed
qed

section \<open>Insertion and removal\<close>

lemma gap_insert_ok:
  "gap_avl t \<Longrightarrow> gap_height t < 249 \<Longrightarrow>
   \<exists>t'. gap_insert t (s, e) = Some t' \<and> gap_avl t' \<and>
     gap_height t \<le> gap_height t' \<and> gap_height t' \<le> Suc (gap_height t)"
proof (induction t)
  case NoGap
  then show ?case by (simp add: max3_def)
next
  case (GapNode rs re l r m h)
  consider "s < rs" | "rs < s" | "s = rs" by linarith
  then show ?case
  proof cases
    case 1
    from GapNode obtain l' where "gap_insert l (s, e) = Some l'" "gap_avl l'"
      "gap_height l \<le> gap_height l'" "gap_height l' \<le> Suc (gap_height l)"
      by auto
    with 1 balance_ok [of l' r rs re m h] GapNode.prems show ?thesis
      by auto
  next
    case 2
    from GapNode obtain r' where "gap_insert r (s, e) = Some r'" "gap_avl r'"
      "gap_height r \<le> gap_height r'" "gap_height r' \<le> Suc (gap_height r)"
      by auto
    with 2 balance_ok [of l r' rs re m h] GapNode.prems show ?thesis
      by auto
  next
    case 3
    with balance_ok [of l r s e m h] GapNode.prems show ?thesis
      by auto
  qed
qed

lemma take_first_node:
  "l \<noteq> NoGap \<Longrightarrow> take_first (GapNode s e l r m h) =
     do { (l', first) \<leftarrow> take_first l; root \<leftarrow> balance (GapNode s e l' r m h); Some (root, first) }"
  by (cases l) auto

lemma gap_remove_root:
  "r \<noteq> NoGap \<Longrightarrow> gap_remove (GapNode rs re l r m h) rs =
     do { (r', f) \<leftarrow> take_first r;
          balance (GapNode (range_start f) (range_end f) l r' (max_length f) (node_height f)) }"
  by (cases r) auto

lemma take_first_ok:
  "gap_avl t \<Longrightarrow> t \<noteq> NoGap \<Longrightarrow> gap_height t < 250 \<Longrightarrow>
   \<exists>t' f. take_first t = Some (t', f) \<and> gap_avl t' \<and> f \<noteq> NoGap \<and>
     gap_height t' \<le> gap_height t \<and> gap_height t \<le> Suc (gap_height t') \<and>
     gap_inorder t = (range_start f, range_end f) # gap_inorder t'"
proof (induction t)
  case (GapNode s e l r m h)
  show ?case
  proof (cases "l = NoGap")
    case True
    then show ?thesis using GapNode.prems by auto
  next
    case False
    with GapNode obtain l' f where tf: "take_first l = Some (l', f)" "gap_avl l'" "f \<noteq> NoGap"
      "gap_height l' \<le> gap_height l" "gap_height l \<le> Suc (gap_height l')"
      "gap_inorder l = (range_start f, range_end f) # gap_inorder l'"
      by auto
    from balance_ok [of l' r s e m h] tf GapNode.prems obtain t where
      "balance (GapNode s e l' r m h) = Some t" "gap_avl t"
      "gap_inorder t = gap_inorder l' @ (s, e) # gap_inorder r"
      "gap_height t \<le> h" "h \<le> Suc (gap_height t)"
      by auto
    with tf False GapNode.prems show ?thesis
      by (simp add: take_first_node del: take_first.simps)
  qed
qed simp

lemma gap_remove_ok:
  "gap_avl t \<Longrightarrow> gap_height t < 250 \<Longrightarrow>
   \<exists>t'. gap_remove t s = Some t' \<and> gap_avl t' \<and>
     gap_height t' \<le> gap_height t \<and> gap_height t \<le> Suc (gap_height t')"
proof (induction t)
  case (GapNode rs re l r m h)
  consider "s < rs" | "rs < s" | "s = rs" by linarith
  then show ?case
  proof cases
    case 1
    from GapNode obtain l' where "gap_remove l s = Some l'" "gap_avl l'"
      "gap_height l' \<le> gap_height l" "gap_height l \<le> Suc (gap_height l')"
      by auto
    with 1 balance_ok [of l' r rs re m h] GapNode.prems show ?thesis
      by auto
  next
    case 2
    from GapNode obtain r' where "gap_remove r s = Some r'" "gap_avl r'"
      "gap_height r' \<le> gap_height r" "gap_height r \<le> Suc (gap_height r')"
      by auto
    with 2 balance_ok [of l r' rs re m h] GapNode.prems show ?thesis
      by auto
  next
    case 3
    show ?thesis
    proof (cases "r = NoGap")
      case True
      then show ?thesis using 3 GapNode.prems by auto
    next
      case False
      with GapNode.prems take_first_ok [of r] obtain r' f where
        tf: "take_first r = Some (r', f)" "gap_avl r'" "f \<noteq> NoGap"
        "gap_height r' \<le> gap_height r" "gap_height r \<le> Suc (gap_height r')"
        by auto
      from balance_ok [of l r' "range_start f" "range_end f" "max_length f" "node_height f"] tf
        GapNode.prems obtain t where
        "balance (GapNode (range_start f) (range_end f) l r' (max_length f) (node_height f)) = Some t"
        "gap_avl t" "gap_height t \<le> h" "h \<le> Suc (gap_height t)"
        by auto
      with 3 tf False GapNode.prems show ?thesis
        by (simp add: gap_remove_root del: gap_remove.simps)
    qed
  qed
qed simp

lemma gap_inorder_refresh [simp]: "gap_inorder (refresh t) = gap_inorder t"
  by (cases t) auto

lemma gap_inorder_rotate_left: "rotate_left t = Some t' \<Longrightarrow> gap_inorder t' = gap_inorder t"
  by (cases t rule: rotate_left.cases) auto

lemma gap_inorder_rotate_right: "rotate_right t = Some t' \<Longrightarrow> gap_inorder t' = gap_inorder t"
  by (cases t rule: rotate_right.cases) auto

lemma gap_inorder_balance:
  assumes "balance t = Some t'"
  shows "gap_inorder t' = gap_inorder t"
proof -
  have "balance_refreshed u = Some t' \<Longrightarrow> gap_inorder t' = gap_inorder u" for u
    by (cases u)
      (auto simp: Let_def Option.bind_eq_Some_conv split: if_splits gap_link.splits
        dest!: gap_inorder_rotate_left gap_inorder_rotate_right)
  from this [of "refresh t"] assms show ?thesis
    by (simp add: balance_def)
qed

lemma upd_gap_append:
  "sorted_gaps (gs @ (a, b) # gs') \<Longrightarrow>
   upd_gap s e (gs @ (a, b) # gs') =
     (if s < a then upd_gap s e gs @ (a, b) # gs' else gs @ upd_gap s e ((a, b) # gs'))"
  by (induction gs) (auto simp: sorted_wrt_append)

lemma del_gap_append: "del_gap s (gs @ gs') = del_gap s gs @ del_gap s gs'"
  by (simp add: del_gap_def)

lemma del_gap_absent: "s \<notin> fst ` set gs \<Longrightarrow> del_gap s gs = gs"
  unfolding del_gap_def by (induction gs) auto

lemma gap_inorder_insert:
  "gap_insert t (s, e) = Some t' \<Longrightarrow> sorted_gaps (gap_inorder t) \<Longrightarrow>
   gap_inorder t' = upd_gap s e (gap_inorder t)"
proof (induction t arbitrary: t')
  case (GapNode rs re l r m h)
  then show ?case
    by (auto simp: Option.bind_eq_Some_conv sorted_wrt_append upd_gap_append
        split: if_splits dest!: gap_inorder_balance)
qed simp

lemma gap_inorder_take_first:
  "take_first t = Some (t', f) \<Longrightarrow>
   f \<noteq> NoGap \<and> gap_inorder t = (range_start f, range_end f) # gap_inorder t'"
proof (induction t arbitrary: t')
  case (GapNode s e l r m h)
  show ?case
  proof (cases "l = NoGap")
    case True
    then show ?thesis using GapNode.prems by auto
  next
    case False
    with GapNode.prems obtain l' where "take_first l = Some (l', f)"
      "balance (GapNode s e l' r m h) = Some t'"
      by (auto simp: take_first_node Option.bind_eq_Some_conv simp del: take_first.simps)
    with GapNode.IH(1) gap_inorder_balance show ?thesis
      by fastforce
  qed
qed simp

lemma gap_inorder_remove:
  "gap_remove t s = Some t' \<Longrightarrow> sorted_gaps (gap_inorder t) \<Longrightarrow>
   gap_inorder t' = del_gap s (gap_inorder t)"
proof (induction t arbitrary: t')
  case (GapNode rs re l r m h)
  have sorted: "sorted_gaps (gap_inorder l)" "sorted_gaps (gap_inorder r)"
    "\<And>g. g \<in> set (gap_inorder l) \<Longrightarrow> fst g < rs" "\<And>g. g \<in> set (gap_inorder r) \<Longrightarrow> rs < fst g"
    using GapNode.prems(2) by (auto simp: sorted_wrt_append)
  consider "s < rs" | "rs < s" | "s = rs" by linarith
  then show ?case
  proof cases
    case 1
    then have "del_gap s (gap_inorder r) = gap_inorder r"
      by (intro del_gap_absent) (auto dest: sorted(4))
    with 1 GapNode sorted show ?thesis
      by (auto simp: Option.bind_eq_Some_conv del_gap_append dest!: gap_inorder_balance)
        (simp add: del_gap_def)
  next
    case 2
    then have "del_gap s (gap_inorder l) = gap_inorder l"
      by (intro del_gap_absent) (auto dest: sorted(3))
    with 2 GapNode sorted show ?thesis
      by (auto simp: Option.bind_eq_Some_conv del_gap_append dest!: gap_inorder_balance)
        (simp add: del_gap_def)
  next
    case 3
    then have "del_gap s (gap_inorder l) = gap_inorder l" "del_gap s (gap_inorder r) = gap_inorder r"
      by (intro del_gap_absent; auto dest: sorted(3,4))+
    then have "del_gap s (gap_inorder (GapNode rs re l r m h)) = gap_inorder l @ gap_inorder r"
      using 3 by (simp add: del_gap_append) (simp add: del_gap_def)
    moreover have "gap_inorder t' = gap_inorder l @ gap_inorder r"
    proof (cases "r = NoGap")
      case False
      with 3 GapNode.prems(1) show ?thesis
        by (auto simp: gap_remove_root Option.bind_eq_Some_conv simp del: gap_remove.simps
            dest!: gap_inorder_balance gap_inorder_take_first)
    qed (use 3 GapNode.prems(1) in simp)
    ultimately show ?thesis
      by simp
  qed
qed (simp add: del_gap_def)

section \<open>The height of the tree\<close>

lemma gap_height_bound: "gap_avl t \<Longrightarrow> 2 ^ (gap_height t div 2) \<le> Suc (length (gap_inorder t))"
proof (induction t)
  case (GapNode s e l r m h)
  show ?case
  proof (cases "h < 2")
    case True
    then have "h div 2 = 0" by simp
    then show ?thesis by simp
  next
    case False
    then have "h div 2 = Suc ((h - 2) div 2)"
      by simp
    moreover have "(2::nat) ^ ((h - 2) div 2) \<le> 2 ^ (gap_height l div 2)"
      "(2::nat) ^ ((h - 2) div 2) \<le> 2 ^ (gap_height r div 2)"
      using GapNode.prems by (auto intro!: power_increasing div_le_mono)
    moreover have "2 ^ (gap_height l div 2) \<le> Suc (length (gap_inorder l))"
      "2 ^ (gap_height r div 2) \<le> Suc (length (gap_inorder r))"
      using GapNode by simp_all
    ultimately have "(2::nat) ^ (h div 2) \<le>
        Suc (length (gap_inorder l)) + Suc (length (gap_inorder r))"
      by (simp only: power_Suc)
    then show ?thesis
      by simp
  qed
qed simp

lemma gap_height_small:
  assumes "gap_avl t" "length (gap_inorder t) < 2 ^ 120"
  shows "gap_height t < 249"
proof (rule ccontr)
  assume "\<not> gap_height t < 249"
  then have "(2::nat) ^ 124 \<le> 2 ^ (gap_height t div 2)"
    by (intro power_increasing) auto
  also have "\<dots> \<le> Suc (length (gap_inorder t))"
    by (rule gap_height_bound [OF assms(1)])
  finally show False
    using assms(2) by simp
qed

section \<open>Lookup\<close>

lemma predecessor_from_eq:
  "sorted_gaps (gap_inorder t) \<Longrightarrow>
   predecessor_from acc t s =
     (let gs = filter (\<lambda>g. fst g \<le> s) (gap_inorder t) in if gs = [] then acc else Some (last gs))"
proof (induction t arbitrary: acc)
  case (GapNode rs re l r m h)
  then have sorted: "sorted_gaps (gap_inorder l)" "sorted_gaps (gap_inorder r)"
    "\<forall>g\<in>set (gap_inorder l). fst g < rs" "\<forall>g\<in>set (gap_inorder r). rs < fst g"
    by (auto simp: sorted_wrt_append)
  show ?case
  proof (cases "rs \<le> s")
    case True
    with GapNode.IH(2) sorted show ?thesis
      by (simp add: Let_def)
  next
    case False
    then have "filter (\<lambda>g. fst g \<le> s) (gap_inorder r) = []"
      using sorted(4) by (fastforce simp: filter_empty_conv)
    with False GapNode.IH(1) sorted show ?thesis
      by (simp add: Let_def)
  qed
qed simp

lemma successor_from_eq:
  "sorted_gaps (gap_inorder t) \<Longrightarrow>
   successor_from acc t s =
     (case filter (\<lambda>g. s \<le> fst g) (gap_inorder t) of [] \<Rightarrow> acc | g # gs \<Rightarrow> Some g)"
proof (induction t arbitrary: acc)
  case (GapNode rs re l r m h)
  then have sorted: "sorted_gaps (gap_inorder l)" "sorted_gaps (gap_inorder r)"
    "\<forall>g\<in>set (gap_inorder l). fst g < rs" "\<forall>g\<in>set (gap_inorder r). rs < fst g"
    by (auto simp: sorted_wrt_append)
  show ?case
  proof (cases "s \<le> rs")
    case True
    with GapNode.IH(1) sorted show ?thesis
      by (cases "filter (\<lambda>g. s \<le> fst g) (gap_inorder l)") auto
  next
    case False
    then have "filter (\<lambda>g. s \<le> fst g) (gap_inorder l) = []"
      using sorted(3) by (fastforce simp: filter_empty_conv)
    with False GapNode.IH(2) sorted show ?thesis
      by simp
  qed
qed simp

lemma last_sorted_gaps: "sorted_gaps gs \<Longrightarrow> g \<in> set gs \<Longrightarrow> fst g \<le> fst (last gs)"
  by (induction gs rule: rev_induct) (auto simp: sorted_wrt_append)

lemma last_filter_sorted:
  assumes "sorted_gaps gs" "filter P gs \<noteq> []"
  shows "last (filter P gs) \<in> set gs \<and> P (last (filter P gs)) \<and>
    (\<forall>g\<in>set gs. P g \<longrightarrow> fst g \<le> fst (last (filter P gs)))"
proof -
  have sorted: "sorted_gaps (filter P gs)"
    using assms(1) by (simp add: sorted_wrt_map sorted_wrt_filter)
  have "last (filter P gs) \<in> set (filter P gs)"
    using assms(2) by (rule last_in_set)
  moreover have "fst g \<le> fst (last (filter P gs))" if "g \<in> set (filter P gs)" for g
    using last_sorted_gaps [OF sorted that] .
  ultimately show ?thesis
    by simp
qed

lemma predecessor_None:
  "sorted_gaps (gap_inorder t) \<Longrightarrow>
   predecessor t s = None \<longleftrightarrow> (\<forall>g\<in>set (gap_inorder t). s < fst g)"
  by (simp add: predecessor_def predecessor_from_eq Let_def filter_empty_conv not_le)

lemma predecessor_Some:
  assumes "sorted_gaps (gap_inorder t)" "predecessor t s = Some g"
  shows "g \<in> set (gap_inorder t) \<and> fst g \<le> s \<and>
    (\<forall>g'\<in>set (gap_inorder t). fst g' \<le> s \<longrightarrow> fst g' \<le> fst g)"
proof -
  have "filter (\<lambda>g. fst g \<le> s) (gap_inorder t) \<noteq> []"
    "g = last (filter (\<lambda>g. fst g \<le> s) (gap_inorder t))"
    using assms by (auto simp: predecessor_def predecessor_from_eq Let_def split: if_splits)
  with last_filter_sorted [OF assms(1)] show ?thesis
    by blast
qed

lemma successor_None:
  assumes "sorted_gaps (gap_inorder t)"
  shows "successor t s = None \<longleftrightarrow> (\<forall>g\<in>set (gap_inorder t). fst g < s)"
proof -
  have "successor t s = None \<longleftrightarrow> filter (\<lambda>g. s \<le> fst g) (gap_inorder t) = []"
    using assms by (simp add: successor_def successor_from_eq split: list.splits)
  then show ?thesis
    by (simp add: filter_empty_conv not_le)
qed

lemma successor_Some:
  assumes "sorted_gaps (gap_inorder t)" "successor t s = Some g"
  shows "g \<in> set (gap_inorder t) \<and> s \<le> fst g \<and>
    (\<forall>g'\<in>set (gap_inorder t). s \<le> fst g' \<longrightarrow> fst g \<le> fst g')"
proof -
  obtain gs where gs: "filter (\<lambda>g. s \<le> fst g) (gap_inorder t) = g # gs"
    using assms by (auto simp: successor_def successor_from_eq split: list.splits)
  have "sorted_gaps (g # gs)"
    using assms(1) by (simp add: sorted_wrt_map sorted_wrt_filter flip: gs)
  moreover have "g' \<in> set (g # gs)" if "g' \<in> set (gap_inorder t)" "s \<le> fst g'" for g'
    using that by (simp flip: gs)
  moreover have "g \<in> set (filter (\<lambda>g. s \<le> fst g) (gap_inorder t))"
    by (simp add: gs)
  ultimately show ?thesis
    by fastforce
qed

section \<open>The interface of an ordered store of ranges\<close>

text \<open>
  What the free-range index relies on: a store of ranges with distinct start addresses that
  supports insertion of a fresh range, removal by start address, and the search for the nearest
  range on either side of an address. The capacity bound is the one under which the \<open>u8\<close> heights
  of the nodes cannot overflow.
\<close>

locale ordered_store =
  fixes inv :: "'t \<Rightarrow> bool"
    and ranges :: "'t \<Rightarrow> (usize \<times> usize) set"
    and ins :: "'t \<Rightarrow> usize \<times> usize \<Rightarrow> 't option"
    and rem :: "'t \<Rightarrow> usize \<Rightarrow> 't option"
    and pred :: "'t \<Rightarrow> usize \<Rightarrow> (usize \<times> usize) option"
    and succ :: "'t \<Rightarrow> usize \<Rightarrow> (usize \<times> usize) option"
  assumes finite_ranges: "finite (ranges t)"
    and keys_distinct: "inv t \<Longrightarrow> inj_on fst (ranges t)"
    and ins_fresh: "inv t \<Longrightarrow> card (ranges t) < 2 ^ 120 \<Longrightarrow> s \<notin> fst ` ranges t \<Longrightarrow>
      \<exists>t'. ins t (s, e) = Some t' \<and> inv t' \<and> ranges t' = insert (s, e) (ranges t)"
    and rem_key: "inv t \<Longrightarrow> card (ranges t) < 2 ^ 120 \<Longrightarrow>
      \<exists>t'. rem t s = Some t' \<and> inv t' \<and> ranges t' = {g \<in> ranges t. fst g \<noteq> s}"
    and pred_None: "inv t \<Longrightarrow> pred t s = None \<longleftrightarrow> (\<forall>g\<in>ranges t. s < fst g)"
    and pred_Some: "inv t \<Longrightarrow> pred t s = Some g \<Longrightarrow>
      g \<in> ranges t \<and> fst g \<le> s \<and> (\<forall>g'\<in>ranges t. fst g' \<le> s \<longrightarrow> fst g' \<le> fst g)"
    and succ_None: "inv t \<Longrightarrow> succ t s = None \<longleftrightarrow> (\<forall>g\<in>ranges t. fst g < s)"
    and succ_Some: "inv t \<Longrightarrow> succ t s = Some g \<Longrightarrow>
      g \<in> ranges t \<and> s \<le> fst g \<and> (\<forall>g'\<in>ranges t. s \<le> fst g' \<longrightarrow> fst g \<le> fst g')"
begin

lemma rem_member:
  assumes "inv t" "card (ranges t) < 2 ^ 120" "(s, e) \<in> ranges t"
  shows "\<exists>t'. rem t s = Some t' \<and> inv t' \<and> ranges t' = ranges t - {(s, e)}"
proof -
  have "{g \<in> ranges t. fst g \<noteq> s} = ranges t - {(s, e)}"
    using keys_distinct [OF assms(1)] assms(3) by (force simp: inj_on_def)
  with rem_key [OF assms(1,2), of s] show ?thesis
    by simp
qed

lemma rem_ins:
  assumes "inv t" "card (ranges t) < 2 ^ 120 - 1" "s \<notin> fst ` ranges t"
  shows "\<exists>t' t''. ins t (s, e) = Some t' \<and> rem t' s = Some t'' \<and> ranges t'' = ranges t"
proof -
  from ins_fresh [OF assms(1) _ assms(3), of e] assms(2) obtain t' where
    t': "ins t (s, e) = Some t'" "inv t'" "ranges t' = insert (s, e) (ranges t)"
    by auto
  have "card (ranges t') < 2 ^ 120"
    using assms(2) t'(3) card_insert_le_m1 [of "2 ^ 120 - 1" "ranges t" "(s, e)"] by simp
  with rem_member [OF t'(2), of s e] t' assms(3) show ?thesis
    by (metis Diff_insert_absorb fst_conv imageI insertI1)
qed

end

definition gap_inv :: "gap_link \<Rightarrow> bool" where
  "gap_inv t \<longleftrightarrow> gap_avl t \<and> sorted_gaps (gap_inorder t)"

definition gap_ranges :: "gap_link \<Rightarrow> (usize \<times> usize) set" where
  "gap_ranges t = set (gap_inorder t)"

lemma keys_upd_gap: "g \<in> set (upd_gap s e gs) \<Longrightarrow> fst g = s \<or> (\<exists>g'\<in>set gs. fst g = fst g')"
  by (induction gs) (auto split: if_splits)

lemma sorted_upd_gap: "sorted_gaps gs \<Longrightarrow> sorted_gaps (upd_gap s e gs)"
proof (induction gs)
  case (Cons g gs)
  then show ?case
    by (cases g) (auto dest!: keys_upd_gap)
qed simp

lemma set_upd_gap: "s \<notin> fst ` set gs \<Longrightarrow> set (upd_gap s e gs) = insert (s, e) (set gs)"
  by (induction gs) force+

lemma gap_inv_length: "gap_inv t \<Longrightarrow> length (gap_inorder t) = card (gap_ranges t)"
  by (metis distinct_card distinct_map gap_inv_def gap_ranges_def strict_sorted_iff)

interpretation gap_tree_store: ordered_store gap_inv gap_ranges gap_insert gap_remove
  predecessor successor
proof (unfold_locales, goal_cases)
  case (1 t)
  show ?case by (simp add: gap_ranges_def)
next
  case (2 t)
  then show ?case
    by (metis distinct_map gap_inv_def gap_ranges_def strict_sorted_iff)
next
  case (3 t s e)
  then have "gap_height t < 249"
    by (intro gap_height_small) (auto simp: gap_inv_def gap_inv_length)
  with 3 gap_insert_ok [of t s e] show ?case
    by (auto simp: gap_inv_def gap_ranges_def gap_inorder_insert sorted_upd_gap set_upd_gap)
next
  case (4 t s)
  then have "gap_height t < 249"
    by (intro gap_height_small) (auto simp: gap_inv_def gap_inv_length)
  with 4 gap_remove_ok [of t s] show ?case
    by (auto simp: gap_inv_def gap_ranges_def gap_inorder_remove del_gap_def sorted_wrt_map
        sorted_wrt_filter)
next
  case (5 t s)
  then show ?case by (simp add: gap_inv_def gap_ranges_def predecessor_None)
next
  case (6 t s g)
  then show ?case
    using predecessor_Some unfolding gap_inv_def gap_ranges_def by blast
next
  case (7 t s)
  then show ?case by (simp add: gap_inv_def gap_ranges_def successor_None)
next
  case (8 t s g)
  then show ?case
    using successor_Some unfolding gap_inv_def gap_ranges_def by blast
qed


section \<open>Properties\<close>

text \<open>C29: on a balanced, ordered gap tree, inserting a range with a new start and removing any start
  never panic, rebalance the tree so that every node's height and longest-gap fields are right again,
  and have exactly the expected effect on the stored ranges.\<close>

theorem gap_tree_insert_remove:
  assumes "gap_inv t" "card (gap_ranges t) < 2 ^ 120" "s \<notin> fst ` gap_ranges t"
  shows "(\<exists>t'. gap_insert t (s, e) = Some t' \<and> gap_inv t' \<and>
      gap_ranges t' = insert (s, e) (gap_ranges t)) \<and>
    (\<exists>t'. gap_remove t k = Some t' \<and> gap_inv t' \<and> gap_ranges t' = {g \<in> gap_ranges t. fst g \<noteq> k})"
  using gap_tree_store.ins_fresh [OF assms] gap_tree_store.rem_key [OF assms(1,2)] by simp

theorem gap_tree_insert_remove_witness:
  "\<exists>t'. gap_insert (GapNode 0 4096 NoGap (GapNode 8192 12288 NoGap NoGap 4096 1) 4096 2) (16384, 20480) =
      Some t' \<and> gap_inv t' \<and> gap_ranges t' = {(16384, 20480), (0, 4096), (8192, 12288)}"
proof -
  let ?t = "GapNode 0 4096 NoGap (GapNode 8192 12288 NoGap NoGap 4096 1) 4096 2"
  have h: "gap_inv ?t"
    by code_simp
  have r: "gap_ranges ?t = {(0, 4096), (8192, 12288)}"
    by (auto simp: gap_ranges_def)
  have "card (gap_ranges ?t) < 2 ^ 120" "16384 \<notin> fst ` gap_ranges ?t"
    unfolding r by simp_all
  from gap_tree_insert_remove [OF h this, of 20480 0] show ?thesis
    unfolding r by simp
qed

end
