(* ===== verification/GapIndex.thy ===== *)
theory GapIndex
  imports GapTree MemoryAddr
begin

text \<open>
  The index of free address ranges kept by a memory set: the first-fit search of
  \<open>memory/memory_set/src/gaps/search.rs\<close> and the index operations of
  \<open>memory/memory_set/src/gaps/mod.rs\<close>. The index holds every bounded free range in the AVL tree of
  \<^theory_text>\<open>GapTree\<close> and the unbounded free suffix as the address \<open>tail_start\<close>. The outer \<open>option\<close> of
  \<open>occupy\<close> and \<open>release\<close> is \<open>None\<close> on a panic.
\<close>

section \<open>First-fit search\<close>

record gap_search =
  lower :: usize
  upper :: usize
  gs_size :: usize
  gs_align :: usize

definition gap_search_new :: "usize \<Rightarrow> usize \<Rightarrow> usize \<Rightarrow> usize \<Rightarrow> gap_search option" where
  "gap_search_new lo up sz al =
     (if sz = 0 \<or> \<not> is_power_of_two al \<or> \<not> is_multiple_of sz al then None
      else case usize_checked_add lo sz of
        None \<Rightarrow> None
      | Some e \<Rightarrow> if e > up then None
          else Some \<lparr>lower = lo, upper = up, gs_size = sz, gs_align = al\<rparr>)"

definition in_gap :: "gap_search \<Rightarrow> usize \<times> usize \<Rightarrow> usize option" where
  "in_gap srch rng =
     (case usize_checked_add (max (fst rng) (lower srch)) (usize_sub (gs_align srch) 1) of
        None \<Rightarrow> None
      | Some x \<Rightarrow>
          (let start = x AND usize_not (usize_sub (gs_align srch) 1) in
           case usize_checked_add start (gs_size srch) of
             None \<Rightarrow> None
           | Some e \<Rightarrow> if e \<le> min (snd rng) (upper srch) then Some start else None))"

fun in_tree :: "gap_search \<Rightarrow> gap_link \<Rightarrow> usize option" where
  "in_tree srch NoGap = None"
| "in_tree srch (GapNode s e l r m h) =
     (if m < gs_size srch then None
      else if e \<le> lower srch then in_tree srch r
      else if s \<ge> upper srch then in_tree srch l
      else case in_tree srch l of
        Some a \<Rightarrow> Some a
      | None \<Rightarrow> (case in_gap srch (s, e) of
          Some a \<Rightarrow> Some a
        | None \<Rightarrow> in_tree srch r))"

section \<open>The index\<close>

record gap_index =
  root :: gap_link
  tail_start :: usize

definition gap_index_new :: gap_index where
  "gap_index_new = \<lparr>root = NoGap, tail_start = 0\<rparr>"

definition gap_index_find :: "gap_index \<Rightarrow> usize \<Rightarrow> usize \<Rightarrow> usize \<Rightarrow> usize \<Rightarrow> usize option" where
  "gap_index_find g lo up sz al =
     (case gap_search_new lo up sz al of
        None \<Rightarrow> None
      | Some srch \<Rightarrow>
          (case in_tree srch (root g) of
             Some a \<Rightarrow> Some a
           | None \<Rightarrow> in_gap srch (tail_start g, usize_max)))"

definition gap_index_insert :: "gap_index \<Rightarrow> usize \<times> usize \<Rightarrow> gap_index option" where
  "gap_index_insert g rng =
     (if fst rng < snd rng
      then do { t \<leftarrow> gap_insert (root g) rng; Some (g\<lparr>root := t\<rparr>) }
      else Some g)"

definition gap_index_occupy :: "gap_index \<Rightarrow> usize \<Rightarrow> usize \<Rightarrow> gap_index option" where
  "gap_index_occupy g s e =
     (if s \<ge> tail_start g
      then do {
        g' \<leftarrow> gap_index_insert g (tail_start g, s);
        Some (g'\<lparr>tail_start := e\<rparr>)
      }
      else do {
        gap \<leftarrow> predecessor (root g) s;
        if e \<le> snd gap
        then do {
          t \<leftarrow> gap_remove (root g) (fst gap);
          g1 \<leftarrow> gap_index_insert (g\<lparr>root := t\<rparr>) (fst gap, s);
          gap_index_insert g1 (e, snd gap)
        }
        else None
      })"

text \<open>The loop of \<open>release\<close> that absorbs the following gaps; it returns the tree and the new end.\<close>

partial_function (option) absorb_next ::
  "gap_link \<Rightarrow> usize \<Rightarrow> usize \<Rightarrow> (gap_link \<times> usize) option" where
  "absorb_next t s e =
     (case successor t s of
        None \<Rightarrow> Some (t, e)
      | Some nxt \<Rightarrow>
          if fst nxt > e then Some (t, e)
          else do {
            t' \<leftarrow> gap_remove t (fst nxt);
            absorb_next t' s (max e (snd nxt))
          })"

declare absorb_next.simps [code]

definition absorb_previous ::
  "gap_link \<Rightarrow> usize \<Rightarrow> usize \<Rightarrow> (gap_link \<times> usize \<times> usize) option" where
  "absorb_previous t s e =
     (case predecessor t s of
        None \<Rightarrow> Some (t, s, e)
      | Some prv \<Rightarrow>
          if snd prv \<ge> s
          then do { t' \<leftarrow> gap_remove t (fst prv); Some (t', fst prv, max e (snd prv)) }
          else Some (t, s, e))"

definition gap_index_release :: "gap_index \<Rightarrow> usize \<Rightarrow> usize \<Rightarrow> gap_index option" where
  "gap_index_release g s e =
     (let s0 = (if e \<ge> tail_start g then min s (tail_start g) else s) in
      do {
        (t1, s1, e1) \<leftarrow> absorb_previous (root g) s0 e;
        (t2, e2) \<leftarrow> absorb_next t1 s1 e1;
        if e2 \<ge> tail_start g
        then Some (g\<lparr>root := t2, tail_start := s1\<rparr>)
        else gap_index_insert (g\<lparr>root := t2\<rparr>) (s1, e2)
      })"

section \<open>Abstraction and invariant\<close>

definition cover :: "(usize \<times> usize) set \<Rightarrow> usize set" where
  "cover R = (\<Union>g\<in>R. {fst g..<snd g})"

definition gap_free :: "gap_index \<Rightarrow> usize set" where
  "gap_free g = cover (gap_ranges (root g)) \<union> {tail_start g..}"

text \<open>Non-empty ranges, no two of them overlapping or touching.\<close>

definition separated :: "(usize \<times> usize) set \<Rightarrow> bool" where
  "separated R \<longleftrightarrow> (\<forall>g\<in>R. fst g < snd g) \<and>
     (\<forall>g\<in>R. \<forall>g'\<in>R. fst g < fst g' \<longrightarrow> snd g < fst g')"

definition gap_index_inv :: "gap_index \<Rightarrow> bool" where
  "gap_index_inv g \<longleftrightarrow> gap_inv (root g) \<and> separated (gap_ranges (root g)) \<and>
     (\<forall>r\<in>gap_ranges (root g). snd r < tail_start g) \<and> tail_start g < usize_lim"

lemma cover_simps [simp]:
  "cover {} = {}" "cover (insert g R) = {fst g..<snd g} \<union> cover R" "cover (R \<union> Q) = cover R \<union> cover Q"
  by (auto simp: cover_def)

lemma mem_cover: "x \<in> cover R \<longleftrightarrow> (\<exists>g\<in>R. fst g \<le> x \<and> x < snd g)"
  by (auto simp: cover_def)

lemma separated_subset: "separated R \<Longrightarrow> Q \<subseteq> R \<Longrightarrow> separated Q"
  unfolding separated_def by blast

lemma separated_disjoint:
  "separated R \<Longrightarrow> g \<in> R \<Longrightarrow> g' \<in> R \<Longrightarrow> fst g \<le> x \<Longrightarrow> x < snd g \<Longrightarrow> fst g' \<le> x \<Longrightarrow> x < snd g' \<Longrightarrow>
   fst g = fst g'"
  by (cases "fst g" "fst g'" rule: linorder_cases) (force simp: separated_def)+

lemma separated_insert:
  assumes "separated R" "s < e" and apart: "\<And>r. r \<in> R \<Longrightarrow> snd r < s \<or> e < fst r"
  shows "separated (insert (s, e) R)"
proof -
  have "(s < fst r \<longrightarrow> e < fst r) \<and> (fst r < s \<longrightarrow> snd r < s)" if "r \<in> R" for r
    using apart [OF that] assms(1,2) that by (force simp: separated_def)
  then show ?thesis
    using assms(1,2) by (auto simp: separated_def)
qed

lemma card_ranges_small:
  assumes "gap_inv t" "separated (gap_ranges t)" "\<forall>r\<in>gap_ranges t. snd r < usize_lim"
  shows "card (gap_ranges t) < 2 ^ 120"
proof -
  have "card (gap_ranges t) = card (fst ` gap_ranges t)"
    using gap_tree_store.keys_distinct [OF assms(1)] by (simp add: card_image)
  also have "\<dots> \<le> card {..<usize_lim}"
    using assms(2,3) by (intro card_mono) (fastforce simp: separated_def)+
  finally show ?thesis
    by (simp add: usize_lim_def)
qed

lemma inv_card_small: "gap_index_inv g \<Longrightarrow> card (gap_ranges (root g)) < 2 ^ 120"
  by (rule card_ranges_small) (auto simp: gap_index_inv_def)

lemma gap_index_new_inv [simp]: "gap_index_inv gap_index_new" "gap_free gap_index_new = UNIV"
  by (auto simp: gap_index_inv_def gap_index_new_def gap_inv_def gap_ranges_def separated_def
      gap_free_def)


section \<open>Occupying a free range\<close>

text \<open>The side conditions under which the tree operations of the index cannot panic.\<close>

definition gaps_ok :: "gap_link \<Rightarrow> usize \<Rightarrow> bool" where
  "gaps_ok t lim \<longleftrightarrow> gap_inv t \<and> separated (gap_ranges t) \<and> (\<forall>r\<in>gap_ranges t. snd r < lim) \<and>
     lim < usize_lim"

lemma gap_index_inv_ok: "gap_index_inv g \<longleftrightarrow> gaps_ok (root g) (tail_start g)"
  by (simp add: gap_index_inv_def gaps_ok_def)

lemma gaps_ok_card: "gaps_ok t lim \<Longrightarrow> card (gap_ranges t) < 2 ^ 120"
  by (rule card_ranges_small) (auto simp: gaps_ok_def)

lemma gaps_ok_inj: "gaps_ok t lim \<Longrightarrow> inj_on fst (gap_ranges t)"
  using gap_tree_store.keys_distinct by (auto simp: gaps_ok_def)

lemma gaps_ok_mono: "gaps_ok t lim \<Longrightarrow> lim \<le> lim' \<Longrightarrow> lim' < usize_lim \<Longrightarrow> gaps_ok t lim'"
  by (force simp: gaps_ok_def)

lemma gap_remove_range:
  assumes "gaps_ok t lim" "g \<in> gap_ranges t"
  shows "\<exists>t'. gap_remove t (fst g) = Some t' \<and> gaps_ok t' lim \<and> gap_ranges t' = gap_ranges t - {g}"
proof -
  from gap_tree_store.rem_member [of t "fst g" "snd g"] assms gaps_ok_card [OF assms(1)]
  obtain t' where "gap_remove t (fst g) = Some t'" "gap_inv t'" "gap_ranges t' = gap_ranges t - {g}"
    by (auto simp: gaps_ok_def)
  with assms(1) show ?thesis
    by (auto simp: gaps_ok_def intro: separated_subset)
qed

lemma gap_index_insert_ok:
  assumes ok: "gaps_ok (root g) lim" and "e < lim"
    and apart: "\<And>r. r \<in> gap_ranges (root g) \<Longrightarrow> s < e \<Longrightarrow> snd r < s \<or> e < fst r"
  shows "\<exists>g'. gap_index_insert g (s, e) = Some g' \<and> gaps_ok (root g') lim \<and>
    tail_start g' = tail_start g \<and>
    gap_ranges (root g') = (if s < e then {(s, e)} else {}) \<union> gap_ranges (root g)"
proof (cases "s < e")
  case True
  have fresh: "s \<notin> fst ` gap_ranges (root g)"
  proof
    assume "s \<in> fst ` gap_ranges (root g)"
    then obtain r where r: "r \<in> gap_ranges (root g)" "fst r = s"
      by blast
    with ok have "s < snd r"
      by (auto simp: gaps_ok_def separated_def)
    with apart [OF r(1) True] r(2) True show False
      by simp
  qed
  from gap_tree_store.ins_fresh [OF _ gaps_ok_card [OF ok] fresh, of e] ok
  obtain t where t: "gap_insert (root g) (s, e) = Some t" "gap_inv t"
      "gap_ranges t = insert (s, e) (gap_ranges (root g))"
    by (auto simp: gaps_ok_def)
  have "separated (gap_ranges t)"
    using ok True unfolding t(3) gaps_ok_def by (intro separated_insert apart) auto
  with t ok \<open>e < lim\<close> True show ?thesis
    by (auto simp: gap_index_insert_def gaps_ok_def)
next
  case False
  with ok show ?thesis
    by (simp add: gap_index_insert_def)
qed

text \<open>The gap around a free address below the tail is the predecessor of the address.\<close>

lemma predecessor_gap:
  assumes "gaps_ok t lim" "g \<in> gap_ranges t" "fst g \<le> s" "s < snd g"
  shows "predecessor t s = Some g"
proof (cases "predecessor t s")
  case None
  with gap_tree_store.pred_None [of t s] assms show ?thesis
    by (auto simp: gaps_ok_def)
next
  case (Some g')
  with gap_tree_store.pred_Some [of t s g'] assms have g': "g' \<in> gap_ranges t" "fst g' \<le> s" "fst g \<le> fst g'"
    by (auto simp: gaps_ok_def)
  have "fst g = fst g'"
  proof (rule ccontr)
    assume "fst g \<noteq> fst g'"
    with g'(3) have "snd g < fst g'"
      using assms(1,2) g'(1) by (auto simp: gaps_ok_def separated_def)
    with g'(2) assms(4) show False
      by simp
  qed
  then show ?thesis
    using gap_tree_store.keys_distinct [of t] assms(1,2) g'(1) Some
    by (auto simp: gaps_ok_def dest: inj_onD)
qed

text \<open>A free run that starts inside a gap stays inside it: the gap's end is occupied.\<close>

lemma gap_end_occupied:
  assumes "gaps_ok t lim" "g \<in> gap_ranges t"
  shows "snd g \<notin> cover (gap_ranges t) \<union> {lim..}"
proof -
  have "snd g < lim" "fst g < snd g"
    using assms by (auto simp: gaps_ok_def separated_def)
  moreover have "snd g \<notin> cover (gap_ranges t)"
  proof
    assume "snd g \<in> cover (gap_ranges t)"
    then obtain r where r: "r \<in> gap_ranges t" "fst r \<le> snd g" "snd g < snd r"
      by (auto simp: mem_cover)
    have sep: "separated (gap_ranges t)"
      using assms(1) by (simp add: gaps_ok_def)
    show False
    proof (cases "fst g" "fst r" rule: linorder_cases)
      case less
      with sep assms(2) r show ?thesis
        unfolding separated_def by (meson leD)
    next
      case equal
      with gaps_ok_inj [OF assms(1)] assms(2) r show ?thesis
        by (metis inj_onD order_less_irrefl)
    next
      case greater
      with sep assms(2) r(1) have "snd r < fst g"
        unfolding separated_def by blast
      with r \<open>fst g < snd g\<close> show ?thesis
        by linarith
    qed
  qed
  ultimately show ?thesis
    by simp
qed

lemma free_run_in_gap:
  assumes "gaps_ok t lim" "s < lim" "s < e" "{s..<e} \<subseteq> cover (gap_ranges t) \<union> {lim..}"
  obtains g where "g \<in> gap_ranges t" "fst g \<le> s" "s < snd g" "e \<le> snd g"
proof -
  have "s \<in> {s..<e}"
    using assms(3) by simp
  then have "s \<in> cover (gap_ranges t)"
    using assms(2,4) by auto
  then obtain g where g: "g \<in> gap_ranges t" "fst g \<le> s" "s < snd g"
    by (auto simp: mem_cover)
  moreover have "snd g \<notin> {s..<e}"
    using gap_end_occupied [OF assms(1) g(1)] assms(4) by blast
  then have "e \<le> snd g"
    using g(3) by simp
  ultimately show thesis
    by (rule that)
qed

lemma cover_remove:
  assumes "separated R" "g \<in> R" "inj_on fst R"
  shows "cover (R - {g}) = cover R - {fst g..<snd g}"
proof -
  have "cover R = {fst g..<snd g} \<union> cover (R - {g})"
    using assms(2) by (metis cover_simps(2) insert_Diff)
  moreover have "x \<notin> cover (R - {g})" if "x \<in> {fst g..<snd g}" for x
  proof
    assume "x \<in> cover (R - {g})"
    then obtain r where r: "r \<in> R" "r \<noteq> g" "fst r \<le> x" "x < snd r"
      by (auto simp: mem_cover)
    then have "fst g = fst r"
      using separated_disjoint [OF assms(1,2), of r x] that by simp
    with r assms(2,3) show False
      by (metis inj_onD)
  qed
  ultimately show ?thesis
    by blast
qed


lemma occupy_in_gap:
  assumes ok: "gaps_ok (root g) (tail_start g)" and r: "r \<in> gap_ranges (root g)"
    "fst r \<le> s" "s < e" "e \<le> snd r"
  shows "\<exists>g'. gap_index_occupy g s e = Some g' \<and> gap_index_inv g' \<and>
    gap_free g' = gap_free g - {s..<e}"
proof -
  let ?R = "gap_ranges (root g)"
  have tail: "snd r < tail_start g" and sep: "separated ?R"
    using ok r(1) by (auto simp: gaps_ok_def)
  have apart: "snd q < fst r \<or> snd r < fst q" if "q \<in> ?R - {r}" for q
    using sep that r(1) gaps_ok_inj [OF ok]
    by (cases "fst q" "fst r" rule: linorder_cases) (auto simp: separated_def dest: inj_onD)
  have pred: "predecessor (root g) s = Some r"
    using predecessor_gap [OF ok r(1,2)] r by simp
  from gap_remove_range [OF ok r(1)] obtain t where
    t: "gap_remove (root g) (fst r) = Some t" "gaps_ok t (tail_start g)" "gap_ranges t = ?R - {r}"
    by blast
  have "\<exists>g1. gap_index_insert (g\<lparr>root := t\<rparr>) (fst r, s) = Some g1 \<and> gaps_ok (root g1) (tail_start g) \<and>
    tail_start g1 = tail_start g \<and>
    gap_ranges (root g1) = (if fst r < s then {(fst r, s)} else {}) \<union> (?R - {r})"
    using gap_index_insert_ok [of "g\<lparr>root := t\<rparr>" "tail_start g" s "fst r"] t apart r tail by fastforce
  then obtain g1 where g1: "gap_index_insert (g\<lparr>root := t\<rparr>) (fst r, s) = Some g1"
    "gaps_ok (root g1) (tail_start g)" "tail_start g1 = tail_start g"
    "gap_ranges (root g1) = (if fst r < s then {(fst r, s)} else {}) \<union> (?R - {r})"
    by blast
  have "snd q < e \<or> snd r < fst q" if "q \<in> gap_ranges (root g1)" for q
    using that apart [of q] r unfolding g1(4) by (auto split: if_splits)
  then obtain g2 where g2: "gap_index_insert g1 (e, snd r) = Some g2" "gaps_ok (root g2) (tail_start g)"
    "tail_start g2 = tail_start g"
    "gap_ranges (root g2) = (if e < snd r then {(e, snd r)} else {}) \<union> gap_ranges (root g1)"
    using gap_index_insert_ok [OF g1(2) tail, of e] g1(3) by auto
  have "cover (gap_ranges (root g2)) = {fst r..<s} \<union> {e..<snd r} \<union> (cover ?R - {fst r..<snd r})"
    unfolding g2(4) g1(4) using cover_remove [OF sep r(1) gaps_ok_inj [OF ok]] by auto
  also have "\<dots> = cover ?R - {s..<e}"
  proof -
    have "{fst r..<snd r} \<subseteq> cover ?R"
      using r(1) by (auto simp: cover_def)
    with r(2-4) show ?thesis
      by auto
  qed
  finally have cov: "cover (gap_ranges (root g2)) = cover ?R - {s..<e}" .
  have "{s..<e} \<inter> {tail_start g..} = {}"
    using r(4) tail by auto
  with cov have "gap_free g2 = gap_free g - {s..<e}"
    unfolding gap_free_def g2(3) by blast
  moreover have "\<not> tail_start g \<le> s"
    using r tail by simp
  ultimately show ?thesis
    using pred t(1) g1(1) g2 r by (simp add: gap_index_occupy_def gap_index_inv_ok)
qed

lemma occupy_in_tail:
  assumes ok: "gaps_ok (root g) (tail_start g)" and "tail_start g \<le> s" "s < e" "e < usize_lim"
  shows "\<exists>g'. gap_index_occupy g s e = Some g' \<and> gap_index_inv g' \<and>
    gap_free g' = gap_free g - {s..<e}"
proof -
  have below: "snd r < tail_start g" if "r \<in> gap_ranges (root g)" for r
    using ok that by (simp add: gaps_ok_def)
  have ok': "gaps_ok (root g) e"
    using gaps_ok_mono [OF ok] assms by simp
  from gap_index_insert_ok [OF ok' \<open>s < e\<close>, of "tail_start g"] below obtain g1 where g1:
    "gap_index_insert g (tail_start g, s) = Some g1" "gaps_ok (root g1) e"
    "gap_ranges (root g1) = (if tail_start g < s then {(tail_start g, s)} else {}) \<union> gap_ranges (root g)"
    by auto
  have "cover (gap_ranges (root g)) \<subseteq> {..<tail_start g}"
    using below by (fastforce simp: mem_cover)
  then have "gap_free (g1\<lparr>tail_start := e\<rparr>) = gap_free g - {s..<e}"
    using assms(2,3) unfolding gap_free_def by (auto simp: g1(3))
  then show ?thesis
    using g1 assms(2) by (simp add: gap_index_occupy_def gap_index_inv_ok)
qed

lemma gap_index_occupy_ok:
  assumes "gap_index_inv g" "s < e" "e < usize_lim" "{s..<e} \<subseteq> gap_free g"
  shows "\<exists>g'. gap_index_occupy g s e = Some g' \<and> gap_index_inv g' \<and>
    gap_free g' = gap_free g - {s..<e}"
proof (cases "tail_start g \<le> s")
  case True
  with occupy_in_tail assms show ?thesis
    by (simp add: gap_index_inv_ok)
next
  case False
  have ok: "gaps_ok (root g) (tail_start g)"
    using assms(1) by (simp add: gap_index_inv_ok)
  have "s < tail_start g"
    using False by simp
  then obtain r where "r \<in> gap_ranges (root g)" "fst r \<le> s" "s < snd r" "e \<le> snd r"
    by (rule free_run_in_gap [OF ok _ assms(2) assms(4) [unfolded gap_free_def]])
  with occupy_in_gap [OF ok] assms(2) show ?thesis
    by blast
qed


section \<open>Releasing a range\<close>

lemma merge_after: "s \<le> a \<Longrightarrow> a \<le> e \<Longrightarrow> {s..<max e b} = {a..<b} \<union> {s..<(e :: nat)}"
  by auto

lemma merge_before: "a \<le> s \<Longrightarrow> s \<le> b \<Longrightarrow> {a..<max e b} = {a..<b} \<union> {s..<(e :: nat)}"
  by auto

text \<open>What a coalescing step keeps: the covered addresses and the separation from lower gaps.\<close>

definition released :: "gap_link \<Rightarrow> usize \<Rightarrow> usize \<Rightarrow> usize \<Rightarrow> bool" where
  "released t s e lim \<longleftrightarrow> gaps_ok t lim \<and> s < e \<and> (\<forall>r\<in>gap_ranges t. fst r < s \<longrightarrow> snd r < s)"

lemma absorb_next_ok:
  assumes "released t s e lim"
  shows "\<exists>t' e'. absorb_next t s e = Some (t', e') \<and> released t' s e' lim \<and>
    (e' = e \<or> e' < lim) \<and> e \<le> e' \<and> (\<forall>r\<in>gap_ranges t'. snd r < s \<or> e' < fst r) \<and>
    cover (gap_ranges t') \<union> {s..<e'} = cover (gap_ranges t) \<union> {s..<e}"
  using assms
proof (induction "card (gap_ranges t)" arbitrary: t e rule: less_induct)
  case less
  then have ok: "gaps_ok t lim" and inv: "gap_inv t" and "s < e"
    by (auto simp: released_def gaps_ok_def)
  have low: "snd r < s" if "r \<in> gap_ranges t" "fst r < s" for r
    using less.prems that by (simp add: released_def)
  show ?case
  proof (cases "successor t s")
    case None
    with gap_tree_store.succ_None [OF inv] low have "\<forall>r\<in>gap_ranges t. snd r < s \<or> e < fst r"
      by blast
    with None less.prems show ?thesis
      by (subst absorb_next.simps) simp
  next
    case (Some n)
    from gap_tree_store.succ_Some [OF inv Some] have n: "n \<in> gap_ranges t" "s \<le> fst n"
      and least: "\<And>r. r \<in> gap_ranges t \<Longrightarrow> s \<le> fst r \<Longrightarrow> fst n \<le> fst r"
      by auto
    have sep: "separated (gap_ranges t)" and "snd n < lim"
      using ok n(1) by (auto simp: gaps_ok_def)
    show ?thesis
    proof (cases "fst n > e")
      case True
      then have "\<forall>r\<in>gap_ranges t. snd r < s \<or> e < fst r"
        using low least by (meson leI less_le_trans)
      with True Some less.prems show ?thesis
        by (subst absorb_next.simps) simp
    next
      case False
      from gap_remove_range [OF ok n(1)] obtain t1 where
        t1: "gap_remove t (fst n) = Some t1" "gaps_ok t1 lim" "gap_ranges t1 = gap_ranges t - {n}"
        by blast
      let ?e = "max e (snd n)"
      have "card (gap_ranges t1) < card (gap_ranges t)"
        using n(1) gap_tree_store.finite_ranges [of t] t1(3) by (metis card_Diff1_less)
      moreover have "released t1 s ?e lim"
        using t1 \<open>s < e\<close> low by (auto simp: released_def)
      ultimately obtain t' e' where *: "absorb_next t1 s ?e = Some (t', e')" "released t' s e' lim"
        "e' = ?e \<or> e' < lim" "?e \<le> e'" "\<forall>r\<in>gap_ranges t'. snd r < s \<or> e' < fst r"
        "cover (gap_ranges t') \<union> {s..<e'} = cover (gap_ranges t1) \<union> {s..<?e}"
        using less.hyps [of t1 ?e] by blast
      have "cover (gap_ranges t) = {fst n..<snd n} \<union> cover (gap_ranges t1)"
        using n(1) t1(3) by (metis cover_simps(2) insert_Diff)
      moreover have "{s..<?e} = {fst n..<snd n} \<union> {s..<e}"
        using False n(2) by (intro merge_after) simp_all
      ultimately have "cover (gap_ranges t1) \<union> {s..<?e} = cover (gap_ranges t) \<union> {s..<e}"
        by blast
      moreover have "e' = e \<or> e' < lim"
        using *(3) \<open>snd n < lim\<close> by (auto simp: max_def split: if_splits)
      ultimately show ?thesis
        using * t1(1) Some False by (subst absorb_next.simps) simp
    qed
  qed
qed

lemma absorb_previous_ok:
  assumes ok: "gaps_ok t lim" and "s < e"
  shows "\<exists>t' s' e'. absorb_previous t s e = Some (t', s', e') \<and> released t' s' e' lim \<and>
    (e' = e \<or> e' < lim) \<and> e \<le> e' \<and> s' \<le> s \<and>
    cover (gap_ranges t') \<union> {s'..<e'} = cover (gap_ranges t) \<union> {s..<e}"
proof (cases "predecessor t s")
  case None
  then have "\<forall>r\<in>gap_ranges t. s < fst r"
    using gap_tree_store.pred_None [of t s] ok by (simp add: gaps_ok_def)
  with None assms show ?thesis
    by (force simp: absorb_previous_def released_def)
next
  case (Some p)
  with gap_tree_store.pred_Some [of t s p] ok have p: "p \<in> gap_ranges t" "fst p \<le> s"
    and greatest: "\<And>r. r \<in> gap_ranges t \<Longrightarrow> fst r \<le> s \<Longrightarrow> fst r \<le> fst p"
    by (auto simp: gaps_ok_def)
  have sep: "separated (gap_ranges t)" and "snd p < lim" "fst p < snd p"
    using ok p(1) by (auto simp: gaps_ok_def separated_def)
  show ?thesis
  proof (cases "s \<le> snd p")
    case True
    from gap_remove_range [OF ok p(1)] obtain t1 where
      t1: "gap_remove t (fst p) = Some t1" "gaps_ok t1 lim" "gap_ranges t1 = gap_ranges t - {p}"
      by blast
    have "released t1 (fst p) (max e (snd p)) lim"
      using t1 sep p \<open>fst p < snd p\<close> by (auto simp: released_def separated_def)
    moreover have "cover (gap_ranges t) = {fst p..<snd p} \<union> cover (gap_ranges t1)"
      using p(1) t1(3) by (metis cover_simps(2) insert_Diff)
    then have "cover (gap_ranges t1) \<union> {fst p..<max e (snd p)} = cover (gap_ranges t) \<union> {s..<e}"
      using merge_before [OF p(2) True, of e] by blast
    ultimately show ?thesis
      using Some True t1(1) p(2) \<open>snd p < lim\<close> by (auto simp: absorb_previous_def max_def)
  next
    case False
    have "snd r < s" if "r \<in> gap_ranges t" "fst r < s" for r
    proof (cases "fst r = fst p")
      case True
      with gaps_ok_inj [OF ok] p(1) that(1) have "r = p"
        by (meson inj_onD)
      with False show ?thesis
        by simp
    next
      case neq: False
      with greatest [OF that(1)] that(2) have "fst r < fst p"
        by simp
      with sep p that(1) have "snd r < fst p"
        by (auto simp: separated_def)
      with p(2) show ?thesis
        by simp
    qed
    with Some False assms show ?thesis
      by (auto simp: absorb_previous_def released_def)
  qed
qed

lemma gap_index_release_ok:
  assumes inv: "gap_index_inv g" and "s < e" "e < usize_lim"
  shows "\<exists>g'. gap_index_release g s e = Some g' \<and> gap_index_inv g' \<and>
    gap_free g' = gap_free g \<union> {s..<e}"
proof -
  let ?T = "tail_start g"
  define s0 where "s0 = (if e \<ge> ?T then min s ?T else s)"
  have ok: "gaps_ok (root g) ?T"
    using inv by (simp add: gap_index_inv_ok)
  have "s0 < e" "s0 \<le> s" and s0: "{s0..<e} \<union> {?T..} = {s..<e} \<union> {?T..}"
    using assms(2) by (auto simp: s0_def min_def)
  from absorb_previous_ok [OF ok \<open>s0 < e\<close>] obtain t1 s1 e1 where
    1: "absorb_previous (root g) s0 e = Some (t1, s1, e1)" "released t1 s1 e1 ?T" "e1 = e \<or> e1 < ?T"
      "e \<le> e1" "s1 \<le> s0" "cover (gap_ranges t1) \<union> {s1..<e1} = cover (gap_ranges (root g)) \<union> {s0..<e}"
    by blast
  from absorb_next_ok [OF 1(2)] obtain t2 e2 where
    2: "absorb_next t1 s1 e1 = Some (t2, e2)" "released t2 s1 e2 ?T" "e2 = e1 \<or> e2 < ?T" "e1 \<le> e2"
      "\<forall>r\<in>gap_ranges t2. snd r < s1 \<or> e2 < fst r"
      "cover (gap_ranges t2) \<union> {s1..<e2} = cover (gap_ranges t1) \<union> {s1..<e1}"
    by blast
  have ok2: "gaps_ok t2 ?T" and "s1 < e2"
    using 2(2) by (auto simp: released_def)
  have cov: "cover (gap_ranges t2) \<union> {s1..<e2} \<union> {?T..} = gap_free g \<union> {s..<e}"
    using 1(6) 2(6) s0 unfolding gap_free_def by blast
  show ?thesis
  proof (cases "e2 \<ge> ?T")
    case True
    have e2: "e2 = e"
      using True 1(3) 2(3,4) 1(4) by auto
    have "s1 \<le> ?T"
      using True e2 1(5) by (simp add: s0_def)
    moreover have "snd r < s1" if "r \<in> gap_ranges t2" for r
      using 2(5) ok2 that True by (force simp: gaps_ok_def separated_def)
    ultimately have "gap_index_inv (g\<lparr>root := t2, tail_start := s1\<rparr>)"
      using ok2 by (auto simp: gap_index_inv_ok gaps_ok_def)
    moreover have "{s1..<e2} \<union> {?T..} = {s1..}"
      using True \<open>s1 \<le> ?T\<close> by auto
    then have "gap_free (g\<lparr>root := t2, tail_start := s1\<rparr>) = gap_free g \<union> {s..<e}"
      using cov by (auto simp: gap_free_def)
    ultimately show ?thesis
      using 1(1) 2(1) True by (simp add: gap_index_release_def s0_def [symmetric])
  next
    case False
    with gap_index_insert_ok [of "g\<lparr>root := t2\<rparr>" ?T e2 s1] ok2 2(5) \<open>s1 < e2\<close> obtain g' where
      g': "gap_index_insert (g\<lparr>root := t2\<rparr>) (s1, e2) = Some g'" "gaps_ok (root g') ?T"
        "tail_start g' = ?T" "gap_ranges (root g') = insert (s1, e2) (gap_ranges t2)"
      by auto
    have "gap_free g' = gap_free g \<union> {s..<e}"
      using cov g'(3,4) by (auto simp: gap_free_def)
    with g' 1(1) 2(1) False show ?thesis
      by (simp add: gap_index_release_def s0_def [symmetric] gap_index_inv_ok)
  qed
qed


section \<open>Search\<close>

definition search_ok :: "gap_search \<Rightarrow> bool" where
  "search_ok srch \<longleftrightarrow> is_power_of_two (gs_align srch) \<and> 0 < gs_size srch \<and> upper srch < usize_lim"

definition fits :: "gap_search \<Rightarrow> usize \<times> usize \<Rightarrow> usize \<Rightarrow> bool" where
  "fits srch rng x \<longleftrightarrow> gs_align srch dvd x \<and> max (fst rng) (lower srch) \<le> x \<and>
     x + gs_size srch \<le> min (snd rng) (upper srch)"

lemma in_gap_eq:
  assumes "search_ok srch"
  shows "in_gap srch rng =
    (let b = max (fst rng) (lower srch) + gs_align srch - 1; x = b - b mod gs_align srch in
     if x + gs_size srch \<le> min (snd rng) (upper srch) then Some x else None)"
proof -
  from assms obtain k where k: "k < 64" "gs_align srch = 2 ^ k" "(2::nat) ^ k < usize_lim"
    by (auto simp: search_ok_def elim: is_power_of_twoE)
  define m where "m = max (fst rng) (lower srch)"
  define b where "b = m + 2 ^ k - 1"
  have sub: "usize_sub (2 ^ k) 1 = 2 ^ k - 1" and b': "m + (2 ^ k - 1) = b"
    using k(3) by (simp_all add: usize_simps b_def)
  have up: "upper srch < usize_lim"
    using assms by (simp add: search_ok_def)
  note eq = in_gap_def k(2) m_def [symmetric] sub usize_checked_add_def b' b_def [symmetric]
  show ?thesis
  proof (cases "b < usize_lim")
    case True
    then have "b AND usize_not (2 ^ k - 1) = b - b mod 2 ^ k"
      using k(1) by (intro and_not_mask_nat) simp_all
    with True up show ?thesis
      unfolding eq by (simp add: Let_def usize_checked_add_def)
  next
    case False
    have "(2::nat) ^ k dvd usize_lim"
      using k(1) unfolding usize_lim_def by (intro le_imp_power_dvd) simp
    with False have "usize_lim \<le> b - b mod 2 ^ k"
      by (intro round_down_greatest) simp_all
    with up have "\<not> b - b mod 2 ^ k + gs_size srch \<le> upper srch"
      by linarith
    with False show ?thesis
      unfolding eq by (simp add: Let_def usize_checked_add_def)
  qed
qed

lemma in_gap_spec:
  assumes "search_ok srch"
  shows "in_gap srch rng = Some x \<Longrightarrow> fits srch rng x"
    and "in_gap srch rng = Some x \<Longrightarrow> fits srch rng y \<Longrightarrow> x \<le> y"
    and "in_gap srch rng = None \<longleftrightarrow> (\<forall>y. \<not> fits srch rng y)"
proof -
  let ?a = "gs_align srch"
  define m where "m = max (fst rng) (lower srch)"
  define u where "u = min (snd rng) (upper srch)"
  define x0 where "x0 = (m + ?a - 1) - (m + ?a - 1) mod ?a"
  have "0 < ?a"
    using assms by (auto simp: search_ok_def elim: is_power_of_twoE)
  then have x0: "m \<le> x0" "?a dvd x0" "\<And>y. ?a dvd y \<Longrightarrow> m \<le> y \<Longrightarrow> x0 \<le> y"
    unfolding x0_def by (rule round_up_least(1), intro round_down_dvd, rule round_up_least(3))
  have fit: "fits srch rng y \<longleftrightarrow> ?a dvd y \<and> m \<le> y \<and> y + gs_size srch \<le> u" for y
    by (simp add: fits_def m_def u_def)
  have eq: "in_gap srch rng = (if x0 + gs_size srch \<le> u then Some x0 else None)"
    using in_gap_eq [OF assms, of rng] unfolding m_def [symmetric] u_def [symmetric]
    by (simp only: Let_def x0_def)
  show "in_gap srch rng = Some x \<Longrightarrow> fits srch rng x"
    using x0 by (simp add: eq fit split: if_splits)
  show "in_gap srch rng = Some x \<Longrightarrow> fits srch rng y \<Longrightarrow> x \<le> y"
    using x0(3) [of y] by (simp add: eq fit split: if_splits)
  show "in_gap srch rng = None \<longleftrightarrow> (\<forall>y. \<not> fits srch rng y)"
  proof
    assume "in_gap srch rng = None"
    then show "\<forall>y. \<not> fits srch rng y"
      using x0(3) unfolding eq fit by (metis add_le_mono1 le_trans option.distinct(1))
  next
    assume "\<forall>y. \<not> fits srch rng y"
    then show "in_gap srch rng = None"
      using x0(1,2) by (auto simp: eq fit)
  qed
qed

lemmas in_gap_SomeD = in_gap_spec(1)
lemmas in_gap_least = in_gap_spec(2)
lemmas in_gap_None = in_gap_spec(3)

text \<open>The reference search: the gaps in address order, without pruning.\<close>

fun first_fit :: "gap_search \<Rightarrow> (usize \<times> usize) list \<Rightarrow> usize option" where
  "first_fit srch [] = None"
| "first_fit srch (g # gs) = (case in_gap srch g of Some x \<Rightarrow> Some x | None \<Rightarrow> first_fit srch gs)"

lemma first_fit_append:
  "first_fit srch (xs @ ys) =
     (case first_fit srch xs of Some x \<Rightarrow> Some x | None \<Rightarrow> first_fit srch ys)"
  by (induction xs) (auto split: option.splits)

lemma first_fit_None: "first_fit srch gs = None \<longleftrightarrow> (\<forall>g\<in>set gs. in_gap srch g = None)"
  by (induction gs) (auto split: option.splits)

lemma first_fit_least:
  assumes "search_ok srch" "sorted_gaps gs" "separated (set gs)" "first_fit srch gs = Some x"
  shows "(\<exists>g\<in>set gs. fits srch g x) \<and> (\<forall>g\<in>set gs. \<forall>y. fits srch g y \<longrightarrow> x \<le> y)"
  using assms(2-4)
proof (induction gs)
  case (Cons g gs)
  show ?case
  proof (cases "in_gap srch g")
    case None
    with Cons in_gap_None [OF assms(1), of g] show ?thesis
      by (auto intro: separated_subset)
  next
    case (Some a)
    with Cons.prems have [simp]: "a = x" and fx: "fits srch g x"
      using in_gap_SomeD [OF assms(1)] by auto
    have "x \<le> y" if "g' \<in> set gs" "fits srch g' y" for g' y
    proof -
      from that(1) Cons.prems(1) have "fst g < fst g'"
        by auto
      with that(1) Cons.prems(2) have "snd g < fst g'"
        by (auto simp: separated_def)
      with fx that(2) show ?thesis
        by (simp add: fits_def)
    qed
    with in_gap_least [OF assms(1) Some] fx show ?thesis
      by auto
  qed
qed simp


text \<open>A subtree's \<open>max_length\<close> bounds the length of each of its gaps, so pruning loses nothing.\<close>

lemma gap_max_bound:
  assumes "gap_avl t" "\<forall>g\<in>gap_ranges t. fst g < snd g \<and> snd g < usize_lim" "g \<in> gap_ranges t"
  shows "snd g - fst g \<le> gap_max t"
  using assms
proof (induction t)
  case (GapNode s e l r m h)
  have "usize_sub e s = e - s"
    using GapNode.prems(2) by (simp add: gap_ranges_def usize_simps)
  moreover have "snd g - fst g \<le> gap_max l" if "g \<in> gap_ranges l"
    using GapNode.IH(1) GapNode.prems that by (simp add: gap_ranges_def)
  moreover have "snd g - fst g \<le> gap_max r" if "g \<in> gap_ranges r"
    using GapNode.IH(2) GapNode.prems that by (simp add: gap_ranges_def)
  ultimately show ?case
    using GapNode.prems(1,3) by (auto simp: gap_ranges_def max3_def le_max_iff_disj)
qed (simp add: gap_ranges_def)

lemma in_gap_short: "search_ok srch \<Longrightarrow> snd g - fst g < gs_size srch \<Longrightarrow> in_gap srch g = None"
  by (auto simp: in_gap_None fits_def)

lemma in_gap_below: "search_ok srch \<Longrightarrow> snd g \<le> lower srch \<Longrightarrow> in_gap srch g = None"
  by (auto simp: in_gap_None fits_def search_ok_def)

lemma in_gap_above: "search_ok srch \<Longrightarrow> upper srch \<le> fst g \<Longrightarrow> in_gap srch g = None"
  by (auto simp: in_gap_None fits_def search_ok_def)

lemma in_tree_first_fit:
  assumes "search_ok srch" "gap_avl t" "sorted_gaps (gap_inorder t)" "separated (gap_ranges t)"
    "\<forall>g\<in>gap_ranges t. snd g < usize_lim"
  shows "in_tree srch t = first_fit srch (gap_inorder t)"
  using assms(2-5)
proof (induction t)
  case (GapNode s e l r m h)
  let ?t = "GapNode s e l r m h"
  have sub: "gap_ranges l \<subseteq> gap_ranges ?t" "gap_ranges r \<subseteq> gap_ranges ?t"
    by (auto simp: gap_ranges_def)
  have IH: "in_tree srch l = first_fit srch (gap_inorder l)"
      "in_tree srch r = first_fit srch (gap_inorder r)"
    using GapNode.IH GapNode.prems sub
    by (auto simp: sorted_wrt_append intro: separated_subset)
  have nonempty: "fst g < snd g" if "g \<in> gap_ranges ?t" for g
    using GapNode.prems(3) that by (simp add: separated_def)
  consider "m < gs_size srch" | "gs_size srch \<le> m" "e \<le> lower srch"
    | "gs_size srch \<le> m" "lower srch < e" "upper srch \<le> s"
    | "gs_size srch \<le> m" "lower srch < e" "s < upper srch"
    by linarith
  then show ?case
  proof cases
    case 1
    then have "\<forall>g\<in>gap_ranges ?t. in_gap srch g = None"
      using gap_max_bound [of ?t] GapNode.prems nonempty assms(1)
      by (metis gap_max.simps(2) in_gap_short le_less_trans)
    then have "first_fit srch (gap_inorder ?t) = None"
      by (simp add: first_fit_None gap_ranges_def)
    with 1 show ?thesis
      by simp
  next
    case 2
    have "snd g < s" if "g \<in> gap_ranges l" for g
      using GapNode.prems(2,3) that by (auto simp: sorted_wrt_append separated_def gap_ranges_def)
    moreover have "s < e"
      using nonempty [of "(s, e)"] by (simp add: gap_ranges_def)
    ultimately have "first_fit srch (gap_inorder l) = None" "in_gap srch (s, e) = None"
      using 2 assms(1) by (force simp: first_fit_None gap_ranges_def intro!: in_gap_below)+
    with 2 IH show ?thesis
      by (simp add: first_fit_append)
  next
    case 3
    have "s < fst g" if "g \<in> gap_ranges r" for g
      using GapNode.prems(2) that by (auto simp: sorted_wrt_append gap_ranges_def)
    then have "first_fit srch (gap_inorder r) = None" "in_gap srch (s, e) = None"
      using 3 assms(1) by (force simp: first_fit_None gap_ranges_def intro!: in_gap_above)+
    with 3 IH show ?thesis
      by (simp add: first_fit_append split: option.splits)
  next
    case 4
    with IH show ?thesis
      by (simp add: first_fit_append split: option.splits)
  qed
qed simp


section \<open>The contract of the index\<close>

definition allocatable :: "usize set \<Rightarrow> usize \<Rightarrow> usize \<Rightarrow> usize \<Rightarrow> usize \<Rightarrow> usize \<Rightarrow> bool" where
  "allocatable F lo up sz al x \<longleftrightarrow> 0 < sz \<and> is_power_of_two al \<and> al dvd sz \<and> al dvd x \<and> lo \<le> x \<and>
     x + sz \<le> up \<and> {x..<x + sz} \<subseteq> F"

lemma gap_search_new_Some:
  "gap_search_new lo up sz al = Some srch \<longleftrightarrow>
     0 < sz \<and> is_power_of_two al \<and> al dvd sz \<and> lo + sz \<le> up \<and> lo + sz < usize_lim \<and>
     srch = \<lparr>lower = lo, upper = up, gs_size = sz, gs_align = al\<rparr>"
proof -
  have "is_multiple_of sz al \<longleftrightarrow> al dvd sz" if "is_power_of_two al"
    using that by (auto simp: is_multiple_of_def mod_eq_0_iff_dvd elim: is_power_of_twoE)
  then show ?thesis
    by (auto simp: gap_search_new_def usize_checked_add_def split: if_splits)
qed

lemma allocatable_fits:
  assumes ok: "gaps_ok (root g) (tail_start g)" and "up < usize_lim"
    and new: "gap_search_new lo up sz al = Some srch"
  shows "allocatable (gap_free g) lo up sz al x \<longleftrightarrow>
    (\<exists>r\<in>gap_ranges (root g). fits srch r x) \<or> fits srch (tail_start g, usize_max) x"
    (is "_ \<longleftrightarrow> ?R")
proof
  assume A: "allocatable (gap_free g) lo up sz al x"
  then have run: "{x..<x + sz} \<subseteq> gap_free g" "0 < sz"
    by (auto simp: allocatable_def)
  show ?R
  proof (cases "x < tail_start g")
    case True
    then obtain r where "r \<in> gap_ranges (root g)" "fst r \<le> x" "x < snd r" "x + sz \<le> snd r"
      by (rule free_run_in_gap [OF ok _ _ run(1) [unfolded gap_free_def]]) (use run(2) in simp)
    with A new show ?thesis
      by (auto simp: gap_search_new_Some fits_def allocatable_def)
  next
    case False
    with A new assms(2) show ?thesis
      by (auto simp: gap_search_new_Some fits_def allocatable_def usize_max_def)
  qed
next
  assume ?R
  then obtain r where r: "{fst r..<snd r} \<subseteq> gap_free g" "fits srch r x"
    unfolding gap_free_def cover_def by fastforce
  then have "{x..<x + sz} \<subseteq> gap_free g"
    using new by (force simp: gap_search_new_Some fits_def)
  with r(2) new show "allocatable (gap_free g) lo up sz al x"
    by (auto simp: gap_search_new_Some fits_def allocatable_def)
qed

lemma gap_index_find_ok:
  assumes inv: "gap_index_inv g" and up: "up < usize_lim"
  shows "gap_index_find g lo up sz al = Some x \<Longrightarrow>
      allocatable (gap_free g) lo up sz al x \<and>
      (\<forall>y. allocatable (gap_free g) lo up sz al y \<longrightarrow> x \<le> y)"
    and "gap_index_find g lo up sz al = None \<longleftrightarrow> (\<forall>y. \<not> allocatable (gap_free g) lo up sz al y)"
proof -
  have ok: "gaps_ok (root g) (tail_start g)"
    using inv by (simp add: gap_index_inv_ok)
  have A: "(gap_index_find g lo up sz al = Some x \<longrightarrow>
      allocatable (gap_free g) lo up sz al x \<and>
      (\<forall>y. allocatable (gap_free g) lo up sz al y \<longrightarrow> x \<le> y)) \<and>
    (gap_index_find g lo up sz al = None \<longleftrightarrow> (\<forall>y. \<not> allocatable (gap_free g) lo up sz al y))"
  proof (cases "gap_search_new lo up sz al")
    case None
    have "\<not> allocatable (gap_free g) lo up sz al y" for y
    proof
      assume "allocatable (gap_free g) lo up sz al y"
      then have "gap_search_new lo up sz al = Some \<lparr>lower = lo, upper = up, gs_size = sz, gs_align = al\<rparr>"
        using up by (simp add: gap_search_new_Some allocatable_def)
      with None show False
        by simp
    qed
    with None show ?thesis
      by (simp add: gap_index_find_def)
  next
    case (Some srch)
    then have srch: "search_ok srch"
      using up by (simp add: gap_search_new_Some search_ok_def)
    have tree: "in_tree srch (root g) = first_fit srch (gap_inorder (root g))"
      and sorted: "sorted_gaps (gap_inorder (root g))" "separated (set (gap_inorder (root g)))"
      using in_tree_first_fit [OF srch, of "root g"] ok
      by (force simp: gaps_ok_def gap_inv_def gap_ranges_def)+
    have below: "x < y" if "r \<in> gap_ranges (root g)" "fits srch r x" "fits srch (tail_start g, m) y"
      for r x y m
      using that ok by (force simp: fits_def gaps_ok_def)
    note alloc = allocatable_fits [OF ok up Some]
    show ?thesis
    proof (cases "in_tree srch (root g)")
      case none: None
      then have "\<not> fits srch r y" if "r \<in> gap_ranges (root g)" for r y
        using that in_gap_None [OF srch] unfolding tree first_fit_None gap_ranges_def by blast
      with none Some in_gap_spec [OF srch, of "(tail_start g, usize_max)"] show ?thesis
        unfolding alloc by (auto simp: gap_index_find_def)
    next
      case some: (Some a)
      from first_fit_least [OF srch sorted some [unfolded tree]] have
        a: "\<exists>r\<in>gap_ranges (root g). fits srch r a"
          "\<forall>r\<in>gap_ranges (root g). \<forall>y. fits srch r y \<longrightarrow> a \<le> y"
        by (simp_all add: gap_ranges_def)
      then have "a \<le> y" if "fits srch (tail_start g, usize_max) y" for y
        using below that by (meson less_imp_le)
      with a some Some show ?thesis
        unfolding alloc by (auto simp: gap_index_find_def)
    qed
  qed
  from A show "gap_index_find g lo up sz al = Some x \<Longrightarrow>
      allocatable (gap_free g) lo up sz al x \<and>
      (\<forall>y. allocatable (gap_free g) lo up sz al y \<longrightarrow> x \<le> y)"
    by blast
  from A show "gap_index_find g lo up sz al = None \<longleftrightarrow> (\<forall>y. \<not> allocatable (gap_free g) lo up sz al y)"
    by blast
qed


text \<open>
  What the memory set relies on: the index stands for a set of free addresses, \<open>occupy\<close> and
  \<open>release\<close> change exactly the given range of it, and \<open>find\<close> returns the lowest placement.
\<close>

locale free_space =
  fixes ok :: "'g \<Rightarrow> bool"
    and free :: "'g \<Rightarrow> usize set"
    and find :: "'g \<Rightarrow> usize \<Rightarrow> usize \<Rightarrow> usize \<Rightarrow> usize \<Rightarrow> usize option"
    and occupy :: "'g \<Rightarrow> usize \<Rightarrow> usize \<Rightarrow> 'g option"
    and release :: "'g \<Rightarrow> usize \<Rightarrow> usize \<Rightarrow> 'g option"
  assumes occupy_free: "ok g \<Longrightarrow> s < e \<Longrightarrow> e < usize_lim \<Longrightarrow> {s..<e} \<subseteq> free g \<Longrightarrow>
      \<exists>g'. occupy g s e = Some g' \<and> ok g' \<and> free g' = free g - {s..<e}"
    and release_free: "ok g \<Longrightarrow> s < e \<Longrightarrow> e < usize_lim \<Longrightarrow>
      \<exists>g'. release g s e = Some g' \<and> ok g' \<and> free g' = free g \<union> {s..<e}"
    and find_Some: "ok g \<Longrightarrow> up < usize_lim \<Longrightarrow> find g lo up sz al = Some x \<Longrightarrow>
      allocatable (free g) lo up sz al x \<and> (\<forall>y. allocatable (free g) lo up sz al y \<longrightarrow> x \<le> y)"
    and find_None: "ok g \<Longrightarrow> up < usize_lim \<Longrightarrow>
      find g lo up sz al = None \<longleftrightarrow> (\<forall>y. \<not> allocatable (free g) lo up sz al y)"
begin

lemma find_then_occupy:
  assumes "ok g" "up < usize_lim" "find g lo up sz al = Some x"
  shows "\<exists>g'. occupy g x (x + sz) = Some g' \<and> ok g' \<and> free g' = free g - {x..<x + sz}"
  using find_Some [OF assms] assms(1,2) by (intro occupy_free) (auto simp: allocatable_def)

lemma occupy_then_release:
  assumes "ok g" "s < e" "e < usize_lim" "{s..<e} \<subseteq> free g"
  shows "\<exists>g1 g2. occupy g s e = Some g1 \<and> release g1 s e = Some g2 \<and> ok g2 \<and> free g2 = free g"
proof -
  from occupy_free [OF assms] obtain g1 where
    g1: "occupy g s e = Some g1" "ok g1" "free g1 = free g - {s..<e}"
    by blast
  from release_free [OF g1(2) assms(2,3)] obtain g2 where
    "release g1 s e = Some g2" "ok g2" "free g2 = free g1 \<union> {s..<e}"
    by blast
  with g1 assms(4) show ?thesis
    by auto
qed

lemma find_free_congruent:
  assumes "ok g" "ok g'" "up < usize_lim" "free g = free g'"
  shows "find g lo up sz al = find g' lo up sz al"
proof -
  note None = find_None [OF assms(1,3), of lo sz al] find_None [OF assms(2,3), of lo sz al]
  show ?thesis
  proof (cases "find g lo up sz al"; cases "find g' lo up sz al")
    fix x y
    assume *: "find g lo up sz al = Some x" "find g' lo up sz al = Some y"
    with find_Some [OF assms(1,3) *(1)] find_Some [OF assms(2,3) *(2)] assms(4) show ?thesis
      by (simp add: eq_iff)
  qed (use None assms(4) in auto)
qed

end

interpretation gap_space: free_space gap_index_inv gap_free gap_index_find gap_index_occupy
  gap_index_release
proof (unfold_locales, goal_cases)
  case (1 g s e)
  then show ?case by (rule gap_index_occupy_ok)
next
  case (2 g s e)
  then show ?case by (rule gap_index_release_ok)
next
  case (3 g up lo sz al x)
  then show ?case by (rule gap_index_find_ok(1))
next
  case (4 g up lo sz al)
  then show ?case by (rule gap_index_find_ok(2))
qed

section \<open>Properties\<close>

text \<open>C25: occupying a free, non-empty range never hits the panics of \<open>occupy\<close>, keeps the index
  invariant (balanced, sorted, coalesced gaps below the tail) and removes exactly that range from the
  free addresses; releasing it afterwards restores them.\<close>

theorem occupy_exact:
  assumes "gap_index_inv g" "s < e" "e < usize_lim" "{s..<e} \<subseteq> gap_free g"
  shows "\<exists>g1 g2. gap_index_occupy g s e = Some g1 \<and> gap_index_inv g1 \<and>
    gap_free g1 = gap_free g - {s..<e} \<and>
    gap_index_release g1 s e = Some g2 \<and> gap_index_inv g2 \<and> gap_free g2 = gap_free g"
  using gap_space.occupy_free [OF assms] gap_space.occupy_then_release [OF assms] by auto

theorem occupy_exact_witness:
  "\<exists>g1. gap_index_occupy gap_index_new 4096 8192 = Some g1 \<and> gap_index_inv g1 \<and>
    gap_free g1 = UNIV - {4096..<8192}"
  using occupy_exact [of gap_index_new 4096 8192] by (auto simp: usize_lim_def)

text \<open>C26: releasing any non-empty range succeeds, also when parts of it are already free, keeps the
  invariant, so that neighbouring gaps and the tail are coalesced, and adds exactly that range.\<close>

theorem release_exact:
  assumes "gap_index_inv g" "s < e" "e < usize_lim"
  shows "\<exists>g'. gap_index_release g s e = Some g' \<and> gap_index_inv g' \<and>
    gap_free g' = gap_free g \<union> {s..<e}"
  by (rule gap_space.release_free [OF assms])

theorem release_exact_witness:
  "\<exists>g'. gap_index_release
      \<lparr>root = GapNode 0 4096 NoGap (GapNode 8192 12288 NoGap NoGap 4096 1) 4096 2, tail_start = 16384\<rparr>
      4096 10000 = Some g' \<and> gap_index_inv g' \<and> 9000 \<in> gap_free g'"
proof -
  have h: "gap_index_inv
      \<lparr>root = GapNode 0 4096 NoGap (GapNode 8192 12288 NoGap NoGap 4096 1) 4096 2, tail_start = 16384\<rparr>"
    by code_simp
  from release_exact [OF h, of 4096 10000] show ?thesis
    by (auto simp: usize_lim_def)
qed

text \<open>C27: \<open>find\<close> returns the lowest address that is aligned, lies within the limits and starts a
  wholly free range of the requested size, and returns \<open>None\<close> only when there is no such address
  (an empty size, an alignment that is not a power of two and a size that is not a multiple of it have
  none).\<close>

theorem find_lowest_fit:
  assumes "gap_index_inv g" "up < usize_lim"
  shows "case gap_index_find g lo up sz al of
      Some x \<Rightarrow> allocatable (gap_free g) lo up sz al x \<and>
        (\<forall>y. allocatable (gap_free g) lo up sz al y \<longrightarrow> x \<le> y)
    | None \<Rightarrow> (\<forall>y. \<not> allocatable (gap_free g) lo up sz al y)"
  using gap_space.find_Some [OF assms] gap_space.find_None [OF assms] by (simp split: option.split)

theorem find_lowest_fit_witness:
  "gap_index_find \<lparr>root = GapNode 0 4096 NoGap NoGap 4096 1, tail_start = 12288\<rparr> 0 65536 8192 8192 =
    Some 16384 \<and>
   allocatable (gap_free \<lparr>root = GapNode 0 4096 NoGap NoGap 4096 1, tail_start = 12288\<rparr>) 0 65536 8192 8192
     16384"
proof -
  let ?g = "\<lparr>root = GapNode 0 4096 NoGap NoGap 4096 1, tail_start = 12288\<rparr>"
  have h: "gap_index_inv ?g" "65536 < usize_lim"
    by code_simp+
  have "gap_index_find ?g 0 65536 8192 8192 = Some 16384"
    by code_simp
  with find_lowest_fit [OF h, of 0 8192 8192] show ?thesis
    by simp
qed

text \<open>C28: the tree search, which prunes subtrees by their longest gap and by the limits, is
  equivalent to trying every gap in address order.\<close>

theorem in_tree_is_first_fit:
  assumes "gap_index_inv g" "gap_search_new lo up sz al = Some srch" "up < usize_lim"
  shows "in_tree srch (root g) = first_fit srch (gap_inorder (root g))"
  using assms by (intro in_tree_first_fit)
    (force simp: gap_index_inv_def gap_inv_def search_ok_def gap_search_new_Some)+

theorem in_tree_is_first_fit_witness:
  "in_tree \<lparr>lower = 0, upper = 65536, gs_size = 4096, gs_align = 4096\<rparr>
     (GapNode 8192 16384 (GapNode 0 4096 NoGap NoGap 4096 1) NoGap 8192 2) =
   first_fit \<lparr>lower = 0, upper = 65536, gs_size = 4096, gs_align = 4096\<rparr> [(0, 4096), (8192, 16384)]"
proof -
  let ?g = "\<lparr>root = GapNode 8192 16384 (GapNode 0 4096 NoGap NoGap 4096 1) NoGap 8192 2,
    tail_start = 20480\<rparr>"
  have h: "gap_index_inv ?g" "gap_search_new 0 65536 4096 4096 =
      Some \<lparr>lower = 0, upper = 65536, gs_size = 4096, gs_align = 4096\<rparr>" "65536 < usize_lim"
    by code_simp+
  from in_tree_is_first_fit [OF h] show ?thesis
    by simp
qed

end
