(* ===== verification/MemorySet.thy ===== *)
theory MemorySet
  imports MemoryArea BTreeMap GapIndex
begin

text \<open>
  Memory sets, \<open>memory/memory_set/src/set/mod.rs\<close>: the ordered map of memory areas together with the
  index of free ranges. Operations return their \<open>MappingResult\<close>, the new set and the new pair of
  mutation context and page table; the outer \<open>option\<close> is \<open>None\<close> on a panic.
\<close>

record ('b, 'f) memory_set =
  ms_areas :: "('b, 'f) memory_area btree"
  ms_gaps :: gap_index

type_synonym ('b, 'f, 'c, 'p, 'a) ms_outcome =
  "('a mapping_result \<times> ('b, 'f) memory_set \<times> 'c \<times> 'p) option"

section \<open>Queries\<close>

fun restore_overlapped_mappings ::
  "('b, 'f, 'c, 'p) mapping_backend \<Rightarrow> ('b, 'f) memory_area list \<Rightarrow> addr_range \<Rightarrow> 'c \<times> 'p \<Rightarrow>
     bool \<times> 'c \<times> 'p" where
  "restore_overlapped_mappings B [] rng env = (True, env)"
| "restore_overlapped_mappings B (a # as) rng env =
     (if area_start a \<ge> ar_end rng then (True, env)
      else if area_end a \<le> ar_start rng then restore_overlapped_mappings B as rng env
      else case range_try_new (max (area_start a) (ar_start rng)) (min (area_end a) (ar_end rng)) of
        None \<Rightarrow> (False, env)
      | Some fragment \<Rightarrow>
          let (ok, env') = b_map B (ma_backend a) (ar_start fragment) (range_size fragment)
            (ma_flags a) env in
          if \<not> ok then (False, env') else restore_overlapped_mappings B as rng env')"

definition ms_new :: "('b, 'f) memory_set" where
  "ms_new = \<lparr>ms_areas = [], ms_gaps = gap_index_new\<rparr>"

definition ms_len :: "('b, 'f) memory_set \<Rightarrow> usize" where
  "ms_len ms = length (ms_areas ms)"

definition ms_is_empty :: "('b, 'f) memory_set \<Rightarrow> bool" where
  "ms_is_empty ms \<longleftrightarrow> ms_areas ms = []"

definition ms_iter :: "('b, 'f) memory_set \<Rightarrow> ('b, 'f) memory_area list" where
  "ms_iter ms = bt_values (ms_areas ms)"

definition iter_overlapping ::
  "('b, 'f) memory_set \<Rightarrow> addr_range \<Rightarrow> ('b, 'f) memory_area list option" where
  "iter_overlapping ms rng =
     (let first =
        (if range_is_empty rng then ar_start rng
         else case bt_last_before (ar_start rng) (ms_areas ms) of
           Some (k, a) \<Rightarrow> if area_end a > ar_start rng then k else ar_start rng
         | None \<Rightarrow> ar_start rng)
      in map_option bt_values (bt_range first (ar_end rng) (ms_areas ms)))"

definition restore_metadata_preimage ::
  "('b, 'f) memory_set \<Rightarrow> ('b, 'f) memory_set \<Rightarrow> ('b, 'f) memory_set" where
  "restore_metadata_preimage ms preimage = preimage"

definition ms_overlaps :: "('b, 'f) memory_set \<Rightarrow> addr_range \<Rightarrow> bool" where
  "ms_overlaps ms rng \<longleftrightarrow>
     (case bt_last_before (ar_start rng) (ms_areas ms) of
        Some (_, before) \<Rightarrow> range_overlaps (ma_range before) rng | None \<Rightarrow> False) \<or>
     (case bt_first_from (ar_start rng) (ms_areas ms) of
        Some (_, after) \<Rightarrow> range_overlaps (ma_range after) rng | None \<Rightarrow> False)"

definition ms_find :: "('b, 'f) memory_set \<Rightarrow> usize \<Rightarrow> ('b, 'f) memory_area option" where
  "ms_find ms addr =
     (case bt_last_upto addr (ms_areas ms) of
        Some (_, a) \<Rightarrow> if range_contains (ma_range a) addr then Some a else None
      | None \<Rightarrow> None)"

definition find_free_area ::
  "('b, 'f) memory_set \<Rightarrow> usize \<Rightarrow> usize \<Rightarrow> addr_range \<Rightarrow> usize \<Rightarrow> usize option" where
  "find_free_area ms hint sz limit al =
     gap_index_find (ms_gaps ms) (max hint (ar_start limit)) (ar_end limit) sz al"

text \<open>The key of the area that contains an address, as \<open>extend_area\<close> computes it.\<close>

definition containing_key :: "('b, 'f) memory_set \<Rightarrow> usize \<Rightarrow> usize option" where
  "containing_key ms addr =
     (case bt_last_upto addr (ms_areas ms) of
        Some (k, a) \<Rightarrow> if range_contains (ma_range a) addr then Some k else None
      | None \<Rightarrow> None)"

section \<open>Growing an area\<close>

definition extend_area ::
  "('b, 'f, 'c, 'p) mapping_backend \<Rightarrow> ('b, 'f) memory_set \<Rightarrow> usize \<Rightarrow> usize \<Rightarrow> 'c \<times> 'p \<Rightarrow>
     ('b, 'f, 'c, 'p, unit) ms_outcome" where
  "extend_area B ms addr additional_size env =
     (if additional_size = 0 then Some (Inr (), ms, env)
      else case containing_key ms addr of
        None \<Rightarrow> Some (Inl InvalidParam, ms, env)
      | Some k \<Rightarrow> do {
          a \<leftarrow> bt_get (ms_areas ms) k;
          let area_end0 = area_end a;
          (case addr_checked_add area_end0 additional_size of
             None \<Rightarrow> Some (Inl InvalidParam, ms, env)
           | Some new_end \<Rightarrow>
               if (case bt_first_from area_end0 (ms_areas ms) of
                     Some (_, nxt) \<Rightarrow> new_end > area_start nxt | None \<Rightarrow> False)
               then Some (Inl AlreadyExists, ms, env)
               else let (r, a', env') = grow_right B a additional_size env;
                        ms' = ms\<lparr>ms_areas := bt_insert k a' (ms_areas ms)\<rparr> in
                 (case r of
                    Inl err \<Rightarrow> Some (Inl err, ms', env')
                  | Inr _ \<Rightarrow> do {
                      g \<leftarrow> gap_index_occupy (ms_gaps ms) area_end0 new_end;
                      Some (Inr (), ms'\<lparr>ms_gaps := g\<rparr>, env')
                    }))
        })"

definition rollback_extend_area ::
  "('b, 'f, 'c, 'p) mapping_backend \<Rightarrow> ('b, 'f) memory_set \<Rightarrow> usize \<Rightarrow> usize \<Rightarrow> 'c \<times> 'p \<Rightarrow>
     ('b, 'f, 'c, 'p, unit) ms_outcome" where
  "rollback_extend_area B ms addr additional_size env =
     (if additional_size = 0 then Some (Inr (), ms, env)
      else case containing_key ms addr of
        None \<Rightarrow> Some (Inl InvalidParam, ms, env)
      | Some k \<Rightarrow>
        (case bt_get (ms_areas ms) k of
           None \<Rightarrow> Some (Inl BadState, ms, env)
         | Some a \<Rightarrow>
             if additional_size \<ge> area_size a then Some (Inl InvalidParam, ms, env)
             else case addr_checked_sub (area_end a) additional_size of
               None \<Rightarrow> Some (Inl InvalidParam, ms, env)
             | Some suffix_start \<Rightarrow>
                 if \<not> b_validate_unmap B (ma_backend a) suffix_start additional_size (snd env)
                 then Some (Inl BadState, ms, env)
                 else let (ok, env') = b_unmap B (ma_backend a) suffix_start additional_size env in
                   if \<not> ok then Some (Inl NeedsRepair, ms, env')
                   else let (r, a') = shrink_right_metadata B a (usize_sub (area_size a) additional_size);
                            ms' = ms\<lparr>ms_areas := bt_insert k a' (ms_areas ms)\<rparr> in
                     (case r of
                        Inl err \<Rightarrow> Some (Inl err, ms', env')
                      | Inr _ \<Rightarrow> do {
                          g \<leftarrow> gap_index_release (ms_gaps ms) suffix_start (area_end a);
                          Some (Inr (), ms'\<lparr>ms_gaps := g\<rparr>, env')
                        })))"

section \<open>Unmapping\<close>

fun visit_clipped ::
  "('b, 'f) memory_area list \<Rightarrow> addr_range \<Rightarrow>
   (('b, 'f) memory_area \<Rightarrow> usize \<Rightarrow> usize \<Rightarrow> 's \<Rightarrow> unit mapping_result \<times> 's) \<Rightarrow> 's \<Rightarrow>
   (unit mapping_result \<times> 's) option" where
  "visit_clipped [] rng visit s = Some (Inr (), s)"
| "visit_clipped (a # as) rng visit s = do {
     let unmap_start = max (area_start a) (ar_start rng);
     let unmap_end = min (area_end a) (ar_end rng);
     n \<leftarrow> addr_sub_addr unmap_end unmap_start;
     (case visit a unmap_start n s of
        (Inl err, s') \<Rightarrow> Some (Inl err, s')
      | (Inr _, s') \<Rightarrow> visit_clipped as rng visit s')
   }"

definition for_each_intersecting_area ::
  "('b, 'f) memory_set \<Rightarrow> addr_range \<Rightarrow>
   (('b, 'f) memory_area \<Rightarrow> usize \<Rightarrow> usize \<Rightarrow> 's \<Rightarrow> unit mapping_result \<times> 's) \<Rightarrow> 's \<Rightarrow>
   (unit mapping_result \<times> 's) option" where
  "for_each_intersecting_area ms rng visit s =
     (let whole = (case ms_find ms (ar_start rng) of
          Some a \<Rightarrow> if area_end a \<ge> ar_end rng then Some a else None
        | None \<Rightarrow> None) in
      case whole of
        Some a \<Rightarrow> Some (visit a (ar_start rng) (range_size rng) s)
      | None \<Rightarrow> do {
          as \<leftarrow> iter_overlapping ms rng;
          visit_clipped as rng visit s
        })"

definition ms_validate_unmap ::
  "('b, 'f, 'c, 'p) mapping_backend \<Rightarrow> ('b, 'f) memory_set \<Rightarrow> usize \<Rightarrow> usize \<Rightarrow> 'p \<Rightarrow>
     unit mapping_result option" where
  "ms_validate_unmap B ms start sz pt =
     (case range_try_from_start_size start sz of
        None \<Rightarrow> Some (Inl InvalidParam)
      | Some rng \<Rightarrow>
          if range_is_empty rng then Some (Inr ())
          else map_option fst (for_each_intersecting_area ms rng
            (\<lambda>a s n _. (validate_unmap_range B a s n pt, ())) ()))"

text \<open>The three stages of \<open>prepare_unmap_metadata\<close>: the areas inside the range are removed, an area
  that reaches into the range from the left is cut, an area that leaves it on the right is cut.\<close>

function remove_contained ::
  "usize \<Rightarrow> usize \<Rightarrow> ('b, 'f) memory_area btree \<Rightarrow> ('b, 'f) memory_area btree option" where
  "remove_contained s e m =
     (case bt_range s e m of
        None \<Rightarrow> None
      | Some [] \<Rightarrow> Some m
      | Some ((k, a) # _) \<Rightarrow> if area_end a > e then Some m else remove_contained s e (bt_remove k m))"
  by pat_completeness auto

termination
proof (relation "measure (\<lambda>(s, e, m). length m)", goal_cases)
  case (2 s e m x kv rest k a)
  then have "(k, a) \<in> set m"
    by (auto simp: bt_range_def filter_eq_Cons_iff split: if_splits)
  then show ?case
    by (auto simp: bt_remove_def intro!: length_filter_less)
qed simp

declare remove_contained.simps [simp del]

definition trim_before ::
  "('b, 'f, 'c, 'p) mapping_backend \<Rightarrow> usize \<Rightarrow> usize \<Rightarrow> ('b, 'f) memory_area btree \<Rightarrow>
     ('b, 'f) memory_area btree mapping_result option" where
  "trim_before B s e m =
     (case bt_last_before s m of
        None \<Rightarrow> Some (Inr m)
      | Some (k, before) \<Rightarrow>
          if area_end before > s then
            (if area_end before \<le> e then do {
               n \<leftarrow> addr_sub_addr s k;
               (case shrink_right_metadata B before n of
                  (Inl err, _) \<Rightarrow> Some (Inl err)
                | (Inr _, before') \<Rightarrow> Some (Inr (bt_insert k before' m)))
             }
             else do {
               (r, before1) \<leftarrow> area_split B before e;
               (case r of
                  Inl err \<Rightarrow> Some (Inl err)
                | Inr None \<Rightarrow> Some (Inl BadState)
                | Inr (Some right_part) \<Rightarrow> do {
                    n \<leftarrow> addr_sub_addr s k;
                    (case shrink_right_metadata B before1 n of
                       (Inl err, _) \<Rightarrow> Some (Inl err)
                     | (Inr _, before2) \<Rightarrow>
                         if area_start right_part \<noteq> e then Some (Inl BadState)
                         else Some (Inr (bt_insert e right_part (bt_insert k before2 m))))
                  })
             })
          else Some (Inr m))"

definition trim_after ::
  "('b, 'f, 'c, 'p) mapping_backend \<Rightarrow> usize \<Rightarrow> usize \<Rightarrow> ('b, 'f) memory_area btree \<Rightarrow>
     ('b, 'f) memory_area btree mapping_result option" where
  "trim_after B s e m =
     (case bt_first_from s m of
        None \<Rightarrow> Some (Inr m)
      | Some (k, _) \<Rightarrow>
          if k < e then
            (case bt_get m k of
               None \<Rightarrow> Some (Inl BadState)
             | Some a \<Rightarrow> do {
                 n \<leftarrow> addr_sub_addr (area_end a) e;
                 (case shrink_left_metadata B a n of
                    (Inl err, _) \<Rightarrow> Some (Inl err)
                  | (Inr _, a') \<Rightarrow>
                      if area_start a' \<noteq> e then Some (Inl BadState)
                      else Some (Inr (bt_insert e a' (bt_remove k m))))
               })
          else Some (Inr m))"

definition prepare_unmap_metadata ::
  "('b, 'f, 'c, 'p) mapping_backend \<Rightarrow> ('b, 'f) memory_set \<Rightarrow> addr_range \<Rightarrow>
     ('b, 'f) memory_area btree mapping_result option" where
  "prepare_unmap_metadata B ms rng = do {
     m1 \<leftarrow> remove_contained (ar_start rng) (ar_end rng) (ms_areas ms);
     r2 \<leftarrow> trim_before B (ar_start rng) (ar_end rng) m1;
     (case r2 of
        Inl err \<Rightarrow> Some (Inl err)
      | Inr m2 \<Rightarrow> trim_after B (ar_start rng) (ar_end rng) m2)
   }"

definition ms_unmap ::
  "('b, 'f, 'c, 'p) mapping_backend \<Rightarrow> ('b, 'f) memory_set \<Rightarrow> usize \<Rightarrow> usize \<Rightarrow> 'c \<times> 'p \<Rightarrow>
     ('b, 'f, 'c, 'p, unit) ms_outcome" where
  "ms_unmap B ms start sz env =
     (case range_try_from_start_size start sz of
        None \<Rightarrow> Some (Inl InvalidParam, ms, env)
      | Some rng \<Rightarrow>
          if range_is_empty rng then Some (Inr (), ms, env)
          else do {
            valid \<leftarrow> ms_validate_unmap B ms start sz (snd env);
            (case valid of
               Inl err \<Rightarrow> Some (Inl err, ms, env)
             | Inr _ \<Rightarrow> do {
                 prep \<leftarrow> prepare_unmap_metadata B ms rng;
                 (case prep of
                    Inl err \<Rightarrow> Some (Inl err, ms, env)
                  | Inr prepared \<Rightarrow> do {
                      (r, env') \<leftarrow> for_each_intersecting_area ms rng (unmap_range B) env;
                      (case r of
                         Inl err \<Rightarrow> Some (Inl err, ms, env')
                       | Inr _ \<Rightarrow> do {
                           g \<leftarrow> gap_index_release (ms_gaps ms) (ar_start rng) (ar_end rng);
                           Some (Inr (), ms\<lparr>ms_areas := prepared, ms_gaps := g\<rparr>, env')
                         })
                    })
               })
          })"

definition unmap_metadata ::
  "('b, 'f, 'c, 'p) mapping_backend \<Rightarrow> ('b, 'f) memory_set \<Rightarrow> usize \<Rightarrow> usize \<Rightarrow>
     (unit mapping_result \<times> ('b, 'f) memory_set) option" where
  "unmap_metadata B ms start sz =
     (case range_try_from_start_size start sz of
        None \<Rightarrow> Some (Inl InvalidParam, ms)
      | Some rng \<Rightarrow>
          if range_is_empty rng then Some (Inr (), ms)
          else do {
            prep \<leftarrow> prepare_unmap_metadata B ms rng;
            (case prep of
               Inl err \<Rightarrow> Some (Inl err, ms)
             | Inr prepared \<Rightarrow> do {
                 g \<leftarrow> gap_index_release (ms_gaps ms) (ar_start rng) (ar_end rng);
                 Some (Inr (), ms\<lparr>ms_areas := prepared, ms_gaps := g\<rparr>)
               })
          })"

definition unmap_exact ::
  "('b, 'f, 'c, 'p) mapping_backend \<Rightarrow> ('b, 'f) memory_set \<Rightarrow> usize \<Rightarrow> usize \<Rightarrow> 'c \<times> 'p \<Rightarrow>
     ('b, 'f, 'c, 'p, ('b, 'f) memory_area) ms_outcome" where
  "unmap_exact B ms start sz env =
     (case addr_checked_add start sz of
        None \<Rightarrow> Some (Inl InvalidParam, ms, env)
      | Some e \<Rightarrow>
        (case bt_get (ms_areas ms) start of
           None \<Rightarrow> Some (Inl InvalidParam, ms, env)
         | Some a \<Rightarrow>
             if area_end a \<noteq> e then Some (Inl InvalidParam, ms, env)
             else case validate_unmap_range B a start sz (snd env) of
               Inl _ \<Rightarrow> Some (Inl BadState, ms, env)
             | Inr _ \<Rightarrow>
                 let (ok, env') = b_unmap B (ma_backend a) start sz env in
                 if \<not> ok then Some (Inl BadState, ms, env')
                 else do {
                   g \<leftarrow> gap_index_release (ms_gaps ms) start e;
                   Some (Inr a, ms\<lparr>ms_areas := bt_remove start (ms_areas ms), ms_gaps := g\<rparr>, env')
                 }))"

fun validate_all ::
  "('b, 'f, 'c, 'p) mapping_backend \<Rightarrow> ('b, 'f) memory_area list \<Rightarrow> 'p \<Rightarrow> unit mapping_result" where
  "validate_all B [] pt = Inr ()"
| "validate_all B (a # as) pt =
     (case validate_unmap_range B a (area_start a) (area_size a) pt of
        Inl err \<Rightarrow> Inl err
      | Inr _ \<Rightarrow> validate_all B as pt)"

fun unmap_all ::
  "('b, 'f, 'c, 'p) mapping_backend \<Rightarrow> nat \<Rightarrow> ('b, 'f) memory_area list \<Rightarrow> 'c \<times> 'p \<Rightarrow>
     unit mapping_result \<times> 'c \<times> 'p" where
  "unmap_all B index [] env = (Inr (), env)"
| "unmap_all B index (a # as) env =
     (case unmap_area B a env of
        (Inl err, env') \<Rightarrow> (Inl (if index = 0 then err else NeedsRepair), env')
      | (Inr _, env') \<Rightarrow> unmap_all B (Suc index) as env')"

definition ms_clear ::
  "('b, 'f, 'c, 'p) mapping_backend \<Rightarrow> ('b, 'f) memory_set \<Rightarrow> 'c \<times> 'p \<Rightarrow>
     unit mapping_result \<times> ('b, 'f) memory_set \<times> 'c \<times> 'p" where
  "ms_clear B ms env =
     (case validate_all B (bt_values (ms_areas ms)) (snd env) of
        Inl err \<Rightarrow> (Inl err, ms, env)
      | Inr _ \<Rightarrow>
          (case unmap_all B 0 (bt_values (ms_areas ms)) env of
             (Inl err, env') \<Rightarrow> (Inl err, ms, env')
           | (Inr _, env') \<Rightarrow> (Inr (), ms\<lparr>ms_areas := [], ms_gaps := gap_index_new\<rparr>, env')))"


section \<open>Mapping\<close>

definition ms_map ::
  "('b, 'f, 'c, 'p) mapping_backend \<Rightarrow> ('b, 'f) memory_set \<Rightarrow> ('b, 'f) memory_area \<Rightarrow> 'c \<times> 'p \<Rightarrow> bool \<Rightarrow>
     ('b, 'f, 'c, 'p, unit) ms_outcome" where
  "ms_map B ms a env unmap_overlap =
     (if range_is_empty (ma_range a) then Some (Inl InvalidParam, ms, env)
      else let
        overlaps = ms_overlaps ms (ma_range a);
        backup = (if overlaps then Some ms else None);
        restore = (\<lambda>rng env. case backup of
            None \<Rightarrow> (True, env)
          | Some old \<Rightarrow> restore_overlapped_mappings B (bt_values (ms_areas old)) rng env)
      in do {
        (r1, ms1, env1) \<leftarrow>
          (if overlaps then
             (if unmap_overlap then ms_unmap B ms (area_start a) (area_size a) env
              else Some (Inl AlreadyExists, ms, env))
           else Some (area_validate_map B a (snd env), ms, env));
        (case r1 of
           Inl err \<Rightarrow> Some (Inl err, ms1, env1)
         | Inr _ \<Rightarrow>
             (case map_area B a env1 of
                (Inl err, env2) \<Rightarrow>
                  let (reverted_new, env3) = b_unmap B (ma_backend a) (area_start a) (area_size a) env2;
                      (restored_old, env4) = restore (ma_range a) env3;
                      ms2 = (case backup of Some old \<Rightarrow> old | None \<Rightarrow> ms1) in
                  Some (Inl (if \<not> reverted_new \<or> \<not> restored_old then NeedsRepair else err), ms2, env4)
              | (Inr _, env2) \<Rightarrow>
                  let ms2 = ms1\<lparr>ms_areas := bt_insert (area_start a) a (ms_areas ms1)\<rparr> in
                  (case bt_get (ms_areas ms1) (area_start a) of
                     Some _ \<Rightarrow>
                       let (reverted_new, env3) =
                         b_unmap B (ma_backend a) (area_start a) (area_size a) env2 in
                       do {
                         (restored_old, env4) \<leftarrow>
                           (case backup of
                              None \<Rightarrow> Some (True, env3)
                            | Some old \<Rightarrow> do {
                                rng \<leftarrow> range_from_start_size (area_start a) (area_size a);
                                Some (restore rng env3)
                              });
                         let ms3 = (case backup of Some old \<Rightarrow> old | None \<Rightarrow> ms2);
                         Some (Inl (if reverted_new \<and> restored_old then BadState else NeedsRepair),
                           ms3, env4)
                       }
                   | None \<Rightarrow>
                       (case addr_checked_add (area_start a) (area_size a) of
                          None \<Rightarrow> Some (Inl InvalidParam, ms2, env2)
                        | Some e \<Rightarrow> do {
                            g \<leftarrow> gap_index_occupy (ms_gaps ms2) (area_start a) e;
                            Some (Inr (), ms2\<lparr>ms_gaps := g\<rparr>, env2)
                          }))))
      })"

definition insert_prepared_area ::
  "('b, 'f) memory_set \<Rightarrow> ('b, 'f) memory_area \<Rightarrow>
     (unit mapping_result \<times> ('b, 'f) memory_set) option" where
  "insert_prepared_area ms a =
     (if range_is_empty (ma_range a) then Some (Inl InvalidParam, ms)
      else if ms_overlaps ms (ma_range a) then Some (Inl AlreadyExists, ms)
      else let ms' = ms\<lparr>ms_areas := bt_insert (area_start a) a (ms_areas ms)\<rparr> in
        case bt_get (ms_areas ms) (area_start a) of
          Some _ \<Rightarrow> Some (Inl BadState, ms')
        | None \<Rightarrow> do {
            g \<leftarrow> gap_index_occupy (ms_gaps ms) (ar_start (ma_range a)) (ar_end (ma_range a));
            Some (Inr (), ms'\<lparr>ms_gaps := g\<rparr>)
          })"

definition replace_exact_backend ::
  "('b, 'f) memory_set \<Rightarrow> usize \<Rightarrow> usize \<Rightarrow> 'b \<Rightarrow> 'b mapping_result \<times> ('b, 'f) memory_set" where
  "replace_exact_backend ms start sz be =
     (case addr_checked_add start sz of
        None \<Rightarrow> (Inl InvalidParam, ms)
      | Some e \<Rightarrow>
        (case bt_get (ms_areas ms) start of
           None \<Rightarrow> (Inl InvalidParam, ms)
         | Some a \<Rightarrow>
             if area_end a \<noteq> e then (Inl InvalidParam, ms)
             else let (old, a') = replace_backend a be in
               (Inr old, ms\<lparr>ms_areas := bt_insert start a' (ms_areas ms)\<rparr>)))"

section \<open>Replacing metadata\<close>

definition containing_area_for_metadata_replacement ::
  "('b, 'f) memory_set \<Rightarrow> ('b, 'f) memory_area \<Rightarrow> usize mapping_result" where
  "containing_area_for_metadata_replacement ms a =
     (if range_is_empty (ma_range a) then Inl InvalidParam
      else case bt_last_upto (area_start a) (ms_areas ms) of
        None \<Rightarrow> Inl InvalidParam
      | Some (k, old) \<Rightarrow>
          if area_start old \<le> area_start a \<and> area_end a \<le> area_end old then Inr k
          else Inl InvalidParam)"

definition validate_area_metadata_replacement ::
  "('b, 'f) memory_set \<Rightarrow> ('b, 'f) memory_area \<Rightarrow> unit mapping_result" where
  "validate_area_metadata_replacement ms a =
     map_sum id (\<lambda>_. ()) (containing_area_for_metadata_replacement ms a)"

text \<open>The closure of \<open>replace_area_metadata\<close> on the area map; \<open>split(..)?.ok_or(BadState)?\<close> is
  \<open>split_part\<close>, which returns the right part and the remaining left part.\<close>

definition split_part ::
  "('b, 'f, 'c, 'p) mapping_backend \<Rightarrow> ('b, 'f) memory_area \<Rightarrow> usize \<Rightarrow>
     (('b, 'f) memory_area \<times> ('b, 'f) memory_area) mapping_result option" where
  "split_part B a pos = do {
     (r, left) \<leftarrow> area_split B a pos;
     Some (case r of
        Inl err \<Rightarrow> Inl err
      | Inr None \<Rightarrow> Inl BadState
      | Inr (Some right) \<Rightarrow> Inr (right, left))
   }"

definition replace_stage_right ::
  "('b, 'f, 'c, 'p) mapping_backend \<Rightarrow> ('b, 'f) memory_area \<Rightarrow> ('b, 'f) memory_area \<Rightarrow>
     ('b, 'f) memory_area btree \<Rightarrow> ('b, 'f) memory_area btree mapping_result option" where
  "replace_stage_right B a old m = do {
     r \<leftarrow> (if area_end old > area_end a then do {
             sp \<leftarrow> split_part B old (area_end a);
             Some (case sp of
                Inl err \<Rightarrow> Inl err
              | Inr (right_part, _) \<Rightarrow> Inr (bt_insert (area_start right_part) right_part m))
           }
           else Some (Inr m));
     Some (case r of
        Inl err \<Rightarrow> Inl err
      | Inr m' \<Rightarrow>
          (case bt_get m' (area_start a) of
             Some _ \<Rightarrow> Inl AlreadyExists
           | None \<Rightarrow> Inr (bt_insert (area_start a) a m')))
   }"

definition replace_areas ::
  "('b, 'f, 'c, 'p) mapping_backend \<Rightarrow> ('b, 'f) memory_area \<Rightarrow> usize \<Rightarrow> ('b, 'f) memory_area btree \<Rightarrow>
     ('b, 'f) memory_area btree mapping_result option" where
  "replace_areas B a old_start m =
     (case bt_get m old_start of
        None \<Rightarrow> Some (Inl BadState)
      | Some old_area \<Rightarrow>
          if old_start < area_start a
          then do {
            sp \<leftarrow> split_part B old_area (area_start a);
            (case sp of
               Inl err \<Rightarrow> Some (Inl err)
             | Inr (right_part, left) \<Rightarrow>
                 replace_stage_right B a right_part (bt_insert old_start left (bt_remove old_start m)))
          }
          else replace_stage_right B a old_area (bt_remove old_start m))"

definition replace_area_metadata ::
  "('b, 'f, 'c, 'p) mapping_backend \<Rightarrow> ('b, 'f) memory_set \<Rightarrow> ('b, 'f) memory_area \<Rightarrow>
     (unit mapping_result \<times> ('b, 'f) memory_set) option" where
  "replace_area_metadata B ms a =
     (case containing_area_for_metadata_replacement ms a of
        Inl err \<Rightarrow> Some (Inl err, ms)
      | Inr old_start \<Rightarrow> do {
          r \<leftarrow> replace_areas B a old_start (ms_areas ms);
          Some (case r of
             Inl err \<Rightarrow> (Inl err, ms)
           | Inr m \<Rightarrow> (Inr (), ms\<lparr>ms_areas := m\<rparr>))
        })"

section \<open>Changing protection\<close>

record 'f protect_op =
  po_area :: usize
  po_start :: usize
  po_end :: usize
  po_old_flags :: 'f
  po_new_flags :: 'f
  po_new_reported :: 'f

fun protect_operations ::
  "usize \<Rightarrow> usize \<Rightarrow> ('f \<Rightarrow> 'f \<Rightarrow> ('f \<times> 'f) option) \<Rightarrow> ('b, 'f) memory_area btree \<Rightarrow> 'f protect_op list" where
  "protect_operations s e update_flags [] = []"
| "protect_operations s e update_flags ((k, a) # m) =
     (if k \<ge> e then []
      else if area_end a \<le> s then protect_operations s e update_flags m
      else case update_flags (ma_flags a) (ma_reported a) of
        Some (new_flags, new_reported) \<Rightarrow>
          \<lparr>po_area = k, po_start = max k s, po_end = min (area_end a) e, po_old_flags = ma_flags a,
           po_new_flags = new_flags, po_new_reported = new_reported\<rparr>
          # protect_operations s e update_flags m
      | None \<Rightarrow> protect_operations s e update_flags m)"

text \<open>One operation on the prepared map: the part before the protected range and the part after it
  are split off and put back, the middle part gets the new flags.\<close>

definition prepare_tail ::
  "('b, 'f, 'c, 'p) mapping_backend \<Rightarrow> 'f protect_op \<Rightarrow> ('b, 'f) memory_area \<Rightarrow>
     ('b, 'f) memory_area btree \<Rightarrow> ('b, 'f) memory_area btree mapping_result option" where
  "prepare_tail B op middle prepared = do {
     r \<leftarrow> (if po_end op < area_end middle then do {
         sp \<leftarrow> split_part B middle (po_end op);
         Some (case sp of
            Inl err \<Rightarrow> Inl err
          | Inr (right, middle') \<Rightarrow> Inr (middle', bt_insert (area_start right) right prepared))
       }
       else Some (Inr (middle, prepared)));
     Some (case r of
        Inl err \<Rightarrow> Inl err
      | Inr (middle', prepared') \<Rightarrow>
          let new_middle = set_flags_with_reported_flags middle' (po_new_flags op)
            (po_new_reported op) in
          Inr (bt_insert (area_start new_middle) new_middle prepared'))
   }"

definition prepare_one ::
  "('b, 'f, 'c, 'p) mapping_backend \<Rightarrow> 'f protect_op \<Rightarrow> ('b, 'f) memory_area btree \<Rightarrow>
     ('b, 'f) memory_area btree mapping_result option" where
  "prepare_one B op prepared =
     (case bt_get prepared (po_area op) of
        None \<Rightarrow> Some (Inl BadState)
      | Some middle \<Rightarrow>
          let prepared' = bt_remove (po_area op) prepared in
          if po_area op < po_start op then do {
            sp \<leftarrow> split_part B middle (po_start op);
            (case sp of
               Inl err \<Rightarrow> Some (Inl err)
             | Inr (right, middle') \<Rightarrow>
                 prepare_tail B op right (bt_insert (po_area op) middle' prepared'))
          }
          else prepare_tail B op middle prepared')"

fun prepare_protect ::
  "('b, 'f, 'c, 'p) mapping_backend \<Rightarrow> ('b, 'f) memory_area btree \<Rightarrow> 'p \<Rightarrow> 'f protect_op list \<Rightarrow>
     ('b, 'f) memory_area btree \<Rightarrow> ('b, 'f) memory_area btree mapping_result option" where
  "prepare_protect B areas pt [] prepared = Some (Inr prepared)"
| "prepare_protect B areas pt (op # ops) prepared = do {
     original \<leftarrow> bt_get areas (po_area op);
     n \<leftarrow> addr_sub_addr (po_end op) (po_start op);
     (if \<not> b_validate_protect B (ma_backend original) (po_start op) n (po_new_flags op) pt
      then Some (Inl BadState)
      else do {
        r \<leftarrow> prepare_one B op prepared;
        (case r of
           Inl err \<Rightarrow> Some (Inl err)
         | Inr prepared' \<Rightarrow> prepare_protect B areas pt ops prepared')
      })
   }"

fun rollback_protect ::
  "('b, 'f, 'c, 'p) mapping_backend \<Rightarrow> ('b, 'f) memory_area btree \<Rightarrow> 'f protect_op list \<Rightarrow> bool \<Rightarrow>
     'c \<times> 'p \<Rightarrow> (bool \<times> 'c \<times> 'p) option" where
  "rollback_protect B areas [] restored env = Some (restored, env)"
| "rollback_protect B areas (op # ops) restored env = do {
     a \<leftarrow> bt_get areas (po_area op);
     n \<leftarrow> addr_sub_addr (po_end op) (po_start op);
     let (r, env') = protect_range B a (po_start op) n (po_old_flags op) env;
     rollback_protect B areas ops (restored \<and> (case r of Inr _ \<Rightarrow> True | Inl _ \<Rightarrow> False)) env'
   }"

text \<open>\<open>finished\<close> holds the operations already applied, the most recent one first.\<close>

fun apply_protect ::
  "('b, 'f, 'c, 'p) mapping_backend \<Rightarrow> ('b, 'f) memory_area btree \<Rightarrow> 'f protect_op list \<Rightarrow>
     'f protect_op list \<Rightarrow> 'c \<times> 'p \<Rightarrow> (unit mapping_result \<times> 'c \<times> 'p) option" where
  "apply_protect B areas finished [] env = Some (Inr (), env)"
| "apply_protect B areas finished (op # ops) env = do {
     a \<leftarrow> bt_get areas (po_area op);
     n \<leftarrow> addr_sub_addr (po_end op) (po_start op);
     let (r, env1) = protect_range B a (po_start op) n (po_new_flags op) env;
     (case r of
        Inl err \<Rightarrow> do {
          (restored, env2) \<leftarrow> rollback_protect B areas (op # finished) True env1;
          Some (Inl (if restored then err else NeedsRepair), env2)
        }
      | Inr _ \<Rightarrow> apply_protect B areas (op # finished) ops env1)
   }"

definition protect_with_reported_flags ::
  "('b, 'f, 'c, 'p) mapping_backend \<Rightarrow> ('b, 'f) memory_set \<Rightarrow> usize \<Rightarrow> usize \<Rightarrow>
     ('f \<Rightarrow> 'f \<Rightarrow> ('f \<times> 'f) option) \<Rightarrow> 'c \<times> 'p \<Rightarrow> ('b, 'f, 'c, 'p, unit) ms_outcome" where
  "protect_with_reported_flags B ms start sz update_flags env =
     (case addr_checked_add start sz of
        None \<Rightarrow> Some (Inl InvalidParam, ms, env)
      | Some e \<Rightarrow>
          if sz = 0 then Some (Inr (), ms, env)
          else do {
            let ops = protect_operations start e update_flags (ms_areas ms);
            prep \<leftarrow> prepare_protect B (ms_areas ms) (snd env) ops (ms_areas ms);
            (case prep of
               Inl err \<Rightarrow> Some (Inl err, ms, env)
             | Inr prepared \<Rightarrow> do {
                 (r, env') \<leftarrow> apply_protect B (ms_areas ms) [] ops env;
                 Some (case r of
                    Inl err \<Rightarrow> (Inl err, ms, env')
                  | Inr _ \<Rightarrow> (Inr (), ms\<lparr>ms_areas := prepared\<rparr>, env'))
               })
          })"

definition ms_protect ::
  "('b, 'f, 'c, 'p) mapping_backend \<Rightarrow> ('b, 'f) memory_set \<Rightarrow> usize \<Rightarrow> usize \<Rightarrow>
     ('f \<Rightarrow> 'f option) \<Rightarrow> 'c \<times> 'p \<Rightarrow> ('b, 'f, 'c, 'p, unit) ms_outcome" where
  "ms_protect B ms start sz update_flags env =
     protect_with_reported_flags B ms start sz
       (\<lambda>fl _. map_option (\<lambda>new_flags. (new_flags, new_flags)) (update_flags fl)) env"

end
