(* ===== verification/MemorySetInv.thy ===== *)
theory MemorySetInv
  imports MemorySet
begin

text \<open>
  The invariant of a memory set and the correctness of its operations. A set stands for the partial
  function \<open>attrs_at\<close> from addresses to the permissions of the area around them; the operations are
  shown to change it as specified, to keep the invariant, and to leave the set alone when they fail,
  whatever the mapping backend does.
\<close>

section \<open>Well-formed area maps\<close>

definition areas_wf :: "('b, 'f) memory_area btree \<Rightarrow> bool" where
  "areas_wf m \<longleftrightarrow> bt_wf m \<and> (\<forall>kv\<in>set m. fst kv = area_start (snd kv) \<and> area_ok (snd kv)) \<and>
     (\<forall>x\<in>set m. \<forall>y\<in>set m. fst x < fst y \<longrightarrow> area_end (snd x) \<le> fst y)"

definition area_at :: "('b, 'f) memory_area btree \<Rightarrow> usize \<Rightarrow> ('b, 'f) memory_area option" where
  "area_at m x = map_option snd (List.find (\<lambda>kv. area_start (snd kv) \<le> x \<and> x < area_end (snd kv)) m)"

definition attrs_at :: "('b, 'f) memory_area btree \<Rightarrow> usize \<Rightarrow> ('f \<times> 'f \<times> 'f) option" where
  "attrs_at m x = map_option area_attrs (area_at m x)"

definition mapped :: "('b, 'f) memory_area btree \<Rightarrow> usize set" where
  "mapped m = (\<Union>kv\<in>set m. area_addrs (snd kv))"

definition ms_inv :: "('b, 'f) memory_set \<Rightarrow> bool" where
  "ms_inv ms \<longleftrightarrow> areas_wf (ms_areas ms) \<and> gap_index_inv (ms_gaps ms) \<and>
     gap_free (ms_gaps ms) = - mapped (ms_areas ms)"

lemma areas_wf_bt [simp]: "areas_wf m \<Longrightarrow> bt_wf m"
  by (simp add: areas_wf_def)

lemma areas_wf_memberD:
  assumes "areas_wf m" "(k, a) \<in> set m"
  shows "k = area_start a" "area_ok a"
  using assms by (auto simp: areas_wf_def)

lemma areas_wf_order:
  assumes "areas_wf m" "(k, a) \<in> set m" "(k', a') \<in> set m" "k < k'"
  shows "area_end a \<le> k'"
proof -
  have "\<forall>x\<in>set m. \<forall>y\<in>set m. fst x < fst y \<longrightarrow> area_end (snd x) \<le> fst y"
    using assms(1) unfolding areas_wf_def by blast
  from this [rule_format, OF assms(2,3)] assms(4) show ?thesis
    by simp
qed

lemma areas_wf_key_unique:
  assumes "areas_wf m" "(k, a) \<in> set m" "(k, a') \<in> set m"
  shows "a = a'"
proof -
  have "bt_get m k = Some a" "bt_get m k = Some a'"
    using assms by (simp_all add: bt_get_iff)
  then show ?thesis
    by simp
qed

lemma option_ext: "(\<And>b. x = Some b \<longleftrightarrow> y = Some b) \<Longrightarrow> x = y"
  by (cases x; cases y) auto

lemma find_SomeD: "List.find P xs = Some x \<Longrightarrow> x \<in> set xs \<and> P x"
  by (induction xs) (auto split: if_splits)

lemma areas_wf_disjoint:
  assumes "areas_wf m" "(k, a) \<in> set m" "(k', a') \<in> set m" "x \<in> area_addrs a" "x \<in> area_addrs a'"
  shows "k = k' \<and> a = a'"
proof -
  have "\<not> k < k'" "\<not> k' < k"
    using areas_wf_order [OF assms(1,2,3)] areas_wf_order [OF assms(1,3,2)]
      areas_wf_memberD [OF assms(1,2)] areas_wf_memberD [OF assms(1,3)] assms(4,5)
    by (auto simp: area_addrs_def)
  with areas_wf_key_unique [OF assms(1,2)] assms(3) show ?thesis
    by (metis nat_neq_iff)
qed

lemma area_at_None: "area_at m x = None \<longleftrightarrow> x \<notin> mapped m"
  by (auto simp: area_at_def mapped_def find_None_iff area_addrs_def)

lemma area_at_Some:
  assumes "areas_wf m"
  shows "area_at m x = Some a \<longleftrightarrow> (area_start a, a) \<in> set m \<and> x \<in> area_addrs a"
proof
  assume "area_at m x = Some a"
  then obtain k where "List.find (\<lambda>kv. area_start (snd kv) \<le> x \<and> x < area_end (snd kv)) m = Some (k, a)"
    by (auto simp: area_at_def)
  then have "(k, a) \<in> set m" "area_start a \<le> x" "x < area_end a"
    by (auto dest: find_SomeD)
  with areas_wf_memberD(1) [OF assms] show "(area_start a, a) \<in> set m \<and> x \<in> area_addrs a"
    by (auto simp: area_addrs_def)
next
  assume a: "(area_start a, a) \<in> set m \<and> x \<in> area_addrs a"
  then have "x \<in> mapped m"
    by (force simp: mapped_def)
  then obtain b where b: "area_at m x = Some b"
    using area_at_None [of m x] by auto
  then obtain k where "(k, b) \<in> set m" "x \<in> area_addrs b"
    by (auto simp: area_at_def area_addrs_def dest: find_SomeD)
  with areas_wf_disjoint [OF assms, of "area_start a" a k b x] a have "a = b"
    by simp
  with b show "area_at m x = Some a"
    by simp
qed

lemma area_at_memberI:
  "areas_wf m \<Longrightarrow> (k, a) \<in> set m \<Longrightarrow> x \<in> area_addrs a \<Longrightarrow> area_at m x = Some a"
  using area_at_Some areas_wf_memberD(1) by blast

lemma attrs_at_memberI:
  "areas_wf m \<Longrightarrow> (k, a) \<in> set m \<Longrightarrow> x \<in> area_addrs a \<Longrightarrow> attrs_at m x = Some (area_attrs a)"
  by (simp add: attrs_at_def area_at_memberI)

lemma dom_attrs_at: "dom (attrs_at m) = mapped m"
  by (simp add: attrs_at_def dom_def area_at_None)

lemma mapped_iff: "x \<in> mapped m \<longleftrightarrow> attrs_at m x \<noteq> None"
  using dom_attrs_at [of m] by blast

lemma attrs_at_None: "x \<notin> mapped m \<Longrightarrow> attrs_at m x = None"
  by (simp add: attrs_at_def area_at_None)

lemma mapped_eqI: "attrs_at m = attrs_at m' \<Longrightarrow> mapped m = mapped m'"
  by (metis dom_attrs_at)

section \<open>Removing and inserting areas\<close>

lemma areas_wf_subset: "areas_wf m \<Longrightarrow> bt_wf m' \<Longrightarrow> set m' \<subseteq> set m \<Longrightarrow> areas_wf m'"
  unfolding areas_wf_def by blast

lemma areas_wf_remove [simp]: "areas_wf m \<Longrightarrow> areas_wf (bt_remove k m)"
  by (rule areas_wf_subset) auto

lemma area_at_remove:
  assumes wf: "areas_wf m" and a: "(k, a) \<in> set m"
  shows "area_at (bt_remove k m) x = (if x \<in> area_addrs a then None else area_at m x)"
proof -
  have "area_at (bt_remove k m) x = Some b \<longleftrightarrow> x \<notin> area_addrs a \<and> area_at m x = Some b" for b
    using areas_wf_disjoint [OF wf a, of _ b x] areas_wf_key_unique [OF wf a, of b]
    by (auto simp: area_at_Some wf)
  then show ?thesis
    by (intro option_ext) simp
qed

lemma attrs_at_remove:
  "areas_wf m \<Longrightarrow> (k, a) \<in> set m \<Longrightarrow>
   attrs_at (bt_remove k m) x = (if x \<in> area_addrs a then None else attrs_at m x)"
  by (simp add: attrs_at_def area_at_remove)

lemma mapped_remove:
  "areas_wf m \<Longrightarrow> (k, a) \<in> set m \<Longrightarrow> mapped (bt_remove k m) = mapped m - area_addrs a"
  using attrs_at_remove [of m k a] by (simp add: set_eq_iff mapped_iff)

lemma area_addrs_start: "area_ok a \<Longrightarrow> area_start a \<in> area_addrs a"
  by (simp add: area_ok_def area_addrs_def)

lemma fresh_key:
  assumes "areas_wf m" "area_ok a" "area_addrs a \<inter> mapped m = {}" "(k, b) \<in> set m"
  shows "k \<noteq> area_start a"
proof
  assume "k = area_start a"
  with areas_wf_memberD [OF assms(1,4)] have "area_start a \<in> area_addrs b"
    using area_addrs_start [of b] by simp
  with assms(4) have "area_start a \<in> mapped m"
    by (force simp: mapped_def)
  with assms(3) area_addrs_start [OF assms(2)] show False
    by blast
qed

lemma set_insert_fresh:
  assumes "areas_wf m" "area_ok a" "area_addrs a \<inter> mapped m = {}"
  shows "set (bt_insert (area_start a) a m) = insert (area_start a, a) (set m)"
proof -
  have "{kv \<in> set m. fst kv \<noteq> area_start a} = set m"
    using fresh_key [OF assms] by force
  with assms(1) show ?thesis
    by (simp add: set_bt_insert)
qed

lemma areas_wf_insert:
  assumes wf: "areas_wf m" and ok: "area_ok a" and free: "area_addrs a \<inter> mapped m = {}"
  shows "areas_wf (bt_insert (area_start a) a m)"
proof -
  have other: "area_end b \<le> area_start a \<or> area_end a \<le> area_start b"
    if "(k, b) \<in> set m" for k b
  proof -
    have "area_addrs a \<inter> area_addrs b = {}"
      using free that by (force simp: mapped_def)
    moreover have "area_ok b"
      using areas_wf_memberD [OF wf that] by simp
    ultimately show ?thesis
      using ok by (auto simp: area_addrs_def area_ok_def)
  qed
  note set = set_insert_fresh [OF assms]
  show ?thesis
    unfolding areas_wf_def
  proof (intro conjI ballI impI)
    show "bt_wf (bt_insert (area_start a) a m)"
      using wf by (simp add: bt_wf_insert)
    fix x y
    assume x: "x \<in> set (bt_insert (area_start a) a m)"
    then show "fst x = area_start (snd x)" "area_ok (snd x)"
      using wf ok by (auto simp: set areas_wf_def)
    assume y: "y \<in> set (bt_insert (area_start a) a m)" and less: "fst x < fst y"
    consider "x = (area_start a, a)" "y \<in> set m" | "x \<in> set m" "y = (area_start a, a)"
      | "x \<in> set m" "y \<in> set m"
      using x y less unfolding set by auto
    then show "area_end (snd x) \<le> fst y"
    proof cases
      case 1
      with other [of "fst y" "snd y"] less ok wf show ?thesis
        by (auto simp: areas_wf_def area_ok_def)
    next
      case 2
      with other [of "fst x" "snd x"] less ok wf show ?thesis
        by (auto simp: areas_wf_def area_ok_def)
    next
      case 3
      with areas_wf_order [OF wf, of "fst x" "snd x" "fst y" "snd y"] less show ?thesis
        by simp
    qed
  qed
qed

lemma mapped_insert:
  assumes "areas_wf m" "area_ok a" "area_addrs a \<inter> mapped m = {}"
  shows "mapped (bt_insert (area_start a) a m) = area_addrs a \<union> mapped m"
  by (simp add: mapped_def set_insert_fresh [OF assms])

lemma area_at_insert:
  assumes "areas_wf m" "area_ok a" "area_addrs a \<inter> mapped m = {}"
  shows "area_at (bt_insert (area_start a) a m) x = (if x \<in> area_addrs a then Some a else area_at m x)"
proof (rule option_ext)
  fix b
  have "x \<in> area_addrs a \<Longrightarrow> area_at m x \<noteq> Some b"
    using assms(3) area_at_None [of m x] by fastforce
  then show "area_at (bt_insert (area_start a) a m) x = Some b \<longleftrightarrow>
      (if x \<in> area_addrs a then Some a else area_at m x) = Some b"
    using assms(1) area_at_Some [OF areas_wf_insert [OF assms], of x b]
    by (auto simp: area_at_Some set_insert_fresh [OF assms])
qed

lemma attrs_at_insert:
  assumes "areas_wf m" "area_ok a" "area_addrs a \<inter> mapped m = {}"
  shows "attrs_at (bt_insert (area_start a) a m) x =
    (if x \<in> area_addrs a then Some (area_attrs a) else attrs_at m x)"
  by (simp add: attrs_at_def area_at_insert [OF assms])

lemma bt_insert_front: "\<forall>x\<in>set m. k < fst x \<Longrightarrow> bt_insert k v m = (k, v) # m"
  by (cases m) auto

lemma bt_insert_remove: "bt_wf m \<Longrightarrow> bt_insert k v (bt_remove k m) = bt_insert k v m"
proof (induction m)
  case (Cons kv m)
  then have "bt_remove k m = m" if "k \<le> fst kv"
    using that by (force simp: bt_remove_def filter_id_conv)
  with Cons show ?case
    by (cases kv) (auto simp: bt_remove_def bt_insert_front)
qed (simp add: bt_remove_def)

section \<open>Queries\<close>

lemma last_upto_area_at:
  assumes wf: "areas_wf m" and last: "bt_last_upto x m = Some (k, a)"
  shows "area_at m x = (if range_contains (ma_range a) x then Some a else None)"
proof -
  from bt_last_upto_Some [OF _ last] wf have a: "(k, a) \<in> set m" "k \<le> x"
    and greatest: "\<And>k' b. (k', b) \<in> set m \<Longrightarrow> k' \<le> x \<Longrightarrow> k' \<le> k"
    by force+
  have k: "k = area_start a"
    using areas_wf_memberD [OF wf a(1)] by simp
  show ?thesis
  proof (cases "range_contains (ma_range a) x")
    case True
    with area_at_memberI [OF wf a(1)] show ?thesis
      by (simp add: range_contains_def area_addrs_def area_start_def area_end_def)
  next
    case False
    have "area_at m x \<noteq> Some b" for b
    proof
      assume "area_at m x = Some b"
      then have b: "(area_start b, b) \<in> set m" "area_start b \<le> x" "x < area_end b"
        by (auto simp: area_at_Some [OF wf] area_addrs_def)
      have "area_start b = k"
      proof (rule ccontr)
        assume "area_start b \<noteq> k"
        with greatest [OF b(1,2)] areas_wf_order [OF wf b(1) a(1)] b(3) a(2) show False
          by simp
      qed
      with areas_wf_key_unique [OF wf a(1)] b False k show False
        by (auto simp: range_contains_def area_start_def area_end_def)
    qed
    with False show ?thesis
      by (cases "area_at m x") auto
  qed
qed

lemma last_upto_None_area_at: "areas_wf m \<Longrightarrow> bt_last_upto x m = None \<Longrightarrow> area_at m x = None"
  by (rule ccontr) (force simp: bt_last_upto_None area_at_Some area_addrs_def)

lemma ms_find_eq: "areas_wf (ms_areas ms) \<Longrightarrow> ms_find ms x = area_at (ms_areas ms) x"
  by (auto simp: ms_find_def last_upto_area_at last_upto_None_area_at split: option.split)

lemma containing_key_eq:
  assumes wf: "areas_wf (ms_areas ms)"
  shows "containing_key ms x = map_option area_start (area_at (ms_areas ms) x)"
proof (cases "bt_last_upto x (ms_areas ms)")
  case None
  with last_upto_None_area_at [OF wf] show ?thesis
    by (simp add: containing_key_def)
next
  case (Some ka)
  obtain k a where [simp]: "ka = (k, a)"
    by (cases ka)
  have "k = area_start a"
    using bt_last_upto_Some [of "ms_areas ms" x ka] wf Some areas_wf_memberD [OF wf] by simp
  with Some last_upto_area_at [OF wf, of x k a] show ?thesis
    by (simp add: containing_key_def)
qed

lemma range_overlaps_area:
  "range_overlaps (ma_range a) rng \<longleftrightarrow> area_start a < ar_end rng \<and> ar_start rng < area_end a"
  by (simp add: range_overlaps_def area_start_def area_end_def)

lemma overlapping_area:
  assumes "area_ok a" "\<not> range_is_empty rng"
  shows "range_overlaps (ma_range a) rng \<longleftrightarrow> area_addrs a \<inter> range_set rng \<noteq> {}"
proof -
  have "max (area_start a) (ar_start rng) \<in> area_addrs a \<inter> range_set rng"
    if "range_overlaps (ma_range a) rng"
    using that assms by (auto simp: range_overlaps_area area_addrs_def range_set_def area_ok_def
        range_is_empty_def)
  then show ?thesis
    by (auto simp: range_overlaps_area area_addrs_def range_set_def)
qed

lemma ms_overlaps_iff:
  assumes wf: "areas_wf (ms_areas ms)" and ne: "\<not> range_is_empty rng"
  shows "ms_overlaps ms rng \<longleftrightarrow> range_set rng \<inter> mapped (ms_areas ms) \<noteq> {}"
proof
  assume "ms_overlaps ms rng"
  then obtain k a where "(k, a) \<in> set (ms_areas ms)" "range_overlaps (ma_range a) rng"
    using bt_last_before_Some [of "ms_areas ms"] bt_first_from_Some [of "ms_areas ms"] wf
    unfolding ms_overlaps_def by (auto split: option.splits) (blast+)
  with overlapping_area [OF areas_wf_memberD(2) [OF wf] ne] show
    "range_set rng \<inter> mapped (ms_areas ms) \<noteq> {}"
    by (force simp: mapped_def)
next
  assume "range_set rng \<inter> mapped (ms_areas ms) \<noteq> {}"
  then obtain x k a where "x \<in> range_set rng" "x \<in> area_addrs a" "(k, a) \<in> set (ms_areas ms)"
    by (auto simp: mapped_def)
  then have a: "(k, a) \<in> set (ms_areas ms)" "area_addrs a \<inter> range_set rng \<noteq> {}"
    by blast+
  then have ov: "area_start a < ar_end rng" "ar_start rng < area_end a" and k: "k = area_start a"
    using overlapping_area [OF areas_wf_memberD(2) [OF wf a(1)] ne] areas_wf_memberD [OF wf a(1)]
    by (auto simp: range_overlaps_area)
  show "ms_overlaps ms rng"
  proof (cases "k < ar_start rng")
    case True
    then obtain k' b where b: "bt_last_before (ar_start rng) (ms_areas ms) = Some (k', b)"
      using a(1) bt_last_before_None [of "ar_start rng" "ms_areas ms"] by fastforce
    from bt_last_before_Some [OF _ b] wf a(1) True have
      b': "(k', b) \<in> set (ms_areas ms)" "k' < ar_start rng" "k \<le> k'"
      by force+
    have "k' = k"
      using areas_wf_order [OF wf a(1) b'(1)] b' ov by force
    with areas_wf_key_unique [OF wf a(1)] b'(1) b ov show ?thesis
      by (auto simp: ms_overlaps_def range_overlaps_area)
  next
    case False
    then obtain k' b where b: "bt_first_from (ar_start rng) (ms_areas ms) = Some (k', b)"
      using a(1) bt_first_from_None [of "ar_start rng" "ms_areas ms"] by fastforce
    from bt_first_from_Some [OF _ b] wf a(1) False have
      b': "(k', b) \<in> set (ms_areas ms)" "ar_start rng \<le> k'" "k' \<le> k"
      by force+
    have "range_overlaps (ma_range b) rng"
      using areas_wf_memberD [OF wf b'(1)] b' ov k by (auto simp: range_overlaps_area area_ok_def)
    with b show ?thesis
      by (simp add: ms_overlaps_def)
  qed
qed


lemma iter_overlapping_eq:
  assumes wf: "areas_wf (ms_areas ms)" and ne: "\<not> range_is_empty rng"
  shows "iter_overlapping ms rng =
    Some (filter (\<lambda>a. range_overlaps (ma_range a) rng) (bt_values (ms_areas ms)))"
proof -
  let ?m = "ms_areas ms" and ?s = "ar_start rng" and ?e = "ar_end rng"
  define first where "first = (case bt_last_before ?s ?m of
      Some (k, a) \<Rightarrow> if area_end a > ?s then k else ?s | None \<Rightarrow> ?s)"
  have se: "?s < ?e"
    using ne by (simp add: range_is_empty_def)
  have "first \<le> ?s"
    using bt_last_before_Some [of ?m ?s] wf
    by (force simp: first_def split: option.split)
  have "first \<le> fst kv \<and> fst kv < ?e \<longleftrightarrow> range_overlaps (ma_range (snd kv)) rng"
    if kv: "kv \<in> set ?m" for kv
  proof -
    obtain k a where [simp]: "kv = (k, a)"
      by (cases kv)
    have ka: "k = area_start a" "area_ok a" and mem: "(k, a) \<in> set ?m"
      using areas_wf_memberD [OF wf] kv by auto
    show ?thesis
    proof (cases "k < ?s")
      case False
      with \<open>first \<le> ?s\<close> ka show ?thesis
        by (auto simp: range_overlaps_area area_ok_def)
    next
      case True
      then obtain k' b where b: "bt_last_before ?s ?m = Some (k', b)"
        using mem bt_last_before_None [of ?s ?m] by fastforce
      from bt_last_before_Some [OF _ b] wf mem True have
        b': "(k', b) \<in> set ?m" "k' < ?s" "k \<le> k'"
        by force+
      show ?thesis
      proof (cases "k = k'")
        case True
        with areas_wf_key_unique [OF wf mem] b' b ka se show ?thesis
          by (auto simp: first_def range_overlaps_area)
      next
        case False
        with areas_wf_order [OF wf mem b'(1)] b' have "area_end a \<le> k'"
          by simp
        with False b b' \<open>k < ?s\<close> show ?thesis
          by (auto simp: first_def range_overlaps_area)
      qed
    qed
  qed
  then have "filter (\<lambda>kv. first \<le> fst kv \<and> fst kv < ?e) ?m =
      filter (\<lambda>kv. range_overlaps (ma_range (snd kv)) rng) ?m"
    by (intro filter_cong) auto
  moreover have "iter_overlapping ms rng = map_option bt_values (bt_range first ?e ?m)"
    using ne by (simp add: iter_overlapping_def first_def)
  ultimately show ?thesis
    using \<open>first \<le> ?s\<close> se by (simp add: bt_range_def bt_values_def filter_map comp_def)
qed

text \<open>The areas an operation on a range touches, in address order.\<close>

definition touched :: "('b, 'f) memory_set \<Rightarrow> addr_range \<Rightarrow> ('b, 'f) memory_area list" where
  "touched ms rng = filter (\<lambda>a. range_overlaps (ma_range a) rng) (bt_values (ms_areas ms))"

lemma visit_clipped_total:
  assumes "\<forall>a\<in>set as. range_overlaps (ma_range a) rng \<and> area_ok a" "\<not> range_is_empty rng"
  shows "\<exists>r. visit_clipped as rng visit s = Some r"
  using assms
proof (induction as arbitrary: s)
  case (Cons a as)
  then have "\<exists>n. addr_sub_addr (min (area_end a) (ar_end rng)) (max (area_start a) (ar_start rng)) = Some n"
    by (auto simp: addr_sub_addr_def usize_checked_sub_def range_overlaps_area area_ok_def
        range_is_empty_def)
  then obtain n where
    "addr_sub_addr (min (area_end a) (ar_end rng)) (max (area_start a) (ar_start rng)) = Some n" ..
  with Cons show ?case
    by (auto simp: Let_def split: prod.splits sum.splits)
qed simp

lemma touched_ok:
  assumes "areas_wf (ms_areas ms)"
  shows "\<forall>a\<in>set (touched ms rng). range_overlaps (ma_range a) rng \<and> area_ok a"
  using assms by (auto simp: touched_def bt_values_def areas_wf_def)

lemma distinct_filter_eq_single: "distinct xs \<Longrightarrow> x \<in> set xs \<Longrightarrow> filter (\<lambda>y. y = x) xs = [x]"
  by (induction xs) (auto simp: filter_empty_conv)

lemma touched_single:
  assumes wf: "areas_wf (ms_areas ms)" and ne: "\<not> range_is_empty rng"
    and a: "area_at (ms_areas ms) (ar_start rng) = Some a" "ar_end rng \<le> area_end a"
  shows "touched ms rng = [a]"
proof -
  have mem: "(area_start a, a) \<in> set (ms_areas ms)" and start: "area_start a \<le> ar_start rng"
    using a(1) by (auto simp: area_at_Some [OF wf] area_addrs_def)
  have *: "range_overlaps (ma_range (snd kv)) rng \<longleftrightarrow> kv = (area_start a, a)"
    if kv: "kv \<in> set (ms_areas ms)" for kv
  proof
    assume ov: "range_overlaps (ma_range (snd kv)) rng"
    have mem': "(fst kv, snd kv) \<in> set (ms_areas ms)"
      using kv by (simp only: prod.collapse)
    have "area_ok (snd kv)"
      by (rule areas_wf_memberD [OF wf mem'])
    with ov overlapping_area [OF _ ne] obtain x where x: "x \<in> area_addrs (snd kv)" "x \<in> range_set rng"
      by blast
    then have "x \<in> area_addrs a"
      using a start by (auto simp: range_set_def area_addrs_def)
    with areas_wf_disjoint [OF wf mem' mem x(1)] show "kv = (area_start a, a)"
      by (metis prod.collapse)
  next
    assume "kv = (area_start a, a)"
    with a start ne show "range_overlaps (ma_range (snd kv)) rng"
      by (auto simp: range_overlaps_area range_is_empty_def)
  qed
  have "filter (\<lambda>kv. range_overlaps (ma_range (snd kv)) rng) (ms_areas ms) =
      filter (\<lambda>kv. kv = (area_start a, a)) (ms_areas ms)"
    using * by (intro filter_cong) auto
  also have "\<dots> = [(area_start a, a)]"
    using mem bt_wf_distinct [OF areas_wf_bt [OF wf]] distinct_map
    by (metis distinct_filter_eq_single)
  finally show ?thesis
    by (simp add: touched_def bt_values_def filter_map comp_def)
qed

lemma for_each_eq:
  assumes wf: "areas_wf (ms_areas ms)" and ne: "\<not> range_is_empty rng"
  shows "for_each_intersecting_area ms rng visit s = visit_clipped (touched ms rng) rng visit s"
proof (cases "\<exists>a. area_at (ms_areas ms) (ar_start rng) = Some a \<and> ar_end rng \<le> area_end a")
  case True
  then obtain a where a: "area_at (ms_areas ms) (ar_start rng) = Some a" "ar_end rng \<le> area_end a"
    by blast
  then have "area_start a \<le> ar_start rng"
    by (auto simp: area_at_Some [OF wf] area_addrs_def)
  with a touched_single [OF wf ne a] ne show ?thesis
    by (simp add: for_each_intersecting_area_def ms_find_eq [OF wf] max_def min_def Let_def
        addr_sub_addr_def usize_checked_sub_def range_size_eq range_is_empty_def
        split: prod.splits sum.splits)
next
  case False
  then have "(case ms_find ms (ar_start rng) of
      Some a \<Rightarrow> if area_end a \<ge> ar_end rng then Some a else None | None \<Rightarrow> None) = None"
    by (auto simp: ms_find_eq [OF wf] split: option.split)
  then show ?thesis
    by (simp add: for_each_intersecting_area_def iter_overlapping_eq [OF wf ne] touched_def)
qed

lemma for_each_total:
  assumes wf: "areas_wf (ms_areas ms)" and ne: "\<not> range_is_empty rng"
  shows "\<exists>r. for_each_intersecting_area ms rng visit s = Some r"
  unfolding for_each_eq [OF assms] by (rule visit_clipped_total [OF touched_ok [OF wf] ne])


section \<open>Cutting a range out of the area map\<close>

text \<open>An area is replaced by a part of itself.\<close>

lemma replace_part:
  assumes wf: "areas_wf m" and a: "(k, a) \<in> set m" and a': "area_ok a'" "area_addrs a' \<subseteq> area_addrs a"
  defines "m' \<equiv> bt_insert (area_start a') a' (bt_remove k m)"
  shows "areas_wf m'"
    and "attrs_at m' x =
      (if x \<in> area_addrs a' then Some (area_attrs a') else if x \<in> area_addrs a then None else attrs_at m x)"
    and "set m' = insert (area_start a', a') {kv \<in> set m. fst kv \<noteq> k}"
    and "mapped m' = area_addrs a' \<union> (mapped m - area_addrs a)"
proof -
  have free: "area_addrs a' \<inter> mapped (bt_remove k m) = {}"
    using a'(2) by (auto simp: mapped_remove [OF wf a])
  note ins = areas_wf_remove [OF wf] a'(1) free
  show "areas_wf m'"
    unfolding m'_def by (rule areas_wf_insert [OF ins])
  show "attrs_at m' x =
      (if x \<in> area_addrs a' then Some (area_attrs a') else if x \<in> area_addrs a then None else attrs_at m x)"
    unfolding m'_def attrs_at_insert [OF ins] attrs_at_remove [OF wf a] ..
  show "set m' = insert (area_start a', a') {kv \<in> set m. fst kv \<noteq> k}"
    unfolding m'_def set_insert_fresh [OF ins] by simp
  show "mapped m' = area_addrs a' \<union> (mapped m - area_addrs a)"
    unfolding m'_def mapped_insert [OF ins] mapped_remove [OF wf a] ..
qed

definition agree_outside :: "usize \<Rightarrow> usize \<Rightarrow> ('b, 'f) memory_area btree \<Rightarrow> ('b, 'f) memory_area btree \<Rightarrow> bool"
  where "agree_outside s e m m' \<longleftrightarrow> (\<forall>x. x \<notin> {s..<e} \<longrightarrow> attrs_at m' x = attrs_at m x)"

lemma agree_outside_trans:
  "agree_outside s e m m' \<Longrightarrow> agree_outside s e m' m'' \<Longrightarrow> agree_outside s e m m''"
  by (simp add: agree_outside_def)

lemma remove_contained_ok:
  assumes "areas_wf m" "s \<le> e"
  shows "\<exists>m'. remove_contained s e m = Some m' \<and> areas_wf m' \<and> set m' \<subseteq> set m \<and>
    agree_outside s e m m' \<and> (\<forall>kv\<in>set m'. s \<le> fst kv \<and> fst kv < e \<longrightarrow> e < area_end (snd kv))"
  using assms
proof (induction "length m" arbitrary: m rule: less_induct)
  case less
  note wf = less.prems(1)
  let ?in = "filter (\<lambda>kv. s \<le> fst kv \<and> fst kv < e) m"
  show ?case
  proof (cases ?in)
    case Nil
    then have "\<forall>kv\<in>set m. s \<le> fst kv \<and> fst kv < e \<longrightarrow> e < area_end (snd kv)"
      unfolding filter_empty_conv by blast
    with Nil less.prems show ?thesis
      by (subst remove_contained.simps) (simp add: bt_range_def agree_outside_def)
  next
    case (Cons kv rest)
    obtain k a where [simp]: "kv = (k, a)"
      by (cases kv)
    have "(k, a) \<in> set ?in"
      using Cons by simp
    then have mem: "(k, a) \<in> set m" and k: "s \<le> k" "k < e"
      by auto
    have least: "k \<le> fst kv'" if "kv' \<in> set m" "s \<le> fst kv'" "fst kv' < e" for kv'
    proof -
      have "bt_wf ?in"
        using wf by simp
      moreover have "kv' \<in> set ?in"
        using that by simp
      ultimately show ?thesis
        unfolding Cons by auto
    qed
    show ?thesis
    proof (cases "e < area_end a")
      case True
      have "e < area_end (snd kv')" if "kv' \<in> set m" "s \<le> fst kv'" "fst kv' < e" for kv'
      proof (cases "fst kv' = k")
        case True
        with areas_wf_key_unique [OF wf mem, of "snd kv'"] that \<open>e < area_end a\<close> show ?thesis
          by (metis prod.collapse)
      next
        case False
        with least [OF that] areas_wf_order [OF wf mem, of "fst kv'" "snd kv'"] that True show ?thesis
          by simp
      qed
      then have "\<forall>kv\<in>set m. s \<le> fst kv \<and> fst kv < e \<longrightarrow> e < area_end (snd kv)"
        by blast
      with True Cons less.prems show ?thesis
        by (subst remove_contained.simps) (simp add: bt_range_def agree_outside_def)
    next
      case False
      have "length (bt_remove k m) < length m"
        using mem by (auto simp: bt_remove_def intro!: length_filter_less)
      from less.hyps [OF this areas_wf_remove [OF wf] less.prems(2)] obtain m' where
        m': "remove_contained s e (bt_remove k m) = Some m'" "areas_wf m'" "set m' \<subseteq> set (bt_remove k m)"
          "agree_outside s e (bt_remove k m) m'"
          "\<forall>kv\<in>set m'. s \<le> fst kv \<and> fst kv < e \<longrightarrow> e < area_end (snd kv)"
        by blast
      have "area_addrs a \<subseteq> {s..<e}"
        using False k areas_wf_memberD [OF wf mem] by (auto simp: area_addrs_def)
      then have "agree_outside s e m (bt_remove k m)"
        using attrs_at_remove [OF wf mem] by (auto simp: agree_outside_def)
      with m' Cons False less.prems(2) show ?thesis
        by (subst remove_contained.simps) (auto simp: bt_range_def intro: agree_outside_trans)
    qed
  qed
qed


definition cut_left :: "usize \<Rightarrow> usize \<Rightarrow> ('b, 'f) memory_area btree \<Rightarrow> bool" where
  "cut_left s e m \<longleftrightarrow> (\<forall>kv\<in>set m. (fst kv < s \<longrightarrow> area_end (snd kv) \<le> s) \<and>
     (s \<le> fst kv \<and> fst kv < e \<longrightarrow> e < area_end (snd kv)))"

lemma trim_before_shrink:
  assumes wf: "areas_wf m" and b: "(k, b) \<in> set m" "k < s" "s < area_end b" "area_end b \<le> e"
    and others: "\<And>k' c. (k', c) \<in> set m \<Longrightarrow> k' < s \<Longrightarrow> k' \<noteq> k \<Longrightarrow> area_end c \<le> s"
    and last: "bt_last_before s m = Some (k, b)"
    and big: "\<forall>kv\<in>set m. s \<le> fst kv \<and> fst kv < e \<longrightarrow> e < area_end (snd kv)"
  shows "\<exists>r. trim_before B s e m = Some r \<and>
    (\<forall>m'. r = Inr m' \<longrightarrow> areas_wf m' \<and> agree_outside s e m m' \<and> cut_left s e m')"
proof -
  have ok: "area_ok b" and k: "k = area_start b"
    using areas_wf_memberD [OF wf b(1)] by auto
  obtain r b' where sh: "shrink_right_metadata B b (s - k) = (r, b')"
    by (cases "shrink_right_metadata B b (s - k)")
  have sub: "addr_sub_addr s k = Some (s - k)"
    using b by (simp add: addr_sub_addr_def usize_checked_sub_def)
  show ?thesis
  proof (cases r)
    case (Inl err)
    with sh sub last b show ?thesis
      by (simp add: trim_before_def)
  next
    case (Inr u)
    note b' = shrink_right_ok [OF ok, of B "s - k" b']
    have b'1: "area_ok b'" "area_end b' = s" "area_start b' = k" "area_attrs b' = area_attrs b"
      using b' sh Inr k b(2) by auto
    define m' where "m' = bt_insert k b' m"
    have m': "m' = bt_insert (area_start b') b' (bt_remove k m)"
      using wf b'1 by (simp add: m'_def bt_insert_remove)
    have sub_addrs: "area_addrs b' \<subseteq> area_addrs b"
      using b'1 k b by (auto simp: area_addrs_def)
    note rep = replace_part [OF wf b(1) b'1(1) sub_addrs, folded m']
    have "attrs_at m' x = attrs_at m x" if "x \<notin> {s..<e}" for x
      unfolding rep(2) using that attrs_at_memberI [OF wf b(1), of x] b'1 b(3,4) k
      by (auto simp: area_addrs_def)
    then have "agree_outside s e m m'"
      by (simp add: agree_outside_def)
    moreover have "cut_left s e m'"
      using big others b'1 b(2) by (auto simp: cut_left_def rep(3))
    moreover have "trim_before B s e m = Some (Inr m')"
      using sh sub last b Inr by (simp add: trim_before_def m'_def)
    ultimately show ?thesis
      using rep(1) by simp
  qed
qed

lemma trim_before_split:
  assumes wf: "areas_wf m" and b: "(k, b) \<in> set m" "k < s" "e < area_end b" "s < e"
    and others: "\<And>k' c. (k', c) \<in> set m \<Longrightarrow> k' < s \<Longrightarrow> k' \<noteq> k \<Longrightarrow> area_end c \<le> s"
    and last: "bt_last_before s m = Some (k, b)"
    and big: "\<forall>kv\<in>set m. s \<le> fst kv \<and> fst kv < e \<longrightarrow> e < area_end (snd kv)"
  shows "\<exists>r. trim_before B s e m = Some r \<and>
    (\<forall>m'. r = Inr m' \<longrightarrow> areas_wf m' \<and> agree_outside s e m m' \<and> cut_left s e m')"
proof -
  have ok: "area_ok b" and k: "k = area_start b"
    using areas_wf_memberD [OF wf b(1)] by auto
  obtain sr b1 where sp: "area_split B b e = Some (sr, b1)"
    using area_split_total [OF ok, of B e] by auto
  have sub: "addr_sub_addr s k = Some (s - k)"
    using b by (simp add: addr_sub_addr_def usize_checked_sub_def)
  note tb = trim_before_def last sub sp
  show ?thesis
  proof (cases "\<exists>right b2. sr = Inr (Some right) \<and> shrink_right_metadata B b1 (s - k) = (Inr (), b2)")
    case False
    then show ?thesis
      using b by (auto simp: tb split: sum.splits option.splits prod.splits)
  next
    case True
    then obtain right b2 where [simp]: "sr = Inr (Some right)"
      and sh: "shrink_right_metadata B b1 (s - k) = (Inr (), b2)"
      by blast
    note spl = area_split_ok [OF ok sp [unfolded \<open>sr = Inr (Some right)\<close>]]
    note shr = shrink_right_ok [OF spl(1) sh]
    have b2: "area_ok b2" "area_start b2 = k" "area_end b2 = s" "area_attrs b2 = area_attrs b"
      using shr spl k b(2) by auto
    define m1 where "m1 = bt_insert k b2 m"
    have m1: "m1 = bt_insert (area_start b2) b2 (bt_remove k m)"
      using wf b2 by (simp add: m1_def bt_insert_remove)
    have sub_addrs: "area_addrs b2 \<subseteq> area_addrs b"
      using b2 k b by (auto simp: area_addrs_def)
    note rep = replace_part [OF wf b(1) b2(1) sub_addrs, folded m1]
    define m' where "m' = bt_insert e right m1"
    have m': "m' = bt_insert (area_start right) right m1"
      by (simp add: m'_def spl)
    have free: "area_addrs right \<inter> mapped m1 = {}"
      unfolding rep(4) using b2 spl b by (auto simp: area_addrs_def)
    note ins = rep(1) spl(2) free
    have "attrs_at m' x = attrs_at m x" if "x \<notin> {s..<e}" for x
      unfolding m' attrs_at_insert [OF ins] rep(2)
      using that attrs_at_memberI [OF wf b(1), of x] b2 spl k b(3,4)
      by (auto simp: area_addrs_def)
    then have "agree_outside s e m m'"
      by (simp add: agree_outside_def)
    moreover have "set m' = insert (e, right) (insert (k, b2) {kv \<in> set m. fst kv \<noteq> k})"
      using set_insert_fresh [OF ins] m' rep(3) spl b2 by simp
    then have "cut_left s e m'"
      using big others b2 b(2,4) by (auto simp: cut_left_def)
    moreover have "areas_wf m'"
      unfolding m' by (rule areas_wf_insert [OF ins])
    moreover have "trim_before B s e m = Some (Inr m')"
      using sh b spl by (simp add: tb m'_def m1_def)
    ultimately show ?thesis
      by simp
  qed
qed

lemma trim_before_ok:
  assumes wf: "areas_wf m" and "s < e"
    and big: "\<forall>kv\<in>set m. s \<le> fst kv \<and> fst kv < e \<longrightarrow> e < area_end (snd kv)"
  shows "\<exists>r. trim_before B s e m = Some r \<and>
    (\<forall>m'. r = Inr m' \<longrightarrow> areas_wf m' \<and> agree_outside s e m m' \<and> cut_left s e m')"
proof (cases "bt_last_before s m")
  case None
  then have "cut_left s e m"
    using big by (force simp: cut_left_def bt_last_before_None)
  with None wf show ?thesis
    by (simp add: trim_before_def agree_outside_def)
next
  case (Some kb)
  obtain k b where [simp]: "kb = (k, b)"
    by (cases kb)
  from bt_last_before_Some [OF areas_wf_bt [OF wf] Some] have b: "(k, b) \<in> set m" "k < s"
    and greatest: "\<And>k' c. (k', c) \<in> set m \<Longrightarrow> k' < s \<Longrightarrow> k' \<le> k"
    by force+
  have others: "area_end c \<le> s" if "(k', c) \<in> set m" "k' < s" "k' \<noteq> k" for k' c
    using areas_wf_order [OF wf that(1) b(1)] greatest [OF that(1,2)] that(3) b(2) by simp
  show ?thesis
  proof (cases "s < area_end b")
    case True
    then show ?thesis
      using trim_before_shrink [OF wf b True _ others] trim_before_split [OF wf b _ \<open>s < e\<close> others]
        Some big by (cases "area_end b \<le> e") (simp_all add: not_le)
  next
    case False
    then have "cut_left s e m"
      using big others areas_wf_key_unique [OF wf b(1)] unfolding cut_left_def
      by (metis leI prod.collapse)
    with False Some wf show ?thesis
      by (simp add: trim_before_def agree_outside_def)
  qed
qed

end
