(* ===== verification/MemorySetOps.thy ===== *)
theory MemorySetOps
  imports MemorySetInv
begin

text \<open>
  Correctness of the operations of a memory set that change it: \<open>unmap\<close>, \<open>unmap_metadata\<close>,
  \<open>unmap_exact\<close>, \<open>map\<close>, \<open>insert_prepared_area\<close>, \<open>extend_area\<close>, \<open>rollback_extend_area\<close>,
  \<open>replace_area_metadata\<close>, \<open>protect\<close> and \<open>clear\<close>, each against its effect on \<open>attrs_at\<close>.
\<close>

section \<open>Unmapping\<close>

lemma cut_left_done:
  assumes wf: "areas_wf m" and "s < e" "cut_left s e m" "\<forall>kv\<in>set m. \<not> (s \<le> fst kv \<and> fst kv < e)"
  shows "mapped m \<inter> {s..<e} = {}"
proof -
  have False if "(k, a) \<in> set m" "x \<in> area_addrs a" "s \<le> x" "x < e" for k a x
    using that assms(3,4) areas_wf_memberD [OF wf that(1)] unfolding cut_left_def
    by (auto simp: area_addrs_def dest!: bspec [where x = "(k, a)"])
  then show ?thesis
    by (auto simp: mapped_def)
qed

lemma trim_after_ok:
  assumes wf: "areas_wf m" and "s < e" and cut: "cut_left s e m"
  shows "\<exists>r. trim_after B s e m = Some r \<and>
    (\<forall>m'. r = Inr m' \<longrightarrow> areas_wf m' \<and> agree_outside s e m m' \<and> mapped m' \<inter> {s..<e} = {})"
proof (cases "\<exists>k a. bt_first_from s m = Some (k, a) \<and> k < e")
  case False
  have none: "\<forall>kv\<in>set m. \<not> (s \<le> fst kv \<and> fst kv < e)"
  proof (cases "bt_first_from s m")
    case None
    then show ?thesis
      unfolding bt_first_from_None by (meson leD)
  next
    case (Some kv)
    with False have "e \<le> fst kv"
      by (cases kv) auto
    with bt_first_from_Some [OF areas_wf_bt [OF wf] Some] show ?thesis
      by (meson leD le_trans)
  qed
  have "trim_after B s e m = Some (Inr m)"
    using False by (auto simp: trim_after_def split: option.split)
  with cut_left_done [OF assms none] wf show ?thesis
    by (simp add: agree_outside_def)
next
  case True
  then obtain k a where first: "bt_first_from s m = Some (k, a)" and "k < e"
    by blast
  from bt_first_from_Some [OF areas_wf_bt [OF wf] first] have a: "(k, a) \<in> set m" "s \<le> k"
    and least: "\<And>kv. kv \<in> set m \<Longrightarrow> s \<le> fst kv \<Longrightarrow> k \<le> fst kv"
    by auto
  have ok: "area_ok a" and k: "k = area_start a" and big: "e < area_end a"
    using areas_wf_memberD [OF wf a(1)] bspec [OF cut [unfolded cut_left_def] a(1)] a(2) \<open>k < e\<close>
    by auto
  have get: "bt_get m k = Some a"
    using a(1) wf by (simp add: bt_get_iff)
  obtain r a' where sh: "shrink_left_metadata B a (area_end a - e) = (r, a')"
    by (cases "shrink_left_metadata B a (area_end a - e)")
  have sub: "addr_sub_addr (area_end a) e = Some (area_end a - e)"
    using big by (simp add: addr_sub_addr_def usize_checked_sub_def)
  show ?thesis
  proof (cases r)
    case (Inl err)
    with sh sub first \<open>k < e\<close> get show ?thesis
      by (simp add: trim_after_def)
  next
    case (Inr u)
    have a': "area_ok a'" "area_start a' = e" "area_end a' = area_end a" "area_attrs a' = area_attrs a"
      using shrink_left_ok [OF ok, of B "area_end a - e" a'] sh Inr big by auto
    define m' where "m' = bt_insert e a' (bt_remove k m)"
    have m': "m' = bt_insert (area_start a') a' (bt_remove k m)"
      by (simp add: m'_def a')
    have "area_addrs a' \<subseteq> area_addrs a"
      using a' k \<open>k < e\<close> by (auto simp: area_addrs_def)
    note rep = replace_part [OF wf a(1) a'(1) this, folded m']
    have "attrs_at m' x = attrs_at m x" if "x \<notin> {s..<e}" for x
      unfolding rep(2) using that attrs_at_memberI [OF wf a(1), of x] a' k a(2) \<open>k < e\<close>
      by (auto simp: area_addrs_def)
    then have "agree_outside s e m m'"
      by (simp add: agree_outside_def)
    moreover have "mapped m' \<inter> {s..<e} = {}"
    proof -
      have "\<forall>kv\<in>set m'. \<not> (s \<le> fst kv \<and> fst kv < e)"
      proof (intro ballI notI)
        fix kv
        assume kv: "kv \<in> set m'" "s \<le> fst kv \<and> fst kv < e"
        then have kv': "kv \<in> set m" "fst kv \<noteq> k"
          using a' by (auto simp: rep(3))
        with least [of kv] kv(2) have "k < fst kv"
          by simp
        with areas_wf_order [OF wf a(1), of "fst kv" "snd kv"] kv' kv(2) big show False
          by simp
      qed
      moreover have "cut_left s e m'"
        using cut a' big \<open>s < e\<close> by (auto simp: cut_left_def rep(3))
      ultimately show ?thesis
        using rep(1) \<open>s < e\<close> by (intro cut_left_done)
    qed
    moreover have "trim_after B s e m = Some (Inr m')"
      using sh sub first \<open>k < e\<close> get Inr a' by (simp add: trim_after_def m'_def)
    ultimately show ?thesis
      using rep(1) by simp
  qed
qed

lemma prepare_unmap_ok:
  assumes wf: "areas_wf (ms_areas ms)" and ne: "\<not> range_is_empty rng"
  shows "\<exists>r. prepare_unmap_metadata B ms rng = Some r \<and>
    (\<forall>m'. r = Inr m' \<longrightarrow> areas_wf m' \<and>
      attrs_at m' = (\<lambda>x. if x \<in> range_set rng then None else attrs_at (ms_areas ms) x))"
proof -
  let ?s = "ar_start rng" and ?e = "ar_end rng" and ?m = "ms_areas ms"
  have se: "?s < ?e"
    using ne by (simp add: range_is_empty_def)
  obtain m1 where m1: "remove_contained ?s ?e ?m = Some m1" "areas_wf m1" "agree_outside ?s ?e ?m m1"
    "\<forall>kv\<in>set m1. ?s \<le> fst kv \<and> fst kv < ?e \<longrightarrow> ?e < area_end (snd kv)"
    using remove_contained_ok [OF wf, of ?s ?e] se by auto
  obtain r2 where r2: "trim_before B ?s ?e m1 = Some r2"
    "\<And>m2. r2 = Inr m2 \<Longrightarrow> areas_wf m2 \<and> agree_outside ?s ?e m1 m2 \<and> cut_left ?s ?e m2"
    using trim_before_ok [OF m1(2) se m1(4), of B] by blast
  show ?thesis
  proof (cases r2)
    case (Inl err)
    with m1(1) r2(1) show ?thesis
      by (simp add: prepare_unmap_metadata_def)
  next
    case (Inr m2)
    with r2(2) have m2: "areas_wf m2" "agree_outside ?s ?e m1 m2" "cut_left ?s ?e m2"
      by auto
    obtain r3 where r3: "trim_after B ?s ?e m2 = Some r3"
      "\<And>m3. r3 = Inr m3 \<Longrightarrow>
        areas_wf m3 \<and> agree_outside ?s ?e m2 m3 \<and> mapped m3 \<inter> {?s..<?e} = {}"
      using trim_after_ok [OF m2(1) se m2(3), of B] by blast
    have "attrs_at m3 = (\<lambda>x. if x \<in> range_set rng then None else attrs_at ?m x)"
      if "r3 = Inr m3" for m3
    proof
      fix x
      have "x \<in> range_set rng \<Longrightarrow> x \<notin> mapped m3"
        using r3(2) [OF that] by (auto simp: range_set_def)
      then show "attrs_at m3 x = (if x \<in> range_set rng then None else attrs_at ?m x)"
        using r3(2) [OF that] m2(2) m1(3) attrs_at_None [of x m3]
        by (simp add: agree_outside_def range_set_def)
    qed
    with m1(1) r2(1) r3 Inr show ?thesis
      by (simp add: prepare_unmap_metadata_def)
  qed
qed


definition cut_out :: "usize set \<Rightarrow> (usize \<rightharpoonup> 'a) \<Rightarrow> usize \<rightharpoonup> 'a" where
  "cut_out X f = (\<lambda>x. if x \<in> X then None else f x)"

lemma dom_cut_out: "dom (cut_out X f) = dom f - X"
  by (auto simp: cut_out_def split: if_splits)

lemma ms_inv_release:
  assumes inv: "ms_inv ms" and rng: "\<not> range_is_empty rng" "ar_end rng < usize_lim"
    and m': "areas_wf m'" "attrs_at m' = cut_out (range_set rng) (attrs_at (ms_areas ms))"
  shows "\<exists>g. gap_index_release (ms_gaps ms) (ar_start rng) (ar_end rng) = Some g \<and>
    ms_inv (ms\<lparr>ms_areas := m', ms_gaps := g\<rparr>)"
proof -
  have "mapped m' = mapped (ms_areas ms) - range_set rng"
    using m'(2) by (metis dom_attrs_at dom_cut_out)
  moreover obtain g where g: "gap_index_release (ms_gaps ms) (ar_start rng) (ar_end rng) = Some g"
    "gap_index_inv g" "gap_free g = gap_free (ms_gaps ms) \<union> range_set rng"
    using gap_space.release_free [of "ms_gaps ms" "ar_start rng" "ar_end rng"] inv rng
    by (auto simp: ms_inv_def range_is_empty_def range_set_def)
  ultimately show ?thesis
    using inv m'(1) by (auto simp: ms_inv_def)
qed

lemma ms_inv_occupy:
  assumes inv: "ms_inv ms" and rng: "s < e" "e < usize_lim" "{s..<e} \<inter> mapped (ms_areas ms) = {}"
    and m': "areas_wf m'" "mapped m' = {s..<e} \<union> mapped (ms_areas ms)"
  shows "\<exists>g. gap_index_occupy (ms_gaps ms) s e = Some g \<and> ms_inv (ms\<lparr>ms_areas := m', ms_gaps := g\<rparr>)"
proof -
  obtain g where "gap_index_occupy (ms_gaps ms) s e = Some g"
    "gap_index_inv g" "gap_free g = gap_free (ms_gaps ms) - {s..<e}"
    using gap_space.occupy_free [of "ms_gaps ms" s e] inv rng by (auto simp: ms_inv_def)
  with inv m' show ?thesis
    by (auto simp: ms_inv_def)
qed

lemma prepare_cut_out:
  assumes inv: "ms_inv ms" and rng: "\<not> range_is_empty rng" "ar_end rng < usize_lim"
  obtains err where "prepare_unmap_metadata B ms rng = Some (Inl err)"
  | m' g where "prepare_unmap_metadata B ms rng = Some (Inr m')"
      "gap_index_release (ms_gaps ms) (ar_start rng) (ar_end rng) = Some g"
      "ms_inv (ms\<lparr>ms_areas := m', ms_gaps := g\<rparr>)"
      "attrs_at m' = cut_out (range_set rng) (attrs_at (ms_areas ms))"
proof -
  have "areas_wf (ms_areas ms)"
    using inv by (simp add: ms_inv_def)
  from prepare_unmap_ok [OF this rng(1)] obtain r where r: "prepare_unmap_metadata B ms rng = Some r"
    "\<And>m'. r = Inr m' \<Longrightarrow> areas_wf m' \<and> attrs_at m' = cut_out (range_set rng) (attrs_at (ms_areas ms))"
    unfolding cut_out_def by blast
  show thesis
  proof (cases r)
    case (Inl err)
    with r(1) that(1) show ?thesis
      by simp
  next
    case (Inr m')
    with r ms_inv_release [OF inv rng] that(2) show ?thesis
      by blast
  qed
qed

lemma start_size_range:
  assumes "range_try_from_start_size start sz = Some rng"
  shows "ar_end rng < usize_lim" "range_set rng = {start..<start + sz}"
    "range_is_empty rng \<longleftrightarrow> sz = 0" "ar_start rng = start" "ar_end rng = start + sz"
  using assms by (auto simp: range_try_from_start_size_Some range_set_def range_is_empty_def)

lemma ms_unmap_outcome:
  assumes inv: "ms_inv ms"
  shows "\<exists>r ms' env'. ms_unmap B ms start sz env = Some (r, ms', env') \<and> ms_inv ms' \<and>
    (case r of Inl _ \<Rightarrow> ms' = ms
     | Inr _ \<Rightarrow> attrs_at (ms_areas ms') = cut_out {start..<start + sz} (attrs_at (ms_areas ms)))"
proof (cases "range_try_from_start_size start sz")
  case None
  with inv show ?thesis
    by (simp add: ms_unmap_def)
next
  case (Some rng)
  note rng = start_size_range [OF Some]
  have wf: "areas_wf (ms_areas ms)"
    using inv by (simp add: ms_inv_def)
  show ?thesis
  proof (cases "sz = 0")
    case True
    with Some rng inv show ?thesis
      by (simp add: ms_unmap_def cut_out_def)
  next
    case False
    then have ne: "\<not> range_is_empty rng"
      by (simp add: rng)
    obtain valid where valid: "ms_validate_unmap B ms start sz (snd env) = Some valid"
      using for_each_total [OF wf ne, of "\<lambda>a s n _. (validate_unmap_range B a s n (snd env), ())" "()"]
        Some ne by (auto simp: ms_validate_unmap_def)
    obtain r env' where each: "for_each_intersecting_area ms rng (unmap_range B) env = Some (r, env')"
      using for_each_total [OF wf ne, of "unmap_range B" env] by auto
    note eqs = ms_unmap_def Some ne valid each
    from inv ne rng(1) show ?thesis
    proof (cases rule: prepare_cut_out [of ms rng B])
      case (1 err)
      with inv show ?thesis
        by (cases valid) (simp_all add: eqs)
    next
      case (2 m' g)
      with inv rng show ?thesis
        by (cases valid; cases r) (simp_all add: eqs)
    qed
  qed
qed

lemma unmap_metadata_outcome:
  assumes inv: "ms_inv ms"
  shows "\<exists>r ms'. unmap_metadata B ms start sz = Some (r, ms') \<and> ms_inv ms' \<and>
    (case r of Inl _ \<Rightarrow> ms' = ms
     | Inr _ \<Rightarrow> attrs_at (ms_areas ms') = cut_out {start..<start + sz} (attrs_at (ms_areas ms)))"
proof (cases "range_try_from_start_size start sz")
  case None
  with inv show ?thesis
    by (simp add: unmap_metadata_def)
next
  case (Some rng)
  note rng = start_size_range [OF Some]
  show ?thesis
  proof (cases "sz = 0")
    case True
    with Some rng inv show ?thesis
      by (simp add: unmap_metadata_def cut_out_def)
  next
    case False
    then have ne: "\<not> range_is_empty rng"
      by (simp add: rng)
    from inv ne rng(1) show ?thesis
      by (cases rule: prepare_cut_out [of ms rng B])
        (use inv rng ne Some in \<open>simp_all add: unmap_metadata_def\<close>)
  qed
qed


lemma unmap_exact_outcome:
  assumes inv: "ms_inv ms"
  shows "\<exists>r ms' env'. unmap_exact B ms start sz env = Some (r, ms', env') \<and> ms_inv ms' \<and>
    (case r of Inl _ \<Rightarrow> ms' = ms
     | Inr a \<Rightarrow> bt_get (ms_areas ms) start = Some a \<and> area_end a = start + sz \<and>
         ms_areas ms' = bt_remove start (ms_areas ms) \<and>
         attrs_at (ms_areas ms') = cut_out {start..<start + sz} (attrs_at (ms_areas ms)))"
proof (cases "\<exists>a. bt_get (ms_areas ms) start = Some a \<and> area_end a = start + sz \<and> start + sz < usize_lim")
  case True
  then obtain a where a: "bt_get (ms_areas ms) start = Some a" "area_end a = start + sz"
    "start + sz < usize_lim"
    by blast
  have wf: "areas_wf (ms_areas ms)"
    using inv by (simp add: ms_inv_def)
  have mem: "(start, a) \<in> set (ms_areas ms)"
    using a(1) wf by (simp add: bt_get_iff)
  note ok = areas_wf_memberD [OF wf mem]
  define rng where "rng = \<lparr>ar_start = start, ar_end = start + sz\<rparr>"
  have addrs: "area_addrs a = range_set rng" and ne: "\<not> range_is_empty rng"
    using ok a(2) by (auto simp: area_addrs_def range_set_def rng_def range_is_empty_def area_ok_def)
  have cut: "attrs_at (bt_remove start (ms_areas ms)) = cut_out (range_set rng) (attrs_at (ms_areas ms))"
    using attrs_at_remove [OF wf mem] by (auto simp: cut_out_def addrs)
  obtain g where g: "gap_index_release (ms_gaps ms) start (start + sz) = Some g"
    "ms_inv (ms\<lparr>ms_areas := bt_remove start (ms_areas ms), ms_gaps := g\<rparr>)"
    using ms_inv_release [OF inv ne _ areas_wf_remove [OF wf] cut] a(3) by (auto simp: rng_def)
  have rs: "range_set rng = {start..<start + sz}"
    by (simp add: rng_def range_set_def)
  obtain ok env' where um: "b_unmap B (ma_backend a) start sz env = (ok, env')"
    by (cases "b_unmap B (ma_backend a) start sz env")
  show ?thesis
    using inv g cut a um
    by (cases "validate_unmap_range B a start sz (snd env)"; cases ok)
      (simp_all add: unmap_exact_def addr_checked_add_def usize_checked_add_def rs)
next
  case False
  with inv show ?thesis
    by (auto simp: unmap_exact_def addr_checked_add_def usize_checked_add_def split: option.split)
qed

section \<open>Mapping\<close>

definition put_on :: "usize set \<Rightarrow> 'a \<Rightarrow> (usize \<rightharpoonup> 'a) \<Rightarrow> usize \<rightharpoonup> 'a" where
  "put_on X v f = (\<lambda>x. if x \<in> X then Some v else f x)"

lemma dom_put_on: "dom (put_on X v f) = X \<union> dom f"
  by (auto simp: put_on_def split: if_splits)

lemma put_on_cut_out [simp]: "put_on X v (cut_out X f) = put_on X v f"
  by (auto simp: put_on_def cut_out_def)

lemma cut_out_disjoint: "X \<inter> dom f = {} \<Longrightarrow> cut_out X f = f"
  unfolding cut_out_def by (rule ext) (metis disjoint_iff domIff)

lemma insert_area_outcome:
  assumes inv: "ms_inv ms" and ok: "area_ok a" and free: "area_addrs a \<inter> mapped (ms_areas ms) = {}"
  shows "bt_get (ms_areas ms) (area_start a) = None"
    and "\<exists>g. gap_index_occupy (ms_gaps ms) (area_start a) (area_end a) = Some g \<and>
      ms_inv (ms\<lparr>ms_areas := bt_insert (area_start a) a (ms_areas ms), ms_gaps := g\<rparr>)"
    and "attrs_at (bt_insert (area_start a) a (ms_areas ms)) =
      put_on (area_addrs a) (area_attrs a) (attrs_at (ms_areas ms))"
proof -
  have wf: "areas_wf (ms_areas ms)"
    using inv by (simp add: ms_inv_def)
  note ins = wf ok free
  show "bt_get (ms_areas ms) (area_start a) = None"
    using fresh_key [OF ins] by (auto simp: bt_get_None)
  show "attrs_at (bt_insert (area_start a) a (ms_areas ms)) =
      put_on (area_addrs a) (area_attrs a) (attrs_at (ms_areas ms))"
    using attrs_at_insert [OF ins] by (auto simp: put_on_def)
  show "\<exists>g. gap_index_occupy (ms_gaps ms) (area_start a) (area_end a) = Some g \<and>
      ms_inv (ms\<lparr>ms_areas := bt_insert (area_start a) a (ms_areas ms), ms_gaps := g\<rparr>)"
    using ok free mapped_insert [OF ins] areas_wf_insert [OF ins]
    by (intro ms_inv_occupy [OF inv]) (auto simp: area_ok_def area_addrs_def)
qed

lemma nonempty_area_ok: "\<not> range_is_empty (ma_range a) \<Longrightarrow> area_end a < usize_lim \<Longrightarrow> area_ok a"
  by (simp add: range_is_empty_def area_ok_def area_start_def area_end_def)

lemma area_addrs_range: "area_addrs a = range_set (ma_range a)"
  by (simp add: area_addrs_def range_set_def area_start_def area_end_def)

lemma insert_prepared_outcome:
  assumes inv: "ms_inv ms" and lim: "area_end a < usize_lim"
  shows "\<exists>r ms'. insert_prepared_area ms a = Some (r, ms') \<and> ms_inv ms' \<and>
    (r = Inr () \<longleftrightarrow> area_start a < area_end a \<and> area_addrs a \<inter> mapped (ms_areas ms) = {}) \<and>
    (case r of Inl _ \<Rightarrow> ms' = ms
     | Inr _ \<Rightarrow> attrs_at (ms_areas ms') = put_on (area_addrs a) (area_attrs a) (attrs_at (ms_areas ms)))"
proof (cases "range_is_empty (ma_range a)")
  case True
  with inv show ?thesis
    by (simp add: insert_prepared_area_def range_is_empty_def area_start_def area_end_def)
next
  case ne: False
  have wf: "areas_wf (ms_areas ms)" and ok: "area_ok a"
    using inv nonempty_area_ok [OF ne lim] by (simp_all add: ms_inv_def)
  show ?thesis
  proof (cases "ms_overlaps ms (ma_range a)")
    case True
    with inv ne ms_overlaps_iff [OF wf ne] show ?thesis
      by (auto simp: insert_prepared_area_def area_addrs_range)
  next
    case False
    then have free: "area_addrs a \<inter> mapped (ms_areas ms) = {}"
      using ms_overlaps_iff [OF wf ne] by (simp add: area_addrs_range)
    note ins = insert_area_outcome [OF inv ok free]
    from ins(2) obtain g where "gap_index_occupy (ms_gaps ms) (area_start a) (area_end a) = Some g"
      "ms_inv (ms\<lparr>ms_areas := bt_insert (area_start a) a (ms_areas ms), ms_gaps := g\<rparr>)"
      by blast
    with False ne ins(1,3) free ok show ?thesis
      by (simp add: insert_prepared_area_def area_start_def [symmetric] area_end_def [symmetric]
          area_ok_def)
  qed
qed

text \<open>The first stage of \<open>map\<close>: the old mappings of the range are removed, or there were none.\<close>

lemma map_stage_one:
  assumes inv: "ms_inv ms" and ne: "\<not> range_is_empty (ma_range a)" and lim: "area_end a < usize_lim"
  obtains r1 ms1 env1 where
    "(if ms_overlaps ms (ma_range a) then
        (if unmap_overlap then ms_unmap B ms (area_start a) (area_size a) env
         else Some (Inl AlreadyExists, ms, env))
      else Some (area_validate_map B a (snd env), ms, env)) = Some (r1, ms1, env1)"
    "ms_inv ms1" "\<And>err. r1 = Inl err \<Longrightarrow> ms1 = ms"
    "r1 = Inr () \<Longrightarrow> attrs_at (ms_areas ms1) = cut_out (area_addrs a) (attrs_at (ms_areas ms))"
    "\<not> ms_overlaps ms (ma_range a) \<Longrightarrow> ms1 = ms"
    "ms_overlaps ms (ma_range a) \<Longrightarrow> \<not> unmap_overlap \<Longrightarrow> r1 = Inl AlreadyExists"
proof (cases "ms_overlaps ms (ma_range a)")
  case ov: True
  have "area_start a + area_size a = area_end a"
    using area_size_eq [OF nonempty_area_ok [OF ne lim]] nonempty_area_ok [OF ne lim]
    by (simp add: area_ok_def)
  then have addrs: "{area_start a..<area_start a + area_size a} = area_addrs a"
    by (simp add: area_addrs_def)
  show thesis
  proof (cases unmap_overlap)
    case True
    from ms_unmap_outcome [OF inv, of B "area_start a" "area_size a" env] obtain r ms' env' where
      "ms_unmap B ms (area_start a) (area_size a) env = Some (r, ms', env')" "ms_inv ms'"
      "case r of Inl _ \<Rightarrow> ms' = ms
        | Inr _ \<Rightarrow> attrs_at (ms_areas ms') = cut_out (area_addrs a) (attrs_at (ms_areas ms))"
      unfolding addrs by blast
    with True ov show thesis
      by (intro that [of r ms' env']) auto
  next
    case False
    with inv ov show thesis
      by (intro that [of "Inl AlreadyExists" ms env]) auto
  qed
next
  case False
  have wf: "areas_wf (ms_areas ms)"
    using inv by (simp add: ms_inv_def)
  have "area_addrs a \<inter> dom (attrs_at (ms_areas ms)) = {}"
    using False ms_overlaps_iff [OF wf ne] by (simp add: area_addrs_range dom_attrs_at)
  with inv False show thesis
    by (intro that [of "area_validate_map B a (snd env)" ms env]) (simp_all add: cut_out_disjoint)
qed

lemma ms_map_outcome:
  assumes inv: "ms_inv ms" and lim: "area_end a < usize_lim"
  shows "\<exists>r ms' env'. ms_map B ms a env unmap_overlap = Some (r, ms', env') \<and> ms_inv ms' \<and>
    (area_addrs a \<inter> mapped (ms_areas ms) \<noteq> {} \<and> \<not> unmap_overlap \<longrightarrow> r = Inl AlreadyExists \<and> env' = env) \<and>
    (case r of Inl _ \<Rightarrow> ms' = ms
     | Inr _ \<Rightarrow> area_start a < area_end a \<and>
         attrs_at (ms_areas ms') = put_on (area_addrs a) (area_attrs a) (attrs_at (ms_areas ms)))"
proof (cases "range_is_empty (ma_range a)")
  case True
  with inv show ?thesis
    by (simp add: ms_map_def area_addrs_range range_set_def range_is_empty_def)
next
  case ne: False
  have ok: "area_ok a" and wf: "areas_wf (ms_areas ms)"
    using nonempty_area_ok [OF ne lim] inv by (simp_all add: ms_inv_def)
  have se: "area_start a + area_size a = area_end a"
    using area_size_eq [OF ok] ok by (simp add: area_ok_def)
  have ov: "ms_overlaps ms (ma_range a) \<longleftrightarrow> area_addrs a \<inter> mapped (ms_areas ms) \<noteq> {}"
    using ms_overlaps_iff [OF wf ne] by (simp add: area_addrs_range)
  show ?thesis
  proof (rule map_stage_one [OF inv ne lim, of unmap_overlap B env])
    fix r1 ms1 env1
    assume stage: "(if ms_overlaps ms (ma_range a) then
        (if unmap_overlap then ms_unmap B ms (area_start a) (area_size a) env
         else Some (Inl AlreadyExists, ms, env))
      else Some (area_validate_map B a (snd env), ms, env)) = Some (r1, ms1, env1)"
      and inv1: "ms_inv ms1" and err: "\<And>err. r1 = Inl err \<Longrightarrow> ms1 = ms"
      and cut: "r1 = Inr () \<Longrightarrow> attrs_at (ms_areas ms1) = cut_out (area_addrs a) (attrs_at (ms_areas ms))"
      and same: "\<not> ms_overlaps ms (ma_range a) \<Longrightarrow> ms1 = ms"
      and exists: "ms_overlaps ms (ma_range a) \<Longrightarrow> \<not> unmap_overlap \<Longrightarrow> r1 = Inl AlreadyExists"
    have exists': "area_addrs a \<inter> mapped (ms_areas ms) \<noteq> {} \<and> \<not> unmap_overlap \<longrightarrow>
        r1 = Inl AlreadyExists \<and> env1 = env"
      using stage exists unfolding ov [symmetric] by auto
    show ?thesis
    proof (cases r1)
      case (Inl e)
      with stage ne err inv exists' show ?thesis
        unfolding ms_map_def by simp
    next
      case r1: (Inr u)
      have "r1 = Inr ()"
        using r1 by simp
      note cut = cut [OF this]
      have "mapped (ms_areas ms1) = mapped (ms_areas ms) - area_addrs a"
        using cut by (metis dom_attrs_at dom_cut_out)
      then have free: "area_addrs a \<inter> mapped (ms_areas ms1) = {}"
        by blast
      note ins = insert_area_outcome [OF inv1 ok free]
      obtain g where g: "gap_index_occupy (ms_gaps ms1) (area_start a) (area_end a) = Some g"
        "ms_inv (ms1\<lparr>ms_areas := bt_insert (area_start a) a (ms_areas ms1), ms_gaps := g\<rparr>)"
        using ins(2) by blast
      obtain r2 env2 where m: "map_area B a env1 = (r2, env2)"
        by (cases "map_area B a env1")
      have bkp: "(case (if ms_overlaps ms (ma_range a) then Some ms else None) of
          Some old \<Rightarrow> old | None \<Rightarrow> ms1) = ms"
        using same by simp
      have add: "addr_checked_add (area_start a) (area_size a) = Some (area_end a)"
        using se lim by (simp add: addr_checked_add_def usize_checked_add_def)
      show ?thesis
      proof (cases r2)
        case fail: (Inl e)
        obtain rn env3 where rn: "b_unmap B (ma_backend a) (area_start a) (area_size a) env2 = (rn, env3)"
          by (cases "b_unmap B (ma_backend a) (area_start a) (area_size a) env2")
        obtain ro env4 where ro: "(case (if ms_overlaps ms (ma_range a) then Some ms else None) of
            None \<Rightarrow> (True, env3)
          | Some old \<Rightarrow> restore_overlapped_mappings B (bt_values (ms_areas old)) (ma_range a) env3) =
            (ro, env4)"
          by (metis surj_pair)
        have "ms_map B ms a env unmap_overlap =
            Some (Inl (if \<not> rn \<or> \<not> ro then NeedsRepair else e), ms, env4)"
          using stage ne r1 m fail rn ro bkp by (simp add: ms_map_def Let_def)
        with exists' inv r1 show ?thesis
          by auto
      next
        case (Inr u)
        have "attrs_at (bt_insert (area_start a) a (ms_areas ms1)) =
            put_on (area_addrs a) (area_attrs a) (attrs_at (ms_areas ms))"
          unfolding ins(3) cut by simp
        then show ?thesis
          using stage ne r1 m Inr ins(1) add g exists' ok
          by (simp add: ms_map_def Let_def area_ok_def)
      qed
    qed
  qed
qed


section \<open>Extending an area\<close>

lemma bt_insert_same: "bt_wf m \<Longrightarrow> (k, v) \<in> set m \<Longrightarrow> bt_insert k v m = m"
  by (induction m) auto

text \<open>An area is replaced by another one with the same start whose range is free but for the old one.\<close>

lemma resize_area:
  assumes wf: "areas_wf m" and a: "(k, a) \<in> set m" and a': "area_ok a'" "area_start a' = k"
    and free: "(area_addrs a' - area_addrs a) \<inter> mapped m = {}"
  shows "areas_wf (bt_insert k a' m)"
    and "attrs_at (bt_insert k a' m) x =
      (if x \<in> area_addrs a' then Some (area_attrs a') else if x \<in> area_addrs a then None else attrs_at m x)"
    and "mapped (bt_insert k a' m) = area_addrs a' \<union> (mapped m - area_addrs a)"
proof -
  have eq: "bt_insert k a' m = bt_insert (area_start a') a' (bt_remove k m)"
    using wf a' by (simp add: bt_insert_remove)
  have "area_addrs a' \<inter> mapped (bt_remove k m) = {}"
    using free unfolding mapped_remove [OF wf a] by blast
  note ins = areas_wf_remove [OF wf] a'(1) this
  show "areas_wf (bt_insert k a' m)"
    unfolding eq by (rule areas_wf_insert [OF ins])
  show "attrs_at (bt_insert k a' m) x =
      (if x \<in> area_addrs a' then Some (area_attrs a') else if x \<in> area_addrs a then None else attrs_at m x)"
    unfolding eq attrs_at_insert [OF ins] attrs_at_remove [OF wf a] ..
  show "mapped (bt_insert k a' m) = area_addrs a' \<union> (mapped m - area_addrs a)"
    unfolding eq mapped_insert [OF ins] mapped_remove [OF wf a] ..
qed

lemma extension_free:
  assumes wf: "areas_wf m" and a: "(k, a) \<in> set m"
    and nxt: "\<And>k' b. bt_first_from (area_end a) m = Some (k', b) \<Longrightarrow> new_end \<le> area_start b"
  shows "{area_end a..<new_end} \<inter> mapped m = {}"
proof -
  have False if b: "(k', b) \<in> set m" "x \<in> area_addrs b" "area_end a \<le> x" "x < new_end" for k' b x
  proof (cases "area_end a \<le> k'")
    case True
    then obtain k2 c where c: "bt_first_from (area_end a) m = Some (k2, c)"
      using b(1) bt_first_from_None [of "area_end a" m] by fastforce
    with bt_first_from_Some [OF areas_wf_bt [OF wf] c] b(1) True have "k2 \<le> k'" "(k2, c) \<in> set m"
      by auto
    with nxt [OF c] areas_wf_memberD [OF wf] b show False
      by (fastforce simp: area_addrs_def)
  next
    case False
    note ks = areas_wf_memberD [OF wf a] areas_wf_memberD [OF wf b(1)]
    have "k' \<noteq> k"
      using areas_wf_key_unique [OF wf a, of b] b by (auto simp: area_addrs_def)
    then show False
      using False areas_wf_order [OF wf a b(1)] areas_wf_order [OF wf b(1) a] b ks
      by (cases "k < k'") (auto simp: area_addrs_def area_ok_def)
  qed
  then show ?thesis
    by (auto simp: mapped_def)
qed

lemma extend_area_outcome:
  assumes inv: "ms_inv ms"
  shows "\<exists>r ms' env'. extend_area B ms addr n env = Some (r, ms', env') \<and> ms_inv ms' \<and>
    (case r of Inl _ \<Rightarrow> ms' = ms
     | Inr _ \<Rightarrow> n = 0 \<and> ms' = ms \<or>
         (\<exists>a. area_at (ms_areas ms) addr = Some a \<and>
           {area_end a..<area_end a + n} \<inter> mapped (ms_areas ms) = {} \<and>
           attrs_at (ms_areas ms') =
             put_on {area_end a..<area_end a + n} (area_attrs a) (attrs_at (ms_areas ms))))"
proof (cases "n = 0 \<or> area_at (ms_areas ms) addr = None")
  case True
  have "areas_wf (ms_areas ms)"
    using inv by (simp add: ms_inv_def)
  with True inv show ?thesis
    by (auto simp: extend_area_def containing_key_eq)
next
  case False
  let ?m = "ms_areas ms"
  have wf: "areas_wf ?m"
    using inv by (simp add: ms_inv_def)
  from False obtain a where at: "area_at ?m addr = Some a" and "n \<noteq> 0"
    by auto
  then have mem: "(area_start a, a) \<in> set ?m"
    by (simp add: area_at_Some [OF wf])
  have key: "containing_key ms addr = Some (area_start a)" and get: "bt_get ?m (area_start a) = Some a"
    using at mem wf by (simp_all add: containing_key_eq [OF wf] bt_get_iff)
  note eqs = extend_area_def key get \<open>n \<noteq> 0\<close> addr_checked_add_def usize_checked_add_def
  show ?thesis
  proof (cases "area_end a + n < usize_lim")
    case False
    with inv show ?thesis
      by (simp add: eqs)
  next
    case lim: True
    let ?clash = "case bt_first_from (area_end a) ?m of
      Some (_, nxt) \<Rightarrow> area_end a + n > area_start nxt | None \<Rightarrow> False"
    obtain r a' env' where grow: "grow_right B a n env = (r, a', env')"
      by (cases "grow_right B a n env")
    show ?thesis
    proof (cases ?clash)
      case True
      with inv lim show ?thesis
        by (simp add: eqs)
    next
      case False
      then have free: "{area_end a..<area_end a + n} \<inter> mapped ?m = {}"
        using extension_free [OF wf mem, of "area_end a + n"] by (force split: option.splits)
      show ?thesis
      proof (cases r)
        case (Inl err)
        then have "a' = a"
          using grow_right_err grow by blast
        with Inl grow lim False inv mem wf show ?thesis
          by (simp add: eqs bt_insert_same)
      next
        case (Inr u)
        then have g: "grow_right B a n env = (Inr (), a', env')"
          using grow by simp
        note ga = grow_right_ok [OF areas_wf_memberD(2) [OF wf mem] g]
        have addrs: "area_addrs a' = area_addrs a \<union> {area_end a..<area_end a + n}"
          using ga areas_wf_memberD [OF wf mem] by (auto simp: area_addrs_def area_ok_def)
        have "(area_addrs a' - area_addrs a) \<inter> mapped ?m = {}"
          using free unfolding addrs by blast
        note res = resize_area [OF wf mem ga(1,3) this]
        have "area_addrs a \<subseteq> mapped ?m"
          using mem by (force simp: mapped_def)
        then have "mapped (bt_insert (area_start a) a' ?m) = {area_end a..<area_end a + n} \<union> mapped ?m"
          unfolding res(3) addrs by blast
        then obtain gi where gi: "gap_index_occupy (ms_gaps ms) (area_end a) (area_end a + n) = Some gi"
          "ms_inv (ms\<lparr>ms_areas := bt_insert (area_start a) a' ?m, ms_gaps := gi\<rparr>)"
          using ms_inv_occupy [OF inv _ lim free res(1)] \<open>n \<noteq> 0\<close> by auto
        have "attrs_at (bt_insert (area_start a) a' ?m) =
            put_on {area_end a..<area_end a + n} (area_attrs a) (attrs_at ?m)"
          using res(2) addrs ga attrs_at_memberI [OF wf mem] by (auto simp: put_on_def)
        with gi g lim False at free \<open>n \<noteq> 0\<close> show ?thesis
          by (simp add: eqs)
      qed
    qed
  qed
qed


lemma rollback_extend_outcome:
  assumes inv: "ms_inv ms"
  shows "\<exists>r ms' env'. rollback_extend_area B ms addr n env = Some (r, ms', env') \<and> ms_inv ms' \<and>
    (case r of Inl _ \<Rightarrow> attrs_at (ms_areas ms') = attrs_at (ms_areas ms)
     | Inr _ \<Rightarrow> n = 0 \<and> ms' = ms \<or>
         (\<exists>a. area_at (ms_areas ms) addr = Some a \<and> n < area_size a \<and>
           attrs_at (ms_areas ms') = cut_out {area_end a - n..<area_end a} (attrs_at (ms_areas ms))))"
proof (cases "n = 0 \<or> area_at (ms_areas ms) addr = None")
  case True
  have "areas_wf (ms_areas ms)"
    using inv by (simp add: ms_inv_def)
  with True inv show ?thesis
    by (auto simp: rollback_extend_area_def containing_key_eq)
next
  case False
  let ?m = "ms_areas ms"
  have wf: "areas_wf ?m"
    using inv by (simp add: ms_inv_def)
  from False obtain a where at: "area_at ?m addr = Some a" and "n \<noteq> 0"
    by auto
  then have mem: "(area_start a, a) \<in> set ?m"
    by (simp add: area_at_Some [OF wf])
  note ok = areas_wf_memberD(2) [OF wf mem]
  have key: "containing_key ms addr = Some (area_start a)" and get: "bt_get ?m (area_start a) = Some a"
    using at mem wf by (simp_all add: containing_key_eq [OF wf] bt_get_iff)
  note eqs = rollback_extend_area_def key get \<open>n \<noteq> 0\<close>
  show ?thesis
  proof (cases "n < area_size a")
    case False
    with inv show ?thesis
      by (simp add: eqs)
  next
    case True
    define suf where "suf = area_end a - n"
    have suf: "addr_checked_sub (area_end a) n = Some suf" "area_start a < suf" "suf < area_end a"
      using True area_size_eq [OF ok] \<open>n \<noteq> 0\<close>
      by (auto simp: addr_checked_sub_def usize_checked_sub_def suf_def)
    have sz: "usize_sub (area_size a) n = suf - area_start a"
      using True area_size_eq [OF ok] by (simp add: usize_simps suf_def)
    obtain um env' where um: "b_unmap B (ma_backend a) suf n env = (um, env')"
      by (cases "b_unmap B (ma_backend a) suf n env")
    obtain r a' where sh: "shrink_right_metadata B a (suf - area_start a) = (r, a')"
      by (cases "shrink_right_metadata B a (suf - area_start a)")
    note eqs = eqs True suf(1) um sz sh
    show ?thesis
    proof (cases "b_validate_unmap B (ma_backend a) suf n (snd env) \<and> um")
      case False
      with inv True suf um show ?thesis
        by (auto simp: eqs not_le)
    next
      case umd: True
      let ?m' = "bt_insert (area_start a) a' ?m"
      show ?thesis
      proof (cases r)
        case (Inl err)
        then have a': "area_start a' = area_start a" "area_end a' = area_end a" "area_attrs a' = area_attrs a"
          using sh by (auto simp: shrink_right_metadata_def Let_def area_start_def area_end_def
              area_attrs_def split: if_splits option.splits prod.splits)
        then have "area_ok a'" and eq: "area_addrs a' = area_addrs a"
          using ok by (simp_all add: area_ok_def area_addrs_def)
        with resize_area [OF wf mem this(1) a'(1)] a' attrs_at_memberI [OF wf mem] have
          "areas_wf ?m'" "attrs_at ?m' = attrs_at ?m"
          by (auto simp: fun_eq_iff)
        with Inl umd True inv mapped_eqI [of ?m' ?m] show ?thesis
          by (simp add: eqs not_le ms_inv_def)
      next
        case (Inr u)
        have a': "area_ok a'" "area_end a' = suf" "area_start a' = area_start a"
            "area_attrs a' = area_attrs a"
          using shrink_right_ok [OF ok, of B "suf - area_start a" a'] sh Inr suf by auto
        have sub: "area_addrs a' \<subseteq> area_addrs a" "area_addrs a - area_addrs a' = {suf..<area_end a}"
          using a' suf by (auto simp: area_addrs_def)
        then have free: "(area_addrs a' - area_addrs a) \<inter> mapped ?m = {}"
          by blast
        note res = resize_area [OF wf mem a'(1,3) free]
        define rng where "rng = \<lparr>ar_start = suf, ar_end = area_end a\<rparr>"
        have rs: "range_set rng = {suf..<area_end a}"
          by (simp add: rng_def range_set_def)
        have cut: "attrs_at ?m' = cut_out (range_set rng) (attrs_at ?m)"
          using res(2) attrs_at_memberI [OF wf mem] sub a' unfolding cut_out_def rs by (auto simp: fun_eq_iff)
        obtain g where g: "gap_index_release (ms_gaps ms) suf (area_end a) = Some g"
          "ms_inv (ms\<lparr>ms_areas := ?m', ms_gaps := g\<rparr>)"
          using ms_inv_release [OF inv _ _ res(1) cut] suf ok
          by (auto simp: rng_def range_is_empty_def area_ok_def)
        then have "rollback_extend_area B ms addr n env =
            Some (Inr (), ms\<lparr>ms_areas := ?m', ms_gaps := g\<rparr>, env')"
          using Inr umd True by (simp add: eqs not_le)
        with g(2) at cut True show ?thesis
          unfolding rs suf_def by auto
      qed
    qed
  qed
qed

section \<open>Replacing parts of an area\<close>

text \<open>\<open>carved m k X m'\<close>: the area with key \<open>k\<close> has been taken out of \<open>m\<close> and all of it but the
  addresses \<open>X\<close> has been put back.\<close>

definition carved ::
  "('b, 'f) memory_area btree \<Rightarrow> usize \<Rightarrow> usize set \<Rightarrow> ('b, 'f) memory_area btree \<Rightarrow> bool" where
  "carved m k X m' \<longleftrightarrow> areas_wf m' \<and> attrs_at m' = cut_out X (attrs_at m) \<and>
     {kv \<in> set m. fst kv \<noteq> k} \<subseteq> set m'"

lemma carved_remove:
  "areas_wf m \<Longrightarrow> (k, a) \<in> set m \<Longrightarrow> carved m k (area_addrs a) (bt_remove k m)"
  using attrs_at_remove [of m k a] by (auto simp: carved_def cut_out_def)

lemma carved_mapped: "carved m k X m' \<Longrightarrow> mapped m' = mapped m - X"
  unfolding carved_def by (metis dom_attrs_at dom_cut_out)

lemma carved_free: "carved m k X m' \<Longrightarrow> Y \<subseteq> X \<Longrightarrow> Y \<inter> mapped m' = {}"
  unfolding carved_mapped by blast

lemma carved_insert:
  assumes c: "carved m k X m'" and a: "area_ok a" "area_addrs a \<subseteq> X"
  shows "areas_wf (bt_insert (area_start a) a m')"
    and "attrs_at (bt_insert (area_start a) a m') =
      put_on (area_addrs a) (area_attrs a) (cut_out X (attrs_at m))"
    and "{kv \<in> set m. fst kv \<noteq> k} \<subseteq> set (bt_insert (area_start a) a m')"
    and "bt_get m' (area_start a) = None"
proof -
  have wf: "areas_wf m'"
    using c by (simp add: carved_def)
  note ins = wf a(1) carved_free [OF c a(2)]
  show "areas_wf (bt_insert (area_start a) a m')"
    by (rule areas_wf_insert [OF ins])
  show "attrs_at (bt_insert (area_start a) a m') =
      put_on (area_addrs a) (area_attrs a) (cut_out X (attrs_at m))"
    using attrs_at_insert [OF ins] c by (auto simp: put_on_def carved_def)
  show "{kv \<in> set m. fst kv \<noteq> k} \<subseteq> set (bt_insert (area_start a) a m')"
    using c unfolding set_insert_fresh [OF ins] carved_def by blast
  show "bt_get m' (area_start a) = None"
    using fresh_key [OF ins] by (auto simp: bt_get_None)
qed

lemma carved_put_back:
  assumes c: "carved m k X m'" and a: "area_ok a" "area_addrs a \<subseteq> X"
    and same: "\<And>x. x \<in> area_addrs a \<Longrightarrow> attrs_at m x = Some (area_attrs a)"
  shows "carved m k (X - area_addrs a) (bt_insert (area_start a) a m')"
  using carved_insert [OF c a] same by (auto simp: carved_def put_on_def cut_out_def)

lemma split_part_cases:
  assumes "area_ok a"
  obtains err where "split_part B a pos = Some (Inl err)"
  | right left where "split_part B a pos = Some (Inr (right, left))"
      "area_ok left" "area_ok right" "area_addrs left = {area_start a..<pos}"
      "area_addrs right = {pos..<area_end a}" "area_start left = area_start a" "area_start right = pos"
      "area_end right = area_end a" "area_end left = pos"
      "area_attrs left = area_attrs a" "area_attrs right = area_attrs a"
proof -
  obtain r l where sp: "area_split B a pos = Some (r, l)"
    using area_split_total [OF assms, of B pos] by auto
  show thesis
  proof (cases "\<exists>rt. r = Inr (Some rt)")
    case True
    then obtain rt where "r = Inr (Some rt)" ..
    with sp area_split_ok [OF assms, of B pos rt l] show thesis
      by (intro that(2) [of rt l]) (simp_all add: split_part_def area_addrs_def)
  next
    case False
    with sp show thesis
      by (intro that(1) [of "case r of Inl err \<Rightarrow> err | Inr _ \<Rightarrow> BadState"])
        (auto simp: split_part_def split: sum.split option.split)
  qed
qed


lemma replace_stage_right_ok:
  assumes c: "carved m k {area_start a..<area_end old} m'" and old: "area_ok old"
    "area_start old = area_start a" "area_end a \<le> area_end old" and a: "area_ok a"
    and attrs: "\<And>x. x \<in> area_addrs old \<Longrightarrow> attrs_at m x = Some (area_attrs old)"
  shows "\<exists>r. replace_stage_right B a old m' = Some r \<and>
    (\<forall>m''. r = Inr m'' \<longrightarrow> areas_wf m'' \<and> attrs_at m'' = put_on (area_addrs a) (area_attrs a) (attrs_at m))"
proof -
  have finish: "bt_get m1 (area_start a) = None \<and> areas_wf (bt_insert (area_start a) a m1) \<and>
      attrs_at (bt_insert (area_start a) a m1) = put_on (area_addrs a) (area_attrs a) (attrs_at m)"
    if "carved m k (area_addrs a) m1" for m1
    using carved_insert [OF that a] by simp
  show ?thesis
  proof (cases "area_end a < area_end old")
    case False
    with c old(3) have "carved m k (area_addrs a) m'"
      by (simp add: area_addrs_def)
    with finish False show ?thesis
      by (simp add: replace_stage_right_def)
  next
    case True
    show ?thesis
    proof (cases rule: split_part_cases [OF old(1), of B "area_end a"])
      case (1 err)
      with True show ?thesis
        by (simp add: replace_stage_right_def)
    next
      case (2 right left)
      have "carved m k ({area_start a..<area_end old} - area_addrs right)
          (bt_insert (area_start right) right m')"
        using 2 a old attrs by (intro carved_put_back [OF c]) (auto simp: area_addrs_def area_ok_def)
      moreover have "{area_start a..<area_end old} - area_addrs right = area_addrs a"
        using 2 True by (auto simp: area_addrs_def)
      ultimately show ?thesis
        using finish 2 True by (simp add: replace_stage_right_def)
    qed
  qed
qed

lemma replace_area_metadata_outcome:
  assumes inv: "ms_inv ms"
  shows "\<exists>r ms'. replace_area_metadata B ms a = Some (r, ms') \<and> ms_inv ms' \<and>
    (case r of Inl _ \<Rightarrow> ms' = ms
     | Inr _ \<Rightarrow> area_addrs a \<subseteq> mapped (ms_areas ms) \<and>
         attrs_at (ms_areas ms') = put_on (area_addrs a) (area_attrs a) (attrs_at (ms_areas ms)))"
proof (cases "containing_area_for_metadata_replacement ms a")
  case (Inl err)
  with inv show ?thesis
    by (simp add: replace_area_metadata_def)
next
  case (Inr k)
  let ?m = "ms_areas ms"
  have wf: "areas_wf ?m"
    using inv by (simp add: ms_inv_def)
  from Inr obtain old where last: "bt_last_upto (area_start a) ?m = Some (k, old)"
    and se: "area_start a < area_end a" "area_start old \<le> area_start a" "area_end a \<le> area_end old"
    by (auto simp: containing_area_for_metadata_replacement_def range_is_empty_def area_start_def
        area_end_def split: if_splits option.splits)
  have mem: "(k, old) \<in> set ?m"
    using bt_last_upto_Some [OF areas_wf_bt [OF wf] last] by simp
  note old = areas_wf_memberD [OF wf mem] attrs_at_memberI [OF wf mem]
  have ok: "area_ok a"
    using se old by (simp add: area_ok_def)
  have get: "bt_get ?m k = Some old"
    using mem wf by (simp add: bt_get_iff)
  note c0 = carved_remove [OF wf mem]
  have "\<exists>r. replace_areas B a k ?m = Some r \<and>
    (\<forall>m''. r = Inr m'' \<longrightarrow> areas_wf m'' \<and> attrs_at m'' = put_on (area_addrs a) (area_attrs a) (attrs_at ?m))"
  proof (cases "k < area_start a")
    case False
    then have start: "area_start old = area_start a"
      using old se by simp
    with c0 have "carved ?m k {area_start a..<area_end old} (bt_remove k ?m)"
      by (simp add: area_addrs_def)
    from replace_stage_right_ok [OF this old(2) start se(3) ok old(3)] show ?thesis
      using get False by (simp add: replace_areas_def)
  next
    case True
    show ?thesis
    proof (cases rule: split_part_cases [OF old(2), of B "area_start a"])
      case (1 err)
      with True get show ?thesis
        by (simp add: replace_areas_def)
    next
      case (2 right left)
      have sub: "area_addrs left \<subseteq> area_addrs old" "area_addrs right \<subseteq> area_addrs old"
        using 2 se by (auto simp: area_addrs_def)
      have "carved ?m k (area_addrs old - area_addrs left)
          (bt_insert (area_start left) left (bt_remove k ?m))"
        using 2(2,10) sub old(3) by (intro carved_put_back [OF c0]) auto
      moreover have "area_addrs old - area_addrs left = {area_start a..<area_end right}"
        using 2 se by (auto simp: area_addrs_def)
      ultimately have c1: "carved ?m k {area_start a..<area_end right}
          (bt_insert k left (bt_remove k ?m))"
        using 2(6) old(1) by simp
      have "attrs_at ?m x = Some (area_attrs right)" if "x \<in> area_addrs right" for x
        using old(3) [of x] sub that 2(11) by auto
      from replace_stage_right_ok [OF c1 2(3) _ _ ok this] 2 se show ?thesis
        using get True by (simp add: replace_areas_def)
    qed
  qed
  then obtain r where r: "replace_areas B a k ?m = Some r"
    "\<And>m''. r = Inr m'' \<Longrightarrow> areas_wf m'' \<and> attrs_at m'' = put_on (area_addrs a) (area_attrs a) (attrs_at ?m)"
    by blast
  have sub: "area_addrs a \<subseteq> mapped ?m"
    using mem se old(1) by (force simp: mapped_def area_addrs_def)
  show ?thesis
  proof (cases r)
    case (Inl err)
    with r(1) Inr inv show ?thesis
      by (simp add: replace_area_metadata_def \<open>containing_area_for_metadata_replacement ms a = Inr k\<close>)
  next
    case res: (Inr m'')
    have "mapped m'' = area_addrs a \<union> mapped ?m"
      using r(2) [OF res] by (metis dom_attrs_at dom_put_on)
    then have "mapped m'' = mapped ?m"
      using sub by blast
    with r res inv sub show ?thesis
      by (simp add: replace_area_metadata_def \<open>containing_area_for_metadata_replacement ms a = Inr k\<close> ms_inv_def)
  qed
qed


section \<open>Changing protection\<close>

definition op_addrs :: "'f protect_op \<Rightarrow> usize set" where
  "op_addrs op = {po_start op..<po_end op}"

definition op_effect :: "'f protect_op \<Rightarrow> (usize \<rightharpoonup> 'f \<times> 'f \<times> 'f) \<Rightarrow> usize \<rightharpoonup> 'f \<times> 'f \<times> 'f" where
  "op_effect op f = (\<lambda>x. if x \<in> op_addrs op
     then map_option (\<lambda>t. (po_new_flags op, po_new_reported op, snd (snd t))) (f x) else f x)"

text \<open>An operation lies within the area it names.\<close>

definition op_within :: "('b, 'f) memory_area btree \<Rightarrow> 'f protect_op \<Rightarrow> bool" where
  "op_within m op \<longleftrightarrow> (\<exists>a. (po_area op, a) \<in> set m \<and> po_area op \<le> po_start op \<and>
     po_start op < po_end op \<and> po_end op \<le> area_end a)"

lemma prepare_one_tail:
  assumes c: "carved m k {po_start op..<area_end middle} p" and mid: "area_ok middle"
    "area_start middle = po_start op" "po_end op \<le> area_end middle" and se: "po_start op < po_end op"
    and attrs: "\<And>x. x \<in> area_addrs middle \<Longrightarrow> attrs_at m x = Some (area_attrs middle)"
  shows "\<exists>r. prepare_tail B op middle p = Some r \<and> (\<forall>p'. r = Inr p' \<longrightarrow> areas_wf p' \<and>
    attrs_at p' = op_effect op (attrs_at m) \<and> {kv \<in> set m. fst kv \<noteq> k} \<subseteq> set p')"
proof -
  have finish: "areas_wf (bt_insert (area_start a') a' p1) \<and>
      attrs_at (bt_insert (area_start a') a' p1) = op_effect op (attrs_at m) \<and>
      {kv \<in> set m. fst kv \<noteq> k} \<subseteq> set (bt_insert (area_start a') a' p1)"
    if p1: "carved m k (op_addrs op) p1" and a: "area_ok a" "area_addrs a = op_addrs op"
      "area_attrs a = area_attrs middle"
      "a' = set_flags_with_reported_flags a (po_new_flags op) (po_new_reported op)" for p1 a a'
  proof -
    have a': "area_ok a'" "area_addrs a' = op_addrs op"
      "area_attrs a' = (po_new_flags op, po_new_reported op, ma_max middle)"
      using a by (simp_all add: set_flags_with_reported_flags_def area_ok_def area_start_def area_end_def
          area_addrs_def area_attrs_def)
    have "attrs_at m x = Some (area_attrs middle)" if "x \<in> op_addrs op" for x
      using that mid by (intro attrs) (auto simp: op_addrs_def area_addrs_def)
    then have "put_on (op_addrs op) (area_attrs a') (attrs_at m) = op_effect op (attrs_at m)"
      unfolding put_on_def op_effect_def a'(3) by (intro ext) (simp add: area_attrs_def)
    with carved_insert [OF p1 a'(1)] a'(2) show ?thesis
      by simp
  qed
  show ?thesis
  proof (cases "po_end op < area_end middle")
    case False
    then have "area_addrs middle = op_addrs op" "carved m k (op_addrs op) p"
      using mid c by (simp_all add: area_addrs_def op_addrs_def)
    with finish [OF this(2) mid(1) this(1)] False show ?thesis
      by (simp add: prepare_tail_def Let_def)
  next
    case True
    show ?thesis
    proof (cases rule: split_part_cases [OF mid(1), of B "po_end op"])
      case (1 err)
      with True show ?thesis
        by (simp add: prepare_tail_def Let_def)
    next
      case (2 right left)
      have "area_addrs right \<subseteq> {po_start op..<area_end middle}"
        using 2(5) se by auto
      moreover have "attrs_at m x = Some (area_attrs right)" if "x \<in> area_addrs right" for x
        using attrs [of x] that mid(2) se unfolding 2(5,11) by (simp add: area_addrs_def)
      ultimately have "carved m k ({po_start op..<area_end middle} - area_addrs right)
          (bt_insert (area_start right) right p)"
        by (intro carved_put_back [OF c 2(3)])
      moreover have "{po_start op..<area_end middle} - area_addrs right = op_addrs op"
        unfolding 2(5) op_addrs_def using True by auto
      ultimately have p1: "carved m k (op_addrs op) (bt_insert (area_start right) right p)"
        by simp
      have "area_addrs left = op_addrs op"
        using 2(4) mid(2) by (simp add: op_addrs_def)
      with finish [OF p1 2(2) this 2(10)] 2(1) True show ?thesis
        by (simp add: prepare_tail_def Let_def)
    qed
  qed
qed

lemma prepare_one_ok:
  assumes wf: "areas_wf m" and op: "op_within m op"
  shows "\<exists>r. prepare_one B op m = Some r \<and> (\<forall>p'. r = Inr p' \<longrightarrow> areas_wf p' \<and>
    attrs_at p' = op_effect op (attrs_at m) \<and> {kv \<in> set m. fst kv \<noteq> po_area op} \<subseteq> set p')"
proof -
  let ?k = "po_area op"
  from op obtain a where mem: "(?k, a) \<in> set m" and se: "?k \<le> po_start op" "po_start op < po_end op"
    "po_end op \<le> area_end a"
    by (auto simp: op_within_def)
  note a = areas_wf_memberD [OF wf mem] attrs_at_memberI [OF wf mem]
  have get: "bt_get m ?k = Some a"
    using mem wf by (simp add: bt_get_iff)
  note c0 = carved_remove [OF wf mem]
  show ?thesis
  proof (cases "?k < po_start op")
    case False
    then have start: "area_start a = po_start op"
      using a se by simp
    with c0 have "carved m ?k {po_start op..<area_end a} (bt_remove ?k m)"
      by (simp add: area_addrs_def)
    from prepare_one_tail [OF this a(2) start se(3,2) a(3), of B] show ?thesis
      using get False by (simp add: prepare_one_def Let_def)
  next
    case True
    show ?thesis
    proof (cases rule: split_part_cases [OF a(2), of B "po_start op"])
      case (1 err)
      with True get show ?thesis
        by (simp add: prepare_one_def Let_def)
    next
      case (2 right left)
      have sub: "area_addrs left \<subseteq> area_addrs a" "area_addrs right \<subseteq> area_addrs a"
        using 2 se a(1) by (auto simp: area_addrs_def)
      have "carved m ?k (area_addrs a - area_addrs left)
          (bt_insert (area_start left) left (bt_remove ?k m))"
        using 2(2,10) sub a(3) by (intro carved_put_back [OF c0]) auto
      moreover have "area_addrs a - area_addrs left = {po_start op..<area_end right}"
        using 2 se a(1) by (auto simp: area_addrs_def)
      ultimately have c1: "carved m ?k {po_start op..<area_end right}
          (bt_insert ?k left (bt_remove ?k m))"
        using 2(6) a(1) by simp
      have "attrs_at m x = Some (area_attrs right)" if "x \<in> area_addrs right" for x
        using a(3) [of x] sub that 2(11) by auto
      from prepare_one_tail [OF c1 2(3) _ _ se(2) this, of B] 2 se show ?thesis
        using get True by (simp add: prepare_one_def Let_def)
    qed
  qed
qed


fun ops_effect :: "'f protect_op list \<Rightarrow> (usize \<rightharpoonup> 'f \<times> 'f \<times> 'f) \<Rightarrow> usize \<rightharpoonup> 'f \<times> 'f \<times> 'f" where
  "ops_effect [] f = f"
| "ops_effect (op # ops) f = ops_effect ops (op_effect op f)"

lemma op_within_sub: "op_within m op \<Longrightarrow> \<exists>n. addr_sub_addr (po_end op) (po_start op) = Some n"
  by (auto simp: op_within_def addr_sub_addr_def usize_checked_sub_def)

lemma op_within_get: "areas_wf m \<Longrightarrow> op_within m op \<Longrightarrow> \<exists>a. bt_get m (po_area op) = Some a"
  by (auto simp: op_within_def bt_get_iff)

lemma prepare_protect_ok:
  assumes areas: "areas_wf areas" "\<forall>op\<in>set ops. op_within areas op"
    and wf: "areas_wf m" "\<forall>op\<in>set ops. op_within m op" and "distinct (map po_area ops)"
  shows "\<exists>r. prepare_protect B areas pt ops m = Some r \<and>
    (\<forall>p'. r = Inr p' \<longrightarrow> areas_wf p' \<and> attrs_at p' = ops_effect ops (attrs_at m))"
  using assms(2-)
proof (induction ops arbitrary: m)
  case (Cons op ops)
  obtain orig n where orig: "bt_get areas (po_area op) = Some orig"
    "addr_sub_addr (po_end op) (po_start op) = Some n"
    using op_within_get [OF areas(1)] op_within_sub Cons.prems(1) by force
  obtain r where r: "prepare_one B op m = Some r" "\<And>p'. r = Inr p' \<Longrightarrow> areas_wf p' \<and>
      attrs_at p' = op_effect op (attrs_at m) \<and> {kv \<in> set m. fst kv \<noteq> po_area op} \<subseteq> set p'"
    using prepare_one_ok [of m op B] Cons.prems by auto
  show ?case
  proof (cases "b_validate_protect B (ma_backend orig) (po_start op) n (po_new_flags op) pt")
    case False
    with orig show ?thesis
      by simp
  next
    case valid: True
    show ?thesis
    proof (cases r)
      case (Inl err)
      with orig valid r(1) show ?thesis
        by simp
    next
      case (Inr p')
      have "op_within p' op'" if "op' \<in> set ops" for op'
      proof -
        have "po_area op \<notin> po_area ` set ops"
          using Cons.prems(4) by simp
        with that have "po_area op' \<noteq> po_area op"
          by (metis imageI)
        with r(2) [OF Inr] Cons.prems(3) that show ?thesis
          unfolding op_within_def by fastforce
      qed
      with Cons.IH [of p'] r(2) [OF Inr] Cons.prems obtain r' where
        "prepare_protect B areas pt ops p' = Some r'"
        "\<forall>q. r' = Inr q \<longrightarrow> areas_wf q \<and> attrs_at q = ops_effect ops (attrs_at p')"
        by auto
      with orig valid r Inr show ?thesis
        by simp
    qed
  qed
qed simp

lemma rollback_protect_total:
  assumes "areas_wf areas" "\<forall>op\<in>set ops. op_within areas op"
  shows "\<exists>r. rollback_protect B areas ops restored env = Some r"
  using assms(2)
proof (induction ops arbitrary: restored env)
  case (Cons op ops)
  obtain a n where "bt_get areas (po_area op) = Some a"
    "addr_sub_addr (po_end op) (po_start op) = Some n"
    using op_within_get [OF assms(1)] op_within_sub Cons.prems by force
  with Cons show ?case
    by (auto split: prod.split)
qed simp

lemma apply_protect_total:
  assumes "areas_wf areas" "\<forall>op\<in>set (finished @ ops). op_within areas op"
  shows "\<exists>r. apply_protect B areas finished ops env = Some r"
  using assms(2)
proof (induction ops arbitrary: finished env)
  case (Cons op ops)
  obtain a n where an: "bt_get areas (po_area op) = Some a"
    "addr_sub_addr (po_end op) (po_start op) = Some n"
    using op_within_get [OF assms(1)] op_within_sub Cons.prems by force
  obtain r env1 where pr: "protect_range B a (po_start op) n (po_new_flags op) env = (r, env1)"
    by (cases "protect_range B a (po_start op) n (po_new_flags op) env")
  obtain rb where rb: "rollback_protect B areas (op # finished) True env1 = Some rb"
    using rollback_protect_total [OF assms(1), of "op # finished" B True env1] Cons.prems by auto
  have "\<exists>r. apply_protect B areas (op # finished) ops env1 = Some r"
    using Cons.prems by (intro Cons.IH) auto
  with an pr rb show ?case
    by (cases r; cases rb) simp_all
qed simp

text \<open>What \<open>protect\<close> does to the permissions of one address.\<close>

definition update_attrs ::
  "('f \<Rightarrow> 'f \<Rightarrow> ('f \<times> 'f) option) \<Rightarrow> 'f \<times> 'f \<times> 'f \<Rightarrow> 'f \<times> 'f \<times> 'f" where
  "update_attrs upd t = (case upd (fst t) (fst (snd t)) of
     Some (fl, rep) \<Rightarrow> (fl, rep, snd (snd t)) | None \<Rightarrow> t)"

lemma areas_wf_Cons: "areas_wf (kv # m) \<Longrightarrow> areas_wf m"
  using areas_wf_bt [of "kv # m"] by (auto intro: areas_wf_subset)

lemma protect_operations_within:
  assumes "areas_wf m" "s < e"
  shows "\<forall>op\<in>set (protect_operations s e upd m). op_within m op \<and> po_area op \<in> fst ` set m"
  using assms(1)
proof (induction m)
  case (Cons kv m)
  obtain k a where [simp]: "kv = (k, a)"
    by (cases kv)
  have "area_start a = k" "area_ok a"
    using areas_wf_memberD [OF Cons.prems, of k a] by simp_all
  moreover have "op_within m op \<Longrightarrow> op_within (kv # m) op" for op :: "'b protect_op"
    by (auto simp: op_within_def)
  ultimately show ?case
    using Cons.IH [OF areas_wf_Cons [OF Cons.prems]] assms(2)
    by (auto simp: op_within_def area_ok_def split: option.split)
qed simp

lemma protect_operations_distinct:
  "areas_wf m \<Longrightarrow> s < e \<Longrightarrow> distinct (map po_area (protect_operations s e upd m))"
proof (induction m)
  case (Cons kv m)
  obtain k a where [simp]: "kv = (k, a)"
    by (cases kv)
  have "k \<notin> fst ` set m"
    using bt_wf_distinct [OF areas_wf_bt [OF Cons.prems(1)]] by simp
  with protect_operations_within [OF areas_wf_Cons [OF Cons.prems(1)] Cons.prems(2), of upd]
    Cons.IH [OF areas_wf_Cons [OF Cons.prems(1)] Cons.prems(2)] show ?case
    by (force split: option.split)
qed simp

lemma protect_operations_disjoint:
  "\<forall>op\<in>set (protect_operations s e upd m). op_addrs op \<subseteq> {s..<e} \<and>
     (\<exists>kv\<in>set m. fst kv \<le> po_start op \<and> po_end op \<le> area_end (snd kv))"
  by (induction s e upd m rule: protect_operations.induct) (auto simp: op_addrs_def split: option.split)


lemma ops_effect_outside: "\<forall>op\<in>set ops. x \<notin> op_addrs op \<Longrightarrow> ops_effect ops f x = f x"
  by (induction ops arbitrary: f) (simp_all add: op_effect_def)

definition protect_at ::
  "usize \<Rightarrow> usize \<Rightarrow> ('f \<Rightarrow> 'f \<Rightarrow> ('f \<times> 'f) option) \<Rightarrow> ('b, 'f) memory_area btree \<Rightarrow>
     (usize \<rightharpoonup> 'f \<times> 'f \<times> 'f) \<Rightarrow> usize \<rightharpoonup> 'f \<times> 'f \<times> 'f" where
  "protect_at s e upd m f x =
     (if x \<in> {s..<e} then
        (case area_at m x of
           Some a \<Rightarrow> (case upd (ma_flags a) (ma_reported a) of
               Some (fl, rep) \<Rightarrow> map_option (\<lambda>t. (fl, rep, snd (snd t))) (f x)
             | None \<Rightarrow> f x)
         | None \<Rightarrow> f x)
      else f x)"

lemma area_at_Cons:
  "area_at ((k, a) # m) x = (if x \<in> area_addrs a then Some a else area_at m x)"
  by (simp add: area_at_def area_addrs_def)

lemma ops_effect_operations:
  assumes "areas_wf m" "s < e"
  shows "ops_effect (protect_operations s e upd m) f x = protect_at s e upd m f x"
  using assms(1)
proof (induction m arbitrary: f)
  case Nil
  then show ?case
    by (simp add: protect_at_def area_at_def)
next
  case (Cons kv m)
  obtain k a where [simp]: "kv = (k, a)"
    by (cases kv)
  note wf = Cons.prems and wf' = areas_wf_Cons [OF Cons.prems]
  have a: "area_start a = k" "area_ok a"
    using areas_wf_memberD [OF wf, of k a] by simp_all
  note IH = Cons.IH [OF wf']
  have later: "area_end a \<le> fst kv'" if "kv' \<in> set m" for kv'
  proof -
    have "k < fst kv'"
      using areas_wf_bt [OF wf] that by simp
    with areas_wf_order [OF wf, of k a "fst kv'" "snd kv'"] that show ?thesis
      by simp
  qed
  show ?case
  proof (cases "k \<ge> e")
    case True
    have "x \<notin> mapped (kv # m)" if "x < e"
    proof -
      have "x < area_start a"
        using that True a by simp
      moreover have "x < area_start (snd kv')" if "kv' \<in> set m" for kv'
        using later [OF that] areas_wf_memberD(1) [OF wf', of "fst kv'" "snd kv'"] that \<open>x < area_start a\<close> a
        by (simp add: area_ok_def)
      ultimately show ?thesis
        by (fastforce simp: mapped_def area_addrs_def)
    qed
    then have "x < e \<Longrightarrow> area_at (kv # m) x = None"
      by (simp add: area_at_None)
    with True show ?thesis
      by (auto simp: protect_at_def)
  next
    case lt: False
    show ?thesis
    proof (cases "area_end a \<le> s")
      case True
      then show ?thesis
        using lt IH by (auto simp: protect_at_def area_at_Cons area_addrs_def)
    next
      case ov: False
      show ?thesis
      proof (cases "x \<in> area_addrs a \<and> x \<in> {s..<e}")
        case True
        have "\<forall>op\<in>set (protect_operations s e upd m). x \<notin> op_addrs op"
          using protect_operations_disjoint [of s e upd m] later True
          by (fastforce simp: op_addrs_def area_addrs_def)
        note out = ops_effect_outside [OF this]
        from True lt ov a(1) show ?thesis
          by (auto simp: out protect_at_def area_at_Cons op_effect_def op_addrs_def area_addrs_def
              split: option.split)
      next
        case False
        then have "x \<notin> {max k s..<min (area_end a) e}"
          using a(1) by (auto simp: area_addrs_def)
        with False lt ov IH show ?thesis
          by (auto simp: protect_at_def area_at_Cons op_effect_def op_addrs_def split: option.split)
      qed
    qed
  qed
qed

lemma protect_outcome:
  assumes inv: "ms_inv ms"
  shows "\<exists>r ms' env'. protect_with_reported_flags B ms start sz upd env = Some (r, ms', env') \<and>
    ms_inv ms' \<and> ms_gaps ms' = ms_gaps ms \<and>
    (case r of Inl _ \<Rightarrow> ms' = ms
     | Inr _ \<Rightarrow> attrs_at (ms_areas ms') = (\<lambda>x. if x \<in> {start..<start + sz}
         then map_option (update_attrs upd) (attrs_at (ms_areas ms) x) else attrs_at (ms_areas ms) x))"
proof (cases "start + sz < usize_lim \<and> sz \<noteq> 0")
  case False
  with inv show ?thesis
    by (auto simp: protect_with_reported_flags_def addr_checked_add_def usize_checked_add_def)
next
  case True
  let ?m = "ms_areas ms" and ?e = "start + sz"
  let ?ops = "protect_operations start ?e upd ?m"
  have wf: "areas_wf ?m" and se: "start < ?e"
    using inv True by (simp_all add: ms_inv_def)
  have within: "\<forall>op\<in>set ?ops. op_within ?m op"
    using protect_operations_within [OF wf se] by blast
  have add: "addr_checked_add start sz = Some ?e"
    using True by (simp add: addr_checked_add_def usize_checked_add_def)
  obtain r where r: "prepare_protect B ?m (snd env) ?ops ?m = Some r"
    "\<And>p'. r = Inr p' \<Longrightarrow> areas_wf p' \<and> attrs_at p' = ops_effect ?ops (attrs_at ?m)"
    using prepare_protect_ok [OF wf within wf within protect_operations_distinct [OF wf se],
        where B = B and pt = "snd env"] by auto
  obtain r2 env' where r2: "apply_protect B ?m [] ?ops env = Some (r2, env')"
    using apply_protect_total [OF wf, of "[]" ?ops B env] within by auto
  have eff: "ops_effect ?ops (attrs_at ?m) = (\<lambda>x. if x \<in> {start..<?e}
      then map_option (update_attrs upd) (attrs_at ?m x) else attrs_at ?m x)"
    by (intro ext) (auto simp: ops_effect_operations [OF wf se] protect_at_def attrs_at_def
        update_attrs_def area_attrs_def split: option.split)
  show ?thesis
  proof (cases r)
    case (Inl err)
    with add True r(1) inv show ?thesis
      by (simp add: protect_with_reported_flags_def)
  next
    case (Inr p')
    note p' = r(2) [OF Inr, unfolded eff]
    have "x \<in> mapped p' \<longleftrightarrow> x \<in> mapped ?m" for x
      using p' by (simp add: mapped_iff del: not_None_eq)
    then have "mapped p' = mapped ?m"
      by blast
    with add True r(1) r2 Inr p' inv show ?thesis
      by (cases r2) (simp_all add: protect_with_reported_flags_def ms_inv_def)
  qed
qed

lemma ms_clear_outcome:
  assumes "ms_inv ms"
  shows "ms_inv (fst (snd (ms_clear B ms env))) \<and>
    (case fst (ms_clear B ms env) of
       Inl _ \<Rightarrow> fst (snd (ms_clear B ms env)) = ms
     | Inr _ \<Rightarrow> fst (snd (ms_clear B ms env)) = ms_new)"
proof -
  have "ms_inv (ms_new :: ('a, 'b) memory_set)"
    by (simp add: ms_inv_def ms_new_def areas_wf_def mapped_def)
  moreover have "ms\<lparr>ms_areas := [], ms_gaps := gap_index_new\<rparr> = ms_new"
    by (simp add: ms_new_def)
  ultimately show ?thesis
    using assms by (auto simp: ms_clear_def split: sum.splits prod.splits)
qed


section \<open>Properties\<close>

text \<open>A backend that accepts every request, with the default methods of the trait; the concrete
  instance at which the properties are applied below.\<close>

definition accepting_backend :: "(unit, nat, unit, unit) mapping_backend" where
  "accepting_backend = \<lparr>
     b_map = \<lambda>_ _ _ _ env. (True, env), b_validate_map = \<lambda>_ _ _ _ _. True,
     b_unmap = \<lambda>_ _ _ env. (True, env), b_validate_unmap = \<lambda>_ _ _ _. True,
     b_validate_protect = \<lambda>_ _ _ _ _. True, b_protect = \<lambda>_ _ _ _ env. (True, env),
     b_split = \<lambda>be _. (Some be, be), b_shrink_left = \<lambda>be _. (True, be),
     b_shrink_right = \<lambda>be _. (True, be)\<rparr>"

definition sample_area :: "usize \<Rightarrow> usize \<Rightarrow> nat \<Rightarrow> (unit, nat) memory_area" where
  "sample_area s e fl = \<lparr>ma_range = \<lparr>ar_start = s, ar_end = e\<rparr>, ma_flags = fl, ma_reported = fl,
     ma_max = 7, ma_backend = ()\<rparr>"

definition sample_set :: "(unit, nat) memory_set" where
  "sample_set = \<lparr>ms_areas = [(4096, sample_area 4096 16384 3)],
     ms_gaps = \<lparr>root = GapNode 0 4096 NoGap NoGap 4096 1, tail_start = 16384\<rparr>\<rparr>"

lemma sample_set_inv: "ms_inv sample_set"
proof -
  have "areas_wf (ms_areas sample_set)" "gap_index_inv (ms_gaps sample_set)"
    by code_simp+
  moreover have "gap_free (ms_gaps sample_set) = - mapped (ms_areas sample_set)"
    by (auto simp: sample_set_def sample_area_def gap_free_def gap_ranges_def mapped_def area_addrs_def
        area_start_def area_end_def)
  ultimately show ?thesis
    by (simp add: ms_inv_def)
qed

text \<open>A run ended with \<open>Ok(())\<close> in a set with the given property.\<close>

definition ended_ok :: "(unit mapping_result \<times> 's \<times> 'e) option \<Rightarrow> ('s \<Rightarrow> bool) \<Rightarrow> bool" where
  "ended_ok x P = (case x of Some (Inr _, s, _) \<Rightarrow> P s | _ \<Rightarrow> False)"

lemma ended_okE:
  assumes "ended_ok x P"
  obtains s env where "x = Some (Inr (), s, env)" "P s"
proof (cases x)
  case (Some y)
  obtain r s env where "y = (r, s, env)"
    by (cases y)
  with Some assms that show thesis
    by (cases r) (auto simp: ended_ok_def)
qed (use assms in \<open>simp add: ended_ok_def\<close>)

text \<open>C15: \<open>unmap\<close> never panics on a well-formed set. When it succeeds, exactly the addresses of the
  given range lose their mapping, whether areas are removed, shrunk or split, and every other address
  keeps its permissions; when it fails, for whatever reason and whatever the backend did, the areas and
  the free ranges are unchanged. The invariant holds either way.\<close>

theorem unmap_correct:
  assumes "ms_inv ms"
  shows "\<exists>r ms' env'. ms_unmap B ms start sz env = Some (r, ms', env') \<and> ms_inv ms' \<and>
    (case r of Inl _ \<Rightarrow> ms' = ms
     | Inr _ \<Rightarrow> \<forall>x. attrs_at (ms_areas ms') x =
         (if start \<le> x \<and> x < start + sz then None else attrs_at (ms_areas ms) x))"
proof -
  obtain r ms' env' where o: "ms_unmap B ms start sz env = Some (r, ms', env')" "ms_inv ms'"
    "case r of Inl _ \<Rightarrow> ms' = ms
     | Inr _ \<Rightarrow> attrs_at (ms_areas ms') = cut_out {start..<start + sz} (attrs_at (ms_areas ms))"
    using ms_unmap_outcome [OF assms, of B start sz env] by blast
  then show ?thesis
    by (cases r) (auto simp: cut_out_def)
qed

theorem unmap_correct_witness:
  "\<exists>ms' env'. ms_unmap accepting_backend sample_set 8192 4096 ((), ()) = Some (Inr (), ms', env') \<and>
    ms_inv ms' \<and> map fst (ms_areas ms') = [4096, 12288] \<and> attrs_at (ms_areas ms') 9000 = None"
proof -
  have "ended_ok (ms_unmap accepting_backend sample_set 8192 4096 ((), ()))
      (\<lambda>ms'. map fst (ms_areas ms') = [4096, 12288])"
    by code_simp
  then obtain ms' env' where run:
    "ms_unmap accepting_backend sample_set 8192 4096 ((), ()) = Some (Inr (), ms', env')"
    and keys: "map fst (ms_areas ms') = [4096, 12288]"
    by (rule ended_okE)
  from unmap_correct [OF sample_set_inv, of accepting_backend 8192 4096 "((), ())", unfolded run]
  show ?thesis
    unfolding run using keys by auto
qed

text \<open>C16: \<open>map\<close> of an area never panics on a well-formed set. An overlapping request without
  \<open>unmap_overlap\<close> is rejected with \<open>AlreadyExists\<close> and no call of the backend; on success exactly the
  area's addresses take its permissions; on any error, also one after the old mappings were already
  removed, the areas and the free ranges are those from before the call.\<close>

theorem map_correct:
  assumes "ms_inv ms" "area_end a < usize_lim"
  shows "\<exists>r ms' env'. ms_map B ms a env unmap_overlap = Some (r, ms', env') \<and> ms_inv ms' \<and>
    (area_addrs a \<inter> mapped (ms_areas ms) \<noteq> {} \<and> \<not> unmap_overlap \<longrightarrow> r = Inl AlreadyExists \<and> env' = env) \<and>
    (case r of Inl _ \<Rightarrow> ms' = ms
     | Inr _ \<Rightarrow> \<forall>x. attrs_at (ms_areas ms') x =
         (if x \<in> area_addrs a then Some (area_attrs a) else attrs_at (ms_areas ms) x))"
proof -
  obtain r ms' env' where o: "ms_map B ms a env unmap_overlap = Some (r, ms', env')" "ms_inv ms'"
    "area_addrs a \<inter> mapped (ms_areas ms) \<noteq> {} \<and> \<not> unmap_overlap \<longrightarrow> r = Inl AlreadyExists \<and> env' = env"
    "case r of Inl _ \<Rightarrow> ms' = ms
     | Inr _ \<Rightarrow> area_start a < area_end a \<and>
         attrs_at (ms_areas ms') = put_on (area_addrs a) (area_attrs a) (attrs_at (ms_areas ms))"
    using ms_map_outcome [OF assms, of B env unmap_overlap] by blast
  then show ?thesis
    by (cases r) (auto simp: put_on_def)
qed

theorem map_correct_witness:
  "\<exists>ms' env'. ms_map accepting_backend sample_set (sample_area 8192 20480 5) ((), ()) True =
      Some (Inr (), ms', env') \<and> ms_inv ms' \<and> attrs_at (ms_areas ms') 8192 = Some (5, 5, 7) \<and>
      attrs_at (ms_areas ms') 4096 = Some (3, 3, 7)"
proof -
  have h: "area_end (sample_area 8192 20480 5) < usize_lim"
    by code_simp
  have "ended_ok (ms_map accepting_backend sample_set (sample_area 8192 20480 5) ((), ()) True)
      (\<lambda>_. True)"
    by code_simp
  then obtain ms' env' where run: "ms_map accepting_backend sample_set (sample_area 8192 20480 5) ((), ())
      True = Some (Inr (), ms', env')"
    by (rule ended_okE)
  have "8192 \<in> area_addrs (sample_area 8192 20480 5)" "4096 \<notin> area_addrs (sample_area 8192 20480 5)"
    by (simp_all add: area_addrs_def sample_area_def area_start_def area_end_def)
  moreover have "attrs_at (ms_areas sample_set) 4096 = Some (3, 3, 7)"
      "area_attrs (sample_area 8192 20480 5) = (5, 5, 7)"
    by code_simp+
  ultimately show ?thesis
    using map_correct [OF sample_set_inv h, of accepting_backend "((), ())" True, unfolded run]
    unfolding run by auto
qed

text \<open>C24: \<open>protect\<close> never panics on a well-formed set. On success the permissions of exactly the mapped
  addresses in the range are updated as \<open>update_flags\<close> says, areas being split where the range cuts
  them, and no mapping appears or disappears; on any error nothing of the set changes.\<close>

theorem protect_correct:
  assumes "ms_inv ms"
  shows "\<exists>r ms' env'. protect_with_reported_flags B ms start sz upd env = Some (r, ms', env') \<and>
    ms_inv ms' \<and> ms_gaps ms' = ms_gaps ms \<and>
    (case r of Inl _ \<Rightarrow> ms' = ms
     | Inr _ \<Rightarrow> \<forall>x. attrs_at (ms_areas ms') x =
         (if start \<le> x \<and> x < start + sz
          then map_option (update_attrs upd) (attrs_at (ms_areas ms) x)
          else attrs_at (ms_areas ms) x))"
proof -
  obtain r ms' env' where
    "protect_with_reported_flags B ms start sz upd env = Some (r, ms', env')" "ms_inv ms'"
    "ms_gaps ms' = ms_gaps ms"
    "case r of Inl _ \<Rightarrow> ms' = ms
     | Inr _ \<Rightarrow> attrs_at (ms_areas ms') = (\<lambda>x. if x \<in> {start..<start + sz}
         then map_option (update_attrs upd) (attrs_at (ms_areas ms) x) else attrs_at (ms_areas ms) x)"
    using protect_outcome [OF assms, of B start sz upd env] by blast
  then show ?thesis
    by (cases r) auto
qed

theorem protect_correct_witness:
  "\<exists>ms' env'. protect_with_reported_flags accepting_backend sample_set 8192 4096
      (\<lambda>fl rep. Some (1, rep)) ((), ()) = Some (Inr (), ms', env') \<and> ms_inv ms' \<and>
    attrs_at (ms_areas ms') 8192 = Some (1, 3, 7)"
proof -
  have "ended_ok (protect_with_reported_flags accepting_backend sample_set 8192 4096
      (\<lambda>fl rep. Some (1, rep)) ((), ())) (\<lambda>_. True)"
    by code_simp
  then obtain ms' env' where run: "protect_with_reported_flags accepting_backend sample_set 8192 4096
      (\<lambda>fl rep. Some (1, rep)) ((), ()) = Some (Inr (), ms', env')"
    by (rule ended_okE)
  have "map_option (update_attrs (\<lambda>fl rep. Some (1, rep))) (attrs_at (ms_areas sample_set) 8192) =
      Some (1, 3, 7)"
    by code_simp
  with protect_correct [OF sample_set_inv,
      of accepting_backend 8192 4096 "\<lambda>fl rep. Some (1, rep)" "((), ())", unfolded run] show ?thesis
    unfolding run by auto
qed


text \<open>C35: the ordered-map lookups answer as a scan of all areas would: \<open>find\<close> returns the area around
  an address, \<open>overlaps\<close> tells whether a non-empty range meets a mapped address, and
  \<open>iter_overlapping\<close> lists exactly the areas that meet the range, in address order.\<close>

theorem queries_correct:
  assumes "ms_inv ms"
  shows "ms_find ms x = area_at (ms_areas ms) x \<and>
    (\<not> range_is_empty rng \<longrightarrow>
      (ms_overlaps ms rng \<longleftrightarrow> range_set rng \<inter> mapped (ms_areas ms) \<noteq> {}) \<and>
      iter_overlapping ms rng =
        Some (filter (\<lambda>a. range_overlaps (ma_range a) rng) (ms_iter ms)))"
  using assms ms_find_eq [of ms x] ms_overlaps_iff [of ms rng] iter_overlapping_eq [of ms rng]
  by (auto simp: ms_inv_def ms_iter_def)

theorem queries_correct_witness:
  "ms_find sample_set 5000 = area_at (ms_areas sample_set) 5000 \<and>
   iter_overlapping sample_set \<lparr>ar_start = 5000, ar_end = 6000\<rparr> = Some [sample_area 4096 16384 3]"
proof -
  have "\<not> range_is_empty \<lparr>ar_start = 5000, ar_end = 6000\<rparr>"
    "filter (\<lambda>a. range_overlaps (ma_range a) \<lparr>ar_start = 5000, ar_end = 6000\<rparr>) (ms_iter sample_set) =
      [sample_area 4096 16384 3]"
    by (simp_all add: range_is_empty_def ms_iter_def sample_set_def sample_area_def bt_values_def
        range_overlaps_def)
  with queries_correct [OF sample_set_inv, of 5000 "\<lparr>ar_start = 5000, ar_end = 6000\<rparr>"] show ?thesis
    by simp
qed

text \<open>C34: \<open>extend_area\<close> never panics on a well-formed set. When it succeeds, the addresses after the
  end of the area around \<open>addr\<close> were free and take that area's permissions; when it fails, the set is
  unchanged, whatever the backend did to the page table.\<close>

theorem extend_correct:
  assumes "ms_inv ms"
  shows "\<exists>r ms' env'. extend_area B ms addr n env = Some (r, ms', env') \<and> ms_inv ms' \<and>
    (case r of Inl _ \<Rightarrow> ms' = ms
     | Inr _ \<Rightarrow> n = 0 \<and> ms' = ms \<or>
         (\<exists>a. area_at (ms_areas ms) addr = Some a \<and>
           {area_end a..<area_end a + n} \<inter> mapped (ms_areas ms) = {} \<and>
           (\<forall>x. attrs_at (ms_areas ms') x =
             (if area_end a \<le> x \<and> x < area_end a + n then Some (area_attrs a)
              else attrs_at (ms_areas ms) x))))"
proof -
  obtain r ms' env' where "extend_area B ms addr n env = Some (r, ms', env')" "ms_inv ms'"
    "case r of Inl _ \<Rightarrow> ms' = ms
     | Inr _ \<Rightarrow> n = 0 \<and> ms' = ms \<or>
         (\<exists>a. area_at (ms_areas ms) addr = Some a \<and>
           {area_end a..<area_end a + n} \<inter> mapped (ms_areas ms) = {} \<and>
           attrs_at (ms_areas ms') =
             put_on {area_end a..<area_end a + n} (area_attrs a) (attrs_at (ms_areas ms)))"
    using extend_area_outcome [OF assms, of B addr n env] by blast
  then show ?thesis
    by (cases r) (fastforce simp: put_on_def)+
qed

theorem extend_correct_witness:
  "\<exists>ms' env'. extend_area accepting_backend sample_set 5000 4096 ((), ()) = Some (Inr (), ms', env') \<and>
    ms_inv ms' \<and> attrs_at (ms_areas ms') 17000 = Some (3, 3, 7)"
proof -
  have "ended_ok (extend_area accepting_backend sample_set 5000 4096 ((), ())) (\<lambda>_. True)"
    by code_simp
  then obtain ms' env' where run:
    "extend_area accepting_backend sample_set 5000 4096 ((), ()) = Some (Inr (), ms', env')"
    by (rule ended_okE)
  have "area_at (ms_areas sample_set) 5000 = Some (sample_area 4096 16384 3)"
    "area_end (sample_area 4096 16384 3) = 16384" "area_attrs (sample_area 4096 16384 3) = (3, 3, 7)"
    by code_simp+
  with extend_correct [OF sample_set_inv, of accepting_backend 5000 4096 "((), ())", unfolded run]
  show ?thesis
    unfolding run by auto
qed



end
