(* ===== verification/Buddy.thy ===== *)
theory Buddy
  imports MemoryAddr
begin

text \<open>
  The buddy page allocator of \<open>memory/buddy-slab-allocator/src/buddy\<close>: page metadata with intrusive
  free lists (\<open>page_meta.rs\<close>), sections and the allocator (\<open>mod.rs\<close>), and the error type (\<open>error.rs\<close>).
  A section's metadata array is a list, its links are page frame numbers. An access outside the array,
  which is undefined behaviour in the source, and a loop that does not end are the value \<open>None\<close>. The
  const generic \<open>PAGE_SIZE\<close> is the argument \<open>ps\<close>; the linked list of sections is a list; the sizes of
  the \<open>repr(C)\<close> types are those of a 64-bit target.
\<close>

datatype alloc_error =
    AllocInvalidParam | AlreadyInitialized | MemoryOverlap | NoMemory | NotAllocated | NotInitialized
  | NotFound

type_synonym 'a alloc_result = "alloc_error + 'a"

section \<open>Page metadata and free lists\<close>

definition PFN_NONE :: nat where
  "PFN_NONE = 2 ^ 32 - 1"

datatype page_flags = Free | Allocated | Slab

record page_meta =
  pm_flags :: page_flags
  pm_order :: nat
  pm_prev :: nat
  pm_next :: nat

definition page_meta_new :: page_meta where
  "page_meta_new = \<lparr>pm_flags = Free, pm_order = 0, pm_prev = PFN_NONE, pm_next = PFN_NONE\<rparr>"

text \<open>\<open>(*meta.add(i))\<close> read and changed.\<close>

definition meta_get :: "page_meta list \<Rightarrow> nat \<Rightarrow> page_meta option" where
  "meta_get meta i = (if i < length meta then Some (meta ! i) else None)"

definition meta_upd :: "page_meta list \<Rightarrow> nat \<Rightarrow> (page_meta \<Rightarrow> page_meta) \<Rightarrow> page_meta list option" where
  "meta_upd meta i f = (if i < length meta then Some (meta[i := f (meta ! i)]) else None)"

text \<open>\<open>free_lists[order]\<close> panics out of range.\<close>

definition head_get :: "nat list \<Rightarrow> nat \<Rightarrow> nat option" where
  "head_get fls i = (if i < length fls then Some (fls ! i) else None)"

definition head_set :: "nat list \<Rightarrow> nat \<Rightarrow> nat \<Rightarrow> nat list option" where
  "head_set fls i v = (if i < length fls then Some (fls[i := v]) else None)"

definition free_list_push ::
  "page_meta list \<Rightarrow> nat list \<Rightarrow> nat \<Rightarrow> nat \<Rightarrow> (page_meta list \<times> nat list) option" where
  "free_list_push meta fls pfn order = do {
     old_head \<leftarrow> head_get fls order;
     meta1 \<leftarrow> meta_upd meta pfn (\<lambda>m. m\<lparr>pm_prev := PFN_NONE, pm_next := old_head\<rparr>);
     meta2 \<leftarrow> (if old_head \<noteq> PFN_NONE then meta_upd meta1 old_head (\<lambda>m. m\<lparr>pm_prev := pfn\<rparr>)
       else Some meta1);
     fls' \<leftarrow> head_set fls order pfn;
     Some (meta2, fls')
   }"

definition free_list_pop ::
  "page_meta list \<Rightarrow> nat list \<Rightarrow> nat \<Rightarrow> (nat \<times> page_meta list \<times> nat list) option" where
  "free_list_pop meta fls order = do {
     hd0 \<leftarrow> head_get fls order;
     (if hd0 = PFN_NONE then Some (PFN_NONE, meta, fls)
      else do {
        m \<leftarrow> meta_get meta hd0;
        let nxt = pm_next m;
        meta1 \<leftarrow> meta_upd meta hd0 (\<lambda>m. m\<lparr>pm_prev := PFN_NONE, pm_next := PFN_NONE\<rparr>);
        meta2 \<leftarrow> (if nxt \<noteq> PFN_NONE then meta_upd meta1 nxt (\<lambda>m. m\<lparr>pm_prev := PFN_NONE\<rparr>)
          else Some meta1);
        fls' \<leftarrow> head_set fls order nxt;
        Some (hd0, meta2, fls')
      })
   }"

definition free_list_remove ::
  "page_meta list \<Rightarrow> nat list \<Rightarrow> nat \<Rightarrow> nat \<Rightarrow> (page_meta list \<times> nat list) option" where
  "free_list_remove meta fls pfn order = do {
     m \<leftarrow> meta_get meta pfn;
     let prv = pm_prev m;
     let nxt = pm_next m;
     (meta1, fls1) \<leftarrow> (if prv \<noteq> PFN_NONE then do {
         meta1 \<leftarrow> meta_upd meta prv (\<lambda>m. m\<lparr>pm_next := nxt\<rparr>);
         Some (meta1, fls)
       } else do {
         fls1 \<leftarrow> head_set fls order nxt;
         Some (meta, fls1)
       });
     meta2 \<leftarrow> (if nxt \<noteq> PFN_NONE then meta_upd meta1 nxt (\<lambda>m. m\<lparr>pm_prev := prv\<rparr>)
       else Some meta1);
     meta3 \<leftarrow> meta_upd meta2 pfn (\<lambda>m. m\<lparr>pm_prev := PFN_NONE, pm_next := PFN_NONE\<rparr>);
     Some (meta3, fls1)
   }"

section \<open>Arithmetic used by the allocator\<close>

definition MAX_ORDER :: nat where
  "MAX_ORDER = 20"

definition DMA32_LIMIT :: usize where
  "DMA32_LIMIT = 4294967296"

text \<open>\<open>a << k\<close>: the shift amount is taken modulo the width.\<close>

definition usize_shl :: "usize \<Rightarrow> nat \<Rightarrow> usize" where
  "usize_shl a k = (a * 2 ^ (k mod 64)) mod usize_lim"

definition as_u8 :: "nat \<Rightarrow> nat" where
  "as_u8 n = n mod 256"

text \<open>\<open>usize::next_power_of_two\<close> (0 on overflow) and \<open>usize::trailing_zeros\<close> (64 for 0).\<close>

definition next_power_of_two :: "usize \<Rightarrow> usize" where
  "next_power_of_two n = (case List.find (\<lambda>k. n \<le> 2 ^ k) [0..<64] of Some k \<Rightarrow> 2 ^ k | None \<Rightarrow> 0)"

definition trailing_zeros :: "usize \<Rightarrow> nat" where
  "trailing_zeros n = (case List.find (\<lambda>k. bit n k) [0..<64] of Some k \<Rightarrow> k | None \<Rightarrow> 64)"

definition usize_saturating_sub :: "usize \<Rightarrow> usize \<Rightarrow> usize" where
  "usize_saturating_sub a b = a - b"

definition usize_saturating_mul :: "usize \<Rightarrow> usize \<Rightarrow> usize" where
  "usize_saturating_mul a b = min (a * b) usize_max"

definition buddy_align_up :: "usize \<Rightarrow> usize \<Rightarrow> usize" where
  "buddy_align_up pos align = usize_sub (usize_add pos align) 1 AND usize_not (usize_sub align 1)"

definition buddy_is_aligned :: "usize \<Rightarrow> usize \<Rightarrow> bool" where
  "buddy_is_aligned addr align \<longleftrightarrow> addr AND usize_sub align 1 = 0"

section \<open>Sections\<close>

definition normalize_region :: "usize \<Rightarrow> usize \<Rightarrow> usize \<Rightarrow> (usize \<times> usize) option" where
  "normalize_region region_start region_size granule =
     (if region_size = 0 \<or> \<not> is_power_of_two granule then None
      else case usize_checked_add region_start region_size of
        None \<Rightarrow> None
      | Some region_end \<Rightarrow>
          let usable_start = buddy_align_up region_start granule;
              usable_end = region_end AND usize_not (usize_sub granule 1) in
          if usable_end \<le> usable_start then None
          else Some (usable_start, usize_sub usable_end usable_start))"

record region_layout =
  rl_section_start :: usize
  rl_meta_start :: usize
  rl_managed_heap_start :: usize
  rl_managed_heap_size :: usize

record section_init_spec =
  si_region_start :: usize
  si_region_size :: usize
  si_section_ptr :: usize
  si_meta_ptr :: usize
  si_meta_size :: usize
  si_heap_start :: usize
  si_heap_size :: usize

record managed_section =
  mg_start :: usize
  mg_size :: usize
  mg_free_pages :: usize
  mg_total_pages :: usize

record buddy_section =
  bs_region_start :: usize
  bs_region_size :: usize
  bs_meta :: "page_meta list"
  bs_max_pages :: usize
  bs_heap_start :: usize
  bs_heap_size :: usize
  bs_free_lists :: "nat list"
  bs_free_pages :: usize
  bs_total_pages :: usize

text \<open>\<open>size_of\<close> and \<open>align_of\<close> of \<open>BuddySection\<close> (seven words, 21 list heads, padding, two words) and
  of \<open>PageMeta\<close>.\<close>

definition size_of_section :: usize where
  "size_of_section = 160"

definition align_of_section :: usize where
  "align_of_section = 8"

definition size_of_page_meta :: usize where
  "size_of_page_meta = 12"

definition align_of_page_meta :: usize where
  "align_of_page_meta = 4"

definition metadata_align :: usize where
  "metadata_align =
     (if align_of_section > align_of_page_meta then align_of_section else align_of_page_meta)"

definition metadata_layout_for_pages :: "usize \<Rightarrow> (usize \<times> usize) option" where
  "metadata_layout_for_pages pages = do {
     let meta_offset = buddy_align_up size_of_section align_of_page_meta;
     page_meta_size \<leftarrow> usize_checked_mul pages size_of_page_meta;
     meta_size \<leftarrow> usize_checked_add meta_offset page_meta_size;
     Some (meta_offset, meta_size)
   }"

definition available_heap_pages :: "usize \<Rightarrow> usize \<Rightarrow> usize \<Rightarrow> usize \<Rightarrow> usize \<Rightarrow> usize option" where
  "available_heap_pages ps region_end section_start meta_size heap_align = do {
     x \<leftarrow> usize_checked_add section_start meta_size;
     let managed_heap_start = buddy_align_up x heap_align;
     if managed_heap_start > region_end then Some 0
     else Some (usize_sub region_end managed_heap_start div ps)
   }"

definition can_manage_pages :: "usize \<Rightarrow> usize \<Rightarrow> usize \<Rightarrow> usize \<Rightarrow> usize \<Rightarrow> bool" where
  "can_manage_pages ps region_end section_start pages heap_align =
     (case metadata_layout_for_pages pages of
        None \<Rightarrow> False
      | Some (_, meta_size) \<Rightarrow>
          (case available_heap_pages ps region_end section_start meta_size heap_align of
             None \<Rightarrow> False
           | Some available_pages \<Rightarrow> available_pages \<ge> pages))"

text \<open>The binary search of \<open>compute_region_layout_with_heap_align\<close>.\<close>

function search_pages :: "(usize \<Rightarrow> bool) \<Rightarrow> usize \<Rightarrow> usize \<Rightarrow> usize" where
  "search_pages can low high =
     (if low < high
      then let mid = low + (high - low + 1) div 2 in
        if can mid then search_pages can mid high else search_pages can low (mid - 1)
      else low)"
  by pat_completeness auto

termination
  by (relation "measure (\<lambda>(can, low, high). high - low)") auto

declare search_pages.simps [simp del]

definition compute_region_layout_with_heap_align ::
  "usize \<Rightarrow> usize \<Rightarrow> usize \<Rightarrow> usize \<Rightarrow> region_layout option" where
  "compute_region_layout_with_heap_align ps region_start region_size heap_align =
     (if region_size = 0 \<or> \<not> is_power_of_two ps \<or> \<not> is_power_of_two heap_align then None
      else do {
        region_end \<leftarrow> usize_checked_add region_start region_size;
        let section_start = buddy_align_up region_start metadata_align;
        if section_start \<ge> region_end then None
        else do {
          x \<leftarrow> usize_checked_add section_start size_of_section;
          let heap_search_start = buddy_align_up x ps;
          let max_pages = (if heap_search_start \<ge> region_end then 0
            else usize_sub region_end heap_search_start div ps);
          let low = search_pages (\<lambda>mid. can_manage_pages ps region_end section_start mid heap_align)
            0 max_pages;
          if low = 0 then None
          else do {
            (meta_offset, meta_size) \<leftarrow> metadata_layout_for_pages low;
            meta_start \<leftarrow> usize_checked_add section_start meta_offset;
            y \<leftarrow> usize_checked_add section_start meta_size;
            let managed_heap_start = buddy_align_up y heap_align;
            managed_heap_size \<leftarrow> usize_checked_mul low ps;
            Some \<lparr>rl_section_start = section_start, rl_meta_start = meta_start,
              rl_managed_heap_start = managed_heap_start, rl_managed_heap_size = managed_heap_size\<rparr>
          }
        }
      })"

definition compute_region_layout :: "usize \<Rightarrow> usize \<Rightarrow> usize \<Rightarrow> region_layout option" where
  "compute_region_layout ps region_start region_size =
     compute_region_layout_with_heap_align ps region_start region_size ps"

definition required_meta_size :: "usize \<Rightarrow> usize \<Rightarrow> usize" where
  "required_meta_size ps heap_size = usize_mul (heap_size div ps) size_of_page_meta"


text \<open>Marking a page as the head of a free block and pushing it, as \<open>init_at\<close>, the split loop and
  \<open>dealloc_in_section\<close> do.\<close>

definition mark_page :: "page_flags \<Rightarrow> nat \<Rightarrow> nat \<Rightarrow> buddy_section \<Rightarrow> buddy_section option" where
  "mark_page fl pfn order sec = do {
     meta \<leftarrow> meta_upd (bs_meta sec) pfn (\<lambda>m. m\<lparr>pm_flags := fl, pm_order := as_u8 order\<rparr>);
     Some (sec\<lparr>bs_meta := meta\<rparr>)
   }"

definition push_free :: "nat \<Rightarrow> nat \<Rightarrow> buddy_section \<Rightarrow> buddy_section option" where
  "push_free pfn order sec = do {
     sec1 \<leftarrow> mark_page Free pfn order sec;
     (meta, fls) \<leftarrow> free_list_push (bs_meta sec1) (bs_free_lists sec1) (as_u32 pfn) order;
     Some (sec1\<lparr>bs_meta := meta, bs_free_lists := fls\<rparr>)
   }"

definition remove_free :: "nat \<Rightarrow> nat \<Rightarrow> buddy_section \<Rightarrow> buddy_section option" where
  "remove_free pfn order sec = do {
     (meta, fls) \<leftarrow> free_list_remove (bs_meta sec) (bs_free_lists sec) pfn order;
     Some (sec\<lparr>bs_meta := meta, bs_free_lists := fls\<rparr>)
   }"

fun pick_order :: "usize \<Rightarrow> usize \<Rightarrow> nat \<Rightarrow> nat" where
  "pick_order total_pages pfn 0 = 0"
| "pick_order total_pages pfn (Suc k) =
     (let block_pages = usize_shl 1 (Suc k) in
      if block_pages \<le> usize_sub total_pages pfn \<and> pfn AND usize_sub block_pages 1 = 0 then Suc k
      else pick_order total_pages pfn k)"

lemma pick_order_le: "pick_order total_pages pfn k \<le> k"
  by (induction k) (auto simp: Let_def le_Suc_eq)

lemma usize_shl_one: "k < 64 \<Longrightarrow> usize_shl 1 k = 2 ^ k"
  using power_strict_increasing [of k 64 "2::nat"] by (simp add: usize_shl_def usize_lim_def)

lemmas usize_shl_Suc_0 = usize_shl_one [unfolded One_nat_def]

lemma push_free_total: "push_free pfn order sec = Some sec' \<Longrightarrow> bs_total_pages sec' = bs_total_pages sec"
  by (auto simp: push_free_def mark_page_def bind_eq_Some_conv split: prod.splits)

text \<open>The loop of \<open>init_at\<close> that covers the heap with the largest aligned blocks.\<close>

function fill_section :: "usize \<Rightarrow> buddy_section \<Rightarrow> buddy_section option" where
  "fill_section pfn sec =
     (if pfn < bs_total_pages sec
      then do {
        let order = pick_order (bs_total_pages sec) pfn MAX_ORDER;
        let block_pages = usize_shl 1 order;
        sec1 \<leftarrow> push_free pfn order sec;
        fill_section (pfn + block_pages) (sec1\<lparr>bs_free_pages := usize_add (bs_free_pages sec1) block_pages\<rparr>)
      }
      else Some sec)"
  by pat_completeness auto

termination
proof (relation "measure (\<lambda>(pfn, sec). bs_total_pages sec - pfn)", goal_cases)
  case (2 pfn sec order block_pages sec1)
  have "order < 64"
    using 2 pick_order_le [of "bs_total_pages sec" pfn MAX_ORDER] by (simp add: MAX_ORDER_def)
  with 2 have "0 < block_pages"
    by (simp add: usize_shl_Suc_0)
  with 2 push_free_total show ?case
    by simp
qed simp

declare fill_section.simps [simp del]

definition init_at ::
  "usize \<Rightarrow> usize \<Rightarrow> usize \<Rightarrow> usize \<Rightarrow> usize \<Rightarrow> usize \<Rightarrow> buddy_section alloc_result option" where
  "init_at ps region_start region_size meta_size heap_start heap_size =
     (if \<not> is_power_of_two ps then Some (Inl AllocInvalidParam)
      else if \<not> buddy_is_aligned heap_start ps \<or> heap_size = 0 then Some (Inl AllocInvalidParam)
      else let total_pages = heap_size div ps; required = required_meta_size ps heap_size in
        if meta_size < required then Some (Inl AllocInvalidParam)
        else do {
          sec \<leftarrow> fill_section 0
            \<lparr>bs_region_start = region_start, bs_region_size = region_size,
             bs_meta = replicate total_pages page_meta_new, bs_max_pages = total_pages,
             bs_heap_start = heap_start, bs_heap_size = heap_size,
             bs_free_lists = replicate (MAX_ORDER + 1) PFN_NONE, bs_free_pages = 0,
             bs_total_pages = total_pages\<rparr>;
          Some (Inr sec)
        })"

definition contains_heap_addr :: "buddy_section \<Rightarrow> usize \<Rightarrow> bool" where
  "contains_heap_addr sec addr \<longleftrightarrow>
     addr \<ge> bs_heap_start sec \<and> addr < usize_add (bs_heap_start sec) (bs_heap_size sec)"

definition section_summary :: "buddy_section \<Rightarrow> managed_section" where
  "section_summary sec = \<lparr>mg_start = bs_heap_start sec, mg_size = bs_heap_size sec,
     mg_free_pages = bs_free_pages sec, mg_total_pages = bs_total_pages sec\<rparr>"

section \<open>Allocation within a section\<close>

definition find_aligned_pfn_in_block :: "usize \<Rightarrow> usize \<Rightarrow> usize \<Rightarrow> nat \<Rightarrow> nat \<Rightarrow> usize \<Rightarrow> usize option" where
  "find_aligned_pfn_in_block ps heap_start block_pfn block_order alloc_order align =
     (let subblock_pages = usize_shl 1 alloc_order;
          align_pages = align div ps;
          mask = usize_sub align_pages 1;
          heap_page_offset = (heap_start div ps) AND mask;
          offset = usize_sub align_pages heap_page_offset AND mask;
          candidate =
            (if align_pages \<le> subblock_pages then
               (if \<not> is_multiple_of heap_start align then None else Some block_pfn)
             else if \<not> is_multiple_of offset subblock_pages then None
             else let rem = block_pfn AND mask;
                      delta = usize_sub (usize_add offset align_pages) rem AND mask in
               Some (usize_add block_pfn delta));
          last_start = usize_sub (usize_add block_pfn (usize_shl 1 block_order)) subblock_pages
      in case candidate of
           None \<Rightarrow> None
         | Some c \<Rightarrow> if c \<le> last_start then Some c else None)"

text \<open>The walk along a free list: the first block for which \<open>sel\<close> gives a target page.\<close>

partial_function (option) scan_free ::
  "page_meta list \<Rightarrow> (nat \<Rightarrow> nat option) \<Rightarrow> nat \<Rightarrow> (nat \<times> nat) option option" where
  "scan_free meta sel pfn =
     (if pfn = PFN_NONE then Some None
      else case sel pfn of
        Some target \<Rightarrow> Some (Some (pfn, target))
      | None \<Rightarrow> do { m \<leftarrow> meta_get meta pfn; scan_free meta sel (pm_next m) })"

declare scan_free.simps [code]

text \<open>The loop that halves the block until it has the requested order, freeing the other halves.\<close>

fun split_down :: "nat \<Rightarrow> nat \<Rightarrow> nat \<Rightarrow> nat \<Rightarrow> buddy_section \<Rightarrow> (nat \<times> buddy_section) option" where
  "split_down order target 0 current_pfn sec = Some (current_pfn, sec)"
| "split_down order target (Suc current_order) current_pfn sec =
     (if Suc current_order > order then do {
        let left_pfn = current_pfn;
        let right_pfn = usize_add current_pfn (usize_shl 1 current_order);
        let (next_pfn, free_pfn) =
          (if target \<ge> right_pfn then (right_pfn, left_pfn) else (left_pfn, right_pfn));
        sec1 \<leftarrow> push_free free_pfn current_order sec;
        split_down order target current_order next_pfn sec1
      }
      else Some (current_pfn, sec))"

definition take_block ::
  "nat \<Rightarrow> nat \<Rightarrow> nat \<Rightarrow> nat \<Rightarrow> buddy_section \<Rightarrow> (nat \<times> buddy_section) option" where
  "take_block block_pfn search_order order target sec = do {
     sec1 \<leftarrow> remove_free block_pfn search_order sec;
     (current_pfn, sec2) \<leftarrow> split_down order target search_order block_pfn sec1;
     sec3 \<leftarrow> mark_page Allocated current_pfn order sec2;
     Some (current_pfn, sec3\<lparr>bs_free_pages := usize_sub (bs_free_pages sec3) (usize_shl 1 order)\<rparr>)
   }"

text \<open>\<open>for search_order in order..=MAX_ORDER\<close> over a given selection of a target in a block.\<close>

fun alloc_orders ::
  "(nat \<Rightarrow> nat \<Rightarrow> nat option) \<Rightarrow> nat \<Rightarrow> nat list \<Rightarrow> buddy_section \<Rightarrow>
     ((nat \<times> nat) alloc_result \<times> buddy_section) option" where
  "alloc_orders sel order [] sec = Some (Inl NoMemory, sec)"
| "alloc_orders sel order (search_order # rest) sec = do {
     head \<leftarrow> head_get (bs_free_lists sec) search_order;
     found \<leftarrow> scan_free (bs_meta sec) (sel search_order) head;
     (case found of
        None \<Rightarrow> alloc_orders sel order rest sec
      | Some (block_pfn, target) \<Rightarrow> do {
          (current_pfn, sec') \<leftarrow> take_block block_pfn search_order order target sec;
          Some (Inr (current_pfn, target), sec')
        })
   }"

definition page_addr :: "usize \<Rightarrow> buddy_section \<Rightarrow> usize \<Rightarrow> usize" where
  "page_addr ps sec pfn = usize_add (bs_heap_start sec) (usize_mul pfn ps)"

definition alloc_from_section_aligned ::
  "usize \<Rightarrow> buddy_section \<Rightarrow> nat \<Rightarrow> usize \<Rightarrow> (usize alloc_result \<times> buddy_section) option" where
  "alloc_from_section_aligned ps sec order align = do {
     (r, sec') \<leftarrow> alloc_orders
       (\<lambda>search_order block_pfn.
          find_aligned_pfn_in_block ps (bs_heap_start sec) block_pfn search_order order align)
       order [order..<MAX_ORDER + 1] sec;
     Some (case r of
        Inl err \<Rightarrow> (Inl err, sec')
      | Inr (current_pfn, _) \<Rightarrow> (Inr (page_addr ps sec' current_pfn), sec'))
   }"

text \<open>\<open>virt_to_phys\<close> is supplied by the platform.\<close>

definition lowmem_target ::
  "(usize \<Rightarrow> usize) \<Rightarrow> usize \<Rightarrow> buddy_section \<Rightarrow> nat \<Rightarrow> usize \<Rightarrow> nat \<Rightarrow> nat \<Rightarrow> nat option" where
  "lowmem_target virt_to_phys ps sec alloc_order align search_order block_pfn =
     (case find_aligned_pfn_in_block ps (bs_heap_start sec) block_pfn search_order alloc_order align of
        None \<Rightarrow> None
      | Some target \<Rightarrow>
          let addr = page_addr ps sec target;
              phys = virt_to_phys addr;
              block_bytes = usize_mul (usize_shl 1 alloc_order) ps in
          if usize_add phys block_bytes \<le> DMA32_LIMIT \<and> is_multiple_of addr align then Some target
          else None)"

definition alloc_lowmem_from_section ::
  "(usize \<Rightarrow> usize) \<Rightarrow> usize \<Rightarrow> buddy_section \<Rightarrow> nat \<Rightarrow> usize \<Rightarrow>
     (usize alloc_result \<times> buddy_section) option" where
  "alloc_lowmem_from_section virt_to_phys ps sec alloc_order align = do {
     (r, sec') \<leftarrow> alloc_orders (lowmem_target virt_to_phys ps sec alloc_order align) alloc_order
       [alloc_order..<MAX_ORDER + 1] sec;
     Some (case r of
        Inl err \<Rightarrow> (Inl err, sec')
      | Inr (_, target) \<Rightarrow> (Inr (page_addr ps sec target), sec'))
   }"

section \<open>Deallocation within a section\<close>

text \<open>The merge loop of \<open>dealloc_in_section\<close>.\<close>

function merge_up :: "nat \<Rightarrow> nat \<Rightarrow> buddy_section \<Rightarrow> (nat \<times> nat \<times> buddy_section) option" where
  "merge_up pfn order sec =
     (if order < MAX_ORDER then do {
        let buddy_pfn = pfn XOR usize_shl 1 order;
        if buddy_pfn \<ge> bs_max_pages sec then Some (pfn, order, sec)
        else do {
          buddy \<leftarrow> meta_get (bs_meta sec) buddy_pfn;
          if pm_flags buddy \<noteq> Free \<or> pm_order buddy \<noteq> order then Some (pfn, order, sec)
          else do {
            sec1 \<leftarrow> remove_free (as_u32 buddy_pfn) order sec;
            merge_up (min pfn buddy_pfn) (order + 1) sec1
          }
        }
      }
      else Some (pfn, order, sec))"
  by pat_completeness auto

termination
  by (relation "measure (\<lambda>(pfn, order, sec). MAX_ORDER - order)") auto

declare merge_up.simps [simp del]

definition dealloc_in_section :: "buddy_section \<Rightarrow> nat \<Rightarrow> nat \<Rightarrow> buddy_section option" where
  "dealloc_in_section sec pfn order = do {
     let freed_pages = usize_shl 1 order;
     (pfn', order', sec1) \<leftarrow> merge_up pfn order sec;
     sec2 \<leftarrow> push_free pfn' order' sec1;
     Some (sec2\<lparr>bs_free_pages := usize_add (bs_free_pages sec2) freed_pages\<rparr>)
   }"

section \<open>The allocator\<close>

record buddy_allocator =
  ba_sections :: "buddy_section list"
  ba_section_count :: usize

definition buddy_new :: buddy_allocator where
  "buddy_new = \<lparr>ba_sections = [], ba_section_count = 0\<rparr>"

definition buddy_reset :: "buddy_allocator \<Rightarrow> buddy_allocator" where
  "buddy_reset ba = ba\<lparr>ba_sections := [], ba_section_count := 0\<rparr>"

fun check_overlap :: "usize \<Rightarrow> usize \<Rightarrow> buddy_section list \<Rightarrow> unit alloc_result" where
  "check_overlap region_start region_end [] = Inr ()"
| "check_overlap region_start region_end (existing # rest) =
     (case usize_checked_add (bs_region_start existing) (bs_region_size existing) of
        None \<Rightarrow> Inl AllocInvalidParam
      | Some existing_end \<Rightarrow>
          if region_start < existing_end \<and> bs_region_start existing < region_end then Inl MemoryOverlap
          else check_overlap region_start region_end rest)"

definition add_region_raw ::
  "usize \<Rightarrow> buddy_allocator \<Rightarrow> section_init_spec \<Rightarrow> (unit alloc_result \<times> buddy_allocator) option" where
  "add_region_raw ps ba spec =
     (case usize_checked_add (si_region_start spec) (si_region_size spec) of
        None \<Rightarrow> Some (Inl AllocInvalidParam, ba)
      | Some region_end \<Rightarrow>
        (case usize_checked_add (si_heap_start spec) (si_heap_size spec) of
           None \<Rightarrow> Some (Inl AllocInvalidParam, ba)
         | Some heap_end \<Rightarrow>
             if heap_end > region_end then Some (Inl AllocInvalidParam, ba)
             else case check_overlap (si_region_start spec) region_end (ba_sections ba) of
               Inl err \<Rightarrow> Some (Inl err, ba)
             | Inr _ \<Rightarrow> do {
                 r \<leftarrow> init_at ps (si_region_start spec) (si_region_size spec) (si_meta_size spec)
                   (si_heap_start spec) (si_heap_size spec);
                 Some (case r of
                    Inl err \<Rightarrow> (Inl err, ba)
                  | Inr sec \<Rightarrow>
                      (Inr (), ba\<lparr>ba_sections := ba_sections ba @ [sec],
                        ba_section_count := usize_add (ba_section_count ba) 1\<rparr>))
               }))"

definition add_region ::
  "usize \<Rightarrow> buddy_allocator \<Rightarrow> usize \<Rightarrow> usize \<Rightarrow> (unit alloc_result \<times> buddy_allocator) option" where
  "add_region ps ba start len =
     (case normalize_region start len ps of
        None \<Rightarrow> Some (Inl AllocInvalidParam, ba)
      | Some (region_start, region_size) \<Rightarrow>
        (case compute_region_layout ps region_start region_size of
           None \<Rightarrow> Some (Inl AllocInvalidParam, ba)
         | Some layout \<Rightarrow>
             add_region_raw ps ba
               \<lparr>si_region_start = region_start, si_region_size = region_size,
                si_section_ptr = rl_section_start layout, si_meta_ptr = rl_meta_start layout,
                si_meta_size = required_meta_size ps (rl_managed_heap_size layout),
                si_heap_start = rl_managed_heap_start layout,
                si_heap_size = rl_managed_heap_size layout\<rparr>))"

definition buddy_init ::
  "usize \<Rightarrow> buddy_allocator \<Rightarrow> usize \<Rightarrow> usize \<Rightarrow> (unit alloc_result \<times> buddy_allocator) option" where
  "buddy_init ps ba start len = add_region ps (buddy_reset ba) start len"

definition managed_section_at :: "buddy_allocator \<Rightarrow> usize \<Rightarrow> managed_section option" where
  "managed_section_at ba index =
     (if index < length (ba_sections ba) then Some (section_summary (ba_sections ba ! index)) else None)"

definition sum_usize :: "('a \<Rightarrow> usize) \<Rightarrow> 'a list \<Rightarrow> usize" where
  "sum_usize f xs = fold (\<lambda>x total. usize_add total (f x)) xs 0"

definition buddy_total_pages :: "buddy_allocator \<Rightarrow> usize" where
  "buddy_total_pages ba = sum_usize bs_total_pages (ba_sections ba)"

definition buddy_managed_bytes :: "buddy_allocator \<Rightarrow> usize" where
  "buddy_managed_bytes ba = sum_usize bs_heap_size (ba_sections ba)"

definition buddy_free_pages :: "buddy_allocator \<Rightarrow> usize" where
  "buddy_free_pages ba = sum_usize bs_free_pages (ba_sections ba)"

definition buddy_allocated_bytes :: "usize \<Rightarrow> buddy_allocator \<Rightarrow> usize" where
  "buddy_allocated_bytes ps ba =
     usize_saturating_sub (buddy_managed_bytes ba) (usize_saturating_mul (buddy_free_pages ba) ps)"

text \<open>The loop over the sections: the first one that can serve the request does.\<close>

fun alloc_sections ::
  "(buddy_section \<Rightarrow> (usize alloc_result \<times> buddy_section) option) \<Rightarrow> buddy_section list \<Rightarrow>
     (usize alloc_result \<times> buddy_section list) option" where
  "alloc_sections try_alloc [] = Some (Inl NoMemory, [])"
| "alloc_sections try_alloc (sec # secs) = do {
     (r, sec') \<leftarrow> try_alloc sec;
     (case r of
        Inr addr \<Rightarrow> Some (Inr addr, sec' # secs)
      | Inl _ \<Rightarrow> do {
          (r', secs') \<leftarrow> alloc_sections try_alloc secs;
          Some (r', sec' # secs')
        })
   }"

definition alloc_pages_with ::
  "(nat \<Rightarrow> usize \<Rightarrow> buddy_section \<Rightarrow> (usize alloc_result \<times> buddy_section) option) \<Rightarrow> usize \<Rightarrow>
     buddy_allocator \<Rightarrow> usize \<Rightarrow> usize \<Rightarrow> (usize alloc_result \<times> buddy_allocator) option" where
  "alloc_pages_with try_alloc ps ba count align0 =
     (if count = 0 then Some (Inl AllocInvalidParam, ba)
      else let align = (if align0 = 0 then ps else align0) in
        if \<not> is_power_of_two align \<or> align < ps then Some (Inl AllocInvalidParam, ba)
        else let order = trailing_zeros (next_power_of_two count) in
          if order > MAX_ORDER then Some (Inl AllocInvalidParam, ba)
          else do {
            (r, secs) \<leftarrow> alloc_sections (try_alloc order align) (ba_sections ba);
            Some (r, ba\<lparr>ba_sections := secs\<rparr>)
          })"

definition alloc_pages ::
  "usize \<Rightarrow> buddy_allocator \<Rightarrow> usize \<Rightarrow> usize \<Rightarrow> (usize alloc_result \<times> buddy_allocator) option" where
  "alloc_pages ps ba count align =
     alloc_pages_with (\<lambda>order al sec. alloc_from_section_aligned ps sec order al) ps ba count align"

definition alloc_pages_lowmem ::
  "(usize \<Rightarrow> usize) \<Rightarrow> usize \<Rightarrow> buddy_allocator \<Rightarrow> usize \<Rightarrow> usize \<Rightarrow>
     (usize alloc_result \<times> buddy_allocator) option" where
  "alloc_pages_lowmem virt_to_phys ps ba count align =
     alloc_pages_with (\<lambda>order al sec. alloc_lowmem_from_section virt_to_phys ps sec order al) ps ba
       count align"

text \<open>\<open>find_section_by_addr\<close>: the index of the first section whose heap contains the address.\<close>

fun find_section_by_addr :: "buddy_section list \<Rightarrow> usize \<Rightarrow> nat option" where
  "find_section_by_addr [] addr = None"
| "find_section_by_addr (sec # secs) addr =
     (if contains_heap_addr sec addr then Some 0
      else map_option Suc (find_section_by_addr secs addr))"

definition addr_pfn :: "usize \<Rightarrow> buddy_section \<Rightarrow> usize \<Rightarrow> usize" where
  "addr_pfn ps sec addr = usize_sub addr (bs_heap_start sec) div ps"

definition dealloc_pages :: "usize \<Rightarrow> buddy_allocator \<Rightarrow> usize \<Rightarrow> usize \<Rightarrow> buddy_allocator option" where
  "dealloc_pages ps ba addr count =
     (case find_section_by_addr (ba_sections ba) addr of
        None \<Rightarrow> Some ba
      | Some i \<Rightarrow> do {
          let sec = ba_sections ba ! i;
          let pfn = addr_pfn ps sec addr;
          stored \<leftarrow> meta_get (bs_meta sec) pfn;
          sec' \<leftarrow> dealloc_in_section sec pfn (pm_order stored);
          Some (ba\<lparr>ba_sections := (ba_sections ba)[i := sec']\<rparr>)
        })"

definition set_page_flags ::
  "usize \<Rightarrow> buddy_allocator \<Rightarrow> usize \<Rightarrow> page_flags \<Rightarrow> (unit alloc_result \<times> buddy_allocator) option" where
  "set_page_flags ps ba addr fl =
     (case find_section_by_addr (ba_sections ba) addr of
        None \<Rightarrow> Some (Inl NotFound, ba)
      | Some i \<Rightarrow> do {
          let sec = ba_sections ba ! i;
          meta \<leftarrow> meta_upd (bs_meta sec) (addr_pfn ps sec addr) (\<lambda>m. m\<lparr>pm_flags := fl\<rparr>);
          Some (Inr (), ba\<lparr>ba_sections := (ba_sections ba)[i := sec\<lparr>bs_meta := meta\<rparr>]\<rparr>)
        })"

definition page_flags_at :: "usize \<Rightarrow> buddy_allocator \<Rightarrow> usize \<Rightarrow> page_flags alloc_result option" where
  "page_flags_at ps ba addr =
     (case find_section_by_addr (ba_sections ba) addr of
        None \<Rightarrow> Some (Inl NotFound)
      | Some i \<Rightarrow> do {
          let sec = ba_sections ba ! i;
          m \<leftarrow> meta_get (bs_meta sec) (addr_pfn ps sec addr);
          Some (Inr (pm_flags m))
        })"

end
