(* ===== verification/Slab.thy ===== *)
theory Slab
  imports Buddy "HOL-Library.Word"
begin

text \<open>
  The slab allocator of \<open>buddy-slab-allocator/src/slab\<close>: size classes, slab page headers with their
  bitmap and remote-free stack, the per-class cache with its three intrusive lists, the allocator over all
  classes and the per-CPU pool. Memory is a map from slab base addresses to headers, and the first word of
  each freed object. Memory without a header is taken not to carry the slab magic number, so that reading
  a header there is a mismatch in a search and undefined behaviour (\<open>None\<close>) elsewhere.
\<close>

section \<open>Size classes\<close>

record layout =
  ly_size :: usize
  ly_align :: usize

datatype size_class =
  Bytes8 | Bytes16 | Bytes32 | Bytes64 | Bytes128 | Bytes256 | Bytes512 | Bytes1024 | Bytes2048

definition SIZE_CLASS_COUNT :: usize where
  "SIZE_CLASS_COUNT = 9"

definition SLAB_MAX_SIZE :: usize where
  "SLAB_MAX_SIZE = 2048"

definition CLASS_SIZES :: "usize list" where
  "CLASS_SIZES = [8, 16, 32, 64, 128, 256, 512, 1024, 2048]"

definition class_ALL :: "size_class list" where
  "class_ALL = [Bytes8, Bytes16, Bytes32, Bytes64, Bytes128, Bytes256, Bytes512, Bytes1024, Bytes2048]"

fun class_index :: "size_class \<Rightarrow> nat" where
  "class_index Bytes8 = 0"
| "class_index Bytes16 = 1"
| "class_index Bytes32 = 2"
| "class_index Bytes64 = 3"
| "class_index Bytes128 = 4"
| "class_index Bytes256 = 5"
| "class_index Bytes512 = 6"
| "class_index Bytes1024 = 7"
| "class_index Bytes2048 = 8"

definition class_size :: "size_class \<Rightarrow> usize" where
  "class_size sc = CLASS_SIZES ! class_index sc"

definition from_layout :: "layout \<Rightarrow> size_class option" where
  "from_layout l =
     (let sz = max (ly_size l) (ly_align l) in
      if sz > SLAB_MAX_SIZE then None
      else case List.find (\<lambda>(i, class_sz). sz \<le> class_sz) (enumerate 0 CLASS_SIZES) of
        Some (i, _) \<Rightarrow> Some (class_ALL ! i)
      | None \<Rightarrow> None)"

definition slab_pages :: "size_class \<Rightarrow> usize \<Rightarrow> usize" where
  "slab_pages sc page_size =
     (let obj_size = class_size sc in
      if obj_size \<le> 256 then 1
      else if obj_size \<le> 1024 then 2
      else
        let v = usize_mul 16 page_size div (obj_size * 8);
            v = (if v < 4 then v else 4)
        in if v < 1 then 1 else v)"

section \<open>Slab pages\<close>

definition SLAB_MAGIC :: nat where
  "SLAB_MAGIC = 0x534C4142"

definition MAX_OBJECTS_PER_SLAB :: usize where
  "MAX_OBJECTS_PER_SLAB = 512"

definition BITMAP_WORDS :: usize where
  "BITMAP_WORDS = 8"

definition MAX_SLAB_PAGES :: usize where
  "MAX_SLAB_PAGES = 4"

datatype slab_list_state = ListNone | ListPartial | ListFull | ListEmpty

record slab_header =
  sh_magic :: nat
  sh_class :: size_class
  sh_object_count :: nat
  sh_local_free_count :: nat
  sh_owner_cpu :: nat
  sh_slab_bytes :: nat
  sh_prev :: usize
  sh_next :: usize
  sh_state :: slab_list_state
  sh_bitmap :: "64 word list"
  sh_remote_head :: usize
  sh_remote_count :: nat

text \<open>\<open>size_of::<SlabPageHeader>()\<close> under \<open>repr(C)\<close>.\<close>

definition HEADER_SIZE :: usize where
  "HEADER_SIZE = 128"

definition as_u16 :: "nat \<Rightarrow> nat" where
  "as_u16 n = n mod 65536"

definition u16_add :: "nat \<Rightarrow> nat \<Rightarrow> nat" where
  "u16_add a b = (a + b) mod 65536"

definition u16_sub :: "nat \<Rightarrow> nat \<Rightarrow> nat" where
  "u16_sub a b = (a + 65536 - b) mod 65536"

definition data_offset :: "usize \<Rightarrow> usize" where
  "data_offset obj_size = usize_sub (usize_add HEADER_SIZE obj_size) 1 AND usize_not (usize_sub obj_size 1)"

text \<open>The loop marking the first \<open>count\<close> slots free.\<close>

definition init_bitmap :: "nat \<Rightarrow> 64 word list option" where
  "init_bitmap count =
     (let full_words = count div 64; remaining_bits = count mod 64;
          words = map (\<lambda>i. if i < full_words then - 1 else 0) [0..<BITMAP_WORDS]
      in if remaining_bits > 0 then
           (if full_words < length words then Some (words[full_words := push_bit remaining_bits 1 - 1]) else None)
         else Some words)"

definition header_init :: "size_class \<Rightarrow> usize \<Rightarrow> nat \<Rightarrow> slab_header option" where
  "header_init sc bytes owner_cpu = do {
     let obj_size = class_size sc;
     let usable = usize_saturating_sub bytes (data_offset obj_size);
     let count = min (usable div obj_size) MAX_OBJECTS_PER_SLAB;
     bitmap \<leftarrow> init_bitmap count;
     Some \<lparr>sh_magic = SLAB_MAGIC, sh_class = sc, sh_object_count = as_u16 count,
       sh_local_free_count = as_u16 count, sh_owner_cpu = owner_cpu, sh_slab_bytes = as_u32 bytes,
       sh_prev = 0, sh_next = 0, sh_state = ListNone, sh_bitmap = bitmap, sh_remote_head = 0,
       sh_remote_count = 0\<rparr>
   }"

definition data_start :: "slab_header \<Rightarrow> usize \<Rightarrow> usize" where
  "data_start hdr base = usize_add base (data_offset (class_size (sh_class hdr)))"

definition object_addr :: "slab_header \<Rightarrow> usize \<Rightarrow> nat \<Rightarrow> usize" where
  "object_addr hdr base index = usize_add (data_start hdr base) (usize_mul index (class_size (sh_class hdr)))"

definition object_index :: "slab_header \<Rightarrow> usize \<Rightarrow> usize \<Rightarrow> nat" where
  "object_index hdr base addr = usize_sub addr (data_start hdr base) div class_size (sh_class hdr)"

text \<open>\<open>u64::trailing_zeros\<close>.\<close>

definition word_trailing_zeros :: "64 word \<Rightarrow> nat" where
  "word_trailing_zeros w = (case List.find (\<lambda>k. bit w k) [0..<64] of Some k \<Rightarrow> k | None \<Rightarrow> 64)"

text \<open>The loop of \<open>local_alloc\<close> over the bitmap words.\<close>

fun take_slot :: "nat \<Rightarrow> 64 word list \<Rightarrow> (nat \<times> 64 word list) option" where
  "take_slot wi [] = None"
| "take_slot wi (w # ws) =
     (if w \<noteq> 0 then
        let b = word_trailing_zeros w in Some (wi * 64 + b, (w AND NOT (push_bit b 1)) # ws)
      else map_option (\<lambda>(i, ws'). (i, w # ws')) (take_slot (wi + 1) ws))"

definition local_alloc :: "slab_header \<Rightarrow> (nat \<times> slab_header) option" where
  "local_alloc hdr = map_option
     (\<lambda>(i, bm). (i, hdr\<lparr>sh_bitmap := bm, sh_local_free_count := u16_sub (sh_local_free_count hdr) 1\<rparr>))
     (take_slot 0 (sh_bitmap hdr))"

definition local_free :: "slab_header \<Rightarrow> nat \<Rightarrow> slab_header option" where
  "local_free hdr index =
     (let wi = index div 64; b = index mod 64 in
      if wi < length (sh_bitmap hdr)
      then Some (hdr\<lparr>sh_bitmap := (sh_bitmap hdr)[wi := (sh_bitmap hdr ! wi) OR push_bit b 1],
        sh_local_free_count := u16_add (sh_local_free_count hdr) 1\<rparr>)
      else None)"

definition has_local_free :: "slab_header \<Rightarrow> bool" where
  "has_local_free hdr \<longleftrightarrow> sh_local_free_count hdr > 0"

definition is_all_free :: "slab_header \<Rightarrow> bool" where
  "is_all_free hdr \<longleftrightarrow> sh_local_free_count hdr = sh_object_count hdr"

definition is_local_full :: "slab_header \<Rightarrow> bool" where
  "is_local_full hdr \<longleftrightarrow> sh_local_free_count hdr = 0"

definition prepare_for_buddy_free :: "slab_header \<Rightarrow> slab_header option" where
  "prepare_for_buddy_free hdr =
     (if sh_remote_head hdr \<noteq> 0 then None
      else Some (hdr\<lparr>sh_prev := 0, sh_next := 0, sh_state := ListNone, sh_magic := 0\<rparr>))"

definition has_remote_frees :: "slab_header \<Rightarrow> bool" where
  "has_remote_frees hdr \<longleftrightarrow> sh_remote_head hdr \<noteq> 0"

section \<open>Memory\<close>

record slab_mem =
  sm_hdr :: "usize \<Rightarrow> slab_header option"
  sm_word :: "usize \<Rightarrow> usize"

definition hdr_upd :: "slab_mem \<Rightarrow> usize \<Rightarrow> (slab_header \<Rightarrow> slab_header) \<Rightarrow> slab_mem option" where
  "hdr_upd mem base f = do {
     hdr \<leftarrow> sm_hdr mem base;
     Some (mem\<lparr>sm_hdr := (sm_hdr mem)(base \<mapsto> f hdr)\<rparr>)
   }"

text \<open>Searching backwards for the header of the slab that holds an object.\<close>

fun search_base :: "(usize \<Rightarrow> bool) \<Rightarrow> usize \<Rightarrow> usize \<Rightarrow> nat list \<Rightarrow> usize option" where
  "search_base matches page_size page_base [] = None"
| "search_base matches page_size page_base (page_idx # rest) =
     (case usize_checked_sub page_base (usize_mul page_idx page_size) of
        None \<Rightarrow> None
      | Some candidate \<Rightarrow>
          if matches candidate then Some candidate
          else search_base matches page_size page_base rest)"

definition base_from_obj_addr :: "usize \<Rightarrow> slab_mem \<Rightarrow> usize \<Rightarrow> usize \<Rightarrow> usize" where
  "base_from_obj_addr page_size mem addr slab_bytes =
     (let slab_pages = slab_bytes div page_size;
          page_base = addr AND usize_not (usize_sub page_size 1)
      in case search_base
           (\<lambda>candidate. case sm_hdr mem candidate of
              None \<Rightarrow> False
            | Some hdr \<Rightarrow> sh_magic hdr = SLAB_MAGIC \<and> sh_slab_bytes hdr = slab_bytes \<and> addr \<ge> candidate \<and>
                addr < usize_add candidate slab_bytes)
           page_size page_base [0..<slab_pages] of
         Some candidate \<Rightarrow> candidate
       | None \<Rightarrow> page_base)"

definition base_from_obj_addr_unknown :: "usize \<Rightarrow> slab_mem \<Rightarrow> usize \<Rightarrow> usize option" where
  "base_from_obj_addr_unknown page_size mem addr =
     (if page_size = 0 \<or> \<not> is_power_of_two page_size then None
      else
        let page_base = addr AND usize_not (usize_sub page_size 1) in
        search_base
          (\<lambda>candidate. case sm_hdr mem candidate of
             None \<Rightarrow> False
           | Some hdr \<Rightarrow>
               let slab_bytes = sh_slab_bytes hdr in
               \<not> (sh_magic hdr \<noteq> SLAB_MAGIC \<or> slab_bytes = 0 \<or> \<not> is_multiple_of slab_bytes page_size \<or>
                  slab_bytes div page_size > MAX_SLAB_PAGES) \<and>
               addr \<ge> candidate \<and> addr < usize_add candidate slab_bytes)
          page_size page_base [0..<MAX_SLAB_PAGES])"

section \<open>Remote frees\<close>

text \<open>The effect of \<open>remote_free\<close> once its compare-and-swap has succeeded.\<close>

definition remote_free :: "slab_mem \<Rightarrow> usize \<Rightarrow> usize \<Rightarrow> slab_mem option" where
  "remote_free mem base obj_addr = do {
     hdr \<leftarrow> sm_hdr mem base;
     let old_head = sh_remote_head hdr;
     let mem1 = mem\<lparr>sm_word := (sm_word mem)(obj_addr := old_head)\<rparr>;
     hdr_upd mem1 base
       (\<lambda>h. h\<lparr>sh_remote_head := obj_addr, sh_remote_count := as_u32 (sh_remote_count h + 1)\<rparr>)
   }"

definition queue_remote_free ::
  "usize \<Rightarrow> slab_mem \<Rightarrow> usize \<Rightarrow> (size_class option \<times> slab_mem) option" where
  "queue_remote_free page_size mem obj_addr =
     (case base_from_obj_addr_unknown page_size mem obj_addr of
        None \<Rightarrow> Some (None, mem)
      | Some base \<Rightarrow> do {
          hdr \<leftarrow> sm_hdr mem base;
          mem' \<leftarrow> remote_free mem base obj_addr;
          Some (Some (sh_class hdr), mem')
        })"

text \<open>The loop of \<open>drain_remote_frees\<close>; it follows the chain stored in the objects.\<close>

partial_function (option) drain_loop ::
  "(usize \<Rightarrow> usize) \<Rightarrow> usize \<Rightarrow> usize \<Rightarrow> slab_header \<Rightarrow> slab_header option" where
  "drain_loop words base p hdr =
     (if p = 0 then Some hdr
      else do {
        let next = words p;
        let idx = object_index hdr base p;
        let wi = idx div 64;
        let b = idx mod 64;
        if wi < length (sh_bitmap hdr) then
          drain_loop words base next
            (hdr\<lparr>sh_bitmap := (sh_bitmap hdr)[wi := (sh_bitmap hdr ! wi) OR push_bit b 1],
              sh_local_free_count := u16_add (sh_local_free_count hdr) 1\<rparr>)
        else None
      })"

declare drain_loop.simps [code]

definition drain_remote_frees :: "slab_mem \<Rightarrow> usize \<Rightarrow> slab_mem option" where
  "drain_remote_frees mem base = do {
     hdr \<leftarrow> sm_hdr mem base;
     let head = sh_remote_head hdr;
     if head = 0 then Some mem
     else do {
       hdr' \<leftarrow> drain_loop (sm_word mem) base head (hdr\<lparr>sh_remote_head := 0, sh_remote_count := 0\<rparr>);
       Some (mem\<lparr>sm_hdr := (sm_hdr mem)(base \<mapsto> hdr')\<rparr>)
     }
   }"

definition drain_pending :: "slab_mem \<Rightarrow> usize \<Rightarrow> slab_mem option" where
  "drain_pending mem base = do {
     hdr \<leftarrow> sm_hdr mem base;
     if has_remote_frees hdr then drain_remote_frees mem base else Some mem
   }"

section \<open>Intrusive lists of slabs\<close>

record list_head =
  lh_first :: usize
  lh_kind :: slab_list_state

definition list_head_empty :: "slab_list_state \<Rightarrow> list_head" where
  "list_head_empty kind = \<lparr>lh_first = 0, lh_kind = kind\<rparr>"

definition list_is_empty :: "list_head \<Rightarrow> bool" where
  "list_is_empty lh \<longleftrightarrow> lh_first lh = 0"

definition push_front :: "slab_mem \<Rightarrow> list_head \<Rightarrow> usize \<Rightarrow> (slab_mem \<times> list_head) option" where
  "push_front mem lh base = do {
     mem1 \<leftarrow> hdr_upd mem base (\<lambda>h. h\<lparr>sh_state := lh_kind lh, sh_prev := 0, sh_next := lh_first lh\<rparr>);
     mem2 \<leftarrow> (if lh_first lh \<noteq> 0 then hdr_upd mem1 (lh_first lh) (\<lambda>h. h\<lparr>sh_prev := base\<rparr>) else Some mem1);
     Some (mem2, lh\<lparr>lh_first := base\<rparr>)
   }"

definition list_remove :: "slab_mem \<Rightarrow> list_head \<Rightarrow> usize \<Rightarrow> (slab_mem \<times> list_head) option" where
  "list_remove mem lh base = do {
     hdr \<leftarrow> sm_hdr mem base;
     let prev = sh_prev hdr;
     let next = sh_next hdr;
     (mem1, lh1) \<leftarrow> (if prev \<noteq> 0 then do {
         mem1 \<leftarrow> hdr_upd mem prev (\<lambda>h. h\<lparr>sh_next := next\<rparr>);
         Some (mem1, lh)
       } else Some (mem, lh\<lparr>lh_first := next\<rparr>));
     mem2 \<leftarrow> (if next \<noteq> 0 then hdr_upd mem1 next (\<lambda>h. h\<lparr>sh_prev := prev\<rparr>) else Some mem1);
     mem3 \<leftarrow> hdr_upd mem2 base (\<lambda>h. h\<lparr>sh_prev := 0, sh_next := 0, sh_state := ListNone\<rparr>);
     Some (mem3, lh1)
   }"

definition pop_front :: "slab_mem \<Rightarrow> list_head \<Rightarrow> (usize \<times> slab_mem \<times> list_head) option" where
  "pop_front mem lh =
     (if lh_first lh = 0 then Some (0, mem, lh)
      else do {
        let base = lh_first lh;
        (mem1, lh1) \<leftarrow> list_remove mem lh base;
        Some (base, mem1, lh1)
      })"

section \<open>The cache of one size class\<close>

record slab_cache =
  sc_class :: size_class
  sc_partial :: list_head
  sc_full :: list_head
  sc_empty :: list_head
  sc_empty_count :: usize

datatype cache_dealloc_result = CacheDone | CacheFreeSlab usize usize

definition cache_new :: "size_class \<Rightarrow> slab_cache" where
  "cache_new sc = \<lparr>sc_class = sc, sc_partial = list_head_empty ListPartial, sc_full = list_head_empty ListFull,
     sc_empty = list_head_empty ListEmpty, sc_empty_count = 0\<rparr>"

definition move_to_partial_from_full :: "slab_mem \<Rightarrow> slab_cache \<Rightarrow> usize \<Rightarrow> (slab_mem \<times> slab_cache) option" where
  "move_to_partial_from_full mem c base = do {
     (mem1, full) \<leftarrow> list_remove mem (sc_full c) base;
     (mem2, part) \<leftarrow> push_front mem1 (sc_partial c) base;
     Some (mem2, c\<lparr>sc_full := full, sc_partial := part\<rparr>)
   }"

definition try_alloc_from_partial :: "slab_mem \<Rightarrow> slab_cache \<Rightarrow> (usize option \<times> slab_mem \<times> slab_cache) option" where
  "try_alloc_from_partial mem c = do {
     let base = lh_first (sc_partial c);
     if base = 0 then Some (None, mem, c)
     else do {
       mem1 \<leftarrow> drain_pending mem base;
       hdr \<leftarrow> sm_hdr mem1 base;
       (case local_alloc hdr of
          None \<Rightarrow> Some (None, mem1, c)
        | Some (idx, hdr1) \<Rightarrow> do {
            let mem2 = mem1\<lparr>sm_hdr := (sm_hdr mem1)(base \<mapsto> hdr1)\<rparr>;
            let obj_addr = object_addr hdr1 base idx;
            if is_local_full hdr1 \<and> \<not> has_remote_frees hdr1 then do {
              (mem3, part) \<leftarrow> list_remove mem2 (sc_partial c) base;
              (mem4, full) \<leftarrow> push_front mem3 (sc_full c) base;
              Some (Some obj_addr, mem4, c\<lparr>sc_partial := part, sc_full := full\<rparr>)
            }
            else Some (Some obj_addr, mem2, c)
          })
     }
   }"

text \<open>The walk along the full list; the links are followed before a slab is moved.\<close>

partial_function (option) reclaim_loop ::
  "usize \<Rightarrow> bool \<Rightarrow> slab_mem \<Rightarrow> slab_cache \<Rightarrow> (bool \<times> slab_mem \<times> slab_cache) option" where
  "reclaim_loop base reclaimed mem c =
     (if base = 0 then Some (reclaimed, mem, c)
      else do {
        hdr \<leftarrow> sm_hdr mem base;
        let next = sh_next hdr;
        if has_remote_frees hdr then do {
          mem1 \<leftarrow> drain_remote_frees mem base;
          (mem2, c2) \<leftarrow> move_to_partial_from_full mem1 c base;
          reclaim_loop next True mem2 c2
        }
        else reclaim_loop next reclaimed mem c
      })"

declare reclaim_loop.simps [code]

definition reclaim_full_with_remote_frees :: "slab_mem \<Rightarrow> slab_cache \<Rightarrow> (bool \<times> slab_mem \<times> slab_cache) option" where
  "reclaim_full_with_remote_frees mem c = reclaim_loop (lh_first (sc_full c)) False mem c"

text \<open>\<open>remote_pending\<close> is asked at most once and may consume the announcement held in \<open>h\<close>.\<close>

definition alloc_object_hinted ::
  "('h \<Rightarrow> bool \<times> 'h) \<Rightarrow> 'h \<Rightarrow> slab_mem \<Rightarrow> slab_cache \<Rightarrow> (usize option \<times> 'h \<times> slab_mem \<times> slab_cache) option" where
  "alloc_object_hinted remote_pending h mem c = do {
     (r, mem1, c1) \<leftarrow> try_alloc_from_partial mem c;
     (case r of
        Some addr \<Rightarrow> Some (Some addr, h, mem1, c1)
      | None \<Rightarrow> do {
          let (pending, h1) = remote_pending h;
          (reclaimed, mem2, c2) \<leftarrow>
            (if pending then reclaim_full_with_remote_frees mem1 c1 else Some (False, mem1, c1));
          if pending \<and> reclaimed then do {
            (r, mem3, c3) \<leftarrow> try_alloc_from_partial mem2 c2;
            Some (r, h1, mem3, c3)
          }
          else if \<not> list_is_empty (sc_empty c2) then do {
            (base, mem3, emp) \<leftarrow> pop_front mem2 (sc_empty c2);
            let c3 = c2\<lparr>sc_empty := emp, sc_empty_count := usize_sub (sc_empty_count c2) 1\<rparr>;
            (mem4, part) \<leftarrow> push_front mem3 (sc_partial c3) base;
            (r, mem5, c5) \<leftarrow> try_alloc_from_partial mem4 (c3\<lparr>sc_partial := part\<rparr>);
            Some (r, h1, mem5, c5)
          }
          else Some (None, h1, mem2, c2)
        })
   }"

definition alloc_object :: "slab_mem \<Rightarrow> slab_cache \<Rightarrow> (usize option \<times> slab_mem \<times> slab_cache) option" where
  "alloc_object mem c = map_option (\<lambda>(r, _, mem', c'). (r, mem', c'))
     (alloc_object_hinted (\<lambda>h. (True, h)) () mem c)"

definition dealloc_object ::
  "usize \<Rightarrow> slab_mem \<Rightarrow> slab_cache \<Rightarrow> usize \<Rightarrow> (cache_dealloc_result \<times> slab_mem \<times> slab_cache) option" where
  "dealloc_object page_size mem c obj_addr = do {
     let slab_bytes = usize_mul (slab_pages (sc_class c) page_size) page_size;
     let base = base_from_obj_addr page_size mem obj_addr slab_bytes;
     hdr \<leftarrow> sm_hdr mem base;
     let was_full = (sh_state hdr = ListFull);
     let idx = object_index hdr base obj_addr;
     hdr1 \<leftarrow> local_free hdr idx;
     let mem1 = mem\<lparr>sm_hdr := (sm_hdr mem)(base \<mapsto> hdr1)\<rparr>;
     (mem2, c2) \<leftarrow> (if was_full then move_to_partial_from_full mem1 c base else Some (mem1, c));
     mem3 \<leftarrow> drain_pending mem2 base;
     hdr3 \<leftarrow> sm_hdr mem3 base;
     if is_all_free hdr3 then
       if sc_empty_count c2 = 0 then do {
         (mem4, part) \<leftarrow> list_remove mem3 (sc_partial c2) base;
         (mem5, emp) \<leftarrow> push_front mem4 (sc_empty c2) base;
         Some (CacheDone, mem5, c2\<lparr>sc_partial := part, sc_empty := emp,
           sc_empty_count := usize_add (sc_empty_count c2) 1\<rparr>)
       }
       else do {
         (mem4, part) \<leftarrow> list_remove mem3 (sc_partial c2) base;
         hdr4 \<leftarrow> sm_hdr mem4 base;
         hdr5 \<leftarrow> prepare_for_buddy_free hdr4;
         Some (CacheFreeSlab base (slab_pages (sc_class c2) page_size),
           mem4\<lparr>sm_hdr := (sm_hdr mem4)(base \<mapsto> hdr5)\<rparr>, c2\<lparr>sc_partial := part\<rparr>)
       }
     else Some (CacheDone, mem3, c2)
   }"

definition cache_add_slab ::
  "slab_mem \<Rightarrow> slab_cache \<Rightarrow> usize \<Rightarrow> usize \<Rightarrow> nat \<Rightarrow> (slab_mem \<times> slab_cache) option" where
  "cache_add_slab mem c base bytes owner_cpu = do {
     hdr \<leftarrow> header_init (sc_class c) bytes owner_cpu;
     (mem1, part) \<leftarrow> push_front (mem\<lparr>sm_hdr := (sm_hdr mem)(base \<mapsto> hdr)\<rparr>) (sc_partial c) base;
     Some (mem1, c\<lparr>sc_partial := part\<rparr>)
   }"

end
