(* ===== verification/SlabLists.thy ===== *)
theory SlabLists
  imports Slab
begin

text \<open>
  The intrusive lists of slab headers: a list head with the \<open>list_prev\<close> and \<open>list_next\<close> fields of the
  headers stands for a list of slab addresses; \<open>push_front\<close>, \<open>remove\<close> and \<open>pop_front\<close> act on it as on a
  list, touch only its members, and change nothing but the links and the membership tag.
\<close>

type_synonym headers = "usize \<Rightarrow> slab_header option"

abbreviation hat :: "headers \<Rightarrow> usize \<Rightarrow> slab_header" where
  "hat f x \<equiv> the (f x)"

fun chain :: "headers \<Rightarrow> slab_list_state \<Rightarrow> usize \<Rightarrow> usize \<Rightarrow> usize list \<Rightarrow> bool" where
  "chain f k p h [] \<longleftrightarrow> h = 0"
| "chain f k p h (x # xs) \<longleftrightarrow> h = x \<and> x \<noteq> 0 \<and> x \<in> dom f \<and> sh_prev (hat f x) = p \<and> sh_state (hat f x) = k \<and>
     chain f k x (sh_next (hat f x)) xs"

text \<open>A header without its links, and memories that differ in the links of some slabs only.\<close>

definition dat :: "slab_header \<Rightarrow> slab_header" where
  "dat h = h\<lparr>sh_prev := 0, sh_next := 0, sh_state := ListNone\<rparr>"

definition relinked :: "slab_mem \<Rightarrow> slab_mem \<Rightarrow> usize set \<Rightarrow> bool" where
  "relinked mem mem' X \<longleftrightarrow> sm_word mem' = sm_word mem \<and> dom (sm_hdr mem') = dom (sm_hdr mem) \<and>
     (\<forall>y. y \<notin> X \<longrightarrow> sm_hdr mem' y = sm_hdr mem y) \<and>
     (\<forall>y. dat (hat (sm_hdr mem') y) = dat (hat (sm_hdr mem) y))"

lemma relinked_refl [simp]: "relinked mem mem X"
  by (simp add: relinked_def)

lemma relinked_trans: "relinked a b X \<Longrightarrow> relinked b c Y \<Longrightarrow> relinked a c (X \<union> Y)"
  by (simp add: relinked_def)

lemma relinked_mono: "relinked a b X \<Longrightarrow> X \<subseteq> Y \<Longrightarrow> relinked a b Y"
  unfolding relinked_def by blast

lemma chain_frame:
  "chain f k p h xs \<Longrightarrow> (\<And>x. x \<in> set xs \<Longrightarrow> f' x = f x) \<Longrightarrow> chain f' k p h xs"
  by (induction xs arbitrary: p h) (auto simp: dom_def)

lemma chain_member: "chain f k p h xs \<Longrightarrow> x \<in> set xs \<Longrightarrow> x \<noteq> 0 \<and> x \<in> dom f \<and> sh_state (hat f x) = k"
  by (induction xs arbitrary: p h) auto

lemma chain_head: "chain f k p h xs \<Longrightarrow> h = (case xs of [] \<Rightarrow> 0 | x # _ \<Rightarrow> x)"
  by (cases xs) auto

lemma chain_links:
  assumes "chain f k p h (ys @ x # zs)"
  shows "sh_prev (hat f x) = (if ys = [] then p else last ys)"
    and "sh_next (hat f x) = (case zs of [] \<Rightarrow> 0 | z # _ \<Rightarrow> z)"
proof -
  show "sh_prev (hat f x) = (if ys = [] then p else last ys)"
    using assms by (induction ys arbitrary: p h) auto
  have "chain f k x (sh_next (hat f x)) zs"
    using assms by (induction ys arbitrary: p h) auto
  then show "sh_next (hat f x) = (case zs of [] \<Rightarrow> 0 | z # _ \<Rightarrow> z)"
    by (rule chain_head)
qed

lemma drain_pending_eq [simp]: "drain_pending mem base = drain_remote_frees mem base"
  by (cases "sm_hdr mem base") (simp_all add: drain_pending_def drain_remote_frees_def has_remote_frees_def)

lemma hdr_upd_eq:
  "b \<in> dom (sm_hdr mem) \<Longrightarrow> hdr_upd mem b g = Some (mem\<lparr>sm_hdr := (sm_hdr mem)(b \<mapsto> g (hat (sm_hdr mem) b))\<rparr>)"
  by (auto simp: hdr_upd_def)

section \<open>Pushing\<close>

lemma chain_push:
  assumes c: "chain f k 0 h xs" and d: "distinct xs" "x \<notin> set xs" and x: "x \<noteq> 0" "x \<in> dom f"
    and f1: "f1 = f(x \<mapsto> (hat f x)\<lparr>sh_state := k, sh_prev := 0, sh_next := h\<rparr>)"
    and f2: "f2 = (if h \<noteq> 0 then f1(h \<mapsto> (hat f1 h)\<lparr>sh_prev := x\<rparr>) else f1)"
  shows "chain f2 k 0 x (x # xs)"
proof (cases xs)
  case Nil
  with c x f1 f2 show ?thesis
    by simp
next
  case (Cons y ys)
  have y: "h = y" "y \<noteq> 0" "y \<in> dom f" "sh_state (hat f y) = k" "chain f k y (sh_next (hat f y)) ys" "y \<noteq> x"
    using c d(2) Cons by auto
  have f2x: "f2 x = Some ((hat f x)\<lparr>sh_state := k, sh_prev := 0, sh_next := y\<rparr>)"
    and f2y: "f2 y = Some ((hat f y)\<lparr>sh_prev := x\<rparr>)"
    using y f1 f2 by simp_all
  have "chain f2 k y (sh_next (hat f y)) ys"
    by (rule chain_frame [OF y(5)]) (use d Cons f1 f2 y in auto)
  with f2x f2y y x Cons show ?thesis
    by (simp add: dom_def)
qed

lemma push_front_ok:
  assumes c: "chain (sm_hdr mem) (lh_kind lh) 0 (lh_first lh) xs" and d: "distinct xs" "x \<notin> set xs"
    and x: "x \<noteq> 0" "x \<in> dom (sm_hdr mem)"
  shows "\<exists>mem'. push_front mem lh x = Some (mem', lh\<lparr>lh_first := x\<rparr>) \<and>
    chain (sm_hdr mem') (lh_kind lh) 0 x (x # xs) \<and> relinked mem mem' (set (x # xs))"
proof -
  let ?f = "sm_hdr mem" and ?h = "lh_first lh" and ?k = "lh_kind lh"
  define f1 where "f1 = ?f(x \<mapsto> (hat ?f x)\<lparr>sh_state := ?k, sh_prev := 0, sh_next := ?h\<rparr>)"
  define f2 where "f2 = (if ?h \<noteq> 0 then f1(?h \<mapsto> (hat f1 ?h)\<lparr>sh_prev := x\<rparr>) else f1)"
  have h: "?h \<noteq> 0 \<Longrightarrow> ?h \<in> set xs \<and> ?h \<in> dom ?f"
    using chain_head [OF c] chain_member [OF c] by (cases xs) auto
  have dom1: "dom f1 = dom ?f"
    using x(2) by (auto simp: f1_def)
  then have dom2: "dom f2 = dom ?f"
    using h by (auto simp: f2_def)
  have dat1: "dat (hat f1 y) = dat (hat ?f y)" for y
    by (simp add: f1_def dat_def)
  then have dat2: "dat (hat f2 y) = dat (hat ?f y)" for y
    by (auto simp: f2_def dat_def)
  have "push_front mem lh x = Some (mem\<lparr>sm_hdr := f2\<rparr>, lh\<lparr>lh_first := x\<rparr>)"
    using x(2) h dom1 by (auto simp: push_front_def hdr_upd_eq f1_def [symmetric] f2_def)
  moreover have "relinked mem (mem\<lparr>sm_hdr := f2\<rparr>) (set (x # xs))"
    using dom2 dat2 h by (auto simp: relinked_def f2_def f1_def)
  moreover have "chain f2 ?k 0 x (x # xs)"
    by (rule chain_push [OF c d x f1_def f2_def])
  ultimately show ?thesis
    by (intro exI [of _ "mem\<lparr>sm_hdr := f2\<rparr>"]) simp
qed

section \<open>Removing\<close>

lemma chain_splice:
  assumes "chain f k p h (ys @ x # zs)" "distinct (ys @ x # zs)" "dom f' = dom f"
    and "\<forall>y\<in>set ys. sh_prev (hat f' y) = sh_prev (hat f y) \<and> sh_state (hat f' y) = sh_state (hat f y) \<and>
      sh_next (hat f' y) = (if y = last ys then sh_next (hat f x) else sh_next (hat f y))"
    and "\<forall>z\<in>set zs. sh_next (hat f' z) = sh_next (hat f z) \<and> sh_state (hat f' z) = sh_state (hat f z) \<and>
      sh_prev (hat f' z) = (if z = hd zs then sh_prev (hat f x) else sh_prev (hat f z))"
  shows "chain f' k p (if ys = [] then sh_next (hat f x) else h) (ys @ zs)"
  using assms
proof (induction ys arbitrary: p h)
  case Nil
  have tail: "chain f' k q m us" if "chain f k q m us" "set us \<subseteq> set zs" "us \<noteq> [] \<Longrightarrow> hd zs \<notin> set us" for q m us
    using that
  proof (induction us arbitrary: q m)
    case (Cons u us)
    then show ?case
      using Nil.prems(3,5) by auto
  qed simp
  show ?case
  proof (cases zs)
    case Nil
    with Nil.prems show ?thesis
      by simp
  next
    case (Cons z zs')
    have d: "chain f k z (sh_next (hat f z)) zs'" "x = h" "sh_next (hat f x) = z" "z \<in> dom f" "z \<noteq> 0"
      "sh_prev (hat f x) = p" "sh_state (hat f z) = k"
      using Nil.prems(1) Cons by auto
    have "chain f' k z (sh_next (hat f z)) zs'"
      by (rule tail [OF d(1)]) (use Nil.prems(2) Cons in auto)
    moreover have "sh_prev (hat f' z) = p" "sh_next (hat f' z) = sh_next (hat f z)" "sh_state (hat f' z) = k"
      using Nil.prems(5) Cons d(6,7) by simp_all
    ultimately show ?thesis
      using Cons d Nil.prems(3) by auto
  qed
next
  case (Cons y ys)
  have d: "chain f k y (sh_next (hat f y)) (ys @ x # zs)" "y = h" "y \<in> dom f" "y \<noteq> 0"
    "sh_prev (hat f y) = p" "sh_state (hat f y) = k"
    using Cons.prems(1) by auto
  have yn: "y \<notin> set ys"
    using Cons.prems(2) by simp
  have ys: "\<forall>y\<in>set ys. sh_prev (hat f' y) = sh_prev (hat f y) \<and> sh_state (hat f' y) = sh_state (hat f y) \<and>
      sh_next (hat f' y) = (if y = last ys then sh_next (hat f x) else sh_next (hat f y))"
    using Cons.prems(4) by (metis last_ConsR list.set_intros(2) list.set_cases list.distinct(1))
  have "distinct (ys @ x # zs)"
    using Cons.prems(2) by simp
  note IH = Cons.IH [OF d(1) this Cons.prems(3) ys Cons.prems(5)]
  have "y = last (y # ys) \<longleftrightarrow> ys = []"
    using yn last_in_set [of ys] by auto
  then have "sh_prev (hat f' y) = p" "sh_state (hat f' y) = k"
    "sh_next (hat f' y) = (if ys = [] then sh_next (hat f x) else sh_next (hat f y))"
    using Cons.prems(4) d(5,6) by simp_all
  with IH d Cons.prems(3) show ?case
    by simp
qed

lemma list_remove_ok:
  assumes c: "chain (sm_hdr mem) (lh_kind lh) 0 (lh_first lh) xs" and d: "distinct xs" and x: "x \<in> set xs"
  shows "\<exists>mem' h'. list_remove mem lh x = Some (mem', lh\<lparr>lh_first := h'\<rparr>) \<and>
    chain (sm_hdr mem') (lh_kind lh) 0 h' (remove1 x xs) \<and> relinked mem mem' (set xs)"
proof -
  let ?f = "sm_hdr mem" and ?k = "lh_kind lh"
  from x obtain ys zs where xs: "xs = ys @ x # zs"
    by (meson split_list)
  have dist: "distinct (ys @ x # zs)" and ch: "chain ?f ?k 0 (lh_first lh) (ys @ x # zs)"
    using c d xs by simp_all
  have mem: "y \<noteq> 0 \<and> y \<in> dom ?f" if "y \<in> set (ys @ x # zs)" for y
    using chain_member [OF ch that] by blast
  let ?p = "sh_prev (hat ?f x)" and ?n = "sh_next (hat ?f x)"
  note links = chain_links [OF ch]
  have p: "?p \<noteq> 0 \<longleftrightarrow> ys \<noteq> []" "ys \<noteq> [] \<Longrightarrow> ?p = last ys \<and> last ys \<in> set ys"
    using links(1) mem by auto
  have n: "?n \<noteq> 0 \<longleftrightarrow> zs \<noteq> []" "zs \<noteq> [] \<Longrightarrow> ?n = hd zs \<and> hd zs \<in> set zs"
    using links(2) mem by (auto split: list.splits)
  define f1 where "f1 = (if ?p \<noteq> 0 then ?f(?p \<mapsto> (hat ?f ?p)\<lparr>sh_next := ?n\<rparr>) else ?f)"
  define f2 where "f2 = (if ?n \<noteq> 0 then f1(?n \<mapsto> (hat f1 ?n)\<lparr>sh_prev := ?p\<rparr>) else f1)"
  define f3 where "f3 = f2(x \<mapsto> (hat f2 x)\<lparr>sh_prev := 0, sh_next := 0, sh_state := ListNone\<rparr>)"
  define h' where "h' = (if ys = [] then ?n else lh_first lh)"
  have pd: "?p \<noteq> 0 \<Longrightarrow> ?p \<in> dom ?f" and nd: "?n \<noteq> 0 \<Longrightarrow> ?n \<in> dom ?f" and xd: "x \<in> dom ?f"
    using p n mem by auto
  have dom1: "dom f1 = dom ?f"
    using pd by (auto simp: f1_def)
  then have dom2: "dom f2 = dom ?f"
    using nd by (auto simp: f2_def)
  then have dom3: "dom f3 = dom ?f"
    using xd by (auto simp: f3_def)
  have run: "list_remove mem lh x = Some (mem\<lparr>sm_hdr := f3\<rparr>, lh\<lparr>lh_first := h'\<rparr>)"
  proof -
    have s1: "hdr_upd mem ?p (\<lambda>h. h\<lparr>sh_next := ?n\<rparr>) = Some (mem\<lparr>sm_hdr := f1\<rparr>)" if "?p \<noteq> 0"
      using hdr_upd_eq [OF pd [OF that]] that by (simp add: f1_def)
    have s1': "f1 = ?f" if "?p = 0"
      using that by (simp add: f1_def)
    have s2: "(if ?n \<noteq> 0 then hdr_upd (mem\<lparr>sm_hdr := f1\<rparr>) ?n (\<lambda>h. h\<lparr>sh_prev := ?p\<rparr>)
        else Some (mem\<lparr>sm_hdr := f1\<rparr>)) = Some (mem\<lparr>sm_hdr := f2\<rparr>)"
      using hdr_upd_eq [of ?n "mem\<lparr>sm_hdr := f1\<rparr>"] nd dom1 by (simp add: f2_def)
    have s3: "hdr_upd (mem\<lparr>sm_hdr := f2\<rparr>) x (\<lambda>h. h\<lparr>sh_prev := 0, sh_next := 0, sh_state := ListNone\<rparr>) =
        Some (mem\<lparr>sm_hdr := f3\<rparr>)"
      using hdr_upd_eq [of x "mem\<lparr>sm_hdr := f2\<rparr>"] xd dom2 by (simp add: f3_def)
    have sx: "?f x = Some (hat ?f x)"
      using xd by auto
    show ?thesis
    proof (cases "?p = 0")
      case True
      then have "mem\<lparr>sm_hdr := f1\<rparr> = mem" "h' = ?n"
        using s1' p(1) by (simp_all add: h'_def)
      with True s2 s3 show ?thesis
        unfolding list_remove_def by (subst sx) (cases "?n = 0"; simp add: Let_def)
    next
      case False
      then have "h' = lh_first lh"
        using p(1) by (simp add: h'_def)
      with False s1 s2 s3 show ?thesis
        unfolding list_remove_def by (subst sx) (simp add: Let_def)
    qed
  qed
  have dat3: "dat (hat f3 y) = dat (hat ?f y)" for y
    by (auto simp: f3_def f2_def f1_def dat_def)
  have in_xs: "?p \<noteq> 0 \<Longrightarrow> ?p \<in> set xs" "?n \<noteq> 0 \<Longrightarrow> ?n \<in> set xs"
    using p n xs by auto
  have out: "f3 y = ?f y" if "y \<notin> set xs" for y
    using that in_xs x by (auto simp: f3_def f2_def f1_def)
  have rel: "relinked mem (mem\<lparr>sm_hdr := f3\<rparr>) (set xs)"
    using out dat3 dom3 by (simp add: relinked_def)
  have disj: "set ys \<inter> set zs = {}" "x \<notin> set ys" "x \<notin> set zs"
    using dist by auto
  have ysp: "?n \<notin> set ys" and zsp: "?p \<notin> set zs"
    using p n disj mem by (metis IntI UnI1 UnI2 empty_iff set_append list.set_intros(2))+
  have "chain f3 ?k 0 h' (ys @ zs)"
    unfolding h'_def
  proof (rule chain_splice [OF ch dist dom3])
    show "\<forall>y\<in>set ys. sh_prev (hat f3 y) = sh_prev (hat ?f y) \<and> sh_state (hat f3 y) = sh_state (hat ?f y) \<and>
        sh_next (hat f3 y) = (if y = last ys then ?n else sh_next (hat ?f y))"
      using ysp disj p by (auto simp: f3_def f2_def f1_def)
    show "\<forall>z\<in>set zs. sh_next (hat f3 z) = sh_next (hat ?f z) \<and> sh_state (hat f3 z) = sh_state (hat ?f z) \<and>
        sh_prev (hat f3 z) = (if z = hd zs then ?p else sh_prev (hat ?f z))"
      using zsp disj n by (auto simp: f3_def f2_def f1_def)
  qed
  moreover have "remove1 x xs = ys @ zs"
    using xs disj by (simp add: remove1_append)
  ultimately show ?thesis
    using run rel by (intro exI [of _ "mem\<lparr>sm_hdr := f3\<rparr>"] exI [of _ h']) simp
qed

end
