(* ===== verification/BuddyLists.thy ===== *)
theory BuddyLists
  imports Buddy
begin

text \<open>
  The intrusive doubly-linked free lists of the buddy allocator: each list head in \<open>free_lists\<close> together
  with the \<open>prev\<close> and \<open>next\<close> fields of the page metadata stands for a list of page frame numbers, and
  \<open>free_list_push\<close>, \<open>free_list_pop\<close> and \<open>free_list_remove\<close> act on it as on a list. The metadata of pages
  outside the lists, and every \<open>flags\<close> and \<open>order\<close> field, is left alone.
\<close>

fun dll :: "page_meta list \<Rightarrow> nat \<Rightarrow> nat \<Rightarrow> nat list \<Rightarrow> bool" where
  "dll meta p h [] \<longleftrightarrow> h = PFN_NONE"
| "dll meta p h (x # xs) \<longleftrightarrow> h = x \<and> x < length meta \<and> x \<noteq> PFN_NONE \<and> pm_prev (meta ! x) = p \<and>
     dll meta x (pm_next (meta ! x)) xs"

definition same_links :: "page_meta list \<Rightarrow> page_meta list \<Rightarrow> nat set \<Rightarrow> bool" where
  "same_links meta meta' X \<longleftrightarrow> length meta' = length meta \<and>
     (\<forall>x\<in>X. pm_prev (meta' ! x) = pm_prev (meta ! x) \<and> pm_next (meta' ! x) = pm_next (meta ! x))"

definition same_info :: "page_meta list \<Rightarrow> page_meta list \<Rightarrow> bool" where
  "same_info meta meta' \<longleftrightarrow> length meta' = length meta \<and>
     (\<forall>x. pm_flags (meta' ! x) = pm_flags (meta ! x) \<and> pm_order (meta' ! x) = pm_order (meta ! x))"

lemma same_info_refl [simp]: "same_info meta meta"
  by (simp add: same_info_def)

lemma same_info_trans: "same_info a b \<Longrightarrow> same_info b c \<Longrightarrow> same_info a c"
  by (simp add: same_info_def)

lemma same_info_upd:
  "i < length meta \<Longrightarrow> pm_flags m = pm_flags (meta ! i) \<Longrightarrow> pm_order m = pm_order (meta ! i) \<Longrightarrow>
   same_info meta (meta[i := m])"
  by (auto simp: same_info_def nth_list_update)

lemma dll_frame: "dll meta p h xs \<Longrightarrow> same_links meta meta' (set xs) \<Longrightarrow> dll meta' p h xs"
  by (induction xs arbitrary: p h) (auto simp: same_links_def)

lemma dll_bound: "dll meta p h xs \<Longrightarrow> x \<in> set xs \<Longrightarrow> x < length meta \<and> x \<noteq> PFN_NONE"
  by (induction xs arbitrary: p h) auto

lemma dll_head: "dll meta p h xs \<Longrightarrow> h = (case xs of [] \<Rightarrow> PFN_NONE | x # _ \<Rightarrow> x)"
  by (cases xs) auto

lemma dll_links:
  assumes "dll meta p h (ys @ x # zs)"
  shows "pm_prev (meta ! x) = (if ys = [] then p else last ys)"
    and "pm_next (meta ! x) = (case zs of [] \<Rightarrow> PFN_NONE | z # _ \<Rightarrow> z)"
proof -
  show "pm_prev (meta ! x) = (if ys = [] then p else last ys)"
    using assms by (induction ys arbitrary: p h) auto
  have "dll meta x (pm_next (meta ! x)) zs"
    using assms by (induction ys arbitrary: p h) auto
  then show "pm_next (meta ! x) = (case zs of [] \<Rightarrow> PFN_NONE | z # _ \<Rightarrow> z)"
    by (rule dll_head)
qed

lemma dll_splice:
  assumes "dll meta p h (ys @ x # zs)" "distinct (ys @ x # zs)" "length meta' = length meta"
    and "\<forall>y\<in>set ys. pm_prev (meta' ! y) = pm_prev (meta ! y) \<and>
      pm_next (meta' ! y) = (if y = last ys then pm_next (meta ! x) else pm_next (meta ! y))"
    and "\<forall>z\<in>set zs. pm_next (meta' ! z) = pm_next (meta ! z) \<and>
      pm_prev (meta' ! z) = (if z = hd zs then pm_prev (meta ! x) else pm_prev (meta ! z))"
  shows "dll meta' p (if ys = [] then pm_next (meta ! x) else h) (ys @ zs)"
  using assms
proof (induction ys arbitrary: p h)
  case Nil
  show ?case
  proof (cases zs)
    case Nil
    with Nil.prems show ?thesis
      by simp
  next
    case (Cons z zs')
    have d: "dll meta z (pm_next (meta ! z)) zs'" "x = h" "pm_next (meta ! x) = z" "z < length meta"
      "z \<noteq> PFN_NONE" "pm_prev (meta ! x) = p"
      using Nil.prems(1) Cons by simp_all
    have "z \<notin> set zs'"
      using Nil.prems(2) Cons by simp
    then have "same_links meta meta' (set zs')"
      using Nil.prems(3,5) Cons by (auto simp: same_links_def)
    note dll_frame [OF d(1) this]
    moreover have "pm_prev (meta' ! z) = p" "pm_next (meta' ! z) = pm_next (meta ! z)"
      using Nil.prems(5) Cons d(6) by simp_all
    ultimately show ?thesis
      using Cons d Nil.prems(3) by simp
  qed
next
  case (Cons y ys)
  have d: "dll meta y (pm_next (meta ! y)) (ys @ x # zs)" "y = h" "y < length meta" "y \<noteq> PFN_NONE"
    "pm_prev (meta ! y) = p"
    using Cons.prems(1) by simp_all
  have "y \<notin> set ys"
    using Cons.prems(2) by simp
  then have ys: "\<forall>y\<in>set ys. pm_prev (meta' ! y) = pm_prev (meta ! y) \<and>
      pm_next (meta' ! y) = (if y = last ys then pm_next (meta ! x) else pm_next (meta ! y))"
    using Cons.prems(4) by (metis last_ConsR list.set_intros(2) list.set_cases list.distinct(1))
  have "distinct (ys @ x # zs)"
    using Cons.prems(2) by simp
  note IH = Cons.IH [OF d(1) this Cons.prems(3) ys Cons.prems(5)]
  have "pm_prev (meta' ! y) = p"
    "pm_next (meta' ! y) = (if ys = [] then pm_next (meta ! x) else pm_next (meta ! y))"
    using Cons.prems(4) d(5) \<open>y \<notin> set ys\<close> last_in_set [of ys] by force+
  with IH d Cons.prems(3) show ?case
    by simp
qed

section \<open>All free lists of a section\<close>

definition freelists_ok :: "page_meta list \<Rightarrow> nat list \<Rightarrow> (nat \<Rightarrow> nat list) \<Rightarrow> bool" where
  "freelists_ok meta fls fl \<longleftrightarrow> length fls = MAX_ORDER + 1 \<and>
     (\<forall>k\<le>MAX_ORDER. dll meta PFN_NONE (fls ! k) (fl k) \<and> distinct (fl k)) \<and>
     (\<forall>k\<le>MAX_ORDER. \<forall>j\<le>MAX_ORDER. k \<noteq> j \<longrightarrow> set (fl k) \<inter> set (fl j) = {})"

lemma freelists_ok_dll:
  assumes "freelists_ok meta fls fl" "k \<le> MAX_ORDER"
  shows "dll meta PFN_NONE (fls ! k) (fl k)" "distinct (fl k)" "k < length fls"
  using assms by (auto simp: freelists_ok_def)

lemma freelists_ok_frame:
  assumes "freelists_ok meta fls fl" "same_links meta meta' (\<Union>k\<in>{..MAX_ORDER}. set (fl k))"
  shows "freelists_ok meta' fls fl"
proof -
  have "dll meta' PFN_NONE (fls ! k) (fl k)" if "k \<le> MAX_ORDER" for k
  proof (rule dll_frame [OF freelists_ok_dll(1) [OF assms(1) that]])
    show "same_links meta meta' (set (fl k))"
      using assms(2) that unfolding same_links_def by blast
  qed
  with assms(1) show ?thesis
    by (simp add: freelists_ok_def)
qed

text \<open>Changing one list: its new content and the frame for the others.\<close>

lemma freelists_ok_update:
  assumes ok: "freelists_ok meta fls fl" and k: "k \<le> MAX_ORDER"
    and new: "dll meta' PFN_NONE h xs" "distinct xs"
    and frame: "\<And>j. j \<le> MAX_ORDER \<Longrightarrow> j \<noteq> k \<Longrightarrow>
      same_links meta meta' (set (fl j)) \<and> set xs \<inter> set (fl j) = {}"
  shows "freelists_ok meta' (fls[k := h]) (fl(k := xs))"
proof -
  have "dll meta' PFN_NONE (fls[k := h] ! j) ((fl(k := xs)) j) \<and> distinct ((fl(k := xs)) j)"
    if "j \<le> MAX_ORDER" for j
  proof (cases "j = k")
    case True
    with new freelists_ok_dll(3) [OF ok k] show ?thesis
      by simp
  next
    case False
    with frame [OF that False] dll_frame [OF freelists_ok_dll(1) [OF ok that]]
      freelists_ok_dll(2) [OF ok that] show ?thesis
      by simp
  qed
  moreover have "set ((fl(k := xs)) i) \<inter> set ((fl(k := xs)) j) = {}"
    if "i \<le> MAX_ORDER" "j \<le> MAX_ORDER" "i \<noteq> j" for i j
  proof -
    have "set (fl i) \<inter> set (fl j) = {}"
      using ok that by (simp add: freelists_ok_def)
    with frame [of i] frame [of j] that show ?thesis
      by auto
  qed
  moreover have "length fls = MAX_ORDER + 1"
    using ok by (simp add: freelists_ok_def)
  ultimately show ?thesis
    by (simp add: freelists_ok_def)
qed

lemma push_ok:
  assumes ok: "freelists_ok meta fls fl" and k: "k \<le> MAX_ORDER"
    and pfn: "pfn < length meta" "pfn \<noteq> PFN_NONE" and fresh: "\<forall>j\<le>MAX_ORDER. pfn \<notin> set (fl j)"
  shows "\<exists>meta' fls'. free_list_push meta fls pfn k = Some (meta', fls') \<and>
    freelists_ok meta' fls' (fl(k := pfn # fl k)) \<and> same_info meta meta'"
proof -
  note l = freelists_ok_dll [OF ok k]
  define m1 where "m1 = meta[pfn := (meta ! pfn)\<lparr>pm_prev := PFN_NONE, pm_next := fls ! k\<rparr>]"
  define m2 where "m2 = (if fls ! k \<noteq> PFN_NONE then m1[fls ! k := (m1 ! (fls ! k))\<lparr>pm_prev := pfn\<rparr>] else m1)"
  have len: "length m1 = length meta" "length m2 = length meta"
    by (auto simp: m1_def m2_def)
  have h: "fls ! k \<noteq> PFN_NONE \<Longrightarrow> fls ! k \<in> set (fl k) \<and> fls ! k < length meta"
    using l(1) dll_head [OF l(1)] dll_bound [OF l(1)] by (cases "fl k") auto
  have run: "free_list_push meta fls pfn k = Some (m2, fls[k := pfn])"
    using l(3) pfn h len by (auto simp: free_list_push_def head_get_def head_set_def meta_upd_def m2_def m1_def)
  have m2_pfn: "m2 ! pfn = (meta ! pfn)\<lparr>pm_prev := PFN_NONE, pm_next := fls ! k\<rparr>"
    using pfn h fresh k by (auto simp: m2_def m1_def nth_list_update)
  have m2_head: "fls ! k \<noteq> PFN_NONE \<Longrightarrow> m2 ! (fls ! k) = (meta ! (fls ! k))\<lparr>pm_prev := pfn\<rparr>"
    using pfn h fresh k by (auto simp: m2_def m1_def nth_list_update)
  have m2_other: "m2 ! x = meta ! x" if "x \<noteq> pfn" "x \<noteq> fls ! k" for x
    using that by (simp add: m2_def m1_def)
  have "dll m2 PFN_NONE pfn (pfn # fl k)"
  proof (cases "fl k")
    case Nil
    with l(1) pfn len m2_pfn show ?thesis
      by simp
  next
    case (Cons y ys)
    then have y: "fls ! k = y" "y \<noteq> PFN_NONE" "y < length meta" "dll meta y (pm_next (meta ! y)) ys"
      using l(1) by simp_all
    have "x \<noteq> pfn \<and> x \<noteq> fls ! k" if "x \<in> set ys" for x
      using that l(2) Cons y(1) fresh k by auto
    then have "same_links meta m2 (set ys)"
      using m2_other by (simp add: same_links_def len)
    from dll_frame [OF y(4) this] m2_head y m2_pfn Cons pfn len show ?thesis
      by simp
  qed
  moreover have "same_links meta m2 (set (fl j)) \<and> set (pfn # fl k) \<inter> set (fl j) = {}"
    if j: "j \<le> MAX_ORDER" "j \<noteq> k" for j
  proof -
    have disj: "set (fl k) \<inter> set (fl j) = {}"
      using ok k j by (simp add: freelists_ok_def)
    have "x \<noteq> pfn \<and> x \<noteq> fls ! k" if "x \<in> set (fl j)" for x
      using that disj fresh j(1) h dll_bound [OF freelists_ok_dll(1) [OF ok j(1)] that] by blast
    then have "same_links meta m2 (set (fl j))"
      using m2_other by (simp add: same_links_def len)
    with disj fresh j(1) show ?thesis
      by simp
  qed
  moreover have "same_info meta m2"
  proof -
    have "same_info meta m1"
      unfolding m1_def using pfn by (intro same_info_upd) auto
    moreover have "same_info m1 m2"
      using h len by (auto simp: m2_def intro!: same_info_upd)
    ultimately show ?thesis
      by (rule same_info_trans)
  qed
  ultimately show ?thesis
    using run freelists_ok_update [OF ok k, of m2 pfn "pfn # fl k"] l(2) fresh k by auto
qed

lemma remove_ok:
  assumes ok: "freelists_ok meta fls fl" and k: "k \<le> MAX_ORDER" and x: "x \<in> set (fl k)"
  shows "\<exists>meta' fls'. free_list_remove meta fls x k = Some (meta', fls') \<and>
    freelists_ok meta' fls' (fl(k := remove1 x (fl k))) \<and> same_info meta meta'"
proof -
  note l = freelists_ok_dll [OF ok k]
  from x obtain ys zs where split: "fl k = ys @ x # zs"
    by (meson split_list)
  have dist: "distinct (ys @ x # zs)" and d: "dll meta PFN_NONE (fls ! k) (ys @ x # zs)"
    using l split by simp_all
  have bound: "y < length meta \<and> y \<noteq> PFN_NONE" if "y \<in> set (ys @ x # zs)" for y
    using dll_bound [OF d that] .
  note links = dll_links [OF d]
  let ?p = "pm_prev (meta ! x)" and ?n = "pm_next (meta ! x)"
  have p: "?p \<noteq> PFN_NONE \<longleftrightarrow> ys \<noteq> []" "ys \<noteq> [] \<Longrightarrow> ?p = last ys \<and> last ys \<in> set ys"
    using links(1) bound by auto
  have n: "?n \<noteq> PFN_NONE \<longleftrightarrow> zs \<noteq> []" "zs \<noteq> [] \<Longrightarrow> ?n = hd zs \<and> hd zs \<in> set zs"
    using links(2) bound by (auto split: list.splits)
  define m1 where "m1 = (if ys \<noteq> [] then meta[?p := (meta ! ?p)\<lparr>pm_next := ?n\<rparr>] else meta)"
  define m2 where "m2 = (if zs \<noteq> [] then m1[?n := (m1 ! ?n)\<lparr>pm_prev := ?p\<rparr>] else m1)"
  define m3 where "m3 = m2[x := (m2 ! x)\<lparr>pm_prev := PFN_NONE, pm_next := PFN_NONE\<rparr>]"
  define fls' where "fls' = (if ys \<noteq> [] then fls else fls[k := ?n])"
  have len: "length m1 = length meta" "length m2 = length meta" "length m3 = length meta"
    by (auto simp: m1_def m2_def m3_def)
  have run: "free_list_remove meta fls x k = Some (m3, fls')"
    using p n bound l(3) len
    by (auto simp: Let_def free_list_remove_def meta_get_def meta_upd_def head_set_def m1_def m2_def m3_def
        fls'_def)
  have nth1: "m1 ! i = (if ys \<noteq> [] \<and> i = last ys then (meta ! i)\<lparr>pm_next := ?n\<rparr> else meta ! i)"
    if "i < length meta" for i
    using that p by (auto simp: m1_def nth_list_update)
  have nth2: "m2 ! i = (if zs \<noteq> [] \<and> i = hd zs then (m1 ! i)\<lparr>pm_prev := ?p\<rparr> else m1 ! i)"
    if "i < length meta" for i
    using that n len by (auto simp: m2_def nth_list_update)
  have nth3: "m3 ! i = (if i = x then (m2 ! i)\<lparr>pm_prev := PFN_NONE, pm_next := PFN_NONE\<rparr> else m2 ! i)"
    if "i < length meta" for i
    using that len by (auto simp: m3_def nth_list_update)
  have hdlast: "zs \<noteq> [] \<Longrightarrow> hd zs \<notin> set ys" "ys \<noteq> [] \<Longrightarrow> last ys \<notin> set zs"
  proof -
    have disj: "set ys \<inter> set zs = {}"
      using dist by auto
    show "zs \<noteq> [] \<Longrightarrow> hd zs \<notin> set ys" "ys \<noteq> [] \<Longrightarrow> last ys \<notin> set zs"
      using disj hd_in_set [of zs] last_in_set [of ys] by blast+
  qed
  have ys: "\<forall>y\<in>set ys. pm_prev (m3 ! y) = pm_prev (meta ! y) \<and>
      pm_next (m3 ! y) = (if y = last ys then ?n else pm_next (meta ! y))"
  proof
    fix y
    assume y: "y \<in> set ys"
    then have "y < length meta" "y \<noteq> x" "\<not> (zs \<noteq> [] \<and> y = hd zs)" "ys \<noteq> []"
      using dist bound hdlast(1) by auto
    then show "pm_prev (m3 ! y) = pm_prev (meta ! y) \<and>
        pm_next (m3 ! y) = (if y = last ys then ?n else pm_next (meta ! y))"
      by (auto simp: nth3 nth2 nth1)
  qed
  have zs: "\<forall>z\<in>set zs. pm_next (m3 ! z) = pm_next (meta ! z) \<and>
      pm_prev (m3 ! z) = (if z = hd zs then ?p else pm_prev (meta ! z))"
  proof
    fix z
    assume z: "z \<in> set zs"
    then have "z < length meta" "z \<noteq> x" "\<not> (ys \<noteq> [] \<and> z = last ys)" "zs \<noteq> []"
      using dist bound hdlast(2) by auto
    then show "pm_next (m3 ! z) = pm_next (meta ! z) \<and>
        pm_prev (m3 ! z) = (if z = hd zs then ?p else pm_prev (meta ! z))"
      by (auto simp: nth3 nth2 nth1)
  qed
  have "dll m3 PFN_NONE (if ys = [] then ?n else fls ! k) (ys @ zs)"
    by (rule dll_splice [OF d dist len(3) ys zs])
  moreover have "same_links meta m3 (set (fl j)) \<and> set (ys @ zs) \<inter> set (fl j) = {}"
    if j: "j \<le> MAX_ORDER" "j \<noteq> k" for j
  proof -
    have disj: "set (ys @ x # zs) \<inter> set (fl j) = {}"
      using ok k j unfolding split [symmetric] by (simp add: freelists_ok_def)
    have "m3 ! i = meta ! i" if i: "i \<in> set (fl j)" for i
    proof -
      have "i \<notin> set (ys @ x # zs)" "i < length meta"
        using disj i dll_bound [OF freelists_ok_dll(1) [OF ok j(1)] i] by blast+
      then have "i < length meta" "i \<noteq> x" "\<not> (ys \<noteq> [] \<and> i = last ys)" "\<not> (zs \<noteq> [] \<and> i = hd zs)"
        using p(2) n(2) by auto
      then show ?thesis
        by (auto simp: nth3 nth2 nth1)
    qed
    with disj show ?thesis
      by (auto simp: same_links_def len)
  qed
  moreover have "fls' = fls[k := (if ys = [] then ?n else fls ! k)]"
    by (auto simp: fls'_def)
  moreover have "remove1 x (fl k) = ys @ zs"
    using dist split by (simp add: remove1_append)
  moreover have "same_info meta m3"
  proof -
    have "same_info meta m1"
      using p bound by (auto simp: m1_def intro!: same_info_upd)
    moreover have "same_info m1 m2"
      using n bound len by (auto simp: m2_def intro!: same_info_upd)
    moreover have "same_info m2 m3"
      unfolding m3_def using bound len by (intro same_info_upd) auto
    ultimately show ?thesis
      using same_info_trans by blast
  qed
  ultimately show ?thesis
    using run freelists_ok_update [OF ok k, of m3 "if ys = [] then ?n else fls ! k" "ys @ zs"] dist
    by auto
qed


lemma pop_is_remove:
  assumes "head_get fls k = Some x" "x \<noteq> PFN_NONE" "x < length meta" "pm_prev (meta ! x) = PFN_NONE"
    "pm_next (meta ! x) \<noteq> x" "pm_next (meta ! x) \<noteq> PFN_NONE \<longrightarrow> pm_next (meta ! x) < length meta"
  shows "free_list_pop meta fls k = map_option (\<lambda>(m, f). (x, m, f)) (free_list_remove meta fls x k)"
  using assms
  by (auto simp: free_list_pop_def free_list_remove_def meta_get_def meta_upd_def head_get_def head_set_def
      Let_def list_update_swap split: if_splits)

lemma pop_ok:
  assumes ok: "freelists_ok meta fls fl" and k: "k \<le> MAX_ORDER"
  shows "case fl k of
      [] \<Rightarrow> free_list_pop meta fls k = Some (PFN_NONE, meta, fls)
    | x # xs \<Rightarrow> (\<exists>meta' fls'. free_list_pop meta fls k = Some (x, meta', fls') \<and>
        freelists_ok meta' fls' (fl(k := xs)) \<and> same_info meta meta')"
proof -
  note l = freelists_ok_dll [OF ok k]
  show ?thesis
  proof (cases "fl k")
    case Nil
    with l show ?thesis
      by (simp add: free_list_pop_def head_get_def)
  next
    case (Cons x xs)
    have x: "fls ! k = x" "x < length meta" "x \<noteq> PFN_NONE" "pm_prev (meta ! x) = PFN_NONE"
      "dll meta x (pm_next (meta ! x)) xs" "x \<notin> set xs"
      using l Cons by simp_all
    have "pm_next (meta ! x) = (case xs of [] \<Rightarrow> PFN_NONE | y # _ \<Rightarrow> y)"
      by (rule dll_head [OF x(5)])
    then have "pm_next (meta ! x) = PFN_NONE \<or> pm_next (meta ! x) \<in> set xs"
      by (cases xs) auto
    then have "pm_next (meta ! x) \<noteq> x" "pm_next (meta ! x) \<noteq> PFN_NONE \<longrightarrow> pm_next (meta ! x) < length meta"
      using x(3,6) dll_bound [OF x(5)] by auto
    from pop_is_remove [OF _ x(3,2,4) this, of fls k] remove_ok [OF ok k, of x] l(3) Cons x(1) show ?thesis
      by (auto simp: head_get_def)
  qed
qed

section \<open>Walking a free list\<close>

fun scan_list :: "(nat \<Rightarrow> nat option) \<Rightarrow> nat list \<Rightarrow> (nat \<times> nat) option" where
  "scan_list sel [] = None"
| "scan_list sel (x # xs) = (case sel x of Some t \<Rightarrow> Some (x, t) | None \<Rightarrow> scan_list sel xs)"

lemma scan_free_list: "dll meta p h xs \<Longrightarrow> scan_free meta sel h = Some (scan_list sel xs)"
proof (induction xs arbitrary: p h)
  case Nil
  then show ?case
    by (simp add: scan_free.simps)
next
  case (Cons x xs)
  then show ?case
    by (subst scan_free.simps) (auto simp: meta_get_def split: option.split)
qed

lemma scan_list_None: "scan_list sel xs = None \<longleftrightarrow> (\<forall>x\<in>set xs. sel x = None)"
  by (induction xs) (auto split: option.split)

lemma scan_list_Some: "scan_list sel xs = Some (x, t) \<Longrightarrow> x \<in> set xs \<and> sel x = Some t"
  by (induction xs) (auto split: option.splits)

section \<open>Properties\<close>

text \<open>C33: the intrusive free lists behave as lists: pushing a page that is in no list puts it in front,
  popping returns the page pushed last, removing takes out exactly the given page, wherever it is in the
  list; the other lists and all \<open>flags\<close> and \<open>order\<close> fields stay as they are, and no access leaves the
  metadata array.\<close>

theorem free_list_ops_correct:
  assumes "freelists_ok meta fls fl" "k \<le> MAX_ORDER"
  shows "(pfn < length meta \<and> pfn \<noteq> PFN_NONE \<and> (\<forall>j\<le>MAX_ORDER. pfn \<notin> set (fl j)) \<longrightarrow>
      (\<exists>meta' fls'. free_list_push meta fls pfn k = Some (meta', fls') \<and>
        freelists_ok meta' fls' (fl(k := pfn # fl k)) \<and> same_info meta meta'))
    \<and> (x \<in> set (fl k) \<longrightarrow>
      (\<exists>meta' fls'. free_list_remove meta fls x k = Some (meta', fls') \<and>
        freelists_ok meta' fls' (fl(k := remove1 x (fl k))) \<and> same_info meta meta'))
    \<and> (case fl k of
        [] \<Rightarrow> free_list_pop meta fls k = Some (PFN_NONE, meta, fls)
      | y # ys \<Rightarrow> (\<exists>meta' fls'. free_list_pop meta fls k = Some (y, meta', fls') \<and>
          freelists_ok meta' fls' (fl(k := ys)) \<and> same_info meta meta'))"
  using push_ok [OF assms] remove_ok [OF assms] pop_ok [OF assms] by blast

theorem free_list_ops_correct_witness:
  "\<exists>meta' fls'. free_list_push (replicate 4 page_meta_new) (replicate 21 PFN_NONE) 2 1 = Some (meta', fls') \<and>
    freelists_ok meta' fls' ((\<lambda>_. [])(1 := [2]))"
proof -
  have h: "freelists_ok (replicate 4 page_meta_new) (replicate 21 PFN_NONE) (\<lambda>_. [])"
    by (simp add: freelists_ok_def MAX_ORDER_def)
  have "1 \<le> MAX_ORDER"
    by (simp add: MAX_ORDER_def)
  from free_list_ops_correct [OF h this, of 2 0] show ?thesis
    by (auto simp: PFN_NONE_def)
qed

end
