(* ===== verification/BuddyBlocks.thy ===== *)
theory BuddyBlocks
  imports BuddyLists
begin

text \<open>
  Blocks of pages: a block is a page frame number with an order, aligned to its size. The blocks of a
  section tile its pages; splitting a block in halves and merging it with its buddy keep the tiling.
\<close>

type_synonym block = "nat \<times> nat"

definition pages :: "block \<Rightarrow> nat set" where
  "pages b = {fst b..<fst b + 2 ^ snd b}"

definition pages_of :: "block set \<Rightarrow> nat set" where
  "pages_of B = (\<Union>b\<in>B. pages b)"

definition aligned_block :: "nat \<Rightarrow> block \<Rightarrow> bool" where
  "aligned_block n b \<longleftrightarrow> snd b \<le> MAX_ORDER \<and> 2 ^ snd b dvd fst b \<and> fst b + 2 ^ snd b \<le> n"

definition tiling :: "nat \<Rightarrow> block set \<Rightarrow> bool" where
  "tiling n B \<longleftrightarrow> (\<forall>b\<in>B. aligned_block n b) \<and>
     (\<forall>b\<in>B. \<forall>b'\<in>B. b \<noteq> b' \<longrightarrow> pages b \<inter> pages b' = {}) \<and> pages_of B = {..<n}"

definition buddy_of :: "block \<Rightarrow> nat" where
  "buddy_of b = fst b XOR 2 ^ snd b"

lemma pages_head [simp, intro]: "p \<in> pages (p, k)"
  by (simp add: pages_def)

lemma finite_pages [simp]: "finite (pages b)"
  by (simp add: pages_def)

lemma card_pages [simp]: "card (pages b) = 2 ^ snd b"
  by (simp add: pages_def)

lemma pages_of_insert [simp]: "pages_of (insert b B) = pages b \<union> pages_of B"
  by (simp add: pages_of_def)

lemma pages_of_empty [simp]: "pages_of {} = {}"
  by (simp add: pages_of_def)

lemma pages_of_Un: "pages_of (A \<union> B) = pages_of A \<union> pages_of B"
  by (simp add: pages_of_def)

lemma pages_split: "pages (p, Suc c) = pages (p, c) \<union> pages (p + 2 ^ c, c)"
  by (auto simp: pages_def)

lemma pages_halves_disjoint: "pages (p, c) \<inter> pages (p + 2 ^ c, c) = {}"
  by (auto simp: pages_def)

lemma buddy_of_eq:
  assumes "2 ^ k dvd p"
  shows "buddy_of (p, k) = (if 2 ^ Suc k dvd p then p + 2 ^ k else p - 2 ^ k)"
proof -
  obtain m where m: "p = 2 ^ k * m"
    using assms by (elim dvdE)
  have "buddy_of (p, k) = push_bit k m XOR push_bit k 1"
    by (simp add: buddy_of_def m push_bit_eq_mult mult.commute)
  also have "\<dots> = push_bit k (m XOR 1)"
    by (simp only: push_bit_xor)
  also have "\<dots> = 2 ^ k * (m + of_bool (even m) - of_bool (odd m))"
    by (simp only: xor_one_eq push_bit_eq_mult mult.commute)
  also have "\<dots> = (if even m then p + 2 ^ k else p - 2 ^ k)"
    by (simp add: m algebra_simps diff_mult_distrib2)
  also have "even m \<longleftrightarrow> 2 ^ Suc k dvd p"
    by (simp add: m)
  finally show ?thesis .
qed

text \<open>The two cases of a block with its buddy: it is the lower half or the upper half of the block of
  the next order.\<close>

lemma buddy_cases:
  assumes "2 ^ k dvd p"
  obtains (lower) "buddy_of (p, k) = p + 2 ^ k" "min p (buddy_of (p, k)) = p" "2 ^ Suc k dvd p"
  | (upper) q where "p = q + 2 ^ k" "buddy_of (p, k) = q" "min p (buddy_of (p, k)) = q" "2 ^ Suc k dvd q"
proof (cases "2 ^ Suc k dvd p")
  case True
  with buddy_of_eq [OF assms] lower show ?thesis
    by simp
next
  case False
  obtain m where m: "p = 2 ^ k * m"
    using assms by (elim dvdE)
  with False have "odd m"
    by auto
  then obtain j where "m = 2 * j + 1"
    by (elim oddE)
  with m have "p = 2 ^ Suc k * j + 2 ^ k"
    by (simp add: algebra_simps)
  with False buddy_of_eq [OF assms] show ?thesis
    by (intro upper [of "2 ^ Suc k * j"]) auto
qed

lemma buddy_aligned: "2 ^ k dvd p \<Longrightarrow> 2 ^ k dvd buddy_of (p, k)"
proof -
  assume "2 ^ k dvd p"
  then show ?thesis
    by (cases rule: buddy_cases) (auto intro: dvd_add dvd_trans [of "2 ^ k" "2 ^ Suc k"])
qed

lemma buddy_neq: "2 ^ k dvd p \<Longrightarrow> buddy_of (p, k) \<noteq> p"
  by (erule buddy_cases) auto

lemma buddy_buddy: "buddy_of (buddy_of (p, k), k) = p"
  by (simp add: buddy_of_def xor.assoc)

lemma pages_merge:
  "2 ^ k dvd p \<Longrightarrow> pages (min p (buddy_of (p, k)), Suc k) = pages (p, k) \<union> pages (buddy_of (p, k), k)"
  by (erule buddy_cases) (auto simp: pages_split)

section \<open>Tilings\<close>

lemma tilingD:
  assumes "tiling n B"
  shows "b \<in> B \<Longrightarrow> aligned_block n b" "b \<in> B \<Longrightarrow> b' \<in> B \<Longrightarrow> b \<noteq> b' \<Longrightarrow> pages b \<inter> pages b' = {}"
    "pages_of B = {..<n}"
  using assms unfolding tiling_def by blast+

lemma tiling_head_unique:
  assumes "tiling n B" "(p, k) \<in> B" "(q, j) \<in> B" "q \<in> pages (p, k)"
  shows "q = p \<and> j = k"
  using tilingD(2) [OF assms(1-3)] assms(4) by auto

lemma tiling_head_lt: "tiling n B \<Longrightarrow> (p, k) \<in> B \<Longrightarrow> p < n"
  using tilingD(1) [of n B "(p, k)"] zero_less_power [of "2::nat" k]
  unfolding aligned_block_def fst_conv snd_conv by linarith

text \<open>Replacing one block by others with the same pages.\<close>

lemma tiling_replace:
  assumes t: "tiling n (B \<union> C)" and al: "\<And>b. b \<in> D \<Longrightarrow> aligned_block n b"
    and dj: "\<And>b b'. b \<in> D \<Longrightarrow> b' \<in> D \<Longrightarrow> b \<noteq> b' \<Longrightarrow> pages b \<inter> pages b' = {}"
    and pg: "pages_of D = pages_of C" and BC: "B \<inter> C = {}"
  shows "tiling n (B \<union> D)"
proof -
  have BD: "pages b \<inter> pages b' = {}" if "b \<in> B" "b' \<in> D" for b b'
  proof -
    have "pages b \<inter> pages c = {}" if "c \<in> C" for c
      using tilingD(2) [OF t, of b c] \<open>b \<in> B\<close> that BC by blast
    moreover have "pages b' \<subseteq> pages_of C"
      using that pg unfolding pages_of_def by blast
    ultimately show ?thesis
      unfolding pages_of_def by blast
  qed
  show ?thesis
    unfolding tiling_def
  proof (intro conjI ballI impI)
    fix b assume "b \<in> B \<union> D" then show "aligned_block n b"
      using al tilingD(1) [OF t, of b] by blast
  next
    fix b b' assume "b \<in> B \<union> D" "b' \<in> B \<union> D" "b \<noteq> b'" then show "pages b \<inter> pages b' = {}"
      using BD [of b b'] BD [of b' b] dj [of b b'] tilingD(2) [OF t, of b b'] by blast
  qed (use tilingD(3) [OF t] pg in \<open>simp add: pages_of_Un\<close>)
qed

lemma tiling_split:
  assumes t: "tiling n (B \<union> {(p, Suc c)})" and B: "(p, Suc c) \<notin> B"
  shows "tiling n (B \<union> {(p, c), (p + 2 ^ c, c)})"
proof (rule tiling_replace [OF t])
  have "aligned_block n (p, Suc c)"
    using tilingD(1) [OF t] by blast
  then show "aligned_block n b" if "b \<in> {(p, c), (p + 2 ^ c, c)}" for b
    using that unfolding aligned_block_def
    by (auto intro: dvd_trans [of "2 ^ c" "2 ^ Suc c"])
  show "pages b \<inter> pages b' = {}"
    if "b \<in> {(p, c), (p + 2 ^ c, c)}" "b' \<in> {(p, c), (p + 2 ^ c, c)}" "b \<noteq> b'" for b b'
    using that pages_halves_disjoint [of p c] by blast
qed (use B in \<open>simp_all add: pages_split\<close>)

lemma tiling_merge:
  assumes t: "tiling n (B \<union> {(p, c), (buddy_of (p, c), c)})" and c: "c < MAX_ORDER"
    and B: "(p, c) \<notin> B" "(buddy_of (p, c), c) \<notin> B"
  shows "tiling n (B \<union> {(min p (buddy_of (p, c)), Suc c)})"
proof (rule tiling_replace [OF t])
  have a: "aligned_block n (p, c)" "aligned_block n (buddy_of (p, c), c)"
    using tilingD(1) [OF t] by blast+
  then have p: "2 ^ c dvd p"
    by (simp add: aligned_block_def)
  show "aligned_block n b" if "b \<in> {(min p (buddy_of (p, c)), Suc c)}" for b
    using p
  proof (cases rule: buddy_cases)
    case lower
    then show ?thesis
      using that a c by (simp add: aligned_block_def)
  next
    case (upper q)
    then show ?thesis
      using that a c by (simp add: aligned_block_def)
  qed
  show "pages_of {(min p (buddy_of (p, c)), Suc c)} = pages_of {(p, c), (buddy_of (p, c), c)}"
    using pages_merge [OF p] by simp
qed (use B in auto)

text \<open>The buddy of a block of a tiling, when it is a page of the section, is the head of a block that is
  no larger: two aligned blocks are nested or disjoint.\<close>

lemma aligned_nested:
  assumes "2 ^ k dvd p" "2 ^ j dvd q" "k \<le> j" "pages (p, k) \<inter> pages (q, j) \<noteq> {}"
  shows "pages (p, k) \<subseteq> pages (q, j)"
proof -
  obtain x where "x \<in> pages (p, k)" "x \<in> pages (q, j)"
    using assms(4) by blast
  then have x: "p \<le> x" "x < p + 2 ^ k" "q \<le> x" "x < q + 2 ^ j"
    by (simp_all add: pages_def)
  have kq: "2 ^ k dvd q" "(2::nat) ^ k dvd 2 ^ j"
    using assms(2,3) by (auto intro: dvd_trans le_imp_power_dvd)
  then have "2 ^ k dvd q + 2 ^ j"
    by (intro dvd_add)
  have "q \<le> p"
    using dvd_less_gap [OF assms(1) kq(1)] x by linarith
  moreover have "p + 2 ^ k \<le> q + 2 ^ j"
    using dvd_less_gap [OF assms(1) \<open>2 ^ k dvd q + 2 ^ j\<close>] x by linarith
  ultimately show ?thesis
    by (auto simp: pages_def)
qed

lemma tiling_buddy_head:
  assumes t: "tiling n B" and b: "(p, k) \<in> B" and n: "buddy_of (p, k) < n"
  shows "\<exists>j\<le>k. (buddy_of (p, k), j) \<in> B"
proof -
  have a: "aligned_block n (p, k)"
    by (rule tilingD(1) [OF t b])
  then have p: "2 ^ k dvd p" "buddy_of (p, k) \<noteq> p"
    using buddy_neq by (auto simp: aligned_block_def)
  have "buddy_of (p, k) \<in> pages_of B"
    using n tilingD(3) [OF t] by blast
  then obtain q j where q: "(q, j) \<in> B" "buddy_of (p, k) \<in> pages (q, j)"
    by (auto simp: pages_of_def)
  have ne: "(q, j) \<noteq> (p, k)"
  proof
    assume "(q, j) = (p, k)"
    with q(2) have "buddy_of (p, k) \<in> pages (p, k)"
      by simp
    with p(1) show False
      by (cases rule: buddy_cases) (auto simp: pages_def)
  qed
  have aq: "aligned_block n (q, j)"
    by (rule tilingD(1) [OF t q(1)])
  then have q2: "2 ^ j dvd q"
    by (simp add: aligned_block_def)
  have "j \<le> k"
  proof (rule ccontr)
    assume "\<not> j \<le> k"
    then have "2 ^ Suc k dvd (2::nat) ^ j"
      by (intro le_imp_power_dvd) simp
    have sk: "2 ^ Suc k dvd min p (buddy_of (p, k))"
      using p(1) by (cases rule: buddy_cases) auto
    have "pages (min p (buddy_of (p, k)), Suc k) \<inter> pages (q, j) \<noteq> {}"
      using q(2) pages_merge [OF p(1)] by auto
    then have "pages (min p (buddy_of (p, k)), Suc k) \<subseteq> pages (q, j)"
      using aligned_nested [OF sk q2] \<open>\<not> j \<le> k\<close> by simp
    then have "p \<in> pages (q, j)"
      using pages_merge [OF p(1)] by auto
    then show False
      using tiling_head_unique [OF t q(1) b] ne by auto
  qed
  have "pages (q, j) \<subseteq> pages (buddy_of (p, k), k)"
    using aligned_nested [OF q2 buddy_aligned [OF p(1)] \<open>j \<le> k\<close>] q(2) by auto
  then have "q = buddy_of (p, k)"
    using q(2) by (auto simp: pages_def)
  with q(1) \<open>j \<le> k\<close> show ?thesis
    by blast
qed

end
