(* ===== verification/BuddyInv.thy ===== *)
theory BuddyInv
  imports BuddyBlocks
begin

text \<open>
  The invariant of a buddy section and its elementary steps. A section stands for a set of free blocks
  (the contents of its free lists) and a set of allocated blocks which together tile its pages; during an
  operation some blocks are in transit, in neither set. Marking a page, pushing a block on a free list and
  removing it move one block between the sets.
\<close>

definition frees :: "(nat \<Rightarrow> nat list) \<Rightarrow> block set" where
  "frees fl = {(p, k). k \<le> MAX_ORDER \<and> p \<in> set (fl k)}"

definition heads_marked :: "page_meta list \<Rightarrow> block set \<Rightarrow> block set \<Rightarrow> bool" where
  "heads_marked meta F A \<longleftrightarrow>
     (\<forall>p k. (p, k) \<in> F \<longrightarrow> pm_flags (meta ! p) = Free \<and> pm_order (meta ! p) = k) \<and>
     (\<forall>p k. (p, k) \<in> A \<longrightarrow> pm_flags (meta ! p) \<noteq> Free \<and> pm_order (meta ! p) = k)"

text \<open>\<open>sec_core sec fl A T\<close>: free blocks \<open>frees fl\<close>, allocated blocks \<open>A\<close>, blocks in transit \<open>T\<close>.\<close>

definition sec_core :: "buddy_section \<Rightarrow> (nat \<Rightarrow> nat list) \<Rightarrow> block set \<Rightarrow> block set \<Rightarrow> bool" where
  "sec_core sec fl A T \<longleftrightarrow>
     length (bs_meta sec) = bs_total_pages sec \<and> bs_max_pages sec = bs_total_pages sec \<and>
     bs_total_pages sec \<le> PFN_NONE \<and>
     freelists_ok (bs_meta sec) (bs_free_lists sec) fl \<and>
     tiling (bs_total_pages sec) (frees fl \<union> A \<union> T) \<and>
     frees fl \<inter> A = {} \<and> frees fl \<inter> T = {} \<and> A \<inter> T = {} \<and>
     heads_marked (bs_meta sec) (frees fl) A"

text \<open>Only the metadata and the list heads differ.\<close>

definition same_frame :: "buddy_section \<Rightarrow> buddy_section \<Rightarrow> bool" where
  "same_frame sec sec' \<longleftrightarrow>
     sec'\<lparr>bs_meta := bs_meta sec, bs_free_lists := bs_free_lists sec\<rparr> = sec"

lemma same_frame_refl [simp]: "same_frame sec sec"
  by (simp add: same_frame_def)

lemma same_frame_fields:
  assumes "same_frame sec sec'"
  shows "bs_region_start sec' = bs_region_start sec" "bs_region_size sec' = bs_region_size sec"
    "bs_max_pages sec' = bs_max_pages sec" "bs_heap_start sec' = bs_heap_start sec"
    "bs_heap_size sec' = bs_heap_size sec" "bs_free_pages sec' = bs_free_pages sec"
    "bs_total_pages sec' = bs_total_pages sec"
  using assms by (cases sec; cases sec'; simp add: same_frame_def)+

lemma same_frame_trans: "same_frame a b \<Longrightarrow> same_frame b c \<Longrightarrow> same_frame a c"
  by (cases a; cases b; cases c) (simp add: same_frame_def)

lemma frees_push: "k \<le> MAX_ORDER \<Longrightarrow> frees (fl(k := p # fl k)) = insert (p, k) (frees fl)"
  by (auto simp: frees_def)

lemma frees_remove:
  "k \<le> MAX_ORDER \<Longrightarrow> distinct (fl k) \<Longrightarrow> frees (fl(k := remove1 p (fl k))) = frees fl - {(p, k)}"
  by (auto simp: frees_def)

lemma sec_coreD:
  assumes "sec_core sec fl A T"
  shows "length (bs_meta sec) = bs_total_pages sec" "bs_max_pages sec = bs_total_pages sec"
    "bs_total_pages sec \<le> PFN_NONE" "freelists_ok (bs_meta sec) (bs_free_lists sec) fl"
    "tiling (bs_total_pages sec) (frees fl \<union> A \<union> T)"
    "frees fl \<inter> A = {}" "frees fl \<inter> T = {}" "A \<inter> T = {}" "heads_marked (bs_meta sec) (frees fl) A"
  using assms unfolding sec_core_def by simp_all

lemma sec_core_block:
  assumes "sec_core sec fl A T" "(p, k) \<in> frees fl \<union> A \<union> T"
  shows "k \<le> MAX_ORDER" "2 ^ k dvd p" "p + 2 ^ k \<le> bs_total_pages sec" "p < bs_total_pages sec"
    "p \<noteq> PFN_NONE" "as_u32 p = p" "as_u8 k = k"
proof -
  note c = sec_coreD [OF assms(1)]
  show b: "k \<le> MAX_ORDER" "2 ^ k dvd p" "p + 2 ^ k \<le> bs_total_pages sec"
    using tilingD(1) [OF c(5) assms(2)] by (simp_all add: aligned_block_def)
  show "p < bs_total_pages sec"
    by (rule tiling_head_lt [OF c(5) assms(2)])
  with c(3) show "p \<noteq> PFN_NONE" "as_u32 p = p"
    by (auto simp: PFN_NONE_def as_u32_def)
  show "as_u8 k = k"
    using b(1) by (simp add: as_u8_def MAX_ORDER_def)
qed

lemma heads_marked_info: "same_info meta meta' \<Longrightarrow> heads_marked meta F A \<Longrightarrow> heads_marked meta' F A"
  by (simp add: heads_marked_def same_info_def)

lemma heads_marked_upd:
  assumes "heads_marked meta F A" "\<And>k. (p, k) \<notin> F" "\<And>k. (p, k) \<notin> A"
  shows "heads_marked (meta[p := m]) F A"
proof -
  have "(q, k) \<in> F \<union> A \<Longrightarrow> meta[p := m] ! q = meta ! q" for q k
    using assms(2,3) by (cases "q = p") auto
  with assms(1) show ?thesis
    unfolding heads_marked_def by (metis UnCI)
qed

text \<open>Marking a block in transit leaves the links alone.\<close>

lemma mark_frame:
  assumes c: "sec_core sec fl A T" and b: "(p, k) \<in> T"
  shows "freelists_ok ((bs_meta sec)[p := m]) (bs_free_lists sec) fl"
    and "heads_marked ((bs_meta sec)[p := m]) (frees fl) A"
    and "\<forall>j\<le>MAX_ORDER. p \<notin> set (fl j)"
proof -
  note d = sec_coreD [OF c]
  have un: "(p, j) \<notin> frees fl \<union> A" for j
  proof
    assume "(p, j) \<in> frees fl \<union> A"
    then have "j = k"
      using tiling_head_unique [OF d(5), of p k p j] b by blast
    with \<open>(p, j) \<in> frees fl \<union> A\<close> b d(7,8) show False
      by blast
  qed
  then show out: "\<forall>j\<le>MAX_ORDER. p \<notin> set (fl j)"
    by (auto simp: frees_def)
  have "(bs_meta sec)[p := m] ! x = bs_meta sec ! x" if "j \<le> MAX_ORDER" "x \<in> set (fl j)" for x j
    using out that by (intro nth_list_update_neq) auto
  then have "same_links (bs_meta sec) ((bs_meta sec)[p := m]) (\<Union>k\<in>{..MAX_ORDER}. set (fl k))"
    unfolding same_links_def by fastforce
  then show "freelists_ok ((bs_meta sec)[p := m]) (bs_free_lists sec) fl"
    by (rule freelists_ok_frame [OF d(4)])
  show "heads_marked ((bs_meta sec)[p := m]) (frees fl) A"
    by (rule heads_marked_upd [OF d(9)]) (use un in blast)+
qed

lemma mark_step:
  assumes c: "sec_core sec fl A (insert (p, k) T)" and new: "(p, k) \<notin> T"
  shows "\<exists>sec'. mark_page Allocated p k sec = Some sec' \<and> sec_core sec' fl (insert (p, k) A) T \<and>
    same_frame sec sec'"
proof -
  note d = sec_coreD [OF c]
  note b = sec_core_block [OF c, of p k, simplified]
  let ?m = "(bs_meta sec ! p)\<lparr>pm_flags := Allocated, pm_order := k\<rparr>"
  note mk = mark_frame(1,2) [OF c, of p k ?m, simplified] mark_frame(3) [OF c, of p k, simplified]
  have marked: "heads_marked ((bs_meta sec)[p := ?m]) (frees fl) (insert (p, k) A)"
    using mk(2) b(4) d(1) unfolding heads_marked_def by simp
  have run: "mark_page Allocated p k sec = Some (sec\<lparr>bs_meta := (bs_meta sec)[p := ?m]\<rparr>)"
    using b d(1) by (simp add: mark_page_def meta_upd_def)
  have "sec_core (sec\<lparr>bs_meta := (bs_meta sec)[p := ?m]\<rparr>) fl (insert (p, k) A) T"
    unfolding sec_core_def using d mk(1) marked new by auto
  with run show ?thesis
    by (simp add: same_frame_def)
qed

lemma push_step:
  assumes c: "sec_core sec fl A (insert (p, k) T)" and new: "(p, k) \<notin> T"
  shows "\<exists>sec'. push_free p k sec = Some sec' \<and> sec_core sec' (fl(k := p # fl k)) A T \<and>
    same_frame sec sec'"
proof -
  note d = sec_coreD [OF c]
  note b = sec_core_block [OF c, of p k, simplified]
  let ?m = "(bs_meta sec ! p)\<lparr>pm_flags := Free, pm_order := k\<rparr>"
  note mk = mark_frame(1,2) [OF c, of p k ?m, simplified] mark_frame(3) [OF c, of p k, simplified]
  have run: "mark_page Free p k sec = Some (sec\<lparr>bs_meta := (bs_meta sec)[p := ?m]\<rparr>)"
    using b d(1) by (simp add: mark_page_def meta_upd_def)
  obtain meta' fls' where psh: "free_list_push ((bs_meta sec)[p := ?m]) (bs_free_lists sec) p k = Some (meta', fls')"
    and ok: "freelists_ok meta' fls' (fl(k := p # fl k))" and inf: "same_info ((bs_meta sec)[p := ?m]) meta'"
    using push_ok [OF mk(1) b(1), of p] b d(1) mk(3) by auto
  have "heads_marked ((bs_meta sec)[p := ?m]) (frees (fl(k := p # fl k))) A"
    using mk(2) b d(1) unfolding heads_marked_def by (simp add: frees_push)
  then have marked: "heads_marked meta' (frees (fl(k := p # fl k))) A"
    by (rule heads_marked_info [OF inf])
  have "length meta' = length (bs_meta sec)"
    using inf by (simp add: same_info_def)
  then have "sec_core (sec\<lparr>bs_meta := meta', bs_free_lists := fls'\<rparr>) (fl(k := p # fl k)) A T"
    unfolding sec_core_def using d ok marked new b(1) by (simp add: frees_push)
  with run psh b show ?thesis
    by (simp add: push_free_def same_frame_def)
qed

lemma remove_step:
  assumes c: "sec_core sec fl A T" and f: "(p, k) \<in> frees fl"
  shows "\<exists>sec'. remove_free p k sec = Some sec' \<and>
    sec_core sec' (fl(k := remove1 p (fl k))) A (insert (p, k) T) \<and> same_frame sec sec'"
proof -
  note d = sec_coreD [OF c]
  have k: "k \<le> MAX_ORDER" "p \<in> set (fl k)"
    using f by (auto simp: frees_def)
  obtain meta' fls' where rm: "free_list_remove (bs_meta sec) (bs_free_lists sec) p k = Some (meta', fls')"
    and ok: "freelists_ok meta' fls' (fl(k := remove1 p (fl k)))" and inf: "same_info (bs_meta sec) meta'"
    using remove_ok [OF d(4) k] by auto
  have fr: "frees (fl(k := remove1 p (fl k))) = frees fl - {(p, k)}"
    using k(1) freelists_ok_dll(2) [OF d(4) k(1)] by (rule frees_remove)
  have "heads_marked meta' (frees fl - {(p, k)}) A"
    using heads_marked_info [OF inf d(9)] unfolding heads_marked_def by auto
  moreover have "length meta' = length (bs_meta sec)"
    using inf by (simp add: same_info_def)
  moreover have "frees fl - {(p, k)} \<union> A \<union> insert (p, k) T = frees fl \<union> A \<union> T"
    using f by blast
  ultimately have "sec_core (sec\<lparr>bs_meta := meta', bs_free_lists := fls'\<rparr>) (fl(k := remove1 p (fl k))) A
      (insert (p, k) T)"
    unfolding sec_core_def fr using d ok f by auto
  with rm show ?thesis
    by (simp add: remove_free_def same_frame_def)
qed

text \<open>Steps without effect on the section: taking an allocated block, splitting a block in transit,
  joining two of them.\<close>

lemma heads_marked_subset: "heads_marked meta F A \<Longrightarrow> A' \<subseteq> A \<Longrightarrow> heads_marked meta F A'"
  unfolding heads_marked_def by blast

lemma release_step:
  assumes "sec_core sec fl (insert b A) T" "b \<notin> A"
  shows "sec_core sec fl A (insert b T)"
  using assms heads_marked_subset [of _ _ "insert b A" A] unfolding sec_core_def by auto

lemma core_transit:
  assumes "sec_core sec fl A T" "tiling (bs_total_pages sec) (frees fl \<union> A \<union> T')"
    "frees fl \<inter> T' = {}" "A \<inter> T' = {}"
  shows "sec_core sec fl A T'"
  using assms unfolding sec_core_def by blast

lemma half_not_in:
  assumes t: "tiling n (B \<union> {b})" and b: "b \<notin> B" and sub: "pages h \<subseteq> pages b"
  shows "h \<notin> B"
proof
  assume "h \<in> B"
  then have "pages h \<inter> pages b = {}"
    using tilingD(2) [OF t, of h b] b by blast
  moreover have "fst h \<in> pages h"
    by (cases h) auto
  ultimately show False
    using sub by blast
qed

lemma split_step:
  assumes c: "sec_core sec fl A {(p, Suc c)}"
  shows "sec_core sec fl A {(p, c), (p + 2 ^ c, c)}"
proof -
  note d = sec_coreD [OF c]
  have nb: "(p, Suc c) \<notin> frees fl \<union> A"
    using d(7,8) by blast
  have "pages (p, c) \<subseteq> pages (p, Suc c)" "pages (p + 2 ^ c, c) \<subseteq> pages (p, Suc c)"
    by (auto simp: pages_split)
  then have "(p, c) \<notin> frees fl \<union> A" "(p + 2 ^ c, c) \<notin> frees fl \<union> A"
    using half_not_in [OF d(5) nb] by blast+
  then show ?thesis
    by (intro core_transit [OF c] tiling_split [OF d(5) nb]) auto
qed

lemma merge_step:
  assumes c: "sec_core sec fl A {(p, c), (buddy_of (p, c), c)}" and k: "c < MAX_ORDER"
  shows "sec_core sec fl A {(min p (buddy_of (p, c)), Suc c)}"
proof -
  note d = sec_coreD [OF c]
  let ?q = "min p (buddy_of (p, c))"
  have al: "2 ^ c dvd p"
    using sec_core_block(2) [OF c, of p c] by simp
  have nb: "(p, c) \<notin> frees fl \<union> A" "(buddy_of (p, c), c) \<notin> frees fl \<union> A"
    using d(7,8) by blast+
  have "(?q, Suc c) \<notin> frees fl \<union> A"
  proof
    assume "(?q, Suc c) \<in> frees fl \<union> A"
    then have "pages (?q, Suc c) \<inter> pages (p, c) = {}"
      using tilingD(2) [OF d(5), of "(?q, Suc c)" "(p, c)"] nb by auto
    then show False
      using pages_merge [OF al] by auto
  qed
  then show ?thesis
    by (intro core_transit [OF c] tiling_merge [OF d(5) k nb]) auto
qed

end
