(* ===== verification/BuddyAlloc.thy ===== *)
theory BuddyAlloc
  imports BuddyInv
begin

text \<open>
  Allocation, release and initialisation of a buddy section. \<open>sec_rep\<close> is the full invariant between
  operations: the free and the allocated blocks tile the section, no two free blocks are buddies, and
  the page counter is exact.
\<close>

definition coalesced :: "block set \<Rightarrow> bool" where
  "coalesced F \<longleftrightarrow> (\<forall>p k. (p, k) \<in> F \<and> k < MAX_ORDER \<longrightarrow> (buddy_of (p, k), k) \<notin> F)"

definition sec_rep :: "buddy_section \<Rightarrow> (nat \<Rightarrow> nat list) \<Rightarrow> block set \<Rightarrow> bool" where
  "sec_rep sec fl A \<longleftrightarrow> sec_core sec fl A {} \<and> coalesced (frees fl) \<and>
     bs_free_pages sec = card (pages_of (frees fl))"

text \<open>What no allocation or release changes.\<close>

definition same_geometry :: "buddy_section \<Rightarrow> buddy_section \<Rightarrow> bool" where
  "same_geometry sec sec' \<longleftrightarrow>
     bs_region_start sec' = bs_region_start sec \<and> bs_region_size sec' = bs_region_size sec \<and>
     bs_max_pages sec' = bs_max_pages sec \<and> bs_heap_start sec' = bs_heap_start sec \<and>
     bs_heap_size sec' = bs_heap_size sec \<and> bs_total_pages sec' = bs_total_pages sec"

lemma same_frame_geometry: "same_frame sec sec' \<Longrightarrow> same_geometry sec (sec'\<lparr>bs_free_pages := f\<rparr>)"
  using same_frame_fields [of sec sec'] by (simp add: same_geometry_def)

lemma sec_core_free_pages [simp]: "sec_core (sec\<lparr>bs_free_pages := f\<rparr>) fl A T \<longleftrightarrow> sec_core sec fl A T"
  by (simp add: sec_core_def)

lemma free_pages_eq:
  assumes "sec_core sec fl A T"
  shows "pages_of (frees fl) = {..<bs_total_pages sec} - pages_of (A \<union> T)"
proof -
  note d = sec_coreD [OF assms]
  have "pages b \<inter> pages b' = {}" if "b \<in> frees fl" "b' \<in> A \<union> T" for b b'
    using tilingD(2) [OF d(5), of b b'] that d(6,7) by blast
  then have "pages_of (frees fl) \<inter> pages_of (A \<union> T) = {}"
    unfolding pages_of_def by blast
  with tilingD(3) [OF d(5)] show ?thesis
    by (auto simp: pages_of_Un)
qed

lemma finite_free_pages: "sec_core sec fl A T \<Longrightarrow> finite (pages_of (frees fl))"
  by (simp add: free_pages_eq)

lemma sec_core_pages_lt: "sec_core sec fl A T \<Longrightarrow> card (pages_of (frees fl)) \<le> bs_total_pages sec"
  by (simp add: free_pages_eq) (metis card_Diff_subset_Int card_lessThan card_mono finite_lessThan Diff_subset)

text \<open>Moving one block between the allocated and the free pages.\<close>

lemma free_pages_alloc:
  assumes "sec_core sec fl A {}" "sec_core sec' fl' (insert b A) {}" "b \<notin> A"
    "bs_total_pages sec' = bs_total_pages sec"
  shows "pages b \<subseteq> pages_of (frees fl)" "pages_of (frees fl') = pages_of (frees fl) - pages b"
    "card (pages_of (frees fl)) = card (pages_of (frees fl')) + 2 ^ snd b"
proof -
  note d = sec_coreD [OF assms(2)]
  have "pages b \<inter> pages b' = {}" if "b' \<in> A" for b'
    using tilingD(2) [OF d(5), of b b'] that assms(3) by blast
  then have dj: "pages b \<inter> pages_of A = {}"
    unfolding pages_of_def by blast
  have "pages b \<subseteq> {..<bs_total_pages sec}"
    using tilingD(3) [OF d(5)] assms(4) by (auto simp: pages_of_Un)
  with dj show sub: "pages b \<subseteq> pages_of (frees fl)"
    using free_pages_eq [OF assms(1)] by auto
  show eq: "pages_of (frees fl') = pages_of (frees fl) - pages b"
    using free_pages_eq [OF assms(1)] free_pages_eq [OF assms(2)] assms(4) by auto
  have "card (pages b) \<le> card (pages_of (frees fl))"
    by (rule card_mono [OF finite_free_pages [OF assms(1)] sub])
  then show "card (pages_of (frees fl)) = card (pages_of (frees fl')) + 2 ^ snd b"
    unfolding eq by (simp add: card_Diff_subset sub)
qed

section \<open>The target page inside a block\<close>

definition fits_at :: "usize \<Rightarrow> usize \<Rightarrow> block \<Rightarrow> nat \<Rightarrow> usize \<Rightarrow> nat \<Rightarrow> bool" where
  "fits_at ps heap_start b order align q \<longleftrightarrow>
     2 ^ order dvd q \<and> pages (q, order) \<subseteq> pages b \<and> align dvd heap_start + q * ps"

lemma next_in_class:
  fixes m :: nat
  assumes m: "0 < m" and r: "r < m" and d: "d = (r + m - b mod m) mod m"
  shows "(b + d) mod m = r" "b \<le> q \<Longrightarrow> q mod m = r \<Longrightarrow> b + d \<le> q"
proof -
  have bm: "b mod m < m"
    using m by simp
  have "(b + d) mod m = (b + (r + m - b mod m)) mod m"
    unfolding d by (simp add: mod_add_right_eq)
  also have "b + (r + m - b mod m) = r + m + m * (b div m)"
    using bm mult_div_mod_eq [of m b] by linarith
  also have "\<dots> mod m = r"
    using r by simp
  finally show c: "(b + d) mod m = r" .
  assume q: "b \<le> q" "q mod m = r"
  show "b + d \<le> q"
  proof (rule ccontr)
    assume lt: "\<not> b + d \<le> q"
    then have "m dvd b + d - q"
      using c q by (simp add: mod_eq_dvd_iff_nat [symmetric])
    moreover have "0 < b + d - q" "b + d - q < m"
      using lt q m d mod_less_divisor [OF m, of "r + m - b mod m"] by linarith+
    ultimately show False
      using dvd_imp_le by fastforce
  qed
qed

lemma neg_class:
  fixes m h :: nat
  assumes "0 < m" "r = (m - h mod m) mod m"
  shows "m dvd h + q \<longleftrightarrow> q mod m = r"
proof -
  have "(h + r) mod m = (h + (m - h mod m)) mod m"
    unfolding assms(2) by (simp add: mod_add_right_eq)
  also have "h + (m - h mod m) = m + m * (h div m)"
    using mult_div_mod_eq [of m h] mod_less_divisor [OF assms(1), of h] by linarith
  finally have z: "m dvd h + r"
    by (simp add: dvd_eq_mod_eq_0)
  have r: "r < m"
    using assms by simp
  have "m dvd h + q \<longleftrightarrow> (h + q) mod m = (h + r) mod m"
    using z by (simp add: dvd_eq_mod_eq_0)
  also have "\<dots> \<longleftrightarrow> q mod m = r mod m"
    by (simp add: nat_mod_eq_iff add.assoc) 
  finally show ?thesis
    using r by simp
qed

lemma fits_at_iff:
  assumes "2 ^ k dvd b" "order \<le> k"
  shows "fits_at (2 ^ s) (2 ^ s * h) (b, k) order (2 ^ (s + j)) q \<longleftrightarrow>
    2 ^ order dvd q \<and> b \<le> q \<and> q + 2 ^ order \<le> b + 2 ^ k \<and> 2 ^ j dvd h + q"
proof -
  have "2 ^ s * h + q * 2 ^ s = 2 ^ s * (h + q)"
    by (simp add: algebra_simps)
  then have "(2::nat) ^ (s + j) dvd 2 ^ s * h + q * 2 ^ s \<longleftrightarrow> 2 ^ j dvd h + q"
    by (simp add: power_add)
  moreover have "pages (q, order) \<subseteq> pages (b, k) \<longleftrightarrow> b \<le> q \<and> q + 2 ^ order \<le> b + 2 ^ k"
    by (auto simp: pages_def)
  ultimately show ?thesis
    unfolding fits_at_def by auto
qed

lemma mask_eq: "x AND usize_sub (2 ^ j) 1 = x mod 2 ^ j"
  using and_mask_nat [of x j] by (simp add: usize_sub_exact)

definition least_fit :: "(nat \<Rightarrow> bool) \<Rightarrow> nat option \<Rightarrow> bool" where
  "least_fit P r \<longleftrightarrow> (case r of None \<Rightarrow> \<forall>q. \<not> P q | Some q \<Rightarrow> P q \<and> (\<forall>q'. P q' \<longrightarrow> q \<le> q'))"

lemma find_aligned_least:
  assumes b: "2 ^ k dvd b" "b < 2 ^ 32" and k: "order \<le> k" "k \<le> MAX_ORDER" and s: "s + j < 64"
    and h: "2 ^ s * h < usize_lim"
  shows "least_fit (fits_at (2 ^ s) (2 ^ s * h) (b, k) order (2 ^ (s + j)))
    (find_aligned_pfn_in_block (2 ^ s) (2 ^ s * h) b k order (2 ^ (s + j)))"
proof -
  let ?F = "fits_at (2 ^ s) (2 ^ s * h) (b, k) order (2 ^ (s + j))"
  have F: "?F q \<longleftrightarrow> 2 ^ order dvd q \<and> b \<le> q \<and> q + 2 ^ order \<le> b + 2 ^ k \<and> 2 ^ j dvd h + q" for q
    by (rule fits_at_iff [OF b(1) k(1)])
  have shl: "usize_shl 1 order = 2 ^ order" "usize_shl 1 k = 2 ^ k"
    using k by (simp_all add: usize_shl_Suc_0 MAX_ORDER_def)
  have ok: "(2::nat) ^ order \<le> 2 ^ k" "(2::nat) ^ k \<le> 2 ^ 20"
    using k by (intro power_increasing; simp add: MAX_ORDER_def)+
  have lim: "b + 2 ^ k < usize_lim"
    using b ok by (simp add: usize_lim_def)
  have ap: "(2::nat) ^ (s + j) div 2 ^ s = 2 ^ j" "2 ^ s * h div 2 ^ s = h"
    by (simp_all add: power_add)
  have last: "usize_sub (usize_add b (2 ^ k)) (2 ^ order) = b + 2 ^ k - 2 ^ order"
    unfolding usize_add_exact [OF lim] using ok by (intro usize_sub_exact) linarith
  have le: "b \<le> b + 2 ^ k - 2 ^ order" "2 ^ order \<le> b + 2 ^ k"
    using ok by linarith+
  note mask = mask_eq [of j]
  show ?thesis
  proof (cases "j \<le> order")
    case True
    then have jo: "(2::nat) ^ j dvd 2 ^ order" "(2::nat) ^ j \<le> 2 ^ order"
      by (auto intro: le_imp_power_dvd)
    have mult: "is_multiple_of (2 ^ s * h) (2 ^ (s + j)) \<longleftrightarrow> 2 ^ j dvd h"
      by (simp add: is_multiple_of_def power_add dvd_eq_mod_eq_0)
    have run: "find_aligned_pfn_in_block (2 ^ s) (2 ^ s * h) b k order (2 ^ (s + j)) =
        (if 2 ^ j dvd h then Some b else None)"
      using le jo by (simp add: find_aligned_pfn_in_block_def Let_def shl [simplified] ap mult last [simplified])
    have "2 ^ order dvd b" "2 ^ j dvd b"
      using b k(1) jo by (meson dvd_trans le_imp_power_dvd)+
    moreover have "2 ^ j dvd h" if "?F q" for q
      using that jo(1) unfolding F by (metis dvd_add_left_iff dvd_trans)
    ultimately show ?thesis
      unfolding run least_fit_def using F ok by (auto simp del: power_increasing_iff)
  next
    case False
    then have jo: "(2::nat) ^ order dvd 2 ^ j" "\<not> (2::nat) ^ j \<le> 2 ^ order"
      by (auto intro: le_imp_power_dvd)
    define r where "r = (2 ^ j - h mod 2 ^ j) mod (2 ^ j :: nat)"
    define d where "d = (r + 2 ^ j - b mod 2 ^ j) mod (2 ^ j :: nat)"
    have r: "r < 2 ^ j" "d < 2 ^ j"
      by (simp_all add: r_def d_def)
    have j63: "(2::nat) ^ j \<le> 2 ^ 63"
      using s by (intro power_increasing) auto
    have off: "usize_sub (2 ^ j) (h mod 2 ^ j) mod 2 ^ j = r"
      unfolding r_def by (simp add: usize_sub_exact less_imp_le)
    have del: "usize_sub (usize_add r (2 ^ j)) (b mod 2 ^ j) mod 2 ^ j = d"
    proof -
      have "b mod 2 ^ j < 2 ^ j"
        by simp
      then have "b mod 2 ^ j \<le> r + 2 ^ j"
        by linarith
      moreover have "r + 2 ^ j < usize_lim"
        using r j63 by (simp add: usize_lim_def)
      ultimately show ?thesis
        by (simp add: usize_simps d_def)
    qed
    have cand: "usize_add b d = b + d"
      using b r j63 by (intro usize_add_exact) (simp add: usize_lim_def)
    have run: "find_aligned_pfn_in_block (2 ^ s) (2 ^ s * h) b k order (2 ^ (s + j)) =
        (if 2 ^ order dvd r \<and> b + d \<le> b + 2 ^ k - 2 ^ order then Some (b + d) else None)"
      unfolding find_aligned_pfn_in_block_def Let_def shl ap mask_eq off del cand last is_multiple_of_def
      using jo by (auto simp: dvd_eq_mod_eq_0)
    have cls: "2 ^ j dvd h + q \<longleftrightarrow> q mod 2 ^ j = r" for q
      by (rule neg_class) (simp_all add: r_def)
    note nx = next_in_class [OF _ r(1) d_def, simplified]
    have ord: "2 ^ order dvd q \<longleftrightarrow> 2 ^ order dvd r" if "q mod 2 ^ j = r" for q
      using that jo(1) by (metis dvd_mod_iff)
    have bd: "b + d \<le> b + 2 ^ k - 2 ^ order \<longleftrightarrow> b + d + 2 ^ order \<le> b + 2 ^ k"
      using le(2) by (simp only: le_diff_conv2)
    show ?thesis
    proof (cases "2 ^ order dvd r \<and> b + d + 2 ^ order \<le> b + 2 ^ k")
      case True
      then show ?thesis
        unfolding run least_fit_def F cls bd using nx ord [OF nx(1)] by simp
    next
      case no: False
      have False if "2 ^ order dvd q" "b \<le> q" "q + 2 ^ order \<le> b + 2 ^ k" "q mod 2 ^ j = r" for q
        using no ord [OF that(4)] nx(2) [OF that(2,4)] that(1,3) by linarith
      then show ?thesis
        unfolding run least_fit_def F cls bd using no by auto
    qed
  qed
qed

section \<open>Splitting and taking a block\<close>

lemma split_down_ok:
  assumes "sec_core sec fl A {(cur, co)}" "order \<le> co" "2 ^ order dvd t" "t \<in> pages (cur, co)"
  shows "\<exists>sec' fl'. split_down order t co cur sec = Some (t, sec') \<and> sec_core sec' fl' A {(t, order)} \<and>
    same_frame sec sec' \<and>
    (\<forall>b\<in>frees fl'. b \<in> frees fl \<or> t \<in> pages (buddy_of b, snd b))"
  using assms
proof (induction co arbitrary: cur sec fl)
  case 0
  then show ?case
    by (auto simp: pages_def)
next
  case (Suc c)
  note b = sec_core_block [OF Suc.prems(1), of cur "Suc c", simplified]
  show ?case
  proof (cases "order = Suc c")
    case True
    have "t = cur"
      using Suc.prems(3,4) b(2) dvd_less_gap [of "2 ^ order" cur t] True
      by (cases "cur < t") (auto simp: pages_def)
    with True Suc.prems show ?thesis
      by auto
  next
    case False
    then have oc: "order \<le> c"
      using Suc.prems(2) by simp
    have right: "usize_add cur (usize_shl 1 c) = cur + 2 ^ c"
    proof -
      have "c < 64"
        using b(1) by (simp add: MAX_ORDER_def)
      moreover have "cur + 2 ^ c < usize_lim"
        using b(3) sec_coreD(3) [OF Suc.prems(1)] by (simp add: PFN_NONE_def usize_lim_def)
      ultimately show ?thesis
        by (simp only: usize_shl_one usize_add_exact)
    qed
    define nxt where "nxt = (if t \<ge> cur + 2 ^ c then cur + 2 ^ c else cur)"
    define fre where "fre = (if t \<ge> cur + 2 ^ c then cur else cur + 2 ^ c)"
    have al: "2 ^ Suc c dvd cur" "2 ^ c dvd cur"
      using b(2) by (auto intro: dvd_trans [of "2 ^ c" "2 ^ Suc c"])
    have bud: "buddy_of (cur, c) = cur + 2 ^ c"
      using buddy_of_eq [OF al(2)] al(1) by simp
    have nf: "nxt = buddy_of (fre, c)" "t \<in> pages (nxt, c)"
      using bud buddy_buddy [of cur c] Suc.prems(4) by (auto simp: nxt_def fre_def pages_def)
    have "sec_core sec fl A (insert (fre, c) {(nxt, c)})"
      using split_step [OF Suc.prems(1)] by (auto simp: nxt_def fre_def insert_commute)
    moreover have "(fre, c) \<notin> {(nxt, c)}"
      by (auto simp: nxt_def fre_def)
    ultimately obtain sec1 where ps: "push_free fre c sec = Some sec1"
      and c1: "sec_core sec1 (fl(c := fre # fl c)) A {(nxt, c)}" and f1: "same_frame sec sec1"
      using push_step by blast
    obtain sec' fl' where run: "split_down order t c nxt sec1 = Some (t, sec')"
      and c2: "sec_core sec' fl' A {(t, order)}" and f2: "same_frame sec1 sec'"
      and new: "\<forall>b\<in>frees fl'. b \<in> frees (fl(c := fre # fl c)) \<or> t \<in> pages (buddy_of b, snd b)"
      using Suc.IH [OF c1 oc Suc.prems(3) nf(2)] by blast
    have "frees (fl(c := fre # fl c)) = insert (fre, c) (frees fl)"
      using b(1) by (intro frees_push) simp
    then have "\<forall>b\<in>frees fl'. b \<in> frees fl \<or> t \<in> pages (buddy_of b, snd b)"
      using new nf by auto
    moreover have "split_down order t (Suc c) cur sec = Some (t, sec')"
      using ps run oc by (simp add: right [simplified] Let_def nxt_def fre_def split: if_splits)
    ultimately show ?thesis
      using c2 same_frame_trans [OF f1 f2] by blast
  qed
qed

lemma coalesced_alloc:
  assumes co: "coalesced F" and t: "tiling n (F' \<union> insert (q, order) A)" "F' \<inter> insert (q, order) A = {}"
    and new: "\<forall>b\<in>F'. b \<in> F \<or> q \<in> pages (buddy_of b, snd b)"
  shows "coalesced F'"
  unfolding coalesced_def
proof (intro allI impI notI)
  fix p k assume a: "(p, k) \<in> F' \<and> k < MAX_ORDER" "(buddy_of (p, k), k) \<in> F'"
  have no: "q \<notin> pages b" if "b \<in> F'" for b
    using tilingD(2) [OF t(1), of b "(q, order)"] that t(2) by auto
  have "(p, k) \<in> F"
    using bspec [OF new, of "(p, k)"] a no [OF a(2)] by auto
  moreover have "(buddy_of (p, k), k) \<in> F"
    using bspec [OF new a(2)] a(1) no [of "(p, k)"] by (auto simp: buddy_buddy)
  ultimately show False
    using co a(1) unfolding coalesced_def by blast
qed

lemma take_block_ok:
  assumes rep: "sec_rep sec fl A" and f: "(b, k) \<in> frees fl" and o: "order \<le> k" "2 ^ order dvd t" "t \<in> pages (b, k)"
  shows "\<exists>sec' fl'. take_block b k order t sec = Some (t, sec') \<and> sec_rep sec' fl' (insert (t, order) A) \<and>
    (t, order) \<notin> A \<and> same_geometry sec sec'"
proof -
  have c: "sec_core sec fl A {}" and co: "coalesced (frees fl)"
    and fp: "bs_free_pages sec = card (pages_of (frees fl))"
    using rep by (simp_all add: sec_rep_def)
  obtain sec1 where rm: "remove_free b k sec = Some sec1"
    and c1: "sec_core sec1 (fl(k := remove1 b (fl k))) A {(b, k)}" and f1: "same_frame sec sec1"
    using remove_step [OF c f] by blast
  obtain sec2 fl' where sp: "split_down order t k b sec1 = Some (t, sec2)"
    and c2: "sec_core sec2 fl' A {(t, order)}" and f2: "same_frame sec1 sec2"
    and new: "\<forall>x\<in>frees fl'. x \<in> frees (fl(k := remove1 b (fl k))) \<or> t \<in> pages (buddy_of x, snd x)"
    using split_down_ok [OF c1 o] by blast
  obtain sec3 where mk: "mark_page Allocated t order sec2 = Some sec3"
    and c3: "sec_core sec3 fl' (insert (t, order) A) {}" and f3: "same_frame sec2 sec3"
    using mark_step [OF c2] by blast
  have fr: "same_frame sec sec3"
    using same_frame_trans [OF same_frame_trans [OF f1 f2] f3] .
  have nA: "(t, order) \<notin> A"
    using sec_coreD(8) [OF c2] by blast
  have card: "card (pages_of (frees fl)) = card (pages_of (frees fl')) + 2 ^ order"
    using free_pages_alloc(3) [OF c c3 nA same_frame_fields(7) [OF fr]] by simp
  have "frees (fl(k := remove1 b (fl k))) \<subseteq> frees fl"
    using set_remove1_subset [of b "fl k"] by (auto simp: frees_def split: if_splits)
  then have "\<forall>x\<in>frees fl'. x \<in> frees fl \<or> t \<in> pages (buddy_of x, snd x)"
    using new by blast
  then have "coalesced (frees fl')"
    using coalesced_alloc [OF co, of _ _ t order A] sec_coreD(5,6) [OF c3] by simp
  moreover have "usize_sub (bs_free_pages sec3) (usize_shl 1 order) = card (pages_of (frees fl'))"
  proof -
    have "order < 64"
      using sec_core_block(1) [OF c2, of t order] by (simp add: MAX_ORDER_def)
    then show ?thesis
      using card fp same_frame_fields(6) [OF fr] by (simp add: usize_shl_Suc_0 usize_sub_exact)
  qed
  ultimately have "sec_rep (sec3\<lparr>bs_free_pages := usize_sub (bs_free_pages sec3) (usize_shl 1 order)\<rparr>) fl'
      (insert (t, order) A)"
    using c3 by (simp add: sec_rep_def)
  with rm sp mk nA same_frame_geometry [OF fr] show ?thesis
    by (auto simp: take_block_def)
qed

section \<open>Searching the orders\<close>

definition selects_in :: "(nat \<Rightarrow> nat \<Rightarrow> nat option) \<Rightarrow> nat \<Rightarrow> block set \<Rightarrow> bool" where
  "selects_in sel order F \<longleftrightarrow>
     (\<forall>b k t. (b, k) \<in> F \<and> order \<le> k \<and> sel k b = Some t \<longrightarrow> 2 ^ order dvd t \<and> t \<in> pages (b, k))"

lemma alloc_orders_ok:
  assumes rep: "sec_rep sec fl A" and sel: "selects_in sel order (frees fl)"
    and ks: "\<forall>k\<in>set ks. order \<le> k \<and> k \<le> MAX_ORDER"
  shows "(\<exists>sec' fl' t b k. alloc_orders sel order ks sec = Some (Inr (t, t), sec') \<and>
      (b, k) \<in> frees fl \<and> order \<le> k \<and> sel k b = Some t \<and> sec_rep sec' fl' (insert (t, order) A) \<and>
      (t, order) \<notin> A \<and> same_geometry sec sec') \<or>
    (alloc_orders sel order ks sec = Some (Inl NoMemory, sec) \<and>
      (\<forall>k\<in>set ks. \<forall>b\<in>set (fl k). sel k b = None))"
  using ks
proof (induction ks)
  case Nil
  then show ?case
    by simp
next
  case (Cons k ks)
  have k: "order \<le> k" "k \<le> MAX_ORDER"
    using Cons.prems by simp_all
  have ok: "freelists_ok (bs_meta sec) (bs_free_lists sec) fl"
    using rep sec_coreD(4) by (auto simp: sec_rep_def)
  have hd: "head_get (bs_free_lists sec) k = Some (bs_free_lists sec ! k)"
    using freelists_ok_dll(3) [OF ok k(2)] by (simp add: head_get_def)
  have scan: "scan_free (bs_meta sec) (sel k) (bs_free_lists sec ! k) = Some (scan_list (sel k) (fl k))"
    by (rule scan_free_list [OF freelists_ok_dll(1) [OF ok k(2)]])
  show ?case
  proof (cases "scan_list (sel k) (fl k)")
    case None
    with Cons.IH Cons.prems hd scan show ?thesis
      by (simp add: scan_list_None)
  next
    case (Some bt)
    obtain b t where bt: "bt = (b, t)"
      by (cases bt)
    have "b \<in> set (fl k)" and sb: "sel k b = Some t"
      using scan_list_Some [of "sel k" "fl k" b t] Some bt by blast+
    then have bf: "(b, k) \<in> frees fl"
      using k by (simp add: frees_def)
    then have t: "2 ^ order dvd t" "t \<in> pages (b, k)"
      using sel k(1) sb unfolding selects_in_def by blast+
    obtain sec' fl' where tk: "take_block b k order t sec = Some (t, sec')"
      and r: "sec_rep sec' fl' (insert (t, order) A)" "(t, order) \<notin> A" "same_geometry sec sec'"
      using take_block_ok [OF rep bf k(1) t] by blast
    have "alloc_orders sel order (k # ks) sec = Some (Inr (t, t), sec')"
      using hd scan Some bt tk by simp
    with r bf k(1) sb show ?thesis
      by blast
  qed
qed

section \<open>Maximal free blocks\<close>

text \<open>In a section whose free blocks are fully merged, a run of free pages that could be a block lies
  inside one free block.\<close>

lemma coalesced_contains:
  assumes t: "tiling n (F \<union> A)" and dj: "F \<inter> A = {}" and co: "coalesced F"
    and q: "2 ^ order dvd q" "order \<le> MAX_ORDER" and sub: "pages (q, order) \<subseteq> pages_of F"
  shows "\<exists>b\<in>F. order \<le> snd b \<and> pages (q, order) \<subseteq> pages b"
proof (rule ccontr)
  assume none: "\<not> ?thesis"
  let ?P = "\<lambda>b. b \<in> F \<and> pages b \<inter> pages (q, order) \<noteq> {}"
  have small: "snd b < order" if "?P b" for b
  proof (rule ccontr)
    assume "\<not> snd b < order"
    then have "pages (q, order) \<subseteq> pages b"
      using aligned_nested [OF q(1), of "snd b" "fst b"] that tilingD(1) [OF t, of b]
      by (auto simp: aligned_block_def)
    with none that \<open>\<not> snd b < order\<close> show False
      by auto
  qed
  have "q \<in> pages_of F"
    using sub by blast
  then obtain b0 where "?P b0"
    unfolding pages_of_def using pages_head [of q order] by blast
  then obtain b where b: "?P b" and least: "\<And>b'. ?P b' \<Longrightarrow> snd b \<le> snd b'"
    using ex_has_least_nat [of ?P b0 snd] by blast
  obtain p k where pk: "b = (p, k)"
    by (cases b)
  have k: "k < order" and al: "2 ^ k dvd p"
    using small [OF b] tilingD(1) [OF t, of b] b pk by (auto simp: aligned_block_def)
  have merged: "2 ^ Suc k dvd min p (buddy_of (p, k))"
    using al by (cases rule: buddy_cases) auto
  have "pages (min p (buddy_of (p, k)), Suc k) \<inter> pages (q, order) \<noteq> {}"
    using b pk pages_merge [OF al] by blast
  then have inq: "pages (buddy_of (p, k), k) \<subseteq> pages (q, order)"
    using aligned_nested [OF merged q(1)] k pages_merge [OF al] by auto
  then have bin: "buddy_of (p, k) \<in> pages_of F" "buddy_of (p, k) \<in> pages (q, order)"
    using sub by blast+
  then obtain b' where b': "b' \<in> F" "buddy_of (p, k) \<in> pages b'"
    unfolding pages_of_def by blast
  have "buddy_of (p, k) < n"
    using bin(1) tilingD(3) [OF t] by (auto simp: pages_of_Un)
  then obtain j where j: "j \<le> k" "(buddy_of (p, k), j) \<in> F \<union> A"
    using tiling_buddy_head [OF t, of p k] b pk by blast
  have "b' = (buddy_of (p, k), j)"
    using tilingD(2) [OF t, of b' "(buddy_of (p, k), j)"] b' j(2) by blast
  moreover from this have "k \<le> j"
    using least [of b'] b' bin(2) pk by auto
  ultimately have "(buddy_of (p, k), k) \<in> F"
    using b'(1) j(1) by simp
  with co b pk k q(2) show False
    unfolding coalesced_def by auto
qed

text \<open>So the free pages determine the free blocks.\<close>

lemma coalesced_subset:
  assumes t: "tiling n (F \<union> A)" "F \<inter> A = {}" "coalesced F"
    and t': "tiling n (F' \<union> A)" "F' \<inter> A = {}" "coalesced F'" and eq: "pages_of F = pages_of F'"
  shows "F \<subseteq> F'"
proof
  fix b assume b: "b \<in> F"
  have al: "2 ^ snd b dvd fst b" "snd b \<le> MAX_ORDER"
    using tilingD(1) [OF t(1), of b] b by (simp_all add: aligned_block_def)
  have "pages b \<subseteq> pages_of F"
    using b unfolding pages_of_def by blast
  then have "pages (fst b, snd b) \<subseteq> pages_of F'"
    by (simp add: eq)
  then obtain b' where b': "b' \<in> F'" "pages b \<subseteq> pages b'" "snd b \<le> snd b'"
    using coalesced_contains [OF t' al] by auto
  have al': "2 ^ snd b' dvd fst b'" "snd b' \<le> MAX_ORDER"
    using tilingD(1) [OF t'(1), of b'] b' by (simp_all add: aligned_block_def)
  have "pages b' \<subseteq> pages_of F'"
    using b'(1) unfolding pages_of_def by blast
  then have "pages (fst b', snd b') \<subseteq> pages_of F"
    by (simp add: eq)
  then obtain b'' where b'': "b'' \<in> F" "pages b' \<subseteq> pages b''" "snd b' \<le> snd b''"
    using coalesced_contains [OF t al'] by auto
  have hd: "fst b \<in> pages b"
    by (simp add: pages_def)
  have "b'' = b"
    using tilingD(2) [OF t(1), of b b''] b b''(1) hd b'(2) b''(2) by blast
  then have "pages b' = pages b" "snd b' = snd b"
    using b'(2,3) b''(2,3) by auto
  moreover have "fst b' \<in> pages b'"
    by (simp add: pages_def)
  ultimately have "fst b = fst b'"
    using hd by (auto simp: pages_def)
  with \<open>snd b' = snd b\<close> b'(1) show "b \<in> F'"
    by (metis prod.collapse)
qed

lemma coalesced_unique:
  assumes "sec_rep sec fl A" "sec_rep sec' fl' A" "bs_total_pages sec' = bs_total_pages sec"
  shows "frees fl' = frees fl"
proof -
  have c: "sec_core sec fl A {}" "sec_core sec' fl' A {}" "coalesced (frees fl)" "coalesced (frees fl')"
    using assms by (simp_all add: sec_rep_def)
  have "pages_of (frees fl') = pages_of (frees fl)"
    using free_pages_eq [OF c(1)] free_pages_eq [OF c(2)] assms(3) by simp
  then show ?thesis
    using coalesced_subset [of "bs_total_pages sec" "frees fl" A "frees fl'"]
      coalesced_subset [of "bs_total_pages sec" "frees fl'" A "frees fl"]
      sec_coreD(5,6) [OF c(1)] sec_coreD(5,6) [OF c(2)] c(3,4) assms(3) by simp
qed

section \<open>Allocation from a section\<close>

text \<open>The addresses of a section: page-aligned start, and the whole heap below the end of the address
  space.\<close>

definition sec_geom :: "nat \<Rightarrow> buddy_section \<Rightarrow> bool" where
  "sec_geom s sec \<longleftrightarrow> s < 64 \<and> 2 ^ s dvd bs_heap_start sec \<and>
     bs_heap_start sec + bs_total_pages sec * 2 ^ s < usize_lim"

definition block_addr :: "usize \<Rightarrow> buddy_section \<Rightarrow> nat \<Rightarrow> usize" where
  "block_addr ps sec q = bs_heap_start sec + q * ps"

lemma page_addr_exact:
  assumes "sec_geom s sec" "q < bs_total_pages sec"
  shows "page_addr (2 ^ s) sec q = block_addr (2 ^ s) sec q"
proof -
  have "q * 2 ^ s \<le> bs_total_pages sec * 2 ^ s"
    using assms(2) by (intro mult_right_mono) auto
  with assms(1) have "bs_heap_start sec + q * 2 ^ s < usize_lim"
    unfolding sec_geom_def by linarith
  then show ?thesis
    by (simp add: page_addr_def block_addr_def usize_simps)
qed

lemma same_geometry_simps:
  "same_geometry sec sec' \<Longrightarrow> sec_geom s sec' \<longleftrightarrow> sec_geom s sec"
  "same_geometry sec sec' \<Longrightarrow> page_addr ps sec' q = page_addr ps sec q"
  "same_geometry sec sec' \<Longrightarrow> block_addr ps sec' q = block_addr ps sec q"
  by (simp_all add: same_geometry_def sec_geom_def page_addr_def block_addr_def)

lemma sec_find_aligned:
  assumes c: "sec_core sec fl A {}" and g: "sec_geom s sec" and b: "(b, k) \<in> frees fl" and k: "order \<le> k"
    and j: "s + j < 64"
  shows "least_fit (fits_at (2 ^ s) (bs_heap_start sec) (b, k) order (2 ^ (s + j)))
    (find_aligned_pfn_in_block (2 ^ s) (bs_heap_start sec) b k order (2 ^ (s + j)))"
proof -
  obtain h where h: "bs_heap_start sec = 2 ^ s * h"
    using g by (auto simp: sec_geom_def)
  have "2 ^ k dvd b" "b < 2 ^ 32" "k \<le> MAX_ORDER"
    using sec_core_block(1,2,4) [OF c, of b k] b sec_coreD(3) [OF c] by (auto simp: PFN_NONE_def)
  moreover have "2 ^ s * h < usize_lim"
    using g unfolding sec_geom_def h by linarith
  ultimately show ?thesis
    unfolding h using find_aligned_least k j by blast
qed

text \<open>The free runs of pages that a request could get.\<close>

definition free_run :: "usize \<Rightarrow> buddy_section \<Rightarrow> block set \<Rightarrow> nat \<Rightarrow> usize \<Rightarrow> nat \<Rightarrow> bool" where
  "free_run ps sec A order align q \<longleftrightarrow> 2 ^ order dvd q \<and> align dvd block_addr ps sec q \<and>
     pages (q, order) \<subseteq> {..<bs_total_pages sec} - pages_of A"

lemma fits_free_run:
  assumes c: "sec_core sec fl A {}" and b: "b \<in> frees fl" and f: "fits_at ps (bs_heap_start sec) b order align q"
  shows "free_run ps sec A order align q" "q < bs_total_pages sec" "q \<in> pages b"
proof -
  have "pages b \<subseteq> pages_of (frees fl)"
    using b unfolding pages_of_def by blast
  then show r: "free_run ps sec A order align q"
    using f free_pages_eq [OF c] by (auto simp: free_run_def fits_at_def block_addr_def)
  then have "q \<in> {..<bs_total_pages sec}"
    unfolding free_run_def using pages_head [of q order] by blast
  then show "q < bs_total_pages sec"
    by simp
  show "q \<in> pages b"
    using f pages_head [of q order] unfolding fits_at_def by blast
qed

lemma free_run_fits:
  assumes rep: "sec_rep sec fl A" and r: "free_run ps sec A order align q" and o: "order \<le> MAX_ORDER"
  shows "\<exists>b k. (b, k) \<in> frees fl \<and> order \<le> k \<and> fits_at ps (bs_heap_start sec) (b, k) order align q"
proof -
  have c: "sec_core sec fl A {}" and co: "coalesced (frees fl)"
    using rep by (simp_all add: sec_rep_def)
  have "pages (q, order) \<subseteq> pages_of (frees fl)" "2 ^ order dvd q"
    using r free_pages_eq [OF c] by (simp_all add: free_run_def)
  then obtain b where "b \<in> frees fl" "order \<le> snd b" "pages (q, order) \<subseteq> pages b"
    using coalesced_contains [of "bs_total_pages sec" "frees fl" A order q] sec_coreD(5,6) [OF c] co o
    by auto
  then show ?thesis
    using r by (cases b) (auto simp: free_run_def fits_at_def block_addr_def)
qed

text \<open>The outcome of a request: a run of free pages becomes an allocated block, or the section is left
  alone and no run satisfies the request.\<close>

definition alloc_outcome ::
  "nat \<Rightarrow> buddy_section \<Rightarrow> block set \<Rightarrow> nat \<Rightarrow> usize \<Rightarrow> (nat \<Rightarrow> bool) \<Rightarrow>
     (usize alloc_result \<times> buddy_section) option \<Rightarrow> bool" where
  "alloc_outcome s sec A order align ok r \<longleftrightarrow>
     (\<exists>q sec' fl'. r = Some (Inr (block_addr (2 ^ s) sec q), sec') \<and> free_run (2 ^ s) sec A order align q \<and>
        ok q \<and> (q, order) \<notin> A \<and> sec_rep sec' fl' (insert (q, order) A) \<and> same_geometry sec sec') \<or>
     (r = Some (Inl NoMemory, sec) \<and> (\<forall>q. free_run (2 ^ s) sec A order align q \<longrightarrow> \<not> ok q))"

text \<open>The search over the orders, for any way of choosing the target inside a free block that finds one
  exactly when there is one.\<close>

definition sel_exact ::
  "(nat \<Rightarrow> nat \<Rightarrow> nat option) \<Rightarrow> usize \<Rightarrow> buddy_section \<Rightarrow> block set \<Rightarrow> nat \<Rightarrow> usize \<Rightarrow> (nat \<Rightarrow> bool) \<Rightarrow> bool" where
  "sel_exact sel ps sec F order align ok \<longleftrightarrow> (\<forall>b k. (b, k) \<in> F \<and> order \<le> k \<longrightarrow>
     (case sel k b of
        Some t \<Rightarrow> fits_at ps (bs_heap_start sec) (b, k) order align t \<and> ok t
      | None \<Rightarrow> \<forall>q. fits_at ps (bs_heap_start sec) (b, k) order align q \<longrightarrow> \<not> ok q))"

lemma alloc_search_ok:
  assumes rep: "sec_rep sec fl A" and o: "order \<le> MAX_ORDER"
    and sel: "sel_exact sel ps sec (frees fl) order align ok"
  shows "(\<exists>sec' fl' t. alloc_orders sel order [order..<MAX_ORDER + 1] sec = Some (Inr (t, t), sec') \<and>
      free_run ps sec A order align t \<and> ok t \<and> t < bs_total_pages sec \<and>
      sec_rep sec' fl' (insert (t, order) A) \<and> (t, order) \<notin> A \<and> same_geometry sec sec') \<or>
    (alloc_orders sel order [order..<MAX_ORDER + 1] sec = Some (Inl NoMemory, sec) \<and>
      (\<forall>q. free_run ps sec A order align q \<longrightarrow> \<not> ok q))"
proof -
  have c: "sec_core sec fl A {}"
    using rep by (simp add: sec_rep_def)
  have fit: "fits_at ps (bs_heap_start sec) (b, k) order align t \<and> ok t"
    if "(b, k) \<in> frees fl" "order \<le> k" "sel k b = Some t" for b k t
    using sel that unfolding sel_exact_def by fastforce
  have "selects_in sel order (frees fl)"
    unfolding selects_in_def using fit fits_free_run [OF c] by (meson fits_at_def)
  then consider (found) sec' fl' t b k where "alloc_orders sel order [order..<MAX_ORDER + 1] sec = Some (Inr (t, t), sec')"
      "(b, k) \<in> frees fl" "order \<le> k" "sel k b = Some t" "sec_rep sec' fl' (insert (t, order) A)"
      "(t, order) \<notin> A" "same_geometry sec sec'"
    | (none) "alloc_orders sel order [order..<MAX_ORDER + 1] sec = Some (Inl NoMemory, sec)"
      "\<forall>k\<in>set [order..<MAX_ORDER + 1]. \<forall>b\<in>set (fl k). sel k b = None"
    using alloc_orders_ok [OF rep, of sel order "[order..<MAX_ORDER + 1]"] by fastforce
  then show ?thesis
  proof cases
    case found
    then show ?thesis
      using fits_free_run [OF c found(2) conjunct1 [OF fit [OF found(2,3,4)]]] fit [OF found(2,3,4)] by blast
  next
    case none
    have "\<not> ok q" if run: "free_run ps sec A order align q" for q
    proof -
      obtain b k where bk: "(b, k) \<in> frees fl" "order \<le> k" "fits_at ps (bs_heap_start sec) (b, k) order align q"
        using free_run_fits [OF rep run o] by blast
      then have "sel k b = None"
        using none(2) by (auto simp: frees_def)
      with sel bk show ?thesis
        unfolding sel_exact_def by fastforce
    qed
    with none(1) show ?thesis
      by blast
  qed
qed

lemma alloc_section_ok:
  assumes rep: "sec_rep sec fl A" and g: "sec_geom s sec" and o: "order \<le> MAX_ORDER" and j: "s + j < 64"
  shows "alloc_outcome s sec A order (2 ^ (s + j)) (\<lambda>_. True)
    (alloc_from_section_aligned (2 ^ s) sec order (2 ^ (s + j)))"
proof -
  have c: "sec_core sec fl A {}"
    using rep by (simp add: sec_rep_def)
  define sel where "sel = (\<lambda>k b. find_aligned_pfn_in_block (2 ^ s) (bs_heap_start sec) b k order (2 ^ (s + j)))"
  have "sel_exact sel (2 ^ s) sec (frees fl) order (2 ^ (s + j)) (\<lambda>_. True)"
    unfolding sel_exact_def sel_def using sec_find_aligned [OF c g _ _ j]
    by (fastforce simp: least_fit_def split: option.splits)
  from alloc_search_ok [OF rep o this] consider
      (found) sec' fl' t where "alloc_orders sel order [order..<MAX_ORDER + 1] sec = Some (Inr (t, t), sec')"
        "free_run (2 ^ s) sec A order (2 ^ (s + j)) t" "t < bs_total_pages sec"
        "sec_rep sec' fl' (insert (t, order) A)" "(t, order) \<notin> A" "same_geometry sec sec'"
    | (none) "alloc_orders sel order [order..<MAX_ORDER + 1] sec = Some (Inl NoMemory, sec)"
        "\<forall>q. \<not> free_run (2 ^ s) sec A order (2 ^ (s + j)) q"
    by fastforce
  then show ?thesis
  proof cases
    case found
    have "alloc_from_section_aligned (2 ^ s) sec order (2 ^ (s + j)) = Some (Inr (block_addr (2 ^ s) sec t), sec')"
      using found(1) page_addr_exact [OF g found(3)] same_geometry_simps(2) [OF found(6)]
      by (simp add: alloc_from_section_aligned_def sel_def)
    with found show ?thesis
      unfolding alloc_outcome_def by blast
  next
    case none
    have "alloc_from_section_aligned (2 ^ s) sec order (2 ^ (s + j)) = Some (Inl NoMemory, sec)"
      using none(1) by (simp add: alloc_from_section_aligned_def sel_def)
    with none(2) show ?thesis
      unfolding alloc_outcome_def by blast
  qed
qed

text \<open>Allocation below 4 GiB, for a translation that keeps the order of the section's addresses and under
  which no block wraps around.\<close>

definition low_block :: "(usize \<Rightarrow> usize) \<Rightarrow> nat \<Rightarrow> buddy_section \<Rightarrow> nat \<Rightarrow> nat \<Rightarrow> bool" where
  "low_block vp s sec order q \<longleftrightarrow> vp (block_addr (2 ^ s) sec q) + 2 ^ order * 2 ^ s \<le> DMA32_LIMIT"

definition linear_map :: "(usize \<Rightarrow> usize) \<Rightarrow> nat \<Rightarrow> buddy_section \<Rightarrow> bool" where
  "linear_map vp s sec \<longleftrightarrow>
     (\<forall>q<bs_total_pages sec. vp (block_addr (2 ^ s) sec q) + 2 ^ MAX_ORDER * 2 ^ s < usize_lim) \<and>
     (\<forall>q<bs_total_pages sec. \<forall>q'\<le>q. vp (block_addr (2 ^ s) sec q') \<le> vp (block_addr (2 ^ s) sec q))"

lemma lowmem_exact:
  assumes c: "sec_core sec fl A {}" and g: "sec_geom s sec" and o: "order \<le> MAX_ORDER" and j: "s + j < 64"
    and vp: "linear_map vp s sec"
  shows "sel_exact (lowmem_target vp (2 ^ s) sec order (2 ^ (s + j))) (2 ^ s) sec (frees fl) order (2 ^ (s + j))
    (low_block vp s sec order)"
  unfolding sel_exact_def
proof (intro allI impI, elim conjE)
  fix b k assume bk: "(b, k) \<in> frees fl" "order \<le> k"
  let ?F = "fits_at (2 ^ s) (bs_heap_start sec) (b, k) order (2 ^ (s + j))"
  note lf = sec_find_aligned [OF c g bk j]
  have lt: "t < bs_total_pages sec" "is_multiple_of (block_addr (2 ^ s) sec t) (2 ^ (s + j))" if "?F t" for t
    using fits_free_run [OF c bk(1) that] by (auto simp: free_run_def is_multiple_of_def)
  have po: "(2::nat) ^ order * 2 ^ s \<le> 2 ^ MAX_ORDER * 2 ^ s"
    using o by simp
  have shl: "usize_shl 1 order = 2 ^ order"
    using o by (simp add: usize_shl_Suc_0 MAX_ORDER_def)
  have test: "usize_add (vp (page_addr (2 ^ s) sec t)) (usize_mul (usize_shl 1 order) (2 ^ s)) \<le> DMA32_LIMIT
      \<longleftrightarrow> low_block vp s sec order t" if "?F t" for t
  proof -
    have "vp (block_addr (2 ^ s) sec t) + 2 ^ MAX_ORDER * 2 ^ s < usize_lim"
      using vp lt(1) [OF that] unfolding linear_map_def by blast
    with po have sum: "vp (block_addr (2 ^ s) sec t) + 2 ^ order * 2 ^ s < usize_lim"
      by linarith
    then have "2 ^ order * 2 ^ s < usize_lim"
      by linarith
    with sum show ?thesis
      unfolding shl page_addr_exact [OF g lt(1) [OF that]] low_block_def
      by (simp only: usize_add_exact usize_mul_exact)
  qed
  show "case lowmem_target vp (2 ^ s) sec order (2 ^ (s + j)) k b of
      Some t \<Rightarrow> ?F t \<and> low_block vp s sec order t
    | None \<Rightarrow> \<forall>q. ?F q \<longrightarrow> \<not> low_block vp s sec order q"
  proof (cases "find_aligned_pfn_in_block (2 ^ s) (bs_heap_start sec) b k order (2 ^ (s + j))")
    case None
    with lf show ?thesis
      by (simp add: lowmem_target_def least_fit_def)
  next
    case (Some t)
    then have t: "?F t" "\<forall>q. ?F q \<longrightarrow> t \<le> q"
      using lf by (simp_all add: least_fit_def)
    have mono: "low_block vp s sec order t" if "?F q" "low_block vp s sec order q" for q
      using vp lt(1) [OF that(1)] t(2) that unfolding linear_map_def low_block_def
      by (meson add_le_mono1 order_trans)
    have "lowmem_target vp (2 ^ s) sec order (2 ^ (s + j)) k b =
        (if low_block vp s sec order t then Some t else None)"
      using Some test [OF t(1)] lt [OF t(1)] page_addr_exact [OF g lt(1) [OF t(1)]]
      by (simp add: lowmem_target_def)
    with t mono show ?thesis
      by auto
  qed
qed

lemma alloc_lowmem_section_ok:
  assumes rep: "sec_rep sec fl A" and g: "sec_geom s sec" and o: "order \<le> MAX_ORDER" and j: "s + j < 64"
    and vp: "linear_map vp s sec"
  shows "alloc_outcome s sec A order (2 ^ (s + j)) (low_block vp s sec order)
    (alloc_lowmem_from_section vp (2 ^ s) sec order (2 ^ (s + j)))"
proof -
  have c: "sec_core sec fl A {}"
    using rep by (simp add: sec_rep_def)
  define sel where "sel = lowmem_target vp (2 ^ s) sec order (2 ^ (s + j))"
  from alloc_search_ok [OF rep o lowmem_exact [OF c g o j vp], folded sel_def] consider
      (found) sec' fl' t where "alloc_orders sel order [order..<MAX_ORDER + 1] sec = Some (Inr (t, t), sec')"
        "free_run (2 ^ s) sec A order (2 ^ (s + j)) t" "low_block vp s sec order t" "t < bs_total_pages sec"
        "sec_rep sec' fl' (insert (t, order) A)" "(t, order) \<notin> A" "same_geometry sec sec'"
    | (none) "alloc_orders sel order [order..<MAX_ORDER + 1] sec = Some (Inl NoMemory, sec)"
        "\<forall>q. free_run (2 ^ s) sec A order (2 ^ (s + j)) q \<longrightarrow> \<not> low_block vp s sec order q"
    by fastforce
  then show ?thesis
  proof cases
    case found
    have "alloc_lowmem_from_section vp (2 ^ s) sec order (2 ^ (s + j)) =
        Some (Inr (block_addr (2 ^ s) sec t), sec')"
      using found(1) page_addr_exact [OF g found(4)] by (simp add: alloc_lowmem_from_section_def sel_def)
    with found show ?thesis
      unfolding alloc_outcome_def by blast
  next
    case none
    have "alloc_lowmem_from_section vp (2 ^ s) sec order (2 ^ (s + j)) = Some (Inl NoMemory, sec)"
      using none(1) by (simp add: alloc_lowmem_from_section_def sel_def)
    with none(2) show ?thesis
      unfolding alloc_outcome_def by blast
  qed
qed

end
