(* ===== verification/BuddySection.thy ===== *)
theory BuddySection
  imports BuddyAlloc
begin

text \<open>
  Releasing a block, initialising a section, and the properties of a buddy section as a whole.
\<close>

section \<open>Merging\<close>

lemma buddy_meta:
  assumes c: "sec_core sec fl A {(p, k)}" and n: "buddy_of (p, k) < bs_total_pages sec"
  shows "pm_flags (bs_meta sec ! buddy_of (p, k)) = Free \<and> pm_order (bs_meta sec ! buddy_of (p, k)) = k \<longleftrightarrow>
    (buddy_of (p, k), k) \<in> frees fl"
proof -
  note d = sec_coreD [OF c]
  have "2 ^ k dvd p"
    using sec_core_block(2) [OF c, of p k] by simp
  then have "buddy_of (p, k) \<noteq> p"
    by (rule buddy_neq)
  moreover obtain j where "(buddy_of (p, k), j) \<in> frees fl \<union> A \<union> {(p, k)}"
    using tiling_buddy_head [OF d(5) _ n] by blast
  ultimately have "(buddy_of (p, k), j) \<in> frees fl \<or> (buddy_of (p, k), j) \<in> A"
    by blast
  then show ?thesis
    using d(9) unfolding heads_marked_def by metis
qed

lemma merge_up_ok:
  assumes "sec_core sec fl A {(p, k)}"
  shows "\<exists>p' k' sec' fl'. merge_up p k sec = Some (p', k', sec') \<and> sec_core sec' fl' A {(p', k')} \<and>
    same_frame sec sec' \<and> frees fl' \<subseteq> frees fl \<and>
    (k' < MAX_ORDER \<longrightarrow> (buddy_of (p', k'), k') \<notin> frees fl')"
  using assms
proof (induction p k sec arbitrary: fl rule: merge_up.induct)
  case (1 p k sec)
  note c = 1(2)
  note d = sec_coreD [OF c]
  let ?b = "buddy_of (p, k)"
  note b = sec_core_block [OF c, of p k, simplified]
  have shl: "usize_shl 1 k = 2 ^ k"
    using b(1) by (simp add: usize_shl_Suc_0 MAX_ORDER_def)
  have bp: "p XOR usize_shl 1 k = ?b"
    by (simp only: shl buddy_of_def fst_conv snd_conv)
  show ?case
  proof (cases "k < MAX_ORDER \<and> (?b, k) \<in> frees fl")
    case True
    then have k: "k < MAX_ORDER" and f: "(?b, k) \<in> frees fl"
      by simp_all
    note q = sec_core_block [OF c, of ?b k, simplified, OF disjI2 [OF disjI1 [OF f]]]
    have mt: "pm_flags (bs_meta sec ! ?b) = Free" "pm_order (bs_meta sec ! ?b) = k"
      using buddy_meta [OF c q(4)] f by blast+
    define fl1 where "fl1 = fl(k := remove1 ?b (fl k))"
    obtain sec1 where rm: "remove_free ?b k sec = Some sec1"
      and c1: "sec_core sec1 fl1 A (insert (?b, k) {(p, k)})" and f1: "same_frame sec sec1"
      using remove_step [OF c f] unfolding fl1_def by blast
    have c2: "sec_core sec1 fl1 A {(min p ?b, Suc k)}"
      using merge_step [OF _ k] c1 by (simp add: insert_commute)
    have sub: "frees fl1 \<subseteq> frees fl"
      using set_remove1_subset [of ?b "fl k"] by (auto simp: fl1_def frees_def split: if_splits)
    have run: "merge_up p k sec = merge_up (min p ?b) (k + 1) sec1"
      by (subst merge_up.simps) (use k q(4,6) d(1,2) mt rm in \<open>simp add: bp [simplified] meta_get_def\<close>)
    have "\<exists>p' k' sec' fl'. merge_up (min p ?b) (k + 1) sec1 = Some (p', k', sec') \<and>
        sec_core sec' fl' A {(p', k')} \<and> same_frame sec1 sec' \<and>
        frees fl' \<subseteq> frees fl1 \<and>
        (k' < MAX_ORDER \<longrightarrow> (buddy_of (p', k'), k') \<notin> frees fl')"
      by (rule 1(1) [OF k bp [symmetric], of "bs_meta sec ! ?b" sec1])
        (use q(4,6) d(1,2) mt rm c2 in \<open>simp_all add: meta_get_def\<close>)
    with run sub f1 show ?thesis
      using same_frame_trans by (metis (no_types, opaque_lifting) subset_trans)
  next
    case False
    have "merge_up p k sec = Some (p, k, sec)"
    proof (cases "k < MAX_ORDER \<and> ?b < bs_total_pages sec")
      case True
      then have "pm_flags (bs_meta sec ! ?b) \<noteq> Free \<or> pm_order (bs_meta sec ! ?b) \<noteq> k"
        using buddy_meta [OF c] False by blast
      with True d(1,2) show ?thesis
        by (subst merge_up.simps) (auto simp: bp [simplified] meta_get_def)
    next
      case no: False
      then show ?thesis
        by (subst merge_up.simps) (use d(2) in \<open>auto simp: bp [simplified]\<close>)
    qed
    with c False show ?thesis
      by auto
  qed
qed

lemma coalesced_insert:
  assumes "coalesced F" "F' \<subseteq> F" "k < MAX_ORDER \<Longrightarrow> (buddy_of (p, k), k) \<notin> F'" "2 ^ k dvd p"
  shows "coalesced (insert (p, k) F')"
  unfolding coalesced_def
proof (intro allI impI)
  fix q j assume a: "(q, j) \<in> insert (p, k) F' \<and> j < MAX_ORDER"
  show "(buddy_of (q, j), j) \<notin> insert (p, k) F'"
  proof (cases "(q, j) = (p, k)")
    case True
    with a assms(3) buddy_neq [OF assms(4)] show ?thesis
      by auto
  next
    case False
    with a have q: "(q, j) \<in> F'" "j < MAX_ORDER"
      by auto
    then have "(buddy_of (q, j), j) \<notin> F'"
      using assms(1,2) unfolding coalesced_def by blast
    moreover have "(buddy_of (q, j), j) \<noteq> (p, k)"
      using q assms(3) buddy_buddy [of q j] by auto
    ultimately show ?thesis
      by blast
  qed
qed

lemma dealloc_section_ok:
  assumes rep: "sec_rep sec fl (insert (p, k) A)" and new: "(p, k) \<notin> A"
  shows "\<exists>sec' fl'. dealloc_in_section sec p k = Some sec' \<and> sec_rep sec' fl' A \<and> same_geometry sec sec' \<and>
    bs_free_pages sec' = bs_free_pages sec + 2 ^ k"
proof -
  have c: "sec_core sec fl (insert (p, k) A) {}" and co: "coalesced (frees fl)"
    and fp: "bs_free_pages sec = card (pages_of (frees fl))"
    using rep by (simp_all add: sec_rep_def)
  obtain p' k' sec1 fl1 where mg: "merge_up p k sec = Some (p', k', sec1)"
    and c1: "sec_core sec1 fl1 A {(p', k')}" and f1: "same_frame sec sec1" and sub: "frees fl1 \<subseteq> frees fl"
    and nb: "k' < MAX_ORDER \<longrightarrow> (buddy_of (p', k'), k') \<notin> frees fl1"
    using merge_up_ok [OF release_step [OF c new]] by blast
  obtain sec2 where pf: "push_free p' k' sec1 = Some sec2"
    and c2: "sec_core sec2 (fl1(k' := p' # fl1 k')) A {}" and f2: "same_frame sec1 sec2"
    using push_step [OF c1] by blast
  note b = sec_core_block [OF c1, of p' k', simplified]
  have fr: "same_frame sec sec2"
    by (rule same_frame_trans [OF f1 f2])
  let ?fl = "fl1(k' := p' # fl1 k')"
  have card: "card (pages_of (frees ?fl)) = card (pages_of (frees fl)) + 2 ^ k"
    using free_pages_alloc(3) [OF c2 c new] same_frame_fields(7) [OF fr] by simp
  have co2: "coalesced (frees ?fl)"
    unfolding frees_push [OF b(1)] using coalesced_insert [OF co sub] nb b(2) by blast
  have k: "k < 64"
    using sec_core_block(1) [OF c, of p k] by (simp add: MAX_ORDER_def)
  have "card (pages_of (frees ?fl)) < usize_lim"
    using sec_core_pages_lt [OF c2] sec_coreD(3) [OF c2] by (simp add: PFN_NONE_def usize_lim_def)
  then have add: "usize_add (bs_free_pages sec2) (usize_shl 1 k) = bs_free_pages sec + 2 ^ k"
    using card fp k same_frame_fields(6) [OF fr] by (simp add: usize_shl_Suc_0 usize_add_exact)
  let ?sec = "sec2\<lparr>bs_free_pages := usize_add (bs_free_pages sec2) (usize_shl 1 k)\<rparr>"
  have "sec_rep ?sec ?fl A"
    using c2 co2 card fp unfolding sec_rep_def add by simp
  moreover have "dealloc_in_section sec p k = Some ?sec"
    using mg pf by (simp add: dealloc_in_section_def)
  moreover have "bs_free_pages ?sec = bs_free_pages sec + 2 ^ k"
    unfolding add by simp
  ultimately show ?thesis
    using same_frame_geometry [OF fr] by blast
qed

section \<open>Initialisation\<close>

lemma pick_order_greatest:
  assumes "p < n" "K < 64"
  shows "2 ^ pick_order n p K dvd p \<and> 2 ^ pick_order n p K \<le> n - p \<and>
    (\<forall>k\<le>K. 2 ^ k dvd p \<and> 2 ^ k \<le> n - p \<longrightarrow> k \<le> pick_order n p K)"
  using assms(2)
proof (induction K)
  case 0
  then show ?case
    using assms(1) by auto
next
  case (Suc K)
  have test: "usize_shl 1 (Suc K) \<le> usize_sub n p \<and> p AND usize_sub (usize_shl 1 (Suc K)) 1 = 0 \<longleftrightarrow>
      2 ^ Suc K \<le> n - p \<and> 2 ^ Suc K dvd p"
    unfolding usize_shl_one [OF Suc.prems] mask_eq usize_sub_exact [OF less_imp_le [OF assms(1)]]
    by (simp only: dvd_eq_mod_eq_0)
  show ?case
    unfolding pick_order.simps Let_def test
    using Suc.IH Suc.prems by (auto simp: le_Suc_eq)
qed

text \<open>The pages not covered yet, as blocks of order 0.\<close>

definition singles :: "nat \<Rightarrow> nat \<Rightarrow> block set" where
  "singles p n = {(q, 0) |q. p \<le> q \<and> q < n}"

lemma pages_of_singles: "pages_of (singles p n) = {p..<n}"
  by (auto simp: pages_of_def singles_def pages_def)

lemma singles_split: "p \<le> m \<Longrightarrow> m \<le> n \<Longrightarrow> singles p n = singles m n \<union> singles p m"
  by (auto simp: singles_def)

lemma singles_disjoint: "singles m n \<inter> singles p m = {}"
  by (auto simp: singles_def)

lemma gather_step:
  assumes c: "sec_core sec fl {} (singles p n)" and n: "n = bs_total_pages sec"
    and k: "k \<le> MAX_ORDER" "2 ^ k dvd p" "p + 2 ^ k \<le> n"
  shows "sec_core sec fl {} (insert (p, k) (singles (p + 2 ^ k) n))"
proof -
  note d = sec_coreD [OF c]
  have sp: "singles p n = singles (p + 2 ^ k) n \<union> singles p (p + 2 ^ k)"
    using k(3) by (intro singles_split) simp_all
  have nF: "(p, k) \<notin> frees fl"
  proof
    assume f: "(p, k) \<in> frees fl"
    have "(p, 0) \<in> singles p n"
      using k(3) by (auto simp: singles_def intro: less_le_trans [of _ "p + 2 ^ k"])
    with tiling_head_unique [OF d(5), of p k p 0] f d(7) show False
      by auto
  qed
  have til: "tiling n ((frees fl \<union> singles (p + 2 ^ k) n) \<union> {(p, k)})"
  proof (rule tiling_replace)
    show "tiling n ((frees fl \<union> singles (p + 2 ^ k) n) \<union> singles p (p + 2 ^ k))"
      using d(5) by (simp add: n [symmetric] sp Un_assoc)
    show "pages_of {(p, k)} = pages_of (singles p (p + 2 ^ k))"
      by (simp add: pages_of_singles) (simp add: pages_def)
    show "(frees fl \<union> singles (p + 2 ^ k) n) \<inter> singles p (p + 2 ^ k) = {}"
      using d(7) sp singles_disjoint [of "p + 2 ^ k" n p] by blast
  qed (use k in \<open>auto simp: aligned_block_def\<close>)
  show ?thesis
    unfolding n
  proof (rule core_transit [OF c])
    show "tiling (bs_total_pages sec) (frees fl \<union> {} \<union> insert (p, k) (singles (p + 2 ^ k) (bs_total_pages sec)))"
      using til by (simp add: n)
    show "frees fl \<inter> insert (p, k) (singles (p + 2 ^ k) (bs_total_pages sec)) = {}"
      using d(7) nF sp unfolding n by blast
  qed simp
qed

lemma fill_section_ok:
  assumes "sec_core sec fl {} (singles p n)" "n = bs_total_pages sec" "bs_free_pages sec = p" "p \<le> n"
    "\<forall>(q, k)\<in>frees fl. k = pick_order n q MAX_ORDER"
  shows "\<exists>sec' fl'. fill_section p sec = Some sec' \<and> sec_core sec' fl' {} {} \<and>
    (\<forall>(q, k)\<in>frees fl'. k = pick_order n q MAX_ORDER) \<and> same_geometry sec sec' \<and> bs_free_pages sec' = n"
  using assms
proof (induction p sec arbitrary: fl rule: fill_section.induct)
  case (1 p sec)
  note c = 1(2) and n = 1(3) and fp = 1(4) and pn = 1(5) and pk = 1(6)
  show ?case
  proof (cases "p < n")
    case False
    then have "singles p n = {}" "p = n"
      using pn by (auto simp: singles_def)
    with c n fp pk show ?thesis
      by (subst fill_section.simps) (auto simp: same_geometry_def)
  next
    case True
    define o' where "o' = pick_order n p MAX_ORDER"
    have o: "o' \<le> MAX_ORDER" "2 ^ o' dvd p" "p + 2 ^ o' \<le> n" "o' < 64"
      using pick_order_greatest [OF True, of MAX_ORDER] pick_order_le [of n p MAX_ORDER] True
      by (auto simp: o'_def MAX_ORDER_def)
    have shl: "usize_shl 1 o' = 2 ^ o'"
      by (rule usize_shl_one [OF o(4)])
    have new: "(p, o') \<notin> singles (p + 2 ^ o') n"
      by (auto simp: singles_def)
    define fl1 where "fl1 = fl(o' := p # fl o')"
    obtain sec1 where ps: "push_free p o' sec = Some sec1"
      and c1: "sec_core sec1 fl1 {} (singles (p + 2 ^ o') n)" and f1: "same_frame sec sec1"
      using push_step [OF gather_step [OF c n o(1-3)] new] unfolding fl1_def by blast
    let ?sec = "sec1\<lparr>bs_free_pages := usize_add (bs_free_pages sec1) (usize_shl 1 o')\<rparr>"
    have "n < usize_lim"
      using sec_coreD(3) [OF c] n by (simp add: PFN_NONE_def usize_lim_def)
    then have fp1: "usize_add (bs_free_pages sec1) (usize_shl 1 o') = p + 2 ^ o'"
      unfolding shl using same_frame_fields(6) [OF f1] fp o(3) by (intro usize_add_exact [THEN trans]) simp_all
    have pk1: "\<forall>(q, k)\<in>frees fl1. k = pick_order n q MAX_ORDER"
      unfolding fl1_def frees_push [OF o(1)] using pk by (auto simp: o'_def)
    have lt: "p < bs_total_pages sec" and oe: "o' = pick_order (bs_total_pages sec) p MAX_ORDER"
      using True n by (simp_all add: o'_def)
    have "\<exists>sec' fl'. fill_section (p + usize_shl 1 o') ?sec = Some sec' \<and> sec_core sec' fl' {} {} \<and>
        (\<forall>(q, k)\<in>frees fl'. k = pick_order n q MAX_ORDER) \<and> same_geometry ?sec sec' \<and> bs_free_pages sec' = n"
    proof (rule 1(1) [OF lt oe refl ps _ _ _ _ pk1])
      show "sec_core ?sec fl1 {} (singles (p + usize_shl 1 o') n)"
        unfolding sec_core_free_pages shl by (rule c1)
      show "n = bs_total_pages ?sec"
        using n same_frame_fields(7) [OF f1] by simp
      show "bs_free_pages ?sec = p + usize_shl 1 o'"
        using fp1 by (simp add: shl [simplified])
      show "p + usize_shl 1 o' \<le> n"
        unfolding shl by (rule o(3))
    qed
    moreover have "fill_section p sec = fill_section (p + usize_shl 1 o') ?sec"
      by (subst fill_section.simps) (use lt ps in \<open>simp add: oe [symmetric] Let_def\<close>)
    moreover have "same_geometry sec sec'" if "same_geometry ?sec sec'" for sec'
      using that same_frame_fields [OF f1] by (simp add: same_geometry_def)
    ultimately show ?thesis
      by auto
  qed
qed

lemma greedy_coalesced:
  assumes c: "sec_core sec fl {} {}" and n: "n = bs_total_pages sec"
    and pk: "\<forall>(q, k)\<in>frees fl. k = pick_order n q MAX_ORDER"
  shows "coalesced (frees fl)"
proof -
  have key: False if "2 ^ Suc k dvd p" "(p, k) \<in> frees fl" "(p + 2 ^ k, k) \<in> frees fl" "k < MAX_ORDER" for p k
  proof -
    have "p < n" "2 ^ Suc k \<le> n - p"
      using sec_core_block(3,4) [OF c, of "p + 2 ^ k" k] that(3) n by auto
    then have "Suc k \<le> pick_order n p MAX_ORDER"
      using pick_order_greatest [of p n MAX_ORDER] that(1,4) by (auto simp: MAX_ORDER_def)
    with pk that(2) show False
      by auto
  qed
  show ?thesis
    unfolding coalesced_def
  proof (intro allI impI notI)
    fix p k assume a: "(p, k) \<in> frees fl \<and> k < MAX_ORDER" and b: "(buddy_of (p, k), k) \<in> frees fl"
    have "2 ^ k dvd p"
      using sec_core_block(2) [OF c, of p k] a by simp
    then show False
      by (cases rule: buddy_cases) (use a b key [of k p] key [of k "buddy_of (p, k)"] in auto)
  qed
qed

lemma init_core:
  assumes "length (bs_meta sec) = n" "bs_max_pages sec = n" "bs_total_pages sec = n" "n \<le> PFN_NONE"
    "bs_free_lists sec = replicate (MAX_ORDER + 1) PFN_NONE"
  shows "sec_core sec (\<lambda>_. []) {} (singles 0 n)"
proof -
  have "tiling n (singles 0 n)"
    unfolding tiling_def pages_of_singles by (auto simp: singles_def aligned_block_def pages_def)
  moreover have "bs_free_lists sec ! k = PFN_NONE" if "k \<le> MAX_ORDER" for k
    unfolding assms(5) by (rule nth_replicate) (use that in simp)
  then have "freelists_ok (bs_meta sec) (bs_free_lists sec) (\<lambda>_. [])"
    using assms(5) by (simp add: freelists_ok_def)
  ultimately show ?thesis
    using assms(1-4) by (simp add: sec_core_def frees_def heads_marked_def)
qed

lemma init_at_ok:
  assumes ps: "s < 64" and al: "2 ^ s dvd heap_start" and sz: "heap_size \<noteq> 0"
    and n: "heap_size div 2 ^ s \<le> PFN_NONE" and meta: "required_meta_size (2 ^ s) heap_size \<le> meta_size"
  shows "\<exists>sec fl. init_at (2 ^ s) region_start region_size meta_size heap_start heap_size = Some (Inr sec) \<and>
    sec_rep sec fl {} \<and> bs_free_pages sec = heap_size div 2 ^ s \<and> bs_total_pages sec = heap_size div 2 ^ s \<and>
    bs_heap_start sec = heap_start \<and> bs_heap_size sec = heap_size \<and>
    bs_region_start sec = region_start \<and> bs_region_size sec = region_size"
proof -
  define n where "n = heap_size div 2 ^ s"
  define sec0 where "sec0 = \<lparr>bs_region_start = region_start, bs_region_size = region_size,
     bs_meta = replicate n page_meta_new, bs_max_pages = n,
     bs_heap_start = heap_start, bs_heap_size = heap_size,
     bs_free_lists = replicate (MAX_ORDER + 1) PFN_NONE, bs_free_pages = 0,
     bs_total_pages = n\<rparr>"
  have c0: "sec_core sec0 (\<lambda>_. []) {} (singles 0 n)"
    by (rule init_core) (use n in \<open>simp_all add: sec0_def n_def\<close>)
  obtain sec fl where fill: "fill_section 0 sec0 = Some sec" and c: "sec_core sec fl {} {}"
    and pk: "\<forall>(q, k)\<in>frees fl. k = pick_order n q MAX_ORDER" and g: "same_geometry sec0 sec"
    and fp: "bs_free_pages sec = n"
    using fill_section_ok [OF c0] by (auto simp: sec0_def frees_def)
  have tn: "n = bs_total_pages sec"
    using g by (simp add: same_geometry_def sec0_def)
  have "pages_of (frees fl) = {..<n}"
    using free_pages_eq [OF c] tn by simp
  then have rep: "sec_rep sec fl {}"
    using c greedy_coalesced [OF c tn pk] fp by (simp add: sec_rep_def)
  have "is_power_of_two (2 ^ s)"
    using ps by (auto simp: is_power_of_two_iff)
  moreover have "buddy_is_aligned heap_start (2 ^ s)"
    unfolding buddy_is_aligned_def mask_eq using al by simp
  ultimately have "init_at (2 ^ s) region_start region_size meta_size heap_start heap_size = Some (Inr sec)"
    using fill meta sz by (simp add: init_at_def Let_def n_def [symmetric] sec0_def)
  moreover have "bs_heap_start sec = heap_start" "bs_heap_size sec = heap_size"
    "bs_region_start sec = region_start" "bs_region_size sec = region_size"
    using g by (simp_all add: same_geometry_def sec0_def)
  ultimately show ?thesis
    using rep fp tn unfolding n_def by metis
qed

end
