(* ===== verification/BuddyLayout.thy ===== *)
theory BuddyLayout
  imports Buddy
begin

text \<open>
  Where a memory region keeps its section header, its page metadata and its heap:
  \<open>normalize_region\<close> and \<open>compute_region_layout\<close>.
\<close>

lemma buddy_align_up_bounds:
  assumes "a + 2 ^ k \<le> usize_lim" "k < 64"
  shows "2 ^ k dvd buddy_align_up a (2 ^ k)" "a \<le> buddy_align_up a (2 ^ k)"
    "buddy_align_up a (2 ^ k) < a + 2 ^ k"
    "2 ^ k dvd x \<Longrightarrow> a \<le> x \<Longrightarrow> buddy_align_up a (2 ^ k) \<le> x"
proof -
  have "buddy_align_up a (2 ^ k) = align_up a (2 ^ k)"
    by (simp add: buddy_align_up_def align_up_def)
  then have u: "buddy_align_up a (2 ^ k) = (a + 2 ^ k - 1) - (a + 2 ^ k - 1) mod 2 ^ k"
    by (simp only: align_up_pow2 [OF assms])
  show "2 ^ k dvd buddy_align_up a (2 ^ k)"
    unfolding u by (rule round_down_dvd)
  show "a \<le> buddy_align_up a (2 ^ k)" "buddy_align_up a (2 ^ k) < a + 2 ^ k"
    "2 ^ k dvd x \<Longrightarrow> a \<le> x \<Longrightarrow> buddy_align_up a (2 ^ k) \<le> x"
    unfolding u using round_up_least [where a = a and m = "2 ^ k"] by simp_all
qed

lemma buddy_align_up_mono:
  assumes "b + 2 ^ k \<le> usize_lim" "k < 64" "a \<le> b"
  shows "buddy_align_up a (2 ^ k) \<le> buddy_align_up b (2 ^ k)"
  using assms by (intro buddy_align_up_bounds(4) buddy_align_up_bounds(1))
    (auto intro: order_trans [OF _ buddy_align_up_bounds(2)])

section \<open>Normalising a region\<close>

lemma normalize_region_ok:
  assumes k: "k < 64" and lim: "start + len + 2 ^ k \<le> usize_lim"
    and r: "normalize_region start len (2 ^ k) = Some (rs, rz)"
  shows "2 ^ k dvd rs" "2 ^ k dvd rz" "start \<le> rs" "rs + rz \<le> start + len" "0 < rz"
proof -
  have p: "is_power_of_two (2 ^ k)" "(0::nat) < 2 ^ k"
    using k by (auto simp: is_power_of_two_iff)
  have sum: "start + len < usize_lim"
    using lim p(2) by linarith
  define e where "e = start + len - (start + len) mod 2 ^ k"
  have down: "(start + len) AND usize_not (2 ^ k - Suc 0) = e"
    using and_not_mask_nat [of "start + len" k] sum k by (simp add: e_def)
  have e: "2 ^ k dvd e" "e \<le> start + len"
    unfolding e_def by (rule round_down_dvd) simp
  have b: "2 ^ k dvd buddy_align_up start (2 ^ k)" "start \<le> buddy_align_up start (2 ^ k)"
    using lim k by (auto intro!: buddy_align_up_bounds)
  have eq: "rs = buddy_align_up start (2 ^ k)" "rz = e - rs" "rs < e"
    using r p sum unfolding normalize_region_def Let_def
    by (auto simp: usize_checked_add_def usize_sub_exact down split: if_splits)
  show "2 ^ k dvd rs" "start \<le> rs" "0 < rz" "rs + rz \<le> start + len"
    using b eq e(2) by auto
  show "2 ^ k dvd rz"
    unfolding eq(2) eq(1) using b(1) e(1) by (intro dvd_diff_nat)
qed

text \<open>C38: Near the top of the address space the rounding of the start wraps around: every region that lies within
  the last granule of it, and so has no granule of its own, is normalised to one that spans all granules but
  the last.\<close>

theorem normalize_region_wraps:
  assumes k: "k < 64" and top: "usize_lim - 2 ^ k < start" and len: "0 < len" "start + len < usize_lim"
  shows "normalize_region start len (2 ^ k) = Some (0, usize_lim - 2 ^ k)"
proof -
  have p: "is_power_of_two (2 ^ k)"
    using k by (auto simp: is_power_of_two_iff)
  have kl: "(2::nat) ^ k < usize_lim"
    using k unfolding usize_lim_def by (intro power_strict_increasing) simp_all
  have "usize_sub (usize_add start (2 ^ k)) 1 = start + 2 ^ k - usize_lim - 1"
  proof -
    have "usize_add start (2 ^ k) = start + 2 ^ k - usize_lim"
      using kl len top by (simp add: usize_add_def mod_nat_eqI le_mod_geq)
    with kl top len show ?thesis
      by (simp add: usize_sub_exact)
  qed
  moreover have "start + 2 ^ k - usize_lim - 1 < 2 ^ k"
    using len top kl by simp
  ultimately have up: "buddy_align_up start (2 ^ k) = 0"
    using and_not_mask_nat [of "start + 2 ^ k - usize_lim - 1" k] kl k
    by (simp add: buddy_align_up_def usize_sub_def)
  have "(2::nat) ^ k dvd usize_lim"
    using k unfolding usize_lim_def by (intro le_imp_power_dvd) simp
  then have d: "2 ^ k dvd usize_lim - 2 ^ k"
    by simp
  have "(start + len) mod 2 ^ k = start + len - (usize_lim - 2 ^ k)"
  proof (rule mod_nat_eqI)
    have "start + len - (start + len - (usize_lim - 2 ^ k)) = usize_lim - 2 ^ k"
      using top by simp
    with d show "2 ^ k dvd start + len - (start + len - (usize_lim - 2 ^ k))"
      by simp
  qed (use top len kl in simp_all)
  then have "(start + len) AND usize_not (2 ^ k - Suc 0) = usize_lim - 2 ^ k"
    using and_not_mask_nat [of "start + len" k] len k top by simp
  with p up len kl show ?thesis
    by (simp add: normalize_region_def usize_checked_add_def usize_sub_exact)
qed

theorem normalize_region_wraps_witness:
  "normalize_region (usize_lim - 100) 50 (2 ^ 12) = Some (0, usize_lim - 2 ^ 12)"
  using normalize_region_wraps [of 12 "usize_lim - 100" 50] by (simp add: usize_lim_def)

section \<open>Binary search\<close>

lemma search_pages_bounds:
  "low \<le> high \<Longrightarrow> low \<le> search_pages can low high \<and> search_pages can low high \<le> high \<and>
   (search_pages can low high = low \<or> can (search_pages can low high))"
proof (induction can low high rule: search_pages.induct)
  case (1 can low high)
  show ?case
  proof (cases "low < high")
    case True
    define mid where "mid = low + (high - low + 1) div 2"
    have m: "low < mid" "mid \<le> high"
      using True by (auto simp: mid_def)
    have run: "search_pages can low high =
        (if can mid then search_pages can mid high else search_pages can low (mid - 1))"
      using True by (subst search_pages.simps) (simp add: mid_def)
    show ?thesis
    proof (cases "can mid")
      case c: True
      then show ?thesis
        using 1(1) [OF True mid_def c m(2)] m(1) unfolding run by auto
    next
      case c: False
      have "low \<le> mid - 1" "mid - 1 \<le> high"
        using m by auto
      then show ?thesis
        using 1(2) [OF True mid_def c] c unfolding run by (auto intro: order_trans)
    qed
  next
    case False
    with 1(3) show ?thesis
      by (simp add: search_pages.simps [of can high high])
  qed
qed

lemma search_pages_greatest:
  assumes "low \<le> high" and anti: "\<And>m m'. m \<le> m' \<Longrightarrow> m' \<le> high \<Longrightarrow> can m' \<Longrightarrow> can m"
    and "x \<le> high" "can x"
  shows "low < x \<Longrightarrow> x \<le> search_pages can low high"
  using assms
proof (induction can low high rule: search_pages.induct)
  case (1 can low high)
  have lh: "low < high"
    using 1(3,6) by simp
  define mid where "mid = low + (high - low + 1) div 2"
  have m: "low < mid" "mid \<le> high"
    using lh by (auto simp: mid_def)
  have run: "search_pages can low high =
      (if can mid then search_pages can mid high else search_pages can low (mid - 1))"
    using lh by (subst search_pages.simps) (simp add: mid_def)
  show ?case
  proof (cases "can mid")
    case True
    show ?thesis
    proof (cases "mid < x")
      case less: True
      have "x \<le> search_pages can mid high"
        by (rule 1(1) [OF lh mid_def True less m(2) 1(5) 1(6) 1(7)])
      with run True show ?thesis
        by simp
    next
      case False
      with run True search_pages_bounds [OF m(2), of can] show ?thesis
        by simp
    qed
  next
    case False
    have "x < mid"
      using 1(5) [of mid x] 1(6,7) False by (meson not_less)
    then have "x \<le> search_pages can low (mid - 1)"
      using m 1(3,7) by (intro 1(2) [OF lh mid_def False]) (auto intro: 1(5))
    with run False show ?thesis
      by simp
  qed
qed

section \<open>The layout of a region\<close>

text \<open>A region \<open>[rs, re)\<close> can manage \<open>m\<close> pages if a section header, \<open>m\<close> page descriptors and \<open>m\<close> aligned
  pages fit in this order.\<close>

definition layout_fits :: "nat \<Rightarrow> usize \<Rightarrow> usize \<Rightarrow> nat \<Rightarrow> bool" where
  "layout_fits s rs re m \<longleftrightarrow> (\<exists>ss h. align_of_section dvd ss \<and> rs \<le> ss \<and> 2 ^ s dvd h \<and>
     ss + size_of_section + m * size_of_page_meta \<le> h \<and> h + m * 2 ^ s \<le> re)"

lemma meta_sizes:
  "metadata_align = 2 ^ 3" "align_of_section = 2 ^ 3" "size_of_section = 160" "size_of_page_meta = 12"
  "buddy_align_up 160 align_of_page_meta = 160"
  by code_simp+

lemma metadata_layout_eq:
  "160 + m * 12 < usize_lim \<Longrightarrow> metadata_layout_for_pages m = Some (160, 160 + m * 12)"
  by (simp add: metadata_layout_for_pages_def meta_sizes usize_checked_mul_def usize_checked_add_def)

definition layout_env :: "nat \<Rightarrow> usize \<Rightarrow> usize \<Rightarrow> bool" where
  "layout_env s rs re \<longleftrightarrow> 4 \<le> s \<and> s < 64 \<and> re + 160 + 2 ^ s \<le> usize_lim \<and> rs < re"

lemma layout_envD:
  assumes "layout_env s rs re"
  shows "s < 64" "re + 160 + 2 ^ s \<le> usize_lim" "rs < re" "(16::nat) \<le> 2 ^ s" "re < usize_lim"
proof -
  show a: "s < 64" "re + 160 + 2 ^ s \<le> usize_lim" "rs < re"
    using assms by (simp_all add: layout_env_def)
  show b: "(16::nat) \<le> 2 ^ s"
    using assms power_increasing [of 4 s "2::nat"] by (simp add: layout_env_def)
  show "re < usize_lim"
    using a b by linarith
qed

lemma section_start:
  assumes "layout_env s rs re"
  shows "2 ^ 3 dvd buddy_align_up rs metadata_align" "rs \<le> buddy_align_up rs metadata_align"
    "2 ^ 3 dvd x \<Longrightarrow> rs \<le> x \<Longrightarrow> buddy_align_up rs metadata_align \<le> x"
proof -
  have "rs + 2 ^ 3 \<le> usize_lim"
    using layout_envD [OF assms] by simp
  from buddy_align_up_bounds [OF this, unfolded meta_sizes(1) [symmetric]]
  show "2 ^ 3 dvd buddy_align_up rs metadata_align" "rs \<le> buddy_align_up rs metadata_align"
    "2 ^ 3 dvd x \<Longrightarrow> rs \<le> x \<Longrightarrow> buddy_align_up rs metadata_align \<le> x"
    by (simp_all add: meta_sizes)
qed

lemma layout_fits_iff:
  assumes env: "layout_env s rs re"
  shows "layout_fits s rs re m \<longleftrightarrow> (\<exists>h. 2 ^ s dvd h \<and>
    buddy_align_up rs metadata_align + 160 + m * 12 \<le> h \<and> h + m * 2 ^ s \<le> re)"
    (is "_ \<longleftrightarrow> ?R")
proof
  assume "layout_fits s rs re m"
  then obtain x h where "2 ^ 3 dvd x" "rs \<le> x" "2 ^ s dvd h" "x + 160 + m * 12 \<le> h" "h + m * 2 ^ s \<le> re"
    unfolding layout_fits_def meta_sizes by blast
  moreover from this have "buddy_align_up rs metadata_align \<le> x"
    by (intro section_start(3) [OF env])
  ultimately show ?R
    by (meson add_le_mono1 order_trans)
next
  assume ?R
  then show "layout_fits s rs re m"
    unfolding layout_fits_def meta_sizes(2-4) using section_start(1,2) [OF env] by blast
qed

lemma can_manage_iff:
  assumes env: "layout_env s rs re" and ss: "ss = buddy_align_up rs metadata_align" "ss + 160 + m * 12 \<le> re"
    and m: "1 \<le> m"
  shows "can_manage_pages (2 ^ s) re ss m (2 ^ s) \<longleftrightarrow> layout_fits s rs re m"
proof -
  note e = layout_envD [OF env]
  have x: "160 + m * 12 < usize_lim" "ss + (160 + m * 12) < usize_lim" "ss + (160 + m * 12) + 2 ^ s \<le> usize_lim"
    using ss(2) e by linarith+
  define h where "h = buddy_align_up (ss + (160 + m * 12)) (2 ^ s)"
  note b = buddy_align_up_bounds [OF x(3) e(1), folded h_def]
  have "available_heap_pages (2 ^ s) re ss (160 + m * 12) (2 ^ s) =
      Some (if h > re then 0 else (re - h) div 2 ^ s)"
    using x by (simp add: available_heap_pages_def usize_checked_add_def h_def [symmetric] usize_sub_exact)
  then have "can_manage_pages (2 ^ s) re ss m (2 ^ s) \<longleftrightarrow> h \<le> re \<and> m \<le> (re - h) div 2 ^ s"
    using m by (auto simp: can_manage_pages_def metadata_layout_eq [OF x(1)])
  also have "\<dots> \<longleftrightarrow> h + m * 2 ^ s \<le> re"
    by (auto simp: less_eq_div_iff_mult_less_eq)
  also have "\<dots> \<longleftrightarrow> layout_fits s rs re m"
  proof
    assume "h + m * 2 ^ s \<le> re"
    then show "layout_fits s rs re m"
      unfolding layout_fits_iff [OF env] using b(1,2) ss(1) by (intro exI [of _ h]) simp
  next
    assume "layout_fits s rs re m"
    then obtain x where x: "2 ^ s dvd x" "ss + 160 + m * 12 \<le> x" "x + m * 2 ^ s \<le> re"
      unfolding layout_fits_iff [OF env] ss(1) by blast
    then have "h \<le> x"
      by (intro b(4)) simp_all
    with x(3) show "h + m * 2 ^ s \<le> re"
      by linarith
  qed
  finally show ?thesis .
qed

lemma layout_fits_anti:
  assumes env: "layout_env s rs re" and "layout_fits s rs re m'" "m \<le> m'"
  shows "layout_fits s rs re m"
proof -
  have "m * 12 \<le> m' * 12" "m * 2 ^ s \<le> m' * 2 ^ s"
    using assms(3) by simp_all
  moreover obtain h where "2 ^ s dvd h" "buddy_align_up rs metadata_align + 160 + m' * 12 \<le> h"
    "h + m' * 2 ^ s \<le> re"
    using assms(2) unfolding layout_fits_iff [OF env] by blast
  ultimately show ?thesis
    unfolding layout_fits_iff [OF env] by (intro exI [of _ h] conjI) linarith+
qed

text \<open>The number of pages the search starts from is an upper bound.\<close>

lemma layout_fits_max:
  assumes env: "layout_env s rs re" and ss: "ss = buddy_align_up rs metadata_align"
    and fits: "layout_fits s rs re m" "1 \<le> m" and hss: "hss = buddy_align_up (ss + 160) (2 ^ s)"
  shows "hss < re \<and> m \<le> (re - hss) div 2 ^ s"
proof -
  note e = layout_envD [OF env]
  obtain h where h: "2 ^ s dvd h" "ss + 160 + m * 12 \<le> h" "h + m * 2 ^ s \<le> re"
    using fits(1) unfolding layout_fits_iff [OF env] ss by blast
  have "hss \<le> h"
    unfolding hss using h e by (intro buddy_align_up_bounds(4)) simp_all
  moreover have "1 * 2 ^ s \<le> m * 2 ^ s"
    using fits(2) by (intro mult_right_mono) simp_all
  ultimately have "hss + m * 2 ^ s \<le> re" "hss < re"
    using h(3) e(4) by linarith+
  then show ?thesis
    by (auto simp: less_eq_div_iff_mult_less_eq)
qed

lemma search_layout:
  assumes env: "layout_env s rs re" and ss: "ss = buddy_align_up rs metadata_align" "ss < re"
    and hss: "hss = buddy_align_up (ss + 160) (2 ^ s)"
    and mx: "mx = (if hss \<ge> re then 0 else (re - hss) div 2 ^ s)"
    and low: "low = search_pages (\<lambda>mid. can_manage_pages (2 ^ s) re ss mid (2 ^ s)) 0 mx"
  shows "low = 0 \<or> layout_fits s rs re low" "layout_fits s rs re m \<Longrightarrow> 1 \<le> m \<Longrightarrow> m \<le> low"
proof -
  note e = layout_envD [OF env]
  let ?can = "\<lambda>mid. can_manage_pages (2 ^ s) re ss mid (2 ^ s)"
  have "ss + 160 + 2 ^ s \<le> usize_lim"
    using ss(2) e by linarith
  note up = buddy_align_up_bounds(2) [OF this e(1), folded hss]
  have can: "?can m \<longleftrightarrow> layout_fits s rs re m" if "1 \<le> m" "m \<le> mx" for m
  proof -
    have "hss < re" "m * 2 ^ s \<le> re - hss"
      using that mx by (auto simp: less_eq_div_iff_mult_less_eq split: if_splits)
    moreover have "m * 12 \<le> m * 2 ^ s"
      using e(4) by (intro mult_left_mono) simp_all
    ultimately have "ss + 160 + m * 12 \<le> re"
      using up by linarith
    then show ?thesis
      using can_manage_iff [OF env ss(1) _ that(1)] by blast
  qed
  have can0: "?can 0"
    using ss(2) e by (auto simp: can_manage_pages_def metadata_layout_eq [of 0, simplified] available_heap_pages_def
        usize_lim_def usize_checked_add_def Let_def)
  note b = search_pages_bounds [of 0 mx ?can, folded low, simplified]
  show "low = 0 \<or> layout_fits s rs re low"
    using b can [of low] by (cases "low = 0") auto
  assume m: "layout_fits s rs re m" "1 \<le> m"
  have mmx: "m \<le> mx"
    using layout_fits_max [OF env ss(1) m hss] by (auto simp: mx)
  have anti: "?can k" if "k \<le> k'" "k' \<le> mx" "?can k'" for k k'
    using that can [of k] can [of k'] can0 layout_fits_anti [OF env, of k' k] by (cases "k = 0") auto
  show "m \<le> low"
    unfolding low using search_pages_greatest [of 0 mx ?can m] anti mmx can [OF m(2) mmx] m by auto
qed

text \<open>What a computed layout looks like.\<close>

definition layout_ok :: "nat \<Rightarrow> usize \<Rightarrow> usize \<Rightarrow> nat \<Rightarrow> region_layout \<Rightarrow> bool" where
  "layout_ok s rs re m l \<longleftrightarrow> 1 \<le> m \<and> align_of_section dvd rl_section_start l \<and> rs \<le> rl_section_start l \<and>
     rl_meta_start l = rl_section_start l + size_of_section \<and>
     rl_meta_start l + m * size_of_page_meta \<le> rl_managed_heap_start l \<and>
     2 ^ s dvd rl_managed_heap_start l \<and> rl_managed_heap_size l = m * 2 ^ s \<and>
     rl_managed_heap_start l + rl_managed_heap_size l \<le> re"

lemma compute_layout_ok:
  assumes env: "layout_env s rs re" and re: "re = rs + rz"
  shows "case compute_region_layout (2 ^ s) rs rz of
      None \<Rightarrow> \<forall>m\<ge>1. \<not> layout_fits s rs re m
    | Some l \<Rightarrow> \<exists>m. layout_ok s rs re m l \<and> (\<forall>m'\<ge>1. layout_fits s rs re m' \<longrightarrow> m' \<le> m)"
proof -
  note e = layout_envD [OF env]
  define ss where "ss = buddy_align_up rs metadata_align"
  note sec = section_start [OF env, folded ss_def]
  have pw: "is_power_of_two (2 ^ s)" "rz \<noteq> 0" "usize_checked_add rs rz = Some re"
    using e re by (auto simp: is_power_of_two_iff)
  show ?thesis
  proof (cases "ss < re")
    case False
    have "\<not> layout_fits s rs re m" for m
      using False unfolding layout_fits_iff [OF env] ss_def [symmetric] by auto
    moreover have "compute_region_layout (2 ^ s) rs rz = None"
      unfolding compute_region_layout_def compute_region_layout_with_heap_align_def pw(3) Option.bind.simps
        Let_def ss_def [symmetric] using False by simp
    ultimately show ?thesis
      by simp
  next
    case True
    define hss where "hss = buddy_align_up (ss + 160) (2 ^ s)"
    define mx where "mx = (if hss \<ge> re then 0 else (re - hss) div 2 ^ s)"
    define low where "low = search_pages (\<lambda>mid. can_manage_pages (2 ^ s) re ss mid (2 ^ s)) 0 mx"
    have mx: "(if hss \<ge> re then 0 else usize_sub re hss div 2 ^ s) = mx"
      by (simp add: mx_def usize_sub_exact)
    note sl = search_layout [OF env ss_def True hss_def mx_def low_def]
    have add: "usize_checked_add ss size_of_section = Some (ss + 160)"
      using True e by (simp add: meta_sizes)
    have nle: "\<not> re \<le> ss"
      using True by simp
    have run: "compute_region_layout (2 ^ s) rs rz =
        (if low = 0 then None
         else do {
            (meta_offset, meta_size) \<leftarrow> metadata_layout_for_pages low;
            meta_start \<leftarrow> usize_checked_add ss meta_offset;
            y \<leftarrow> usize_checked_add ss meta_size;
            let managed_heap_start = buddy_align_up y (2 ^ s);
            managed_heap_size \<leftarrow> usize_checked_mul low (2 ^ s);
            Some \<lparr>rl_section_start = ss, rl_meta_start = meta_start,
              rl_managed_heap_start = managed_heap_start, rl_managed_heap_size = managed_heap_size\<rparr>
          })"
      unfolding compute_region_layout_def compute_region_layout_with_heap_align_def pw(3) Option.bind.simps
        Let_def ss_def [symmetric] add hss_def [symmetric] mx low_def [symmetric]
      using pw(1,2) nle by (simp only: if_False if_True simp_thms)
    show ?thesis
    proof (cases "low = 0")
      case z: True
      have "\<not> layout_fits s rs re m" if "1 \<le> m" for m
        using sl(2) [OF _ that] z that by auto
      then show ?thesis
        unfolding run using z by simp
    next
      case nz: False
      then have fit: "layout_fits s rs re low"
        using sl(1) by blast
      obtain x where x: "2 ^ s dvd x" "ss + 160 + low * 12 \<le> x" "x + low * 2 ^ s \<le> re"
        using fit unfolding layout_fits_iff [OF env] ss_def by blast
      have lim: "160 + low * 12 < usize_lim" "ss + 160 < usize_lim" "ss + (160 + low * 12) < usize_lim"
        "low * 2 ^ s < usize_lim" "ss + (160 + low * 12) + 2 ^ s \<le> usize_lim"
        using x e by linarith+
      note b = buddy_align_up_bounds [OF lim(5) e(1)]
      have "compute_region_layout (2 ^ s) rs rz = Some \<lparr>rl_section_start = ss, rl_meta_start = ss + 160,
          rl_managed_heap_start = buddy_align_up (ss + (160 + low * 12)) (2 ^ s),
          rl_managed_heap_size = low * 2 ^ s\<rparr>" (is "_ = Some ?l")
        unfolding run using nz lim
        by (simp add: metadata_layout_eq usize_checked_add_def usize_checked_mul_def)
      moreover have "layout_ok s rs re low ?l"
        unfolding layout_ok_def using nz sec b(1,2) b(4) [OF x(1)] x(2,3) by (simp add: meta_sizes)
      ultimately show ?thesis
        using sl(2) by auto
    qed
  qed
qed

text \<open>C31: the layout of a region is inside the region and in order: header, one descriptor per page,
  aligned heap; it manages the largest number of pages for which that is possible, and there is no layout
  only if not even one page fits.\<close>

theorem region_layout_correct:
  assumes "4 \<le> s" "s < 64" "0 < rz" "rs + rz + size_of_section + 2 ^ s \<le> usize_lim"
  shows "case compute_region_layout (2 ^ s) rs rz of
      None \<Rightarrow> \<forall>m\<ge>1. \<not> layout_fits s rs (rs + rz) m
    | Some l \<Rightarrow> \<exists>m. layout_ok s rs (rs + rz) m l \<and> (\<forall>m'\<ge>1. layout_fits s rs (rs + rz) m' \<longrightarrow> m' \<le> m)"
  using assms by (intro compute_layout_ok) (simp_all add: layout_env_def meta_sizes)

theorem region_layout_correct_witness:
  "\<exists>l m. compute_region_layout 16 1024 208 = Some l \<and> layout_ok 4 1024 1232 m l"
proof -
  have "compute_region_layout 16 1024 208 \<noteq> None"
    by code_simp
  moreover have "case compute_region_layout (2 ^ 4) 1024 208 of
      None \<Rightarrow> \<forall>m\<ge>1. \<not> layout_fits 4 1024 (1024 + 208) m
    | Some l \<Rightarrow> \<exists>m. layout_ok 4 1024 (1024 + 208) m l \<and>
        (\<forall>m'\<ge>1. layout_fits 4 1024 (1024 + 208) m' \<longrightarrow> m' \<le> m)"
    by (rule region_layout_correct) (code_simp+)
  ultimately show ?thesis
    by auto
qed

end
