(* ===== verification/BuddyAllocator.thy ===== *)
theory BuddyAllocator
  imports BuddySection BuddyLayout
begin

text \<open>
  The buddy allocator over its sections. Its abstract state is the set of live blocks, each an address
  with an order; \<open>alloc_pages\<close> adds a block that overlaps none of them and \<open>dealloc_pages\<close> takes one out.
\<close>

section \<open>The requested order\<close>

lemma find_upt:
  "List.find P [0..<n] = (if \<exists>k<n. P k then Some (LEAST k. P k) else None)"
proof (cases "\<exists>k<n. P k")
  case True
  then obtain k where k: "k < n" "P k"
    by blast
  define l where "l = (LEAST k. P k)"
  have l: "l < n" "P l"
    using Least_le [of P k] LeastI [of P k] k by (simp_all add: l_def)
  have "\<not> P j" if "j < l" for j
    using not_less_Least [of j P] that by (simp add: l_def)
  with l have "List.find P [0..<n] = Some l"
    unfolding find_Some_iff by (intro exI [of _ l]) simp
  with True show ?thesis
    by (simp add: l_def)
next
  case False
  then show ?thesis
    by (auto simp: find_None_iff)
qed

lemma trailing_zeros_pow2: "k < 64 \<Longrightarrow> trailing_zeros (2 ^ k) = k"
  by (auto simp: trailing_zeros_def find_upt bit_exp_iff intro: Least_equality)

lemma order_for_count:
  assumes "trailing_zeros (next_power_of_two count) \<le> MAX_ORDER"
  shows "count \<le> 2 ^ trailing_zeros (next_power_of_two count)"
    "k < trailing_zeros (next_power_of_two count) \<Longrightarrow> 2 ^ k < count"
proof -
  have "trailing_zeros 0 = 64"
    by (simp add: trailing_zeros_def find_upt)
  then have ex: "\<exists>k<64. count \<le> 2 ^ k"
    using assms by (auto simp: next_power_of_two_def find_upt MAX_ORDER_def split: if_splits)
  let ?k = "LEAST k. count \<le> 2 ^ k"
  have k: "?k < 64" "count \<le> 2 ^ ?k"
    using ex Least_le [of "\<lambda>k. count \<le> 2 ^ k"] LeastI_ex [of "\<lambda>k. count \<le> 2 ^ k"]
    by (auto intro: le_less_trans)
  have eq: "trailing_zeros (next_power_of_two count) = ?k"
    using ex k(1) by (simp add: next_power_of_two_def find_upt trailing_zeros_pow2)
  show "count \<le> 2 ^ trailing_zeros (next_power_of_two count)"
    unfolding eq by (rule k)
  show "2 ^ k < count" if "k < trailing_zeros (next_power_of_two count)"
    using not_less_Least [of k "\<lambda>k. count \<le> 2 ^ k"] that unfolding eq by simp
qed

section \<open>The state\<close>

type_synonym live_block = "usize \<times> nat"

definition addrs :: "nat \<Rightarrow> live_block \<Rightarrow> usize set" where
  "addrs s b = {fst b..<fst b + 2 ^ snd b * 2 ^ s}"

definition heap_range :: "buddy_section \<Rightarrow> usize set" where
  "heap_range sec = {bs_heap_start sec..<bs_heap_start sec + bs_heap_size sec}"

definition region_range :: "buddy_section \<Rightarrow> usize set" where
  "region_range sec = {bs_region_start sec..<bs_region_start sec + bs_region_size sec}"

type_synonym section_rep = "(nat \<Rightarrow> nat list) \<times> block set"

definition sec_ok :: "nat \<Rightarrow> buddy_section \<Rightarrow> section_rep \<Rightarrow> bool" where
  "sec_ok s sec r \<longleftrightarrow> sec_rep sec (fst r) (snd r) \<and> sec_geom s sec \<and>
     bs_heap_size sec = bs_total_pages sec * 2 ^ s \<and> heap_range sec \<subseteq> region_range sec \<and>
     bs_region_start sec + bs_region_size sec < usize_lim \<and> 0 < bs_heap_start sec"

definition ba_rep :: "nat \<Rightarrow> buddy_allocator \<Rightarrow> section_rep list \<Rightarrow> bool" where
  "ba_rep s ba reps \<longleftrightarrow> list_all2 (sec_ok s) (ba_sections ba) reps \<and>
     ba_section_count ba = length (ba_sections ba) mod usize_lim \<and>
     (\<forall>i<length (ba_sections ba). \<forall>j<length (ba_sections ba). i \<noteq> j \<longrightarrow>
        region_range (ba_sections ba ! i) \<inter> region_range (ba_sections ba ! j) = {})"

text \<open>The live blocks of the whole allocator.\<close>

definition sec_live :: "nat \<Rightarrow> buddy_section \<Rightarrow> section_rep \<Rightarrow> live_block set" where
  "sec_live s sec r = {(block_addr (2 ^ s) sec q, k) |q k. (q, k) \<in> snd r}"

definition live :: "nat \<Rightarrow> buddy_allocator \<Rightarrow> section_rep list \<Rightarrow> live_block set" where
  "live s ba reps = (\<Union>i<length (ba_sections ba). sec_live s (ba_sections ba ! i) (reps ! i))"

lemma ba_repD:
  assumes "ba_rep s ba reps"
  shows "length reps = length (ba_sections ba)"
    "i < length (ba_sections ba) \<Longrightarrow> sec_ok s (ba_sections ba ! i) (reps ! i)"
    "i < length (ba_sections ba) \<Longrightarrow> j < length (ba_sections ba) \<Longrightarrow> i \<noteq> j \<Longrightarrow>
      region_range (ba_sections ba ! i) \<inter> region_range (ba_sections ba ! j) = {}"
    "ba_section_count ba = length (ba_sections ba) mod usize_lim"
  using assms by (auto simp: ba_rep_def list_all2_conv_all_nth)

text \<open>The addresses of a block inside its section.\<close>

lemma addrs_block:
  assumes "x \<in> addrs s (block_addr (2 ^ s) sec q, k)"
  shows "bs_heap_start sec \<le> x" "(x - bs_heap_start sec) div 2 ^ s \<in> pages (q, k)"
proof -
  have x: "bs_heap_start sec + q * 2 ^ s \<le> x" "x < bs_heap_start sec + (q + 2 ^ k) * 2 ^ s"
    using assms by (simp_all add: addrs_def block_addr_def algebra_simps)
  then show "bs_heap_start sec \<le> x"
    by linarith
  then have "q * 2 ^ s \<le> x - bs_heap_start sec" "x - bs_heap_start sec < (q + 2 ^ k) * 2 ^ s"
    using x by linarith+
  then show "(x - bs_heap_start sec) div 2 ^ s \<in> pages (q, k)"
    by (simp add: pages_def less_eq_div_iff_mult_less_eq div_less_iff_less_mult)
qed

lemma addrs_disjoint:
  assumes "pages (q, k) \<inter> pages (q', k') = {}"
  shows "addrs s (block_addr (2 ^ s) sec q, k) \<inter> addrs s (block_addr (2 ^ s) sec q', k') = {}"
  using assms addrs_block(2) by blast

lemma addrs_in_heap:
  assumes "sec_ok s sec r" "q + 2 ^ k \<le> bs_total_pages sec"
  shows "addrs s (block_addr (2 ^ s) sec q, k) \<subseteq> heap_range sec"
proof
  fix x assume x: "x \<in> addrs s (block_addr (2 ^ s) sec q, k)"
  have "(x - bs_heap_start sec) div 2 ^ s < bs_total_pages sec"
    using addrs_block(2) [OF x] assms(2) by (simp add: pages_def)
  then have "x - bs_heap_start sec < bs_total_pages sec * 2 ^ s"
    by (simp add: div_less_iff_less_mult)
  with addrs_block(1) [OF x] assms(1) show "x \<in> heap_range sec"
    by (auto simp: heap_range_def sec_ok_def)
qed

lemma heap_disjoint:
  assumes "ba_rep s ba reps" "i < length (ba_sections ba)" "j < length (ba_sections ba)" "i \<noteq> j"
  shows "heap_range (ba_sections ba ! i) \<inter> heap_range (ba_sections ba ! j) = {}"
  using ba_repD(2) [OF assms(1,2)] ba_repD(2) [OF assms(1,3)] ba_repD(3) [OF assms]
  unfolding sec_ok_def by blast

lemma same_geometry_ranges:
  "same_geometry sec sec' \<Longrightarrow> heap_range sec' = heap_range sec \<and> region_range sec' = region_range sec"
  by (simp add: same_geometry_def heap_range_def region_range_def)

lemma sec_ok_geometry:
  assumes "sec_ok s sec r" "same_geometry sec sec'" "sec_rep sec' fl' A'"
  shows "sec_ok s sec' (fl', A')"
  using assms same_geometry_ranges [OF assms(2)] same_geometry_simps(1) [OF assms(2), of s]
  by (simp add: sec_ok_def same_geometry_def)

text \<open>Replacing one section by one of the same geometry.\<close>

lemma ba_rep_update:
  assumes rep: "ba_rep s ba reps" and i: "i < length (ba_sections ba)"
    and g: "same_geometry (ba_sections ba ! i) sec'" and r: "sec_rep sec' fl' A'"
  shows "ba_rep s (ba\<lparr>ba_sections := (ba_sections ba)[i := sec']\<rparr>) (reps[i := (fl', A')])"
proof -
  have ranges: "region_range ((ba_sections ba)[i := sec'] ! j) = region_range (ba_sections ba ! j)"
    if "j < length (ba_sections ba)" for j
    using same_geometry_ranges [OF g] that by (cases "j = i") auto
  have "sec_ok s sec' (fl', A')"
    by (rule sec_ok_geometry [OF ba_repD(2) [OF rep i] g r])
  then have "list_all2 (sec_ok s) ((ba_sections ba)[i := sec']) (reps[i := (fl', A')])"
    using rep by (auto simp: ba_rep_def intro: list_all2_update_cong)
  with rep ranges show ?thesis
    by (simp add: ba_rep_def)
qed

lemma live_update:
  assumes rep: "ba_rep s ba reps" and i: "i < length (ba_sections ba)"
    and g: "same_geometry (ba_sections ba ! i) sec'"
  shows "live s (ba\<lparr>ba_sections := (ba_sections ba)[i := sec']\<rparr>) (reps[i := r']) =
    (\<Union>j\<in>{..<length (ba_sections ba)} - {i}. sec_live s (ba_sections ba ! j) (reps ! j)) \<union>
    sec_live s (ba_sections ba ! i) r'"
proof -
  let ?X = "sec_live s (ba_sections ba ! i) r'" and ?f = "\<lambda>j. sec_live s (ba_sections ba ! j) (reps ! j)"
  have X: "sec_live s sec' r' = ?X"
    using same_geometry_simps(3) [OF g] by (simp add: sec_live_def)
  have g: "sec_live s ((ba_sections ba)[i := sec'] ! j) (reps[i := r'] ! j) = (if j = i then ?X else ?f j)" for j
    using i ba_repD(1) [OF rep] X by simp
  have "live s (ba\<lparr>ba_sections := (ba_sections ba)[i := sec']\<rparr>) (reps[i := r']) =
      (\<Union>j<length (ba_sections ba). if j = i then ?X else ?f j)"
    by (simp add: live_def g)
  also have "\<dots> = (\<Union>j\<in>{..<length (ba_sections ba)} - {i}. ?f j) \<union> ?X"
    using i by (auto split: if_splits)
  finally show ?thesis .
qed

lemma live_split:
  assumes "ba_rep s ba reps" "i < length (ba_sections ba)"
  shows "live s ba reps = (\<Union>j\<in>{..<length (ba_sections ba)} - {i}. sec_live s (ba_sections ba ! j) (reps ! j)) \<union>
    sec_live s (ba_sections ba ! i) (reps ! i)"
  using live_update [OF assms, of "ba_sections ba ! i" "reps ! i"] by (simp add: same_geometry_def)

section \<open>Allocation\<close>

lemma alloc_sections_ok:
  assumes "length reps = length secs"
    "\<forall>i<length secs. alloc_outcome s (secs ! i) (snd (reps ! i)) order align (ok (secs ! i)) (try_alloc (secs ! i))"
  shows "(\<exists>i sec' q fl'. i < length secs \<and>
      alloc_sections try_alloc secs = Some (Inr (block_addr (2 ^ s) (secs ! i) q), secs[i := sec']) \<and>
      free_run (2 ^ s) (secs ! i) (snd (reps ! i)) order align q \<and> ok (secs ! i) q \<and>
      (q, order) \<notin> snd (reps ! i) \<and> sec_rep sec' fl' (insert (q, order) (snd (reps ! i))) \<and>
      same_geometry (secs ! i) sec') \<or>
    (alloc_sections try_alloc secs = Some (Inl NoMemory, secs) \<and>
      (\<forall>i<length secs. \<forall>q. free_run (2 ^ s) (secs ! i) (snd (reps ! i)) order align q \<longrightarrow> \<not> ok (secs ! i) q))"
  using assms
proof (induction secs arbitrary: reps)
  case Nil
  then show ?case
    by simp
next
  case (Cons sec secs)
  obtain r rs where reps: "reps = r # rs"
    using Cons.prems(1) by (cases reps) auto
  have h: "alloc_outcome s sec (snd r) order align (ok sec) (try_alloc sec)"
    using Cons.prems(2) reps by (auto dest: spec [of _ 0])
  from h consider (found) q sec' fl' where "try_alloc sec = Some (Inr (block_addr (2 ^ s) sec q), sec')"
      "free_run (2 ^ s) sec (snd r) order align q" "ok sec q" "(q, order) \<notin> snd r"
      "sec_rep sec' fl' (insert (q, order) (snd r))" "same_geometry sec sec'"
    | (none) "try_alloc sec = Some (Inl NoMemory, sec)"
      "\<forall>q. free_run (2 ^ s) sec (snd r) order align q \<longrightarrow> \<not> ok sec q"
    unfolding alloc_outcome_def by blast
  then show ?case
  proof cases
    case found
    show ?thesis
      by (rule disjI1, rule exI [of _ 0], rule exI [of _ sec'], rule exI [of _ q], rule exI [of _ fl'])
        (use found reps in simp)
  next
    case none
    have "length rs = length secs"
      and "\<forall>i<length secs. alloc_outcome s (secs ! i) (snd (rs ! i)) order align (ok (secs ! i)) (try_alloc (secs ! i))"
      using Cons.prems reps by (auto dest: spec [of _ "Suc _"])
    from Cons.IH [OF this] show ?thesis
    proof (elim disjE exE conjE)
      fix i sec' q fl' assume "i < length secs"
        "alloc_sections try_alloc secs = Some (Inr (block_addr (2 ^ s) (secs ! i) q), secs[i := sec'])"
        "free_run (2 ^ s) (secs ! i) (snd (rs ! i)) order align q" "ok (secs ! i) q" "(q, order) \<notin> snd (rs ! i)"
        "sec_rep sec' fl' (insert (q, order) (snd (rs ! i)))" "same_geometry (secs ! i) sec'"
      then show ?thesis
        by (intro disjI1 exI [of _ "Suc i"] exI [of _ sec'] exI [of _ q] exI [of _ fl'])
          (use none(1) reps in simp)
    next
      assume "alloc_sections try_alloc secs = Some (Inl NoMemory, secs)"
        "\<forall>i<length secs. \<forall>q. free_run (2 ^ s) (secs ! i) (snd (rs ! i)) order align q \<longrightarrow> \<not> ok (secs ! i) q"
      then show ?thesis
        using none reps by (auto simp: less_Suc_eq_0_disj)
    qed
  qed
qed

text \<open>A run of free pages is apart from every live block.\<close>

lemma free_run_apart:
  assumes rep: "ba_rep s ba reps" and i: "i < length (ba_sections ba)"
    and run: "free_run (2 ^ s) (ba_sections ba ! i) (snd (reps ! i)) order align q" and b: "b \<in> live s ba reps"
  shows "addrs s b \<inter> addrs s (block_addr (2 ^ s) (ba_sections ba ! i) q, order) = {}"
proof -
  obtain j q' k where j: "j < length (ba_sections ba)" "(q', k) \<in> snd (reps ! j)"
    and b': "b = (block_addr (2 ^ s) (ba_sections ba ! j) q', k)"
    using b unfolding live_def sec_live_def by blast
  have core: "sec_core (ba_sections ba ! j) (fst (reps ! j)) (snd (reps ! j)) {}"
    using ba_repD(2) [OF rep j(1)] by (simp add: sec_ok_def sec_rep_def)
  show ?thesis
  proof (cases "j = i")
    case True
    have "pages (q', k) \<subseteq> pages_of (snd (reps ! i))"
      using j(2) True unfolding pages_of_def by blast
    then have "pages (q', k) \<inter> pages (q, order) = {}"
      using run unfolding free_run_def by blast
    then show ?thesis
      unfolding b' True by (rule addrs_disjoint)
  next
    case False
    have "addrs s b \<subseteq> heap_range (ba_sections ba ! j)"
      unfolding b' using sec_core_block(3) [OF core, of q' k] j(2)
      by (intro addrs_in_heap [OF ba_repD(2) [OF rep j(1)]]) simp
    moreover have "pages (q, order) \<subseteq> {..<bs_total_pages (ba_sections ba ! i)}"
      using run by (auto simp: free_run_def)
    then have "q + 2 ^ order \<le> bs_total_pages (ba_sections ba ! i)"
      by (simp add: pages_def atLeastLessThan_subset_iff flip: atLeast0LessThan)
    then have "addrs s (block_addr (2 ^ s) (ba_sections ba ! i) q, order) \<subseteq> heap_range (ba_sections ba ! i)"
      by (rule addrs_in_heap [OF ba_repD(2) [OF rep i]])
    ultimately show ?thesis
      using heap_disjoint [OF rep j(1) i False] by blast
  qed
qed

text \<open>The outcome of a request to the allocator.\<close>

definition pages_outcome ::
  "nat \<Rightarrow> buddy_allocator \<Rightarrow> section_rep list \<Rightarrow> nat \<Rightarrow> usize \<Rightarrow> (buddy_section \<Rightarrow> nat \<Rightarrow> bool) \<Rightarrow>
     (usize alloc_result \<times> buddy_allocator) option \<Rightarrow> bool" where
  "pages_outcome s ba reps order align ok r \<longleftrightarrow>
     (\<exists>addr ba' reps'. r = Some (Inr addr, ba') \<and> ba_rep s ba' reps' \<and>
        live s ba' reps' = insert (addr, order) (live s ba reps) \<and> (addr, order) \<notin> live s ba reps \<and>
        align dvd addr \<and> (\<forall>b\<in>live s ba reps. addrs s b \<inter> addrs s (addr, order) = {}) \<and>
        (\<exists>sec q. sec \<in> set (ba_sections ba) \<and> ok sec q \<and> addr = block_addr (2 ^ s) sec q \<and>
           addrs s (addr, order) \<subseteq> heap_range sec)) \<or>
     (r = Some (Inl NoMemory, ba) \<and>
        (\<forall>i<length (ba_sections ba). \<forall>q.
           free_run (2 ^ s) (ba_sections ba ! i) (snd (reps ! i)) order align q \<longrightarrow> \<not> ok (ba_sections ba ! i) q))"

lemma alloc_pages_with_ok:
  assumes rep: "ba_rep s ba reps" and req: "0 < count" "align = (if align0 = 0 then 2 ^ s else align0)"
    "is_power_of_two align" "2 ^ s \<le> align" "trailing_zeros (next_power_of_two count) = order" "order \<le> MAX_ORDER"
    and try_ok: "\<forall>i<length (ba_sections ba). alloc_outcome s (ba_sections ba ! i) (snd (reps ! i)) order align
      (ok (ba_sections ba ! i)) (try_alloc order align (ba_sections ba ! i))"
  shows "pages_outcome s ba reps order align ok (alloc_pages_with try_alloc (2 ^ s) ba count align0)"
proof -
  have run: "alloc_pages_with try_alloc (2 ^ s) ba count align0 =
      do { (r, secs) \<leftarrow> alloc_sections (try_alloc order align) (ba_sections ba);
           Some (r, ba\<lparr>ba_sections := secs\<rparr>) }"
    using req by (simp add: alloc_pages_with_def Let_def split del: if_split)
  consider (found) i sec' q fl' where "i < length (ba_sections ba)"
      "alloc_sections (try_alloc order align) (ba_sections ba) =
        Some (Inr (block_addr (2 ^ s) (ba_sections ba ! i) q), (ba_sections ba)[i := sec'])"
      "free_run (2 ^ s) (ba_sections ba ! i) (snd (reps ! i)) order align q" "ok (ba_sections ba ! i) q"
      "(q, order) \<notin> snd (reps ! i)" "sec_rep sec' fl' (insert (q, order) (snd (reps ! i)))"
      "same_geometry (ba_sections ba ! i) sec'"
    | (none) "alloc_sections (try_alloc order align) (ba_sections ba) = Some (Inl NoMemory, ba_sections ba)"
      "\<forall>i<length (ba_sections ba). \<forall>q.
           free_run (2 ^ s) (ba_sections ba ! i) (snd (reps ! i)) order align q \<longrightarrow> \<not> ok (ba_sections ba ! i) q"
    using alloc_sections_ok [OF ba_repD(1) [OF rep] try_ok] by blast
  then show ?thesis
  proof cases
    case found
    let ?sec = "ba_sections ba ! i" and ?A = "snd (reps ! i)"
    let ?addr = "block_addr (2 ^ s) ?sec q"
    define ba' where "ba' = ba\<lparr>ba_sections := (ba_sections ba)[i := sec']\<rparr>"
    define reps' where "reps' = reps[i := (fl', insert (q, order) ?A)]"
    have r: "alloc_pages_with try_alloc (2 ^ s) ba count align0 = Some (Inr ?addr, ba')"
      using run found(2) by (simp add: ba'_def)
    have rep': "ba_rep s ba' reps'"
      unfolding ba'_def reps'_def by (rule ba_rep_update [OF rep found(1,7,6)])
    have a1: "sec_live s ?sec (fl', insert (q, order) ?A) = insert (?addr, order) (sec_live s ?sec (reps ! i))"
      by (auto simp: sec_live_def)
    have live': "live s ba' reps' = insert (?addr, order) (live s ba reps)"
      unfolding ba'_def reps'_def live_update [OF rep found(1,7)] a1 live_split [OF rep found(1)]
      by (rule Un_insert_right)
    have apart: "\<forall>b\<in>live s ba reps. addrs s b \<inter> addrs s (?addr, order) = {}"
      using free_run_apart [OF rep found(1,3)] by blast
    have "?addr \<in> addrs s (?addr, order)"
      by (simp add: addrs_def)
    with apart have new: "(?addr, order) \<notin> live s ba reps"
      by blast
    have "pages (q, order) \<subseteq> {..<bs_total_pages ?sec}"
      using found(3) by (auto simp: free_run_def)
    then have "q + 2 ^ order \<le> bs_total_pages ?sec"
      by (simp add: pages_def atLeastLessThan_subset_iff flip: atLeast0LessThan)
    then have inh: "addrs s (?addr, order) \<subseteq> heap_range ?sec"
      by (rule addrs_in_heap [OF ba_repD(2) [OF rep found(1)]])
    have "align dvd ?addr" "?sec \<in> set (ba_sections ba)"
      using found(1,3) by (auto simp: free_run_def)
    with r rep' live' new apart inh found(4) show ?thesis
      unfolding pages_outcome_def by blast
  next
    case none
    then show ?thesis
      unfolding pages_outcome_def run by simp
  qed
qed

lemma valid_align:
  assumes "is_power_of_two align" "2 ^ s \<le> align"
  shows "\<exists>j. s + j < 64 \<and> align = 2 ^ (s + j)"
proof -
  obtain k where k: "k < 64" "align = 2 ^ k"
    using assms(1) by (rule is_power_of_twoE)
  then have "s \<le> k"
    using assms(2) by simp
  with k show ?thesis
    by (intro exI [of _ "k - s"]) simp
qed

lemma alloc_pages_ok:
  assumes rep: "ba_rep s ba reps" and req: "0 < count" "align = (if align0 = 0 then 2 ^ s else align0)"
    "is_power_of_two align" "2 ^ s \<le> align" "trailing_zeros (next_power_of_two count) = order" "order \<le> MAX_ORDER"
  shows "pages_outcome s ba reps order align (\<lambda>_ _. True) (alloc_pages (2 ^ s) ba count align0)"
  unfolding alloc_pages_def
proof (rule alloc_pages_with_ok [OF rep req], intro allI impI)
  fix i assume i: "i < length (ba_sections ba)"
  obtain j where j: "s + j < 64" "align = 2 ^ (s + j)"
    using valid_align [OF req(3,4)] by blast
  note r = ba_repD(2) [OF rep i, unfolded sec_ok_def]
  show "alloc_outcome s (ba_sections ba ! i) (snd (reps ! i)) order align (\<lambda>_. True)
      (alloc_from_section_aligned (2 ^ s) (ba_sections ba ! i) order align)"
    unfolding j(2) using r alloc_section_ok [OF _ _ req(6) j(1)] by blast
qed

lemma alloc_pages_lowmem_ok:
  assumes rep: "ba_rep s ba reps" and req: "0 < count" "align = (if align0 = 0 then 2 ^ s else align0)"
    "is_power_of_two align" "2 ^ s \<le> align" "trailing_zeros (next_power_of_two count) = order" "order \<le> MAX_ORDER"
    and vp: "\<forall>sec\<in>set (ba_sections ba). linear_map vp s sec"
  shows "pages_outcome s ba reps order align (\<lambda>sec. low_block vp s sec order)
    (alloc_pages_lowmem vp (2 ^ s) ba count align0)"
  unfolding alloc_pages_lowmem_def
proof (rule alloc_pages_with_ok [OF rep req], intro allI impI)
  fix i assume i: "i < length (ba_sections ba)"
  obtain j where j: "s + j < 64" "align = 2 ^ (s + j)"
    using valid_align [OF req(3,4)] by blast
  have "linear_map vp s (ba_sections ba ! i)"
    using vp i by simp
  note r = ba_repD(2) [OF rep i, unfolded sec_ok_def]
  show "alloc_outcome s (ba_sections ba ! i) (snd (reps ! i)) order align
      (low_block vp s (ba_sections ba ! i) order)
      (alloc_lowmem_from_section vp (2 ^ s) (ba_sections ba ! i) order align)"
    unfolding j(2) using r alloc_lowmem_section_ok [OF _ _ req(6) j(1) \<open>linear_map _ _ _\<close>] by blast
qed

section \<open>Release\<close>

lemma contains_heap_addr_iff:
  assumes "sec_ok s sec r"
  shows "contains_heap_addr sec addr \<longleftrightarrow> addr \<in> heap_range sec"
proof -
  have "bs_heap_start sec + bs_heap_size sec < usize_lim"
    using assms by (simp add: sec_ok_def sec_geom_def)
  then show ?thesis
    by (simp add: contains_heap_addr_def heap_range_def usize_add_exact)
qed

lemma find_section_by_addr_Some:
  assumes "i < length secs" "contains_heap_addr (secs ! i) addr" "\<forall>j<i. \<not> contains_heap_addr (secs ! j) addr"
  shows "find_section_by_addr secs addr = Some i"
  using assms
proof (induction secs arbitrary: i)
  case (Cons sec secs)
  show ?case
  proof (cases i)
    case 0
    with Cons.prems show ?thesis
      by simp
  next
    case (Suc n)
    have "find_section_by_addr secs addr = Some n"
    proof (rule Cons.IH)
      show "\<forall>j<n. \<not> contains_heap_addr (secs ! j) addr"
        using Cons.prems(3) Suc by fastforce
    qed (use Cons.prems Suc in auto)
    moreover have "\<not> contains_heap_addr sec addr"
      using Cons.prems(3) Suc by fastforce
    ultimately show ?thesis
      using Suc by simp
  qed
qed simp

lemma find_section_live:
  assumes rep: "ba_rep s ba reps" and i: "i < length (ba_sections ba)" and a: "addr \<in> heap_range (ba_sections ba ! i)"
  shows "find_section_by_addr (ba_sections ba) addr = Some i"
proof (rule find_section_by_addr_Some [OF i])
  show "contains_heap_addr (ba_sections ba ! i) addr"
    using contains_heap_addr_iff [OF ba_repD(2) [OF rep i]] a by blast
  show "\<forall>j<i. \<not> contains_heap_addr (ba_sections ba ! j) addr"
    using contains_heap_addr_iff ba_repD(2) [OF rep] heap_disjoint [OF rep i] i a
    by (metis (no_types, lifting) disjoint_iff less_irrefl less_trans)
qed

lemma dealloc_pages_ok:
  assumes rep: "ba_rep s ba reps" and l: "(addr, k) \<in> live s ba reps"
  shows "\<exists>ba' reps'. dealloc_pages (2 ^ s) ba addr count = Some ba' \<and> ba_rep s ba' reps' \<and>
    live s ba' reps' = live s ba reps - {(addr, k)}"
proof -
  obtain i q where i: "i < length (ba_sections ba)" and q: "(q, k) \<in> snd (reps ! i)"
    and addr: "addr = block_addr (2 ^ s) (ba_sections ba ! i) q"
    using l unfolding live_def sec_live_def by blast
  let ?sec = "ba_sections ba ! i" and ?A = "snd (reps ! i)"
  note ok = ba_repD(2) [OF rep i]
  have srep: "sec_rep ?sec (fst (reps ! i)) ?A" and geom: "sec_geom s ?sec"
    using ok by (simp_all add: sec_ok_def)
  then have core: "sec_core ?sec (fst (reps ! i)) ?A {}"
    by (simp add: sec_rep_def)
  note b = sec_core_block [OF core, of q k, simplified, OF disjI2 [OF q]]
  have inh: "addrs s (addr, k) \<subseteq> heap_range ?sec"
    unfolding addr by (rule addrs_in_heap [OF ok b(3)])
  then have "addr \<in> heap_range ?sec"
    by (auto simp: addrs_def)
  then have fs: "find_section_by_addr (ba_sections ba) addr = Some i"
    by (rule find_section_live [OF rep i])
  have pfn: "addr_pfn (2 ^ s) ?sec addr = q"
    unfolding addr addr_pfn_def by (simp add: block_addr_def usize_sub_exact)
  have ord: "pm_order (bs_meta ?sec ! q) = k"
    using sec_coreD(9) [OF core] q unfolding heads_marked_def by blast
  have ins: "insert (q, k) (?A - {(q, k)}) = ?A"
    using q by blast
  obtain sec' fl' where d: "dealloc_in_section ?sec q k = Some sec'" "sec_rep sec' fl' (?A - {(q, k)})"
    "same_geometry ?sec sec'"
    using dealloc_section_ok [of ?sec "fst (reps ! i)" q k "?A - {(q, k)}"] srep unfolding ins by blast
  define ba' where "ba' = ba\<lparr>ba_sections := (ba_sections ba)[i := sec']\<rparr>"
  define reps' where "reps' = reps[i := (fl', ?A - {(q, k)})]"
  have run: "dealloc_pages (2 ^ s) ba addr count = Some ba'"
    using fs pfn ord d(1) b(4) sec_coreD(1) [OF core] by (simp add: dealloc_pages_def meta_get_def ba'_def)
  have rep': "ba_rep s ba' reps'"
    unfolding ba'_def reps'_def by (rule ba_rep_update [OF rep i d(3,2)])
  have inj: "block_addr (2 ^ s) ?sec x = block_addr (2 ^ s) ?sec y \<longleftrightarrow> x = y" for x y
    by (simp add: block_addr_def)
  have here: "sec_live s ?sec (fl', ?A - {(q, k)}) = sec_live s ?sec (reps ! i) - {(addr, k)}"
    using inj by (auto simp: sec_live_def addr)
  have "(addr, k) \<notin> sec_live s (ba_sections ba ! j) (reps ! j)" if j: "j < length (ba_sections ba)" "j \<noteq> i" for j
  proof
    assume "(addr, k) \<in> sec_live s (ba_sections ba ! j) (reps ! j)"
    then obtain q' where q': "(q', k) \<in> snd (reps ! j)" "addr = block_addr (2 ^ s) (ba_sections ba ! j) q'"
      by (auto simp: sec_live_def)
    note okj = ba_repD(2) [OF rep j(1)]
    have "sec_core (ba_sections ba ! j) (fst (reps ! j)) (snd (reps ! j)) {}"
      using okj by (simp add: sec_ok_def sec_rep_def)
    then have "addrs s (addr, k) \<subseteq> heap_range (ba_sections ba ! j)"
      unfolding q'(2) using sec_core_block(3) q'(1) by (intro addrs_in_heap [OF okj]) blast
    then have "addr \<in> heap_range (ba_sections ba ! j)"
      by (auto simp: addrs_def)
    with \<open>addr \<in> heap_range ?sec\<close> heap_disjoint [OF rep j(1) i j(2)] show False
      by blast
  qed
  then have "live s ba' reps' = live s ba reps - {(addr, k)}"
    unfolding ba'_def reps'_def live_update [OF rep i d(3)] here live_split [OF rep i] by blast
  with run rep' show ?thesis
    by blast
qed

section \<open>Adding regions\<close>

lemma check_overlap_disjoint:
  assumes "check_overlap rs re secs = Inr ()" "sec \<in> set secs"
  shows "{rs..<re} \<inter> region_range sec = {}"
  using assms
proof (induction secs)
  case (Cons x xs)
  then show ?case
    by (auto simp: region_range_def split: option.splits if_splits)
qed simp

text \<open>The section a region becomes.\<close>

definition region_added ::
  "nat \<Rightarrow> buddy_allocator \<Rightarrow> section_rep list \<Rightarrow> usize \<Rightarrow> usize \<Rightarrow> buddy_allocator \<Rightarrow> bool" where
  "region_added s ba reps start len ba' \<longleftrightarrow> (\<exists>sec fl. ba_sections ba' = ba_sections ba @ [sec] \<and>
     ba_rep s ba' (reps @ [(fl, {})]) \<and> live s ba' (reps @ [(fl, {})]) = live s ba reps \<and>
     region_range sec \<subseteq> {start..<start + len} \<and> 1 \<le> bs_total_pages sec \<and>
     bs_free_pages sec = bs_total_pages sec)"

lemma ba_rep_append:
  assumes rep: "ba_rep s ba reps" and ok: "sec_ok s sec (fl, {})"
    and dj: "\<And>x. x \<in> set (ba_sections ba) \<Longrightarrow> region_range sec \<inter> region_range x = {}"
    and ba': "ba' = ba\<lparr>ba_sections := ba_sections ba @ [sec], ba_section_count := usize_add (ba_section_count ba) 1\<rparr>"
  shows "ba_rep s ba' (reps @ [(fl, {})])" "live s ba' (reps @ [(fl, {})]) = live s ba reps"
proof -
  have len: "length reps = length (ba_sections ba)"
    by (rule ba_repD(1) [OF rep])
  have "list_all2 (sec_ok s) (ba_sections ba @ [sec]) (reps @ [(fl, {})])"
    using rep ok by (simp add: ba_rep_def list_all2_appendI)
  moreover have "region_range ((ba_sections ba @ [sec]) ! i) \<inter> region_range ((ba_sections ba @ [sec]) ! j) = {}"
    if "i < Suc (length (ba_sections ba))" "j < Suc (length (ba_sections ba))" "i \<noteq> j" for i j
    using that dj [of "ba_sections ba ! i"] dj [of "ba_sections ba ! j"] ba_repD(3) [OF rep, of i j]
    by (auto simp: nth_append less_Suc_eq)
  moreover have "usize_add (ba_section_count ba) 1 = Suc (length (ba_sections ba)) mod usize_lim"
    using ba_repD(4) [OF rep] by (simp add: usize_add_def mod_Suc_eq)
  ultimately show "ba_rep s ba' (reps @ [(fl, {})])"
    by (simp add: ba_rep_def ba')
  have "sec_live s ((ba_sections ba @ [sec]) ! i) ((reps @ [(fl, {})]) ! i) =
      (if i < length (ba_sections ba) then sec_live s (ba_sections ba ! i) (reps ! i) else {})"
    if "i < Suc (length (ba_sections ba))" for i
    using that len by (auto simp: nth_append less_Suc_eq sec_live_def)
  from this [of "length (ba_sections ba)"] this show "live s ba' (reps @ [(fl, {})]) = live s ba reps"
    by (simp add: live_def ba' lessThan_Suc)
qed

lemma add_region_ok:
  assumes rep: "ba_rep s ba reps" and s: "4 \<le> s" "s < 64"
    and lim: "start + len + size_of_section + 2 ^ s \<le> usize_lim" and pfn: "len div 2 ^ s \<le> PFN_NONE"
  shows "\<exists>r ba'. add_region (2 ^ s) ba start len = Some (r, ba') \<and>
    (case r of Inl e \<Rightarrow> ba' = ba | Inr _ \<Rightarrow> region_added s ba reps start len ba')"
proof (cases "normalize_region start len (2 ^ s)")
  case None
  then show ?thesis
    by (simp add: add_region_def)
next
  case (Some p)
  obtain rs rz where p: "p = (rs, rz)"
    by (cases p)
  have z: "start + len + 2 ^ s \<le> usize_lim"
    using lim by simp
  note nr = normalize_region_ok [OF s(2) z Some [unfolded p]]
  have env: "layout_env s rs (rs + rz)"
    using s lim nr(4,5) by (simp add: layout_env_def meta_sizes)
  note lay = compute_layout_ok [OF env refl]
  show ?thesis
  proof (cases "compute_region_layout (2 ^ s) rs rz")
    case None
    then show ?thesis
      using Some p by (simp add: add_region_def)
  next
    case lo: (Some l)
    then obtain m where m: "layout_ok s rs (rs + rz) m l"
      using lay by auto
    let ?h = "rl_managed_heap_start l" and ?z = "rl_managed_heap_size l"
    have h: "1 \<le> m" "rs \<le> ?h" "2 ^ s dvd ?h" "?z = m * 2 ^ s" "?h + ?z \<le> rs + rz" "0 < ?h"
      using m by (auto simp: layout_ok_def size_of_section_def)
    have ends: "rs + rz < usize_lim" "?h + ?z < usize_lim"
      using layout_envD(5) [OF env] h(5) by linarith+
    have "m * 2 ^ s \<le> len"
      using h(2,4,5) nr(3,4) by linarith
    then have mP: "?z div 2 ^ s \<le> PFN_NONE"
      using pfn h(4) by (simp add: less_eq_div_iff_mult_less_eq [symmetric])
    obtain sec fl where sec: "init_at (2 ^ s) rs rz (required_meta_size (2 ^ s) ?z) ?h ?z = Some (Inr sec)"
      "sec_rep sec fl {}" "bs_free_pages sec = ?z div 2 ^ s" "bs_total_pages sec = ?z div 2 ^ s"
      "bs_heap_start sec = ?h" "bs_heap_size sec = ?z" "bs_region_start sec = rs" "bs_region_size sec = rz"
      using init_at_ok [OF s(2) h(3) _ mP le_refl, of rs rz] h(1,4) by auto
    have tot: "bs_total_pages sec = m"
      using sec(4) h(4) by simp
    have rr: "region_range sec = {rs..<rs + rz}"
      using sec(7,8) by (simp add: region_range_def)
    have hr: "heap_range sec \<subseteq> region_range sec"
      using h(2,5) sec(5,6) by (auto simp: rr heap_range_def)
    have ok: "sec_ok s sec (fl, {})"
      using sec tot s(2) h(3,4,6) ends hr by (simp add: sec_ok_def sec_geom_def)
    show ?thesis
    proof (cases "check_overlap rs (rs + rz) (ba_sections ba)")
      case (Inl e)
      then show ?thesis
        using Some p lo ends h(5) by (simp add: add_region_def add_region_raw_def usize_checked_add_def)
    next
      case (Inr u)
      define ba' where "ba' = ba\<lparr>ba_sections := ba_sections ba @ [sec],
        ba_section_count := usize_add (ba_section_count ba) 1\<rparr>"
      have dj: "region_range sec \<inter> region_range x = {}" if "x \<in> set (ba_sections ba)" for x
        unfolding rr using check_overlap_disjoint [OF _ that] Inr by simp
      have "region_range sec \<subseteq> {start..<start + len}"
        unfolding rr using nr(3,4) by auto
      then have "region_added s ba reps start len ba'"
        unfolding region_added_def using ba_rep_append [OF rep ok dj ba'_def] tot h(1) sec(3,4)
        by (intro exI [of _ sec] exI [of _ fl]) (simp add: ba'_def)
      moreover have "add_region (2 ^ s) ba start len = Some (Inr (), ba')"
        using Some p lo ends h(5) Inr sec(1)
        by (simp add: add_region_def add_region_raw_def usize_checked_add_def ba'_def)
      ultimately show ?thesis
        by simp
    qed
  qed
qed

section \<open>The contract of a page allocator\<close>

definition apart :: "nat \<Rightarrow> live_block set \<Rightarrow> bool" where
  "apart s L \<longleftrightarrow> (\<forall>b\<in>L. \<forall>b'\<in>L. b \<noteq> b' \<longrightarrow> addrs s b \<inter> addrs s b' = {})"

text \<open>What a client sees: it requests and releases runs of pages, each by its address and page count.\<close>

inductive page_session ::
  "('st \<Rightarrow> usize \<Rightarrow> usize \<Rightarrow> (usize alloc_result \<times> 'st) option) \<Rightarrow> ('st \<Rightarrow> usize \<Rightarrow> usize \<Rightarrow> 'st option) \<Rightarrow>
     nat \<Rightarrow> 'st \<Rightarrow> 'st \<Rightarrow> (usize \<times> usize) set \<Rightarrow> bool"
  for request release s st0 where
  start: "page_session request release s st0 st0 {}"
| granted: "page_session request release s st0 st C \<Longrightarrow> 0 < c \<Longrightarrow> is_power_of_two al \<Longrightarrow> 2 ^ s \<le> al \<Longrightarrow>
    request st c al = Some (Inr a, st') \<Longrightarrow> page_session request release s st0 st' (insert (a, c) C)"
| refused: "page_session request release s st0 st C \<Longrightarrow> 0 < c \<Longrightarrow> is_power_of_two al \<Longrightarrow> 2 ^ s \<le> al \<Longrightarrow>
    request st c al = Some (Inl e, st') \<Longrightarrow> page_session request release s st0 st' C"
| returned: "page_session request release s st0 st C \<Longrightarrow> (a, c) \<in> C \<Longrightarrow>
    release st a c = Some st' \<Longrightarrow> page_session request release s st0 st' (C - {(a, c)})"

definition client_range :: "nat \<Rightarrow> usize \<times> usize \<Rightarrow> usize set" where
  "client_range s b = {fst b..<fst b + snd b * 2 ^ s}"

text \<open>The client's runs are each inside a live block of their own.\<close>

definition backed :: "nat \<Rightarrow> (usize \<times> usize) set \<Rightarrow> live_block set \<Rightarrow> bool" where
  "backed s C L \<longleftrightarrow> (\<forall>a c. (a, c) \<in> C \<longrightarrow> (\<exists>k. (a, k) \<in> L \<and> 0 < c \<and> c \<le> 2 ^ k)) \<and>
     (\<forall>a c c'. (a, c) \<in> C \<and> (a, c') \<in> C \<longrightarrow> c = c')"

lemma addrs_head: "a \<in> addrs s (a, k)"
  by (simp add: addrs_def)

lemma client_range_addrs: "c \<le> 2 ^ k \<Longrightarrow> client_range s (a, c) \<subseteq> addrs s (a, k)"
  by (auto simp: client_range_def addrs_def intro: less_le_trans)

lemma backed_disjoint:
  assumes "apart s L" "backed s C L" "b \<in> C" "b' \<in> C" "b \<noteq> b'"
  shows "client_range s b \<inter> client_range s b' = {}"
proof -
  obtain a c a' c' where b: "b = (a, c)" "b' = (a', c')"
    by (cases b, cases b')
  obtain k k' where k: "(a, k) \<in> L" "c \<le> 2 ^ k" "(a', k') \<in> L" "c' \<le> 2 ^ k'"
    using assms(2-4) b unfolding backed_def by meson
  have "a \<noteq> a'"
    using assms(2-5) b unfolding backed_def by blast
  then have "addrs s (a, k) \<inter> addrs s (a', k') = {}"
    using assms(1) k unfolding apart_def by blast
  then show ?thesis
    unfolding b using client_range_addrs [OF k(2)] client_range_addrs [OF k(4)] by blast
qed

locale page_source =
  fixes R :: "'st \<Rightarrow> live_block set \<Rightarrow> bool"
    and request :: "'st \<Rightarrow> usize \<Rightarrow> usize \<Rightarrow> (usize alloc_result \<times> 'st) option"
    and release :: "'st \<Rightarrow> usize \<Rightarrow> usize \<Rightarrow> 'st option"
    and s :: nat
  assumes request_law: "R st L \<Longrightarrow> 0 < c \<Longrightarrow> is_power_of_two al \<Longrightarrow> 2 ^ s \<le> al \<Longrightarrow>
      \<exists>r st'. request st c al = Some (r, st') \<and>
        (case r of
           Inl e \<Rightarrow> st' = st
         | Inr a \<Rightarrow> \<exists>k. c \<le> 2 ^ k \<and> al dvd a \<and> R st' (insert (a, k) L) \<and>
             (\<forall>b\<in>L. addrs s b \<inter> addrs s (a, k) = {}))"
    and release_law: "R st L \<Longrightarrow> (a, k) \<in> L \<Longrightarrow> \<exists>st'. release st a c = Some st' \<and> R st' (L - {(a, k)})"
begin

definition good :: "'st \<Rightarrow> (usize \<times> usize) set \<Rightarrow> bool" where
  "good st C \<longleftrightarrow> (\<exists>L. R st L \<and> apart s L \<and> backed s C L)"

lemma good_granted:
  assumes g: "good st C" and c: "0 < c" "is_power_of_two al" "2 ^ s \<le> al"
    and r: "request st c al = Some (Inr a, st')"
  shows "good st' (insert (a, c) C)"
proof -
  obtain L where L: "R st L" "apart s L" "backed s C L"
    using g by (auto simp: good_def)
  obtain k where k: "c \<le> 2 ^ k" "R st' (insert (a, k) L)" "\<forall>b\<in>L. addrs s b \<inter> addrs s (a, k) = {}"
    using request_law [OF L(1) c] r by auto
  have ap: "apart s (insert (a, k) L)"
    using L(2) k(3) unfolding apart_def by blast
  have "(a, k') \<notin> L" for k'
    using k(3) addrs_head by blast
  then have "(a, c') \<notin> C" for c'
    using L(3) unfolding backed_def by blast
  then have "backed s (insert (a, c) C) (insert (a, k) L)"
    using L(3) k(1) c(1) unfolding backed_def by blast
  with ap k(2) show ?thesis
    unfolding good_def by blast
qed

lemma good_returned:
  assumes g: "good st C" and b: "(a, c) \<in> C" and r: "release st a c' = Some st'"
  shows "good st' (C - {(a, c)})"
proof -
  obtain L where L: "R st L" "apart s L" "backed s C L"
    using g by (auto simp: good_def)
  obtain k where k: "(a, k) \<in> L"
    using L(3) b unfolding backed_def by blast
  have "R st' (L - {(a, k)})"
    using release_law [OF L(1) k, of c'] r by auto
  moreover have "apart s (L - {(a, k)})"
    using L(2) unfolding apart_def by blast
  moreover have "backed s (C - {(a, c)}) (L - {(a, k)})"
    using L(3) b unfolding backed_def by blast
  ultimately show ?thesis
    unfolding good_def by blast
qed

lemma session_good:
  assumes "page_session request release s st0 st C" "good st0 {}"
  shows "good st C"
  using assms
proof (induction rule: page_session.induct)
  case (refused st C c al e st')
  then obtain L where "R st L"
    by (auto simp: good_def)
  then have "st' = st"
    using request_law [OF _ refused(2-4)] refused(5) by fastforce
  with refused show ?case
    by simp
qed (auto intro: good_granted good_returned)

lemma session_safe:
  assumes ses: "page_session request release s st0 st C" and init: "R st0 {}"
  shows "(\<forall>b\<in>C. \<forall>b'\<in>C. b \<noteq> b' \<longrightarrow> client_range s b \<inter> client_range s b' = {}) \<and>
    (\<forall>b\<in>C. release st (fst b) (snd b) \<noteq> None) \<and>
    (\<forall>c al. 0 < c \<and> is_power_of_two al \<and> 2 ^ s \<le> al \<longrightarrow> request st c al \<noteq> None)"
proof -
  have "good st0 {}"
    using init by (auto simp: good_def apart_def backed_def)
  then obtain L where L: "R st L" "apart s L" "backed s C L"
    using session_good [OF ses] by (auto simp: good_def)
  have "release st a c \<noteq> None" if ac: "(a, c) \<in> C" for a c
  proof -
    obtain k where "(a, k) \<in> L"
      using L(3) ac unfolding backed_def by blast
    from release_law [OF L(1) this, of c] show ?thesis
      by auto
  qed
  moreover have "request st c al \<noteq> None" if "0 < c" "is_power_of_two al" "2 ^ s \<le> al" for c al
    using request_law [OF L(1) that] by auto
  ultimately show ?thesis
    using backed_disjoint [OF L(2,3)] by auto
qed

end

definition buddy_R :: "nat \<Rightarrow> buddy_allocator \<Rightarrow> live_block set \<Rightarrow> bool" where
  "buddy_R s ba L \<longleftrightarrow> (\<exists>reps. ba_rep s ba reps \<and> L = live s ba reps)"

interpretation buddy: page_source "buddy_R s" "alloc_pages (2 ^ s)" "dealloc_pages (2 ^ s)" s for s
proof unfold_locales
  fix ba L and c al :: nat assume R: "buddy_R s ba L" and c: "0 < c" "is_power_of_two al" "2 ^ s \<le> al"
  obtain reps where rep: "ba_rep s ba reps" and L: "L = live s ba reps"
    using R by (auto simp: buddy_R_def)
  have al: "al = (if al = 0 then 2 ^ s else al)"
    using c(2) by (auto elim: is_power_of_twoE)
  let ?k = "trailing_zeros (next_power_of_two c)"
  show "\<exists>r st'. alloc_pages (2 ^ s) ba c al = Some (r, st') \<and>
      (case r of Inl e \<Rightarrow> st' = ba
       | Inr a \<Rightarrow> \<exists>k. c \<le> 2 ^ k \<and> al dvd a \<and> buddy_R s st' (insert (a, k) L) \<and>
           (\<forall>b\<in>L. addrs s b \<inter> addrs s (a, k) = {}))"
  proof (cases "?k \<le> MAX_ORDER")
    case True
    from alloc_pages_ok [OF rep c(1) al c(2,3) refl True] order_for_count(1) [OF True] show ?thesis
      unfolding pages_outcome_def L buddy_R_def by fastforce
  next
    case False
    with c al show ?thesis
      by (simp add: alloc_pages_def alloc_pages_with_def Let_def)
  qed
next
  fix ba L and a k c :: nat assume "buddy_R s ba L" "(a, k) \<in> L"
  then show "\<exists>st'. dealloc_pages (2 ^ s) ba a c = Some st' \<and> buddy_R s st' (L - {(a, k)})"
    unfolding buddy_R_def using dealloc_pages_ok by metis
qed

section \<open>Properties\<close>

text \<open>A small allocator for the witnesses: one section of 64 pages of 16 bytes.\<close>

lemma sample_section:
  "\<exists>sec fl. init_at 16 1024 4096 768 2048 1024 = Some (Inr sec) \<and> sec_rep sec fl {} \<and> sec_geom 4 sec \<and>
    sec_ok 4 sec (fl, {}) \<and> bs_total_pages sec = 64 \<and> bs_heap_start sec = 2048"
proof -
  have h: "(4::nat) < 64" "(2::nat) ^ 4 dvd 2048" "(1024::nat) \<noteq> 0" "1024 div 2 ^ 4 \<le> PFN_NONE"
    "required_meta_size (2 ^ 4) 1024 \<le> 768"
    by (simp_all add: PFN_NONE_def required_meta_size_def usize_mul_def usize_lim_def size_of_page_meta_def)
  from init_at_ok [OF h, of 1024 4096] show ?thesis
    by (auto simp: sec_ok_def sec_geom_def heap_range_def region_range_def usize_lim_def)
qed

lemma sample_allocator: "\<exists>ba reps. ba_rep 4 ba reps \<and> live 4 ba reps = {} \<and> length (ba_sections ba) = 1"
proof -
  obtain sec fl where "sec_ok 4 sec (fl, {})"
    using sample_section by blast
  then show ?thesis
    by (intro exI [of _ "\<lparr>ba_sections = [sec], ba_section_count = 1\<rparr>"] exI [of _ "[(fl, {})]"])
      (simp add: ba_rep_def live_def sec_live_def usize_lim_def)
qed

text \<open>C17: \<open>alloc_pages\<close> rejects an empty request, a bad alignment or a request above the largest order,
  without effect. Otherwise the order is the smallest that holds the request, and the result is either an
  address whose block is aligned as asked, lies in the heap of one section and overlaps no live block, the
  live blocks growing by exactly this one and the invariant being kept; or \<open>NoMemory\<close> with the allocator
  unchanged, and then no section has a free aligned run of that size.\<close>

theorem buddy_alloc_correct:
  assumes "ba_rep s ba reps"
  shows "let align = (if align0 = 0 then 2 ^ s else align0);
             order = trailing_zeros (next_power_of_two count) in
    if count = 0 \<or> \<not> is_power_of_two align \<or> align < 2 ^ s \<or> MAX_ORDER < order
    then alloc_pages (2 ^ s) ba count align0 = Some (Inl AllocInvalidParam, ba)
    else count \<le> 2 ^ order \<and> (\<forall>k<order. 2 ^ k < count) \<and>
      pages_outcome s ba reps order align (\<lambda>_ _. True) (alloc_pages (2 ^ s) ba count align0)"
  using alloc_pages_ok [OF assms _ refl _ _ refl, of count align0] order_for_count [of count]
  by (auto simp: Let_def alloc_pages_def alloc_pages_with_def not_less)

theorem buddy_alloc_correct_witness:
  "\<exists>ba reps. ba_rep 4 ba reps \<and> pages_outcome 4 ba reps 2 32 (\<lambda>_ _. True) (alloc_pages (2 ^ 4) ba 3 32)"
proof -
  obtain ba reps where r: "ba_rep 4 ba reps"
    using sample_allocator by blast
  have "trailing_zeros (next_power_of_two 3) = 2" "is_power_of_two 32"
    by code_simp+
  with buddy_alloc_correct [OF r, of 32 3] r show ?thesis
    by (auto simp: Let_def MAX_ORDER_def)
qed

text \<open>C18: \<open>dealloc_pages\<close> on the address of a live block, with any page count, takes exactly this block out
  of the live blocks and keeps the invariant.\<close>

theorem buddy_dealloc_correct:
  assumes "ba_rep s ba reps" "(addr, k) \<in> live s ba reps"
  shows "\<exists>ba' reps'. dealloc_pages (2 ^ s) ba addr count = Some ba' \<and> ba_rep s ba' reps' \<and>
    live s ba' reps' = live s ba reps - {(addr, k)}"
  using dealloc_pages_ok [OF assms] .

theorem buddy_dealloc_correct_witness:
  "\<exists>ba reps ba' reps'. dealloc_pages (2 ^ 4) ba 2048 1 = Some ba' \<and> (2048, 0) \<in> live 4 ba reps \<and>
    ba_rep 4 ba' reps' \<and> live 4 ba' reps' = live 4 ba reps - {(2048, 0)}"
proof -
  obtain sec fl where c: "sec_rep sec fl {}" "sec_geom 4 sec" "sec_ok 4 sec (fl, {})" "bs_total_pages sec = 64"
    "bs_heap_start sec = 2048"
    using sample_section by blast
  have c0: "sec_core sec fl {} {}"
    using c(1) by (simp add: sec_rep_def)
  have "0 \<in> pages_of (frees fl)"
    using free_pages_eq [OF c0] c(4) by simp
  then obtain b where b: "b \<in> frees fl" "0 \<in> pages b"
    by (auto simp: pages_of_def)
  obtain q k where "b = (q, k)"
    by (cases b)
  then obtain sec' fl' where t: "sec_rep sec' fl' {(0, 0)}" "same_geometry sec sec'"
    using take_block_ok [OF c(1), of q k 0 0] b by auto
  have ok: "sec_ok 4 sec' (fl', {(0, 0)})"
    by (rule sec_ok_geometry [OF c(3) t(2,1)])
  let ?ba = "\<lparr>ba_sections = [sec'], ba_section_count = 1\<rparr>" and ?reps = "[(fl', {(0, 0)})]"
  have "ba_rep 4 ?ba ?reps"
    using ok by (simp add: ba_rep_def usize_lim_def)
  moreover have "(2048, 0) \<in> live 4 ?ba ?reps"
    using t(2) c(5) by (simp add: live_def sec_live_def block_addr_def same_geometry_def)
  ultimately show ?thesis
    using buddy_dealloc_correct [of 4 ?ba ?reps 2048 0 1] by blast
qed



text \<open>C20: allocating a block from a section and releasing it restores the section's free blocks exactly, the
  blocks that were split being merged again, and the counter of free pages.\<close>

theorem buddy_alloc_dealloc_roundtrip:
  assumes "sec_rep sec fl A" "sec_geom s sec" "order \<le> MAX_ORDER" "s + j < 64"
    and "alloc_from_section_aligned (2 ^ s) sec order (2 ^ (s + j)) = Some (Inr addr, sec1)"
  shows "\<exists>sec2 fl2. dealloc_in_section sec1 (addr_pfn (2 ^ s) sec1 addr) order = Some sec2 \<and>
    sec_rep sec2 fl2 A \<and> frees fl2 = frees fl \<and> bs_free_pages sec2 = bs_free_pages sec"
proof -
  obtain q fl1 where q: "addr = block_addr (2 ^ s) sec q" "(q, order) \<notin> A"
    "sec_rep sec1 fl1 (insert (q, order) A)" "same_geometry sec sec1"
    using alloc_section_ok [OF assms(1-4)] assms(5) by (auto simp: alloc_outcome_def)
  have pfn: "addr_pfn (2 ^ s) sec1 addr = q"
    using q(1,4) by (simp add: addr_pfn_def block_addr_def same_geometry_def usize_sub_exact)
  obtain sec2 fl2 where d: "dealloc_in_section sec1 q order = Some sec2" "sec_rep sec2 fl2 A"
    "same_geometry sec1 sec2"
    using dealloc_section_ok [OF q(3,2)] by blast
  have fr: "frees fl2 = frees fl"
    using d(3) q(4) by (intro coalesced_unique [OF assms(1) d(2)]) (simp add: same_geometry_def)
  then have "bs_free_pages sec2 = bs_free_pages sec"
    using assms(1) d(2) by (simp add: sec_rep_def)
  with d fr pfn show ?thesis
    by blast
qed

theorem buddy_alloc_dealloc_roundtrip_witness:
  "\<exists>sec fl sec1 addr sec2 fl2. sec_rep sec fl {} \<and>
    alloc_from_section_aligned 16 sec 1 16 = Some (Inr addr, sec1) \<and>
    dealloc_in_section sec1 (addr_pfn 16 sec1 addr) 1 = Some sec2 \<and> sec_rep sec2 fl2 {} \<and> frees fl2 = frees fl"
proof -
  obtain sec fl where c: "sec_rep sec fl {}" "sec_geom 4 sec" "bs_total_pages sec = 64" "bs_heap_start sec = 2048"
    using sample_section by blast
  have h: "1 \<le> MAX_ORDER" "(4::nat) + 0 < 64"
    by (simp_all add: MAX_ORDER_def)
  have "pages (0, 1) \<subseteq> {..<64}"
    by (auto simp: pages_def)
  then have "free_run (2 ^ 4) sec {} 1 (2 ^ (4 + 0)) 0"
    using c(3,4) by (simp add: free_run_def block_addr_def)
  then obtain addr sec1 where "alloc_from_section_aligned (2 ^ 4) sec 1 (2 ^ (4 + 0)) = Some (Inr addr, sec1)"
    using alloc_section_ok [OF c(1,2) h] by (auto simp: alloc_outcome_def)
  from buddy_alloc_dealloc_roundtrip [OF c(1,2) h this] this c(1) show ?thesis
    by (simp del: One_nat_def) blast
qed

text \<open>C32: \<open>alloc_pages_lowmem\<close>, for a translation to physical addresses that preserves order, only returns
  blocks that lie below 4 GiB and meets the other guarantees of \<open>alloc_pages\<close>; it fails only if no free
  aligned run of that size lies below 4 GiB.\<close>

theorem buddy_alloc_lowmem_correct:
  assumes "ba_rep s ba reps" "\<forall>sec\<in>set (ba_sections ba). linear_map virt_to_phys s sec"
    and "0 < count" "is_power_of_two align" "2 ^ s \<le> align"
    and "trailing_zeros (next_power_of_two count) = order" "order \<le> MAX_ORDER"
  shows "pages_outcome s ba reps order align (\<lambda>sec. low_block virt_to_phys s sec order)
    (alloc_pages_lowmem virt_to_phys (2 ^ s) ba count align)"
proof -
  have "align = (if align = 0 then 2 ^ s else align)"
    using assms(4) by (auto elim: is_power_of_twoE)
  from alloc_pages_lowmem_ok [OF assms(1,3) this assms(4-7,2)] show ?thesis .
qed

theorem buddy_alloc_lowmem_correct_witness:
  "\<exists>ba reps. ba_rep 4 ba reps \<and> pages_outcome 4 ba reps 2 32 (\<lambda>sec. low_block (\<lambda>a. a + 65536) 4 sec 2)
    (alloc_pages_lowmem (\<lambda>a. a + 65536) (2 ^ 4) ba 3 32)"
proof -
  obtain sec fl where c: "sec_ok 4 sec (fl, {})" "bs_total_pages sec = 64" "bs_heap_start sec = 2048"
    using sample_section by blast
  let ?ba = "\<lparr>ba_sections = [sec], ba_section_count = 1\<rparr>" and ?reps = "[(fl, {})]"
  have r: "ba_rep 4 ?ba ?reps"
    using c(1) by (simp add: ba_rep_def usize_lim_def)
  have "linear_map (\<lambda>a. a + 65536) 4 sec"
    using c by (auto simp: linear_map_def block_addr_def MAX_ORDER_def usize_lim_def)
  then have "\<forall>sec\<in>set (ba_sections ?ba). linear_map (\<lambda>a. a + 65536) 4 sec"
    by simp
  moreover have "trailing_zeros (next_power_of_two 3) = 2" "is_power_of_two 32"
    by code_simp+
  ultimately have "pages_outcome 4 ?ba ?reps 2 32 (\<lambda>sec. low_block (\<lambda>a. a + 65536) 4 sec 2)
      (alloc_pages_lowmem (\<lambda>a. a + 65536) (2 ^ 4) ?ba 3 32)"
    using buddy_alloc_lowmem_correct [OF r] by (simp add: MAX_ORDER_def)
  with r show ?thesis
    by blast
qed

text \<open>C30: \<open>add_region\<close> either fails and leaves the allocator as it was, or appends one section, inside the
  given range and apart from the regions of all other sections, whose pages are all free; the invariant
  holds again and the live blocks are the same.\<close>

theorem buddy_add_region_correct:
  assumes "ba_rep s ba reps" "4 \<le> s" "s < 64" "start + len + size_of_section + 2 ^ s \<le> usize_lim"
    and "len div 2 ^ s \<le> PFN_NONE"
  shows "\<exists>r ba'. add_region (2 ^ s) ba start len = Some (r, ba') \<and>
    (case r of Inl e \<Rightarrow> ba' = ba | Inr _ \<Rightarrow> region_added s ba reps start len ba')"
  using add_region_ok [OF assms] .

theorem buddy_add_region_correct_witness:
  "\<exists>r ba'. add_region (2 ^ 4) buddy_new 1024 4096 = Some (r, ba') \<and>
    (case r of Inl e \<Rightarrow> ba' = buddy_new | Inr _ \<Rightarrow> region_added 4 buddy_new [] 1024 4096 ba')"
  by (rule buddy_add_region_correct)
    (simp_all add: ba_rep_def buddy_new_def size_of_section_def usize_lim_def PFN_NONE_def)

end
