(* ===== verification/SlabPage.thy ===== *)
theory SlabPage
  imports SlabLists BuddyAllocator
begin

text \<open>
  One slab page: the bitmap as a set of free slots, object addresses, and the remote-free stack as a list
  of slots that \<open>drain_remote_frees\<close> returns to the bitmap.
\<close>

section \<open>The bitmap\<close>

definition free_slots :: "64 word list \<Rightarrow> nat set" where
  "free_slots bm = {i. i div 64 < length bm \<and> bit (bm ! (i div 64)) (i mod 64)}"

lemma free_slots_Nil [simp]: "free_slots [] = {}"
  by (simp add: free_slots_def)

lemma free_slots_bound: "i \<in> free_slots bm \<Longrightarrow> i < 64 * length bm"
  by (simp add: free_slots_def div_less_iff_less_mult mult.commute)

lemma finite_free_slots [simp]: "finite (free_slots bm)"
  by (rule finite_subset [of _ "{..<64 * length bm}"]) (auto dest: free_slots_bound)

lemma free_slots_Cons: "free_slots (w # ws) = {i. i < 64 \<and> bit w i} \<union> (\<lambda>i. i + 64) ` free_slots ws"
proof (rule set_eqI)
  fix i
  show "i \<in> free_slots (w # ws) \<longleftrightarrow> i \<in> {i. i < 64 \<and> bit w i} \<union> (\<lambda>i. i + 64) ` free_slots ws"
  proof (cases "i < 64")
    case True
    then show ?thesis
      by (auto simp: free_slots_def)
  next
    case False
    then obtain j where j: "i = j + 64"
      by (metis add.commute le_Suc_ex not_less)
    then have "i div 64 = Suc (j div 64)" "i mod 64 = j mod 64"
      by simp_all
    then show ?thesis
      using j by (auto simp: free_slots_def)
  qed
qed

lemma word_trailing_zeros_least:
  assumes "w \<noteq> 0"
  shows "bit w (word_trailing_zeros w)" "word_trailing_zeros w < 64"
    "k < word_trailing_zeros w \<Longrightarrow> \<not> bit w k"
proof -
  obtain j where j: "bit w j"
    using assms by (auto simp: bit_eq_iff)
  have j64: "j < 64"
    using bit_imp_le_length [OF j] by simp
  then have eq: "word_trailing_zeros w = (LEAST k. bit w k)"
    using j by (auto simp: word_trailing_zeros_def find_upt)
  show "bit w (word_trailing_zeros w)" "word_trailing_zeros w < 64"
    unfolding eq using LeastI [of "bit w" j] Least_le [of "bit w" j] j j64 by auto
  show "k < word_trailing_zeros w \<Longrightarrow> \<not> bit w k"
    unfolding eq by (rule not_less_Least)
qed

lemma take_slot_shift: "take_slot wi bm = map_option (\<lambda>(i, b). (wi * 64 + i, b)) (take_slot 0 bm)"
proof (induction bm arbitrary: wi)
  case (Cons w ws)
  show ?case
    using Cons.IH [of "wi + 1"] Cons.IH [of 1]
    by (cases "w = 0"; cases "take_slot 0 ws") (auto simp: Let_def)
qed simp

lemma take_slot_Cons:
  "take_slot 0 (w # ws) =
     (if w \<noteq> 0 then
        let b = word_trailing_zeros w in Some (b, (w AND NOT (push_bit b 1)) # ws)
      else map_option (\<lambda>(i, ws'). (i + 64, w # ws')) (take_slot 0 ws))"
  using take_slot_shift [of 1 ws] by (cases "take_slot 0 ws") (auto simp: Let_def)

declare take_slot.simps(2) [simp del]

lemma take_slot_None: "take_slot 0 bm = None \<longleftrightarrow> free_slots bm = {}"
proof (induction bm)
  case (Cons w ws)
  have "w = 0" if "{i. i < 64 \<and> bit w i} = {}"
  proof (rule ccontr)
    assume "w \<noteq> 0"
    with that word_trailing_zeros_least [of w] show False
      by blast
  qed
  with Cons show ?case
    unfolding take_slot_Cons free_slots_Cons by (auto simp: Let_def)
qed simp

lemma clear_bit_slots:
  fixes w :: "64 word"
  assumes "b < 64"
  shows "{i. i < 64 \<and> bit (w AND NOT (push_bit b 1)) i} = {i. i < 64 \<and> bit w i} - {b}"
  using assms by (auto simp: bit_simps)

lemma take_slot_Some:
  assumes "take_slot 0 bm = Some (i, bm')"
  shows "i \<in> free_slots bm \<and> length bm' = length bm \<and> free_slots bm' = free_slots bm - {i} \<and>
    (\<forall>j\<in>free_slots bm. i \<le> j)"
  using assms
proof (induction bm arbitrary: i bm')
  case (Cons w ws)
  show ?case
  proof (cases "w = 0")
    case True
    then obtain j ws' where r: "take_slot 0 ws = Some (j, ws')" "i = j + 64" "bm' = w # ws'"
      using Cons.prems by (cases "take_slot 0 ws") (auto simp: take_slot_Cons)
    show ?thesis
      unfolding r(2,3) free_slots_Cons using Cons.IH [OF r(1)] True by auto
  next
    case False
    note b = word_trailing_zeros_least [OF False]
    have r: "i = word_trailing_zeros w" "bm' = (w AND NOT (push_bit i 1)) # ws"
      using Cons.prems False by (auto simp: take_slot_Cons Let_def)
    have "free_slots bm' = {j. j < 64 \<and> bit w j} - {i} \<union> (\<lambda>i. i + 64) ` free_slots ws"
      unfolding r(2) free_slots_Cons using clear_bit_slots b(2) r(1) by simp
    moreover have "\<forall>j\<in>free_slots (w # ws). i \<le> j"
      unfolding free_slots_Cons r(1) using b(2,3) by (auto simp: not_less [symmetric])
    ultimately show ?thesis
      using b r unfolding free_slots_Cons by auto
  qed
qed simp

lemma set_slot:
  assumes "i div 64 < length bm"
  shows "free_slots (bm[i div 64 := (bm ! (i div 64)) OR push_bit (i mod 64) 1]) = insert i (free_slots bm)"
proof (rule set_eqI)
  fix j
  have "bit (push_bit (i mod 64) 1 :: 64 word) (j mod 64) \<longleftrightarrow> j mod 64 = i mod 64"
    by (auto simp: bit_simps)
  moreover have "j = i \<longleftrightarrow> j div 64 = i div 64 \<and> j mod 64 = i mod 64"
    by (metis div_mult_mod_eq)
  ultimately show "j \<in> free_slots (bm[i div 64 := (bm ! (i div 64)) OR push_bit (i mod 64) 1]) \<longleftrightarrow>
      j \<in> insert i (free_slots bm)"
    using assms by (auto simp: free_slots_def nth_list_update bit_or_iff)
qed

lemma div_mod_less:
  "i < (n::nat) \<longleftrightarrow> i div 64 < n div 64 \<or> i div 64 = n div 64 \<and> i mod 64 < n mod 64"
proof -
  have e: "i = 64 * (i div 64) + i mod 64" "n = 64 * (n div 64) + n mod 64" "i mod 64 < 64" "n mod 64 < 64"
    by simp_all
  show ?thesis
  proof (cases "i div 64" "n div 64" rule: linorder_cases)
    case less
    then show ?thesis
      using e by linarith
  next
    case equal
    then show ?thesis
      using e by linarith
  next
    case greater
    then show ?thesis
      using e by linarith
  qed
qed

lemma init_bitmap_slots:
  assumes "count \<le> 512"
  shows "\<exists>bm. init_bitmap count = Some bm \<and> length bm = BITMAP_WORDS \<and> free_slots bm = {..<count}"
proof -
  define words :: "64 word list" where "words = map (\<lambda>i. if i < count div 64 then - 1 else 0) [0..<BITMAP_WORDS]"
  have ib: "init_bitmap count =
      (if count mod 64 > 0 then
         (if count div 64 < length words then Some (words[count div 64 := push_bit (count mod 64) 1 - 1]) else None)
       else Some words)"
    by (simp only: init_bitmap_def Let_def words_def)
  have len: "length words = 8"
    by (simp add: words_def BITMAP_WORDS_def)
  have nth: "words ! k = (if k < count div 64 then - 1 else 0)" if "k < 8" for k
    using that by (simp add: words_def BITMAP_WORDS_def)
  have lt: "i < count \<longleftrightarrow> i div 64 < count div 64 \<or> i div 64 = count div 64 \<and> i mod 64 < count mod 64" for i
    by (rule div_mod_less)
  show ?thesis
  proof (cases "count mod 64 > 0")
    case True
    then have fw: "count div 64 < 8"
      using assms div_le_mono [of count 511 64] by (cases "count = 512") auto
    have msk: "bit (push_bit (count mod 64) 1 - 1 :: 64 word) k \<longleftrightarrow> k < count mod 64" if "k < 64" for k
      using that by (simp add: push_bit_eq_mult mask_eq_exp_minus_1 [symmetric] bit_mask_iff)
    have "free_slots (words[count div 64 := push_bit (count mod 64) 1 - 1]) = {..<count}"
      using fw len nth msk lt assms by (auto simp: free_slots_def nth_list_update split: if_splits)
    then show ?thesis
      using True fw len by (simp add: ib BITMAP_WORDS_def)
  next
    case False
    then have "free_slots words = {..<count}"
      using len nth lt assms by (auto simp: free_slots_def split: if_splits)
    then show ?thesis
      using False len by (simp add: ib BITMAP_WORDS_def)
  qed
qed

section \<open>Objects\<close>

lemma class_size_pow: "\<exists>e\<ge>3. e \<le> 11 \<and> class_size sc = 2 ^ e"
proof -
  have "class_size sc = 2 ^ (class_index sc + 3)" "class_index sc \<le> 8"
    by (cases sc; simp add: class_size_def CLASS_SIZES_def)+
  then show ?thesis
    by (intro exI [of _ "class_index sc + 3"]) simp
qed

lemma class_size_bounds: "8 \<le> class_size sc" "class_size sc \<le> 2048" "0 < class_size sc"
  by (cases sc; simp add: class_size_def CLASS_SIZES_def)+

lemma data_offset_values:
  "data_offset 8 = 128" "data_offset 16 = 128" "data_offset 32 = 128" "data_offset 64 = 128" "data_offset 128 = 128"
  "data_offset 256 = 256" "data_offset 512 = 512" "data_offset 1024 = 1024" "data_offset 2048 = 2048"
  by code_simp+

lemma data_offset_eq: "data_offset (class_size sc) = max 128 (class_size sc)"
  by (cases sc) (simp_all add: class_size_def CLASS_SIZES_def data_offset_values)

definition capacity :: "size_class \<Rightarrow> usize \<Rightarrow> nat" where
  "capacity sc bytes = min ((bytes - data_offset (class_size sc)) div class_size sc) MAX_OBJECTS_PER_SLAB"

definition slot_addr :: "size_class \<Rightarrow> usize \<Rightarrow> nat \<Rightarrow> usize" where
  "slot_addr sc base i = base + data_offset (class_size sc) + i * class_size sc"

lemma capacity_le: "capacity sc bytes \<le> 512"
  by (simp add: capacity_def MAX_OBJECTS_PER_SLAB_def)

lemma slot_in_slab:
  assumes "i < capacity sc bytes"
  shows "slot_addr sc base i + class_size sc \<le> base + bytes" "base < slot_addr sc base i"
proof -
  have "Suc i \<le> (bytes - data_offset (class_size sc)) div class_size sc"
    using assms by (simp add: capacity_def)
  then have le: "Suc i * class_size sc \<le> bytes - data_offset (class_size sc)"
    using class_size_bounds(3) [of sc] by (simp only: less_eq_div_iff_mult_less_eq)
  moreover have "0 < Suc i * class_size sc"
    using class_size_bounds(3) [of sc] by simp
  ultimately have "data_offset (class_size sc) + Suc i * class_size sc \<le> bytes"
    by linarith
  then show "slot_addr sc base i + class_size sc \<le> base + bytes"
    by (simp add: slot_addr_def)
  show "base < slot_addr sc base i"
    unfolding slot_addr_def data_offset_eq by (simp add: less_max_iff_disj)
qed

lemma slot_addr_inj: "slot_addr sc base i = slot_addr sc base j \<longleftrightarrow> i = j"
  using class_size_bounds(3) [of sc] by (simp add: slot_addr_def)

lemma object_exact:
  assumes "sh_class hdr = sc" "i < capacity sc bytes" "base + bytes < usize_lim"
  shows "object_addr hdr base i = slot_addr sc base i" "object_index hdr base (slot_addr sc base i) = i"
proof -
  note b = slot_in_slab [OF assms(2), of base]
  have lim: "slot_addr sc base i < usize_lim"
    using b(1) assms(3) class_size_bounds(3) [of sc] by linarith
  then have "base + data_offset (class_size sc) < usize_lim" "i * class_size sc < usize_lim"
    unfolding slot_addr_def by linarith+
  then show "object_addr hdr base i = slot_addr sc base i" "object_index hdr base (slot_addr sc base i) = i"
    using assms(1) lim class_size_bounds(3) [of sc]
    by (simp_all add: object_addr_def object_index_def data_start_def slot_addr_def usize_simps)
qed

section \<open>The remote-free stack\<close>

fun stack :: "(usize \<Rightarrow> usize) \<Rightarrow> usize \<Rightarrow> usize list \<Rightarrow> bool" where
  "stack words p [] \<longleftrightarrow> p = 0"
| "stack words p (a # as) \<longleftrightarrow> p = a \<and> a \<noteq> 0 \<and> stack words (words a) as"

lemma stack_frame: "stack words p as \<Longrightarrow> (\<And>a. a \<in> set as \<Longrightarrow> words' a = words a) \<Longrightarrow> stack words' p as"
  by (induction as arbitrary: p) auto

lemma stack_head: "stack words p as \<Longrightarrow> p = 0 \<longleftrightarrow> as = []"
  by (cases as) auto

definition set_slots :: "nat set \<Rightarrow> slab_header \<Rightarrow> slab_header \<Rightarrow> bool" where
  "set_slots J hdr hdr' \<longleftrightarrow>
     hdr'\<lparr>sh_bitmap := sh_bitmap hdr, sh_local_free_count := sh_local_free_count hdr\<rparr> = hdr \<and>
     length (sh_bitmap hdr') = length (sh_bitmap hdr) \<and>
     free_slots (sh_bitmap hdr') = free_slots (sh_bitmap hdr) \<union> J"

lemma set_slots_fields:
  assumes "set_slots J hdr hdr'"
  shows "sh_magic hdr' = sh_magic hdr" "sh_class hdr' = sh_class hdr" "sh_object_count hdr' = sh_object_count hdr"
    "sh_owner_cpu hdr' = sh_owner_cpu hdr" "sh_slab_bytes hdr' = sh_slab_bytes hdr" "sh_prev hdr' = sh_prev hdr"
    "sh_next hdr' = sh_next hdr" "sh_state hdr' = sh_state hdr" "sh_remote_head hdr' = sh_remote_head hdr"
    "sh_remote_count hdr' = sh_remote_count hdr" "length (sh_bitmap hdr') = length (sh_bitmap hdr)"
    "free_slots (sh_bitmap hdr') = free_slots (sh_bitmap hdr) \<union> J"
  using assms unfolding set_slots_def by (cases hdr; cases hdr'; simp)+

lemma drain_loop_ok:
  assumes "stack words p (map (slot_addr sc base) js)" "distinct js" "set js \<subseteq> {..<capacity sc bytes}"
    "set js \<inter> free_slots (sh_bitmap hdr) = {}" "sh_class hdr = sc" "base + bytes < usize_lim"
    "length (sh_bitmap hdr) = BITMAP_WORDS" "free_slots (sh_bitmap hdr) \<subseteq> {..<capacity sc bytes}"
    "sh_local_free_count hdr = card (free_slots (sh_bitmap hdr))"
  shows "\<exists>hdr'. drain_loop words base p hdr = Some hdr' \<and> set_slots (set js) hdr hdr' \<and>
    sh_local_free_count hdr' = card (free_slots (sh_bitmap hdr'))"
  using assms
proof (induction js arbitrary: p hdr)
  case Nil
  then show ?case
    by (simp add: drain_loop.simps set_slots_def)
next
  case (Cons j js)
  let ?F = "free_slots (sh_bitmap hdr)"
  have p: "p = slot_addr sc base j" "p \<noteq> 0" "stack words (words p) (map (slot_addr sc base) js)"
    using Cons.prems(1) by auto
  have j: "j < capacity sc bytes" "j \<notin> ?F" "j \<notin> set js"
    using Cons.prems(2-4) by auto
  have idx: "object_index hdr base p = j"
    unfolding p(1) by (rule object_exact(2) [OF Cons.prems(5) j(1) Cons.prems(6)])
  have "j < 512"
    using j(1) capacity_le [of sc bytes] by simp
  then have wi: "j div 64 < length (sh_bitmap hdr)"
    using Cons.prems(7) by (simp add: BITMAP_WORDS_def div_less_iff_less_mult)
  define hdr1 where "hdr1 = hdr\<lparr>sh_bitmap := (sh_bitmap hdr)[j div 64 := (sh_bitmap hdr ! (j div 64)) OR push_bit (j mod 64) 1],
      sh_local_free_count := u16_add (sh_local_free_count hdr) 1\<rparr>"
  have F1: "free_slots (sh_bitmap hdr1) = insert j ?F"
    using set_slot [OF wi] by (simp add: hdr1_def)
  have "card (insert j ?F) \<le> capacity sc bytes"
    using Cons.prems(8) j(1) card_mono [of "{..<capacity sc bytes}" "insert j ?F"] by simp
  then have "Suc (card ?F) \<le> 512"
    using capacity_le [of sc bytes] j(2) by simp
  then have cnt: "sh_local_free_count hdr1 = card (free_slots (sh_bitmap hdr1))"
    unfolding F1 using Cons.prems(9) j(2) by (simp add: hdr1_def u16_add_def)
  have "\<exists>hdr'. drain_loop words base (words p) hdr1 = Some hdr' \<and> set_slots (set js) hdr1 hdr' \<and>
      sh_local_free_count hdr' = card (free_slots (sh_bitmap hdr'))"
  proof (rule Cons.IH [OF p(3) _ _ _ _ Cons.prems(6) _ _ cnt])
    show "free_slots (sh_bitmap hdr1) \<subseteq> {..<capacity sc bytes}" "set js \<inter> free_slots (sh_bitmap hdr1) = {}"
      unfolding F1 using Cons.prems(4,8) j by auto
  qed (use Cons.prems(2,3,5,7) in \<open>simp_all add: hdr1_def\<close>)
  then obtain hdr' where h: "drain_loop words base (words p) hdr1 = Some hdr'" "set_slots (set js) hdr1 hdr'"
    "sh_local_free_count hdr' = card (free_slots (sh_bitmap hdr'))"
    by blast
  have "drain_loop words base p hdr = Some hdr'"
    using h(1) p(2) idx wi by (subst drain_loop.simps) (simp add: Let_def hdr1_def)
  moreover have "set_slots (set (j # js)) hdr hdr'"
    using h(2) F1 unfolding set_slots_def by (cases hdr; cases hdr') (auto simp: hdr1_def)
  ultimately show ?case
    using h(3) by blast
qed

end
