(* ===== verification/SlabCache.thy ===== *)
theory SlabCache
  imports SlabPage
begin

text \<open>
  The cache of one size class. Its slabs are on the partial, full or empty list according to their free
  slots; \<open>alloc_object\<close> hands out a slot that was free and \<open>dealloc_object\<close> takes back a live one.
\<close>

section \<open>A slab page\<close>

text \<open>\<open>js\<close> are the slots on the remote-free stack, newest first.\<close>

definition slab_ok :: "(usize \<Rightarrow> usize) \<Rightarrow> size_class \<Rightarrow> usize \<Rightarrow> usize \<Rightarrow> slab_header \<Rightarrow> nat list \<Rightarrow> bool" where
  "slab_ok words sc bytes base hdr js \<longleftrightarrow>
     base + bytes < usize_lim \<and> sh_magic hdr = SLAB_MAGIC \<and> sh_class hdr = sc \<and> sh_slab_bytes hdr = bytes \<and>
     sh_object_count hdr = capacity sc bytes \<and> length (sh_bitmap hdr) = BITMAP_WORDS \<and>
     free_slots (sh_bitmap hdr) \<subseteq> {..<capacity sc bytes} \<and>
     sh_local_free_count hdr = card (free_slots (sh_bitmap hdr)) \<and>
     distinct js \<and> set js \<subseteq> {..<capacity sc bytes} \<and> set js \<inter> free_slots (sh_bitmap hdr) = {} \<and>
     stack words (sh_remote_head hdr) (map (slot_addr sc base) js)"

abbreviation hfree :: "slab_header \<Rightarrow> nat set" where
  "hfree hdr \<equiv> free_slots (sh_bitmap hdr)"

definition same_link :: "slab_header \<Rightarrow> slab_header \<Rightarrow> bool" where
  "same_link hdr hdr' \<longleftrightarrow> sh_prev hdr' = sh_prev hdr \<and> sh_next hdr' = sh_next hdr \<and> sh_state hdr' = sh_state hdr"

lemma slab_okD:
  assumes "slab_ok words sc bytes base hdr js"
  shows "base + bytes < usize_lim" "sh_magic hdr = SLAB_MAGIC" "sh_class hdr = sc" "sh_slab_bytes hdr = bytes"
    "sh_object_count hdr = capacity sc bytes" "length (sh_bitmap hdr) = BITMAP_WORDS"
    "hfree hdr \<subseteq> {..<capacity sc bytes}" "sh_local_free_count hdr = card (hfree hdr)"
    "distinct js" "set js \<subseteq> {..<capacity sc bytes}" "set js \<inter> hfree hdr = {}"
    "stack words (sh_remote_head hdr) (map (slot_addr sc base) js)"
  using assms by (simp_all add: slab_ok_def)

lemma dat_fields:
  assumes "dat h' = dat h"
  shows "sh_magic h' = sh_magic h" "sh_class h' = sh_class h" "sh_object_count h' = sh_object_count h"
    "sh_local_free_count h' = sh_local_free_count h" "sh_slab_bytes h' = sh_slab_bytes h"
    "sh_bitmap h' = sh_bitmap h" "sh_remote_head h' = sh_remote_head h" "sh_owner_cpu h' = sh_owner_cpu h"
  using assms by (cases h; cases h'; simp add: dat_def)+

lemma slab_ok_dat:
  assumes "dat h' = dat h"
  shows "slab_ok words sc bytes base h' js \<longleftrightarrow> slab_ok words sc bytes base h js"
  by (simp only: slab_ok_def dat_fields [OF assms])

lemma slab_full_iff: "slab_ok words sc bytes base hdr js \<Longrightarrow> is_local_full hdr \<longleftrightarrow> hfree hdr = {}"
  by (simp add: is_local_full_def slab_okD(8))

lemma slab_all_free_iff:
  assumes "slab_ok words sc bytes base hdr js"
  shows "is_all_free hdr \<longleftrightarrow> hfree hdr = {..<capacity sc bytes}"
proof -
  note d = slab_okD [OF assms]
  show ?thesis
  proof
    assume "is_all_free hdr"
    then have "card (hfree hdr) = card {..<capacity sc bytes}"
      using d(5,8) by (simp add: is_all_free_def)
    then show "hfree hdr = {..<capacity sc bytes}"
      by (rule card_subset_eq [OF finite_lessThan d(7)])
  next
    assume "hfree hdr = {..<capacity sc bytes}"
    then show "is_all_free hdr"
      using d(5,8) by (simp add: is_all_free_def)
  qed
qed

lemma slab_remote_iff: "slab_ok words sc bytes base hdr js \<Longrightarrow> has_remote_frees hdr \<longleftrightarrow> js \<noteq> []"
  by (drule slab_okD(12), drule stack_head) (simp add: has_remote_frees_def)

lemma drain_ok:
  assumes h: "sm_hdr mem base = Some hdr" and ok: "slab_ok (sm_word mem) sc bytes base hdr js"
  shows "\<exists>hdr'. drain_remote_frees mem base = Some (mem\<lparr>sm_hdr := (sm_hdr mem)(base \<mapsto> hdr')\<rparr>) \<and>
    slab_ok (sm_word mem) sc bytes base hdr' [] \<and> hfree hdr' = hfree hdr \<union> set js \<and> same_link hdr hdr' \<and>
    sh_owner_cpu hdr' = sh_owner_cpu hdr"
proof (cases "js = []")
  case True
  then have "sh_remote_head hdr = 0"
    using slab_okD(12) [OF ok] by simp
  with h have "drain_remote_frees mem base = Some mem"
    by (simp add: drain_remote_frees_def)
  moreover have "mem\<lparr>sm_hdr := (sm_hdr mem)(base \<mapsto> hdr)\<rparr> = mem"
    using h by (simp add: fun_upd_idem)
  ultimately show ?thesis
    using ok True by (intro exI [of _ hdr]) (simp add: same_link_def)
next
  case False
  note d = slab_okD [OF ok]
  have hd: "sh_remote_head hdr \<noteq> 0"
    using stack_head [OF d(12)] False by simp
  let ?h0 = "hdr\<lparr>sh_remote_head := 0, sh_remote_count := 0\<rparr>"
  obtain hdr' where r: "drain_loop (sm_word mem) base (sh_remote_head hdr) ?h0 = Some hdr'"
    "set_slots (set js) ?h0 hdr'" "sh_local_free_count hdr' = card (hfree hdr')"
    using drain_loop_ok [OF d(12,9,10), of ?h0] d by auto
  note f = set_slots_fields [OF r(2)]
  have "slab_ok (sm_word mem) sc bytes base hdr' []"
    using d f r(3) by (simp add: slab_ok_def)
  moreover have "drain_remote_frees mem base = Some (mem\<lparr>sm_hdr := (sm_hdr mem)(base \<mapsto> hdr')\<rparr>)"
    using h hd r(1) by (simp add: drain_remote_frees_def)
  ultimately show ?thesis
    using f by (auto simp: same_link_def)
qed

lemma u16_sub_one: "0 < c \<Longrightarrow> c < 65536 \<Longrightarrow> u16_sub c 1 = c - 1"
  by (cases c) (simp_all add: u16_sub_def)

lemma local_alloc_ok:
  assumes ok: "slab_ok words sc bytes base hdr js" and ne: "hfree hdr \<noteq> {}"
  shows "\<exists>i hdr'. local_alloc hdr = Some (i, hdr') \<and> i \<in> hfree hdr \<and> (\<forall>j\<in>hfree hdr. i \<le> j) \<and>
    slab_ok words sc bytes base hdr' js \<and> hfree hdr' = hfree hdr - {i} \<and> same_link hdr hdr' \<and>
    sh_owner_cpu hdr' = sh_owner_cpu hdr"
proof -
  note d = slab_okD [OF ok]
  obtain i bm where t: "take_slot 0 (sh_bitmap hdr) = Some (i, bm)"
    using ne take_slot_None [of "sh_bitmap hdr"] by (cases "take_slot 0 (sh_bitmap hdr)") auto
  note s = take_slot_Some [OF t]
  have "card (hfree hdr) \<le> 512"
    using card_mono [OF _ d(7)] capacity_le [of sc bytes] by simp
  moreover have "card (hfree hdr - {i}) = card (hfree hdr) - 1" "0 < card (hfree hdr)"
    using s ne by (simp_all add: card_gt_0_iff)
  ultimately have "u16_sub (sh_local_free_count hdr) 1 = card (free_slots bm)"
    using s d(8) u16_sub_one [of "card (hfree hdr)"] by simp
  then show ?thesis
    using t s d by (auto simp: local_alloc_def slab_ok_def same_link_def)
qed

lemma local_free_ok:
  assumes ok: "slab_ok words sc bytes base hdr js"
    and i: "i < capacity sc bytes" "i \<notin> hfree hdr" "i \<notin> set js"
  shows "\<exists>hdr'. local_free hdr i = Some hdr' \<and> slab_ok words sc bytes base hdr' js \<and>
    hfree hdr' = insert i (hfree hdr) \<and> same_link hdr hdr' \<and> sh_owner_cpu hdr' = sh_owner_cpu hdr"
proof -
  note d = slab_okD [OF ok]
  have "i < 512"
    using i(1) capacity_le [of sc bytes] by simp
  then have wi: "i div 64 < length (sh_bitmap hdr)"
    using d(6) by (simp add: BITMAP_WORDS_def div_less_iff_less_mult)
  note s = set_slot [OF wi]
  have "insert i (hfree hdr) \<subseteq> {..<capacity sc bytes}"
    using d(7) i(1) by auto
  then have "Suc (card (hfree hdr)) \<le> 512"
    using card_mono [of "{..<capacity sc bytes}" "insert i (hfree hdr)"] capacity_le [of sc bytes] i(2) by simp
  then have "u16_add (sh_local_free_count hdr) 1 = card (insert i (hfree hdr))"
    using d(8) i(2) by (simp add: u16_add_def)
  then show ?thesis
    using wi s d i by (auto simp: local_free_def Let_def slab_ok_def same_link_def)
qed

lemma header_init_ok:
  assumes "base + bytes < usize_lim" "bytes < 2 ^ 32"
  shows "\<exists>hdr. header_init sc bytes cpu = Some hdr \<and> slab_ok words sc bytes base hdr [] \<and>
    hfree hdr = {..<capacity sc bytes} \<and> sh_owner_cpu hdr = cpu"
proof -
  have cap: "min ((bytes - data_offset (class_size sc)) div class_size sc) MAX_OBJECTS_PER_SLAB = capacity sc bytes"
    by (simp add: capacity_def)
  obtain bm where "init_bitmap (capacity sc bytes) = Some bm" "length bm = BITMAP_WORDS"
    "free_slots bm = {..<capacity sc bytes}"
    using init_bitmap_slots [OF capacity_le] by blast
  moreover have "as_u16 (capacity sc bytes) = capacity sc bytes" "as_u32 bytes = bytes"
    using capacity_le [of sc bytes] assms(2) by (simp_all add: as_u16_def as_u32_def)
  ultimately show ?thesis
    using assms(1) by (simp add: header_init_def Let_def usize_saturating_sub_def cap slab_ok_def)
qed

section \<open>Moving a slab between lists\<close>

lemma chain_same_link:
  assumes "chain f k p h xs"
    and "\<And>x. x \<in> set xs \<Longrightarrow> x \<in> dom f' \<and> same_link (hat f x) (hat f' x)"
  shows "chain f' k p h xs"
  using assms by (induction xs arbitrary: p h) (auto simp: same_link_def)

lemma chain_relinked:
  assumes "chain (sm_hdr mem) k p h xs" "relinked mem mem' X" "set xs \<inter> X = {}"
  shows "chain (sm_hdr mem') k p h xs"
  by (rule chain_frame [OF assms(1)]) (use assms(2,3) in \<open>auto simp: relinked_def\<close>)

lemma move_ok:
  assumes A: "chain (sm_hdr mem) (lh_kind A) 0 (lh_first A) xs"
    and B: "chain (sm_hdr mem) (lh_kind B) 0 (lh_first B) ys" and d: "distinct (xs @ ys)" and b: "b \<in> set xs"
  shows "\<exists>mem1 mem2 h. list_remove mem A b = Some (mem1, A\<lparr>lh_first := h\<rparr>) \<and>
    push_front mem1 B b = Some (mem2, B\<lparr>lh_first := b\<rparr>) \<and>
    chain (sm_hdr mem2) (lh_kind A) 0 h (remove1 b xs) \<and> chain (sm_hdr mem2) (lh_kind B) 0 b (b # ys) \<and>
    relinked mem mem2 (set xs \<union> set ys)"
proof -
  have dx: "distinct xs" "distinct ys" "set xs \<inter> set ys = {}"
    using d by auto
  obtain mem1 h where r: "list_remove mem A b = Some (mem1, A\<lparr>lh_first := h\<rparr>)"
    "chain (sm_hdr mem1) (lh_kind A) 0 h (remove1 b xs)" "relinked mem mem1 (set xs)"
    using list_remove_ok [OF A dx(1) b] by blast
  have B1: "chain (sm_hdr mem1) (lh_kind B) 0 (lh_first B) ys"
    using dx(3) by (intro chain_relinked [OF B r(3)]) blast
  have bb: "b \<notin> set ys" "b \<noteq> 0" "b \<in> dom (sm_hdr mem1)"
    using b dx(3) chain_member [OF A b] r(3) by (auto simp: relinked_def)
  obtain mem2 where p: "push_front mem1 B b = Some (mem2, B\<lparr>lh_first := b\<rparr>)"
    "chain (sm_hdr mem2) (lh_kind B) 0 b (b # ys)" "relinked mem1 mem2 (set (b # ys))"
    using push_front_ok [OF B1 dx(2) bb] by blast
  have "set (remove1 b xs) \<inter> set (b # ys) = {}"
    using dx set_remove1_subset [of b xs] by auto
  then have "chain (sm_hdr mem2) (lh_kind A) 0 h (remove1 b xs)"
    by (rule chain_relinked [OF r(2) p(3)])
  moreover have "relinked mem mem2 (set xs \<union> set ys)"
    by (rule relinked_mono [OF relinked_trans [OF r(3) p(3)]]) (use b in auto)
  ultimately show ?thesis
    using r(1) p by blast
qed

section \<open>The cache invariant\<close>

abbreviation cbytes :: "usize \<Rightarrow> slab_cache \<Rightarrow> usize" where
  "cbytes ps c \<equiv> slab_pages (sc_class c) ps * ps"

abbreviation ccap :: "usize \<Rightarrow> slab_cache \<Rightarrow> nat" where
  "ccap ps c \<equiv> capacity (sc_class c) (cbytes ps c)"

definition lists_ok :: "headers \<Rightarrow> slab_cache \<Rightarrow> usize list \<Rightarrow> usize list \<Rightarrow> usize list \<Rightarrow> bool" where
  "lists_ok f c P F E \<longleftrightarrow>
     lh_kind (sc_partial c) = ListPartial \<and> lh_kind (sc_full c) = ListFull \<and> lh_kind (sc_empty c) = ListEmpty \<and>
     chain f ListPartial 0 (lh_first (sc_partial c)) P \<and> chain f ListFull 0 (lh_first (sc_full c)) F \<and>
     chain f ListEmpty 0 (lh_first (sc_empty c)) E \<and>
     distinct (P @ F @ E) \<and> sc_empty_count c = length E \<and> length E \<le> 1"

definition slabs_ok ::
  "usize \<Rightarrow> slab_mem \<Rightarrow> slab_cache \<Rightarrow> usize set \<Rightarrow> (usize \<Rightarrow> nat list) \<Rightarrow> bool" where
  "slabs_ok ps mem c S rs \<longleftrightarrow>
     (\<forall>b\<in>S. slab_ok (sm_word mem) (sc_class c) (cbytes ps c) b (hat (sm_hdr mem) b) (rs b)) \<and>
     (\<forall>b\<in>S. ps dvd b) \<and>
     (\<forall>b\<in>S. \<forall>b'\<in>S. b \<noteq> b' \<longrightarrow> {b..<b + cbytes ps c} \<inter> {b'..<b' + cbytes ps c} = {})"

text \<open>Which list a slab is on.\<close>

definition sorted_slabs ::
  "usize \<Rightarrow> slab_mem \<Rightarrow> slab_cache \<Rightarrow> usize list \<Rightarrow> usize list \<Rightarrow> usize list \<Rightarrow> (usize \<Rightarrow> nat list) \<Rightarrow> bool" where
  "sorted_slabs ps mem c P F E rs \<longleftrightarrow>
     (\<forall>b\<in>set P. hfree (hat (sm_hdr mem) b) \<noteq> {} \<or> rs b \<noteq> []) \<and>
     (\<forall>b\<in>set F. hfree (hat (sm_hdr mem) b) = {}) \<and>
     (\<forall>b\<in>set E. hfree (hat (sm_hdr mem) b) = {..<ccap ps c})"

definition cache_rep ::
  "usize \<Rightarrow> slab_mem \<Rightarrow> slab_cache \<Rightarrow> usize list \<Rightarrow> usize list \<Rightarrow> usize list \<Rightarrow> (usize \<Rightarrow> nat list) \<Rightarrow> bool" where
  "cache_rep ps mem c P F E rs \<longleftrightarrow> lists_ok (sm_hdr mem) c P F E \<and>
     slabs_ok ps mem c (set P \<union> set F \<union> set E) rs \<and> sorted_slabs ps mem c P F E rs \<and> 0 < ccap ps c"

text \<open>The live objects, each as a slab with a slot.\<close>

definition cache_live :: "usize \<Rightarrow> slab_mem \<Rightarrow> slab_cache \<Rightarrow> usize set \<Rightarrow> (usize \<Rightarrow> nat list) \<Rightarrow> (usize \<times> nat) set" where
  "cache_live ps mem c S rs =
     {(b, i). b \<in> S \<and> i < ccap ps c \<and> i \<notin> hfree (hat (sm_hdr mem) b) \<and> i \<notin> set (rs b)}"

lemma cache_repD:
  assumes "cache_rep ps mem c P F E rs"
  shows "lists_ok (sm_hdr mem) c P F E" "slabs_ok ps mem c (set P \<union> set F \<union> set E) rs"
    "sorted_slabs ps mem c P F E rs" "0 < ccap ps c"
  using assms by (simp_all add: cache_rep_def)

lemma lists_okD:
  assumes "lists_ok f c P F E"
  shows "lh_kind (sc_partial c) = ListPartial" "lh_kind (sc_full c) = ListFull" "lh_kind (sc_empty c) = ListEmpty"
    "chain f ListPartial 0 (lh_first (sc_partial c)) P" "chain f ListFull 0 (lh_first (sc_full c)) F"
    "chain f ListEmpty 0 (lh_first (sc_empty c)) E" "distinct (P @ F @ E)" "sc_empty_count c = length E" "length E \<le> 1"
  using assms by (simp_all add: lists_ok_def)

text \<open>Relinking keeps the data of every slab.\<close>

lemma slabs_ok_relinked:
  assumes "relinked mem mem' X" "slabs_ok ps mem c S rs" "sc_class c' = sc_class c"
  shows "slabs_ok ps mem' c' S rs"
proof -
  have w: "sm_word mem' = sm_word mem" and d: "\<And>b. dat (hat (sm_hdr mem') b) = dat (hat (sm_hdr mem) b)"
    using assms(1) by (auto simp: relinked_def)
  show ?thesis
    using assms(2) unfolding slabs_ok_def w assms(3) slab_ok_dat [OF d] .
qed

lemma relinked_dat: "relinked mem mem' X \<Longrightarrow> dat (hat (sm_hdr mem') b) = dat (hat (sm_hdr mem) b)"
  by (simp add: relinked_def)

lemma relinked_free:
  assumes "relinked mem mem' X"
  shows "hfree (hat (sm_hdr mem') b) = hfree (hat (sm_hdr mem) b)"
  by (simp only: dat_fields(6) [OF relinked_dat [OF assms]])

lemma cache_live_relinked:
  "relinked mem mem' X \<Longrightarrow> sc_class c' = sc_class c \<Longrightarrow> cache_live ps mem' c' S rs = cache_live ps mem c S rs"
  by (simp add: cache_live_def relinked_free)

text \<open>Changing the data of one slab keeps the lists.\<close>

lemma lists_ok_data:
  assumes "lists_ok f c P F E" "f b = Some hdr" "same_link hdr hdr'"
  shows "lists_ok (f(b \<mapsto> hdr')) c P F E"
proof -
  have "chain (f(b \<mapsto> hdr')) k 0 h xs" if c: "chain f k 0 h xs" for k h xs
  proof (rule chain_same_link [OF c])
    fix x assume "x \<in> set xs"
    then have "x \<in> dom f"
      using chain_member [OF c] by blast
    then show "x \<in> dom (f(b \<mapsto> hdr')) \<and> same_link (hat f x) (hat (f(b \<mapsto> hdr')) x)"
      using assms(2,3) by (cases "x = b") (auto simp: same_link_def)
  qed
  with assms(1) show ?thesis
    by (simp add: lists_ok_def)
qed

lemma slabs_ok_data:
  assumes "slabs_ok ps mem c S rs" "slab_ok (sm_word mem) (sc_class c) (cbytes ps c) b hdr' js"
  shows "slabs_ok ps (mem\<lparr>sm_hdr := (sm_hdr mem)(b \<mapsto> hdr')\<rparr>) c S (rs(b := js))"
  using assms unfolding slabs_ok_def by simp

text \<open>What an operation on a cache leaves alone: the words of the objects and the headers of other slabs.\<close>

definition mem_frame :: "slab_mem \<Rightarrow> slab_mem \<Rightarrow> usize set \<Rightarrow> bool" where
  "mem_frame mem mem' S \<longleftrightarrow> sm_word mem' = sm_word mem \<and> (\<forall>x. x \<notin> S \<longrightarrow> sm_hdr mem' x = sm_hdr mem x) \<and>
     (\<forall>x\<in>S. sh_owner_cpu (hat (sm_hdr mem') x) = sh_owner_cpu (hat (sm_hdr mem) x))"

lemma mem_frame_refl [simp]: "mem_frame mem mem S"
  by (simp add: mem_frame_def)

lemma mem_frame_trans: "mem_frame a b S \<Longrightarrow> mem_frame b c S \<Longrightarrow> mem_frame a c S"
  by (simp add: mem_frame_def)

lemma relinked_frame:
  assumes "relinked mem mem' X" "X \<subseteq> S"
  shows "mem_frame mem mem' S"
proof -
  have "sh_owner_cpu (hat (sm_hdr mem') x) = sh_owner_cpu (hat (sm_hdr mem) x)" for x
    by (rule dat_fields(8) [OF relinked_dat [OF assms(1)]])
  with assms show ?thesis
    unfolding mem_frame_def relinked_def by blast
qed

lemma data_frame:
  assumes "sm_hdr mem b = Some hdr" "b \<in> S" "sh_owner_cpu hdr' = sh_owner_cpu hdr"
  shows "mem_frame mem (mem\<lparr>sm_hdr := (sm_hdr mem)(b \<mapsto> hdr')\<rparr>) S"
  using assms by (auto simp: mem_frame_def)

lemma chain_hdr: "chain f k p h xs \<Longrightarrow> x \<in> set xs \<Longrightarrow> f x = Some (hat f x)"
  using chain_member [of f k p h xs x] by auto

lemma lists_ok_hdr: "lists_ok f c P F E \<Longrightarrow> b \<in> set P \<union> set F \<union> set E \<Longrightarrow> f b = Some (hat f b)"
  using chain_hdr by (fastforce simp: lists_ok_def)

lemma same_link_trans: "same_link a b \<Longrightarrow> same_link b c \<Longrightarrow> same_link a c"
  by (simp add: same_link_def)

lemma cache_live_data:
  assumes "b \<in> S" "hfree hdr' \<union> set js = hfree (hat (sm_hdr mem) b) \<union> set (rs b) - {i}"
    "i \<in> hfree (hat (sm_hdr mem) b) \<union> set (rs b)" "i < ccap ps c"
  shows "cache_live ps (mem\<lparr>sm_hdr := (sm_hdr mem)(b \<mapsto> hdr')\<rparr>) c S (rs(b := js)) =
      insert (b, i) (cache_live ps mem c S rs)" "(b, i) \<notin> cache_live ps mem c S rs"
proof -
  show "(b, i) \<notin> cache_live ps mem c S rs"
    using assms(3) by (simp add: cache_live_def)
  have k: "j \<notin> hfree hdr' \<and> j \<notin> set js \<longleftrightarrow> j = i \<or> j \<notin> hfree (hat (sm_hdr mem) b) \<and> j \<notin> set (rs b)" for j
    using assms(2) by blast
  have "x \<in> cache_live ps (mem\<lparr>sm_hdr := (sm_hdr mem)(b \<mapsto> hdr')\<rparr>) c S (rs(b := js)) \<longleftrightarrow>
      x \<in> insert (b, i) (cache_live ps mem c S rs)" for x
  proof (cases "fst x = b")
    case True
    then show ?thesis
      using k [of "snd x"] assms(1,4) by (cases x) (auto simp: cache_live_def)
  next
    case False
    then show ?thesis
      by (cases x) (simp add: cache_live_def)
  qed
  then show "cache_live ps (mem\<lparr>sm_hdr := (sm_hdr mem)(b \<mapsto> hdr')\<rparr>) c S (rs(b := js)) =
      insert (b, i) (cache_live ps mem c S rs)"
    by blast
qed

text \<open>Moving a slab from the partial to the full list.\<close>

lemma to_full_ok:
  assumes lo: "lists_ok (sm_hdr mem) c P F E" and b: "b \<in> set P"
  shows "\<exists>mem3 mem4 h. list_remove mem (sc_partial c) b = Some (mem3, (sc_partial c)\<lparr>lh_first := h\<rparr>) \<and>
    push_front mem3 (sc_full c) b = Some (mem4, (sc_full c)\<lparr>lh_first := b\<rparr>) \<and>
    relinked mem mem4 (set P \<union> set F) \<and>
    lists_ok (sm_hdr mem4) (c\<lparr>sc_partial := (sc_partial c)\<lparr>lh_first := h\<rparr>, sc_full := (sc_full c)\<lparr>lh_first := b\<rparr>\<rparr>)
      (remove1 b P) (b # F) E"
proof -
  note l = lists_okD [OF lo]
  have dist: "distinct (P @ F)" "(set P \<union> set F) \<inter> set E = {}"
    using l(7) by auto
  obtain mem3 mem4 h where m: "list_remove mem (sc_partial c) b = Some (mem3, (sc_partial c)\<lparr>lh_first := h\<rparr>)"
    "push_front mem3 (sc_full c) b = Some (mem4, (sc_full c)\<lparr>lh_first := b\<rparr>)"
    "chain (sm_hdr mem4) ListPartial 0 h (remove1 b P)" "chain (sm_hdr mem4) ListFull 0 b (b # F)"
    "relinked mem mem4 (set P \<union> set F)"
    using move_ok [of mem "sc_partial c" P "sc_full c" F b] l(1,2,4,5) dist(1) b by auto
  have "chain (sm_hdr mem4) ListEmpty 0 (lh_first (sc_empty c)) E"
    by (rule chain_relinked [OF l(6) m(5)]) (use dist(2) in blast)
  moreover have "distinct (remove1 b P @ (b # F) @ E)"
    using l(7) b by auto
  ultimately show ?thesis
    using m l by (auto simp: lists_ok_def)
qed

lemma to_partial_ok:
  assumes lo: "lists_ok (sm_hdr mem) c P F E" and b: "b \<in> set F"
  shows "\<exists>mem' h. move_to_partial_from_full mem c b = Some (mem',
      c\<lparr>sc_full := (sc_full c)\<lparr>lh_first := h\<rparr>, sc_partial := (sc_partial c)\<lparr>lh_first := b\<rparr>\<rparr>) \<and>
    relinked mem mem' (set P \<union> set F) \<and>
    lists_ok (sm_hdr mem') (c\<lparr>sc_full := (sc_full c)\<lparr>lh_first := h\<rparr>, sc_partial := (sc_partial c)\<lparr>lh_first := b\<rparr>\<rparr>)
      (b # P) (remove1 b F) E"
proof -
  note l = lists_okD [OF lo]
  have dist: "distinct (F @ P)" "(set F \<union> set P) \<inter> set E = {}"
    using l(7) by auto
  obtain mem3 mem4 h where m: "list_remove mem (sc_full c) b = Some (mem3, (sc_full c)\<lparr>lh_first := h\<rparr>)"
    "push_front mem3 (sc_partial c) b = Some (mem4, (sc_partial c)\<lparr>lh_first := b\<rparr>)"
    "chain (sm_hdr mem4) ListFull 0 h (remove1 b F)" "chain (sm_hdr mem4) ListPartial 0 b (b # P)"
    "relinked mem mem4 (set F \<union> set P)"
    using move_ok [of mem "sc_full c" F "sc_partial c" P b] l(1,2,4,5) dist(1) b by auto
  have "chain (sm_hdr mem4) ListEmpty 0 (lh_first (sc_empty c)) E"
    by (rule chain_relinked [OF l(6) m(5)]) (use dist(2) in blast)
  moreover have "distinct ((b # P) @ remove1 b F @ E)"
    using l(7) b by auto
  ultimately show ?thesis
    using m l by (auto simp: lists_ok_def move_to_partial_from_full_def Un_commute)
qed

end
