(* ===== verification/SlabOps.thy ===== *)
theory SlabOps
  imports SlabCache
begin

text \<open>
  The operations of a slab cache: allocation from the partial list, from full slabs with remote frees and
  from the empty slab; release; adding a slab.
\<close>

section \<open>Allocation from the partial list\<close>

text \<open>A successful allocation of slot \<open>i\<close> of slab \<open>b\<close>; the slabs of the cache are \<open>S\<close> before and after.\<close>

definition alloc_step ::
  "usize \<Rightarrow> slab_mem \<Rightarrow> slab_cache \<Rightarrow> usize set \<Rightarrow> (usize \<Rightarrow> nat list) \<Rightarrow> usize \<Rightarrow> slab_mem \<Rightarrow> slab_cache \<Rightarrow> bool" where
  "alloc_step ps mem c S rs addr mem' c' \<longleftrightarrow> (\<exists>b i P' F' E' rs'. b \<in> S \<and> i < ccap ps c \<and>
     addr = slot_addr (sc_class c) b i \<and> (b, i) \<notin> cache_live ps mem c S rs \<and>
     cache_rep ps mem' c' P' F' E' rs' \<and> set P' \<union> set F' \<union> set E' = S \<and> sc_class c' = sc_class c \<and>
     cache_live ps mem' c' S rs' = insert (b, i) (cache_live ps mem c S rs) \<and> mem_frame mem mem' S)"

text \<open>Only one slab has changed.\<close>

lemma sorted_slabsI:
  assumes so: "sorted_slabs ps mem c P F E rs"
    and other: "\<And>x. x \<noteq> b \<Longrightarrow> hfree (hat (sm_hdr mem') x) = hfree (hat (sm_hdr mem) x)"
    and cc: "sc_class c' = sc_class c"
    and sub: "set P' - {b} \<subseteq> set P" "set F' - {b} \<subseteq> set F" "set E' - {b} \<subseteq> set E"
    and here: "b \<in> set P' \<Longrightarrow> hfree (hat (sm_hdr mem') b) \<noteq> {} \<or> js \<noteq> []"
      "b \<in> set F' \<Longrightarrow> hfree (hat (sm_hdr mem') b) = {}"
      "b \<in> set E' \<Longrightarrow> hfree (hat (sm_hdr mem') b) = {..<ccap ps c}"
  shows "sorted_slabs ps mem' c' P' F' E' (rs(b := js))"
  unfolding sorted_slabs_def
proof (intro conjI ballI)
  fix x assume "x \<in> set P'"
  then show "hfree (hat (sm_hdr mem') x) \<noteq> {} \<or> (rs(b := js)) x \<noteq> []"
    using so other [of x] sub(1) here(1) unfolding sorted_slabs_def by (cases "x = b") auto
next
  fix x assume "x \<in> set F'"
  then show "hfree (hat (sm_hdr mem') x) = {}"
    using so other [of x] sub(2) here(2) unfolding sorted_slabs_def by (cases "x = b") auto
next
  fix x assume "x \<in> set E'"
  then show "hfree (hat (sm_hdr mem') x) = {..<ccap ps c'}"
    using so other [of x] sub(3) here(3) unfolding sorted_slabs_def cc by (cases "x = b") auto
qed

lemma try_alloc_ok:
  assumes rep: "cache_rep ps mem c (b # P) F E rs"
  shows "\<exists>addr mem' c'. try_alloc_from_partial mem c = Some (Some addr, mem', c') \<and>
    alloc_step ps mem c (set (b # P) \<union> set F \<union> set E) rs addr mem' c'"
proof -
  define S where "S = set (b # P) \<union> set F \<union> set E"
  note r = cache_repD [OF rep]
  note l = lists_okD [OF r(1)]
  let ?f = "sm_hdr mem" and ?sc = "sc_class c"
  define hdr where "hdr = hat ?f b"
  have b: "?f b = Some hdr" "lh_first (sc_partial c) = b" "b \<noteq> 0" "b \<in> S"
    using chain_hdr [OF l(4), of b] chain_member [OF l(4), of b] l(4) by (simp_all add: hdr_def S_def)
  have ok: "slab_ok (sm_word mem) ?sc (cbytes ps c) b hdr (rs b)"
    using r(2) unfolding slabs_ok_def hdr_def by simp
  obtain hdr1 where h1: "drain_remote_frees mem b = Some (mem\<lparr>sm_hdr := ?f(b \<mapsto> hdr1)\<rparr>)"
    "slab_ok (sm_word mem) ?sc (cbytes ps c) b hdr1 []" "hfree hdr1 = hfree hdr \<union> set (rs b)" "same_link hdr hdr1"
    "sh_owner_cpu hdr1 = sh_owner_cpu hdr"
    using drain_ok [OF b(1) ok] by blast
  have ne: "hfree hdr1 \<noteq> {}"
    using r(3) h1(3) unfolding sorted_slabs_def hdr_def by auto
  obtain i hdr2 where h2: "local_alloc hdr1 = Some (i, hdr2)" "i \<in> hfree hdr1"
    "slab_ok (sm_word mem) ?sc (cbytes ps c) b hdr2 []" "hfree hdr2 = hfree hdr1 - {i}" "same_link hdr1 hdr2"
    "sh_owner_cpu hdr2 = sh_owner_cpu hdr1"
    using local_alloc_ok [OF h1(2) ne] by blast
  have i: "i < ccap ps c"
    using h2(2) slab_okD(7) [OF h1(2)] by blast
  have addr: "object_addr hdr2 b i = slot_addr ?sc b i"
    by (rule object_exact(1) [OF slab_okD(3) [OF h2(3)] i slab_okD(1) [OF h2(3)]])
  define mem2 where "mem2 = mem\<lparr>sm_hdr := ?f(b \<mapsto> hdr2)\<rparr>"
  have lists2: "lists_ok (sm_hdr mem2) c (b # P) F E"
    using lists_ok_data [OF r(1) b(1) same_link_trans [OF h1(4) h2(5)]] by (simp add: mem2_def)
  have slabs2: "slabs_ok ps mem2 c S (rs(b := []))"
    unfolding mem2_def S_def by (rule slabs_ok_data [OF r(2) h2(3)])
  have "hfree hdr2 \<union> set [] = hfree (hat ?f b) \<union> set (rs b) - {i}" "i \<in> hfree (hat ?f b) \<union> set (rs b)"
    using h1(3) h2(2,4) by (simp_all add: hdr_def)
  note live2 = cache_live_data [where rs = rs and mem = mem and b = b, OF b(4) this i, folded mem2_def]
  have frame2: "mem_frame mem mem2 S"
    unfolding mem2_def by (rule data_frame [OF b(1,4)]) (simp add: h1(5) h2(6))
  have other: "x \<noteq> b \<Longrightarrow> hfree (hat (sm_hdr mem2) x) = hfree (hat ?f x)" for x
    by (simp add: mem2_def)
  have dist: "b \<notin> set P" "b \<notin> set F" "b \<notin> set E"
    using l(7) by auto
  have full: "is_local_full hdr2 \<and> \<not> has_remote_frees hdr2 \<longleftrightarrow> hfree hdr2 = {}"
    using slab_full_iff [OF h2(3)] slab_remote_iff [OF h2(3)] by simp
  show ?thesis
  proof (cases "hfree hdr2 = {}")
    case False
    have "try_alloc_from_partial mem c = Some (Some (slot_addr ?sc b i), mem2, c)"
      using b h1(1) h2(1) addr full False by (auto simp: try_alloc_from_partial_def mem2_def)
    moreover have "sorted_slabs ps mem2 c (b # P) F E (rs(b := []))"
      by (rule sorted_slabsI [OF r(3) other refl]) (use False dist in \<open>auto simp: mem2_def\<close>)
    then have "cache_rep ps mem2 c (b # P) F E (rs(b := []))"
      unfolding cache_rep_def using lists2 slabs2 r(4) by (simp add: S_def)
    ultimately show ?thesis
      unfolding alloc_step_def S_def [symmetric] using b(4) i live2 frame2 S_def by blast
  next
    case True
    obtain mem3 mem4 h where m: "list_remove mem2 (sc_partial c) b = Some (mem3, (sc_partial c)\<lparr>lh_first := h\<rparr>)"
      "push_front mem3 (sc_full c) b = Some (mem4, (sc_full c)\<lparr>lh_first := b\<rparr>)"
      "relinked mem2 mem4 (set (b # P) \<union> set F)"
      "lists_ok (sm_hdr mem4) (c\<lparr>sc_partial := (sc_partial c)\<lparr>lh_first := h\<rparr>, sc_full := (sc_full c)\<lparr>lh_first := b\<rparr>\<rparr>)
        P (b # F) E"
      using to_full_ok [OF lists2, of b] by auto
    define c' where "c' = c\<lparr>sc_partial := (sc_partial c)\<lparr>lh_first := h\<rparr>, sc_full := (sc_full c)\<lparr>lh_first := b\<rparr>\<rparr>"
    have cc: "sc_class c' = ?sc"
      by (simp add: c'_def)
    have run: "try_alloc_from_partial mem c = Some (Some (slot_addr ?sc b i), mem4, c')"
      using b h1(1) h2(1) addr full True m(1,2) by (simp add: try_alloc_from_partial_def mem2_def c'_def)
    have fr4: "hfree (hat (sm_hdr mem4) x) = hfree (hat (sm_hdr mem2) x)" for x
      by (rule relinked_free [OF m(3)])
    have "sorted_slabs ps mem4 c' P (b # F) E (rs(b := []))"
      by (rule sorted_slabsI [OF r(3) _ cc]) (use True dist other in \<open>auto simp: fr4 mem2_def\<close>)
    moreover have "slabs_ok ps mem4 c' S (rs(b := []))"
      by (rule slabs_ok_relinked [OF m(3) slabs2 cc])
    ultimately have rep4: "cache_rep ps mem4 c' P (b # F) E (rs(b := []))"
      unfolding cache_rep_def using m(4) r(4) cc by (simp add: S_def c'_def [symmetric] insert_commute)
    have live4: "cache_live ps mem4 c' S (rs(b := [])) = insert (b, i) (cache_live ps mem c S rs)"
      unfolding cache_live_relinked [OF m(3) cc] by (rule live2)
    have frame4: "mem_frame mem mem4 S"
      by (rule mem_frame_trans [OF frame2 relinked_frame [OF m(3)]]) (auto simp: S_def)
    have "set P \<union> set (b # F) \<union> set E = S"
      by (auto simp: S_def)
    with run rep4 live4 frame4 live2(2) b(4) i cc show ?thesis
      unfolding alloc_step_def S_def [symmetric] by blast
  qed
qed

lemma try_alloc_empty:
  "cache_rep ps mem c [] F E rs \<Longrightarrow> try_alloc_from_partial mem c = Some (None, mem, c)"
  by (simp add: cache_rep_def lists_ok_def try_alloc_from_partial_def)

section \<open>Reclaiming full slabs\<close>

lemma cache_live_same:
  assumes "hfree hdr' \<union> set js = hfree (hat (sm_hdr mem) b) \<union> set (rs b)"
  shows "cache_live ps (mem\<lparr>sm_hdr := (sm_hdr mem)(b \<mapsto> hdr')\<rparr>) c S (rs(b := js)) = cache_live ps mem c S rs"
proof -
  have k: "j \<notin> hfree hdr' \<and> j \<notin> set js \<longleftrightarrow> j \<notin> hfree (hat (sm_hdr mem) b) \<and> j \<notin> set (rs b)" for j
    using assms by blast
  have "x \<in> cache_live ps (mem\<lparr>sm_hdr := (sm_hdr mem)(b \<mapsto> hdr')\<rparr>) c S (rs(b := js)) \<longleftrightarrow>
      x \<in> cache_live ps mem c S rs" for x
  proof (cases "fst x = b")
    case True
    then show ?thesis
      using k [of "snd x"] by (cases x) (auto simp: cache_live_def)
  next
    case False
    then show ?thesis
      by (cases x) (simp add: cache_live_def)
  qed
  then show ?thesis
    by blast
qed

text \<open>Draining a full slab and moving it to the partial list.\<close>

lemma reclaim_one:
  assumes rep: "cache_rep ps mem c P F E rs" and x: "x \<in> set F" and pend: "rs x \<noteq> []"
  shows "\<exists>mem1 mem2 c2. drain_remote_frees mem x = Some mem1 \<and>
    move_to_partial_from_full mem1 c x = Some (mem2, c2) \<and>
    cache_rep ps mem2 c2 (x # P) (remove1 x F) E (rs(x := [])) \<and> sc_class c2 = sc_class c \<and>
    cache_live ps mem2 c2 S (rs(x := [])) = cache_live ps mem c S rs \<and>
    mem_frame mem mem2 (set P \<union> set F \<union> set E)"
proof -
  note r = cache_repD [OF rep]
  note l = lists_okD [OF r(1)]
  let ?f = "sm_hdr mem" and ?sc = "sc_class c" and ?S = "set P \<union> set F \<union> set E"
  define hdr where "hdr = hat ?f x"
  have h: "?f x = Some hdr"
    using chain_hdr [OF l(5) x] by (simp add: hdr_def)
  have ok: "slab_ok (sm_word mem) ?sc (cbytes ps c) x hdr (rs x)"
    using r(2) x unfolding slabs_ok_def hdr_def by simp
  obtain hdr1 where h1: "drain_remote_frees mem x = Some (mem\<lparr>sm_hdr := ?f(x \<mapsto> hdr1)\<rparr>)"
    "slab_ok (sm_word mem) ?sc (cbytes ps c) x hdr1 []" "hfree hdr1 = hfree hdr \<union> set (rs x)" "same_link hdr hdr1"
    "sh_owner_cpu hdr1 = sh_owner_cpu hdr"
    using drain_ok [OF h ok] by blast
  define mem1 where "mem1 = mem\<lparr>sm_hdr := ?f(x \<mapsto> hdr1)\<rparr>"
  have lists1: "lists_ok (sm_hdr mem1) c P F E"
    using lists_ok_data [OF r(1) h h1(4)] by (simp add: mem1_def)
  obtain mem2 h2 where m: "move_to_partial_from_full mem1 c x = Some (mem2,
      c\<lparr>sc_full := (sc_full c)\<lparr>lh_first := h2\<rparr>, sc_partial := (sc_partial c)\<lparr>lh_first := x\<rparr>\<rparr>)"
    "relinked mem1 mem2 (set P \<union> set F)"
    "lists_ok (sm_hdr mem2) (c\<lparr>sc_full := (sc_full c)\<lparr>lh_first := h2\<rparr>, sc_partial := (sc_partial c)\<lparr>lh_first := x\<rparr>\<rparr>)
      (x # P) (remove1 x F) E"
    using to_partial_ok [OF lists1 x] by blast
  define c2 where "c2 = c\<lparr>sc_full := (sc_full c)\<lparr>lh_first := h2\<rparr>, sc_partial := (sc_partial c)\<lparr>lh_first := x\<rparr>\<rparr>"
  have cc: "sc_class c2 = ?sc"
    by (simp add: c2_def)
  have dist: "x \<notin> set P" "x \<notin> set E" "distinct F"
    using l(7) x by auto
  have sets: "set (x # P) \<union> set (remove1 x F) \<union> set E = ?S"
    using x dist(3) by auto
  have fr: "hfree (hat (sm_hdr mem2) y) = hfree (hat (sm_hdr mem1) y)" for y
    by (rule relinked_free [OF m(2)])
  have "sorted_slabs ps mem2 c2 (x # P) (remove1 x F) E (rs(x := []))"
  proof (rule sorted_slabsI [OF r(3) _ cc])
    show "hfree (hat (sm_hdr mem2) x) \<noteq> {} \<or> [] \<noteq> []"
      using pend h1(3) by (simp add: fr mem1_def)
  qed (use dist set_remove1_subset [of x F] in \<open>auto simp: fr mem1_def\<close>)
  moreover have "slabs_ok ps mem2 c2 ?S (rs(x := []))"
    by (rule slabs_ok_relinked [OF m(2) _ cc]) (use slabs_ok_data [OF r(2) h1(2)] in \<open>simp add: mem1_def\<close>)
  ultimately have rep2: "cache_rep ps mem2 c2 (x # P) (remove1 x F) E (rs(x := []))"
    unfolding cache_rep_def sets using m(3) r(4) cc by (simp add: c2_def [symmetric])
  have "cache_live ps mem2 c2 S (rs(x := [])) = cache_live ps mem1 c S (rs(x := []))"
    by (rule cache_live_relinked [OF m(2) cc])
  also have "\<dots> = cache_live ps mem c S rs"
    unfolding mem1_def by (rule cache_live_same) (use h1(3) in \<open>simp add: hdr_def\<close>)
  finally have live: "cache_live ps mem2 c2 S (rs(x := [])) = cache_live ps mem c S rs" .
  have "mem_frame mem mem1 ?S"
    unfolding mem1_def by (rule data_frame [OF h]) (use x h1(5) in auto)
  then have "mem_frame mem mem2 ?S"
    by (rule mem_frame_trans) (rule relinked_frame [OF m(2)], auto)
  with h1(1) m(1) rep2 cc live show ?thesis
    by (auto simp: mem1_def c2_def)
qed

text \<open>The outcome of a walk that only moves slabs.\<close>

definition reclaim_step ::
  "usize \<Rightarrow> slab_mem \<Rightarrow> slab_cache \<Rightarrow> usize set \<Rightarrow> usize list \<Rightarrow> (usize \<Rightarrow> nat list) \<Rightarrow> slab_mem \<Rightarrow> slab_cache \<Rightarrow>
     usize list \<Rightarrow> usize list \<Rightarrow> (usize \<Rightarrow> nat list) \<Rightarrow> bool" where
  "reclaim_step ps mem c S E rs mem' c' P' F' rs' \<longleftrightarrow> cache_rep ps mem' c' P' F' E rs' \<and>
     set P' \<union> set F' \<union> set E = S \<and> sc_class c' = sc_class c \<and>
     cache_live ps mem' c' S rs' = cache_live ps mem c S rs \<and> mem_frame mem mem' S"

lemma reclaim_step_refl:
  "cache_rep ps mem c P F E rs \<Longrightarrow> S = set P \<union> set F \<union> set E \<Longrightarrow> reclaim_step ps mem c S E rs mem c P F rs"
  by (simp add: reclaim_step_def)

lemma reclaim_step_trans:
  assumes "reclaim_step ps mem c S E rs mem1 c1 P1 F1 rs1" "reclaim_step ps mem1 c1 S E rs1 mem2 c2 P2 F2 rs2"
  shows "reclaim_step ps mem c S E rs mem2 c2 P2 F2 rs2"
  using assms mem_frame_trans unfolding reclaim_step_def by metis

lemma reclaim_unfold:
  assumes rep: "cache_rep ps mem c P (ys @ x # xs) E rs"
  shows "reclaim_loop x flag mem c = (let next = (case xs of [] \<Rightarrow> 0 | y # _ \<Rightarrow> y) in
    if rs x = [] then reclaim_loop next flag mem c
    else do {
      mem1 \<leftarrow> drain_remote_frees mem x;
      (mem2, c2) \<leftarrow> move_to_partial_from_full mem1 c x;
      reclaim_loop next True mem2 c2
    })"
proof -
  note r = cache_repD [OF rep]
  note l = lists_okD [OF r(1)]
  define hdr where "hdr = hat (sm_hdr mem) x"
  have x: "sm_hdr mem x = Some hdr" "x \<noteq> 0"
    using chain_hdr [OF l(5), of x] chain_member [OF l(5), of x] unfolding hdr_def by simp_all
  have nx: "sh_next hdr = (case xs of [] \<Rightarrow> 0 | y # _ \<Rightarrow> y)"
    using chain_links(2) [OF l(5)] unfolding hdr_def by (cases xs) auto
  have "slab_ok (sm_word mem) (sc_class c) (cbytes ps c) x hdr (rs x)"
    using r(2) unfolding slabs_ok_def hdr_def by simp
  then have "has_remote_frees hdr \<longleftrightarrow> rs x \<noteq> []"
    by (rule slab_remote_iff)
  with x nx show ?thesis
    by (subst reclaim_loop.simps) (simp add: Let_def)
qed

lemma reclaim_loop_idle:
  assumes "cache_rep ps mem c P (ys @ xs) E rs" "\<forall>x\<in>set xs. rs x = []"
  shows "reclaim_loop (case xs of [] \<Rightarrow> 0 | x # _ \<Rightarrow> x) flag mem c = Some (flag, mem, c)"
  using assms
proof (induction xs arbitrary: ys)
  case (Cons x xs)
  then show ?case
    using Cons.IH [of "ys @ [x]"] by (simp add: reclaim_unfold [OF Cons.prems(1)])
qed (simp add: reclaim_loop.simps)

lemma reclaim_loop_ok:
  assumes "cache_rep ps mem c P (ys @ xs) E rs" "S = set P \<union> set (ys @ xs) \<union> set E"
  shows "\<exists>mem' c' P' F' rs'.
    reclaim_loop (case xs of [] \<Rightarrow> 0 | x # _ \<Rightarrow> x) flag mem c = Some (flag \<or> (\<exists>x\<in>set xs. rs x \<noteq> []), mem', c') \<and>
    reclaim_step ps mem c S E rs mem' c' P' F' rs' \<and> set P \<subseteq> set P' \<and> ((\<exists>x\<in>set xs. rs x \<noteq> []) \<longrightarrow> P' \<noteq> [])"
  using assms
proof (induction xs arbitrary: flag mem c P ys rs)
  case Nil
  then show ?case
    using reclaim_step_refl [OF Nil.prems] by (auto simp: reclaim_loop.simps)
next
  case (Cons x xs)
  note rep = Cons.prems(1)
  note run = reclaim_unfold [OF rep]
  show ?case
  proof (cases "rs x = []")
    case True
    have "cache_rep ps mem c P ((ys @ [x]) @ xs) E rs" "S = set P \<union> set ((ys @ [x]) @ xs) \<union> set E"
      using rep Cons.prems(2) by simp_all
    note ih = Cons.IH [OF this, of flag]
    have ex: "(\<exists>y\<in>set (x # xs). rs y \<noteq> []) \<longleftrightarrow> (\<exists>y\<in>set xs. rs y \<noteq> [])"
      using True by simp
    show ?thesis
      unfolding list.case run Let_def ex if_P [OF True] by (rule ih)
  next
    case False
    have nin: "x \<notin> set ys" "x \<notin> set xs" "x \<in> set (ys @ x # xs)"
      using lists_okD(7) [OF cache_repD(1) [OF rep]] by auto
    obtain mem1 mem2 c2 where m: "drain_remote_frees mem x = Some mem1"
      "move_to_partial_from_full mem1 c x = Some (mem2, c2)"
      "cache_rep ps mem2 c2 (x # P) (remove1 x (ys @ x # xs)) E (rs(x := []))" "sc_class c2 = sc_class c"
      "cache_live ps mem2 c2 S (rs(x := [])) = cache_live ps mem c S rs"
      "mem_frame mem mem2 (set P \<union> set (ys @ x # xs) \<union> set E)"
      using reclaim_one [OF rep nin(3) False] by blast
    have rm: "remove1 x (ys @ x # xs) = ys @ xs"
      using nin by (simp add: remove1_append)
    have S: "S = set (x # P) \<union> set (ys @ xs) \<union> set E"
      using Cons.prems(2) by auto
    from Cons.IH [OF m(3) [unfolded rm] S, of True]
    obtain mem' c' P' F' rs' where ih: "reclaim_loop (case xs of [] \<Rightarrow> 0 | x # _ \<Rightarrow> x) True mem2 c2 = Some (True, mem', c')"
      "reclaim_step ps mem2 c2 S E (rs(x := [])) mem' c' P' F' rs'" "set (x # P) \<subseteq> set P'"
      unfolding simp_thms by blast
    have "reclaim_step ps mem c S E rs mem2 c2 (x # P) (ys @ xs) (rs(x := []))"
      unfolding reclaim_step_def using m(3-6) rm S Cons.prems(2) by simp
    note st = reclaim_step_trans [OF this ih(2)]
    have go: "reclaim_loop x flag mem c = Some (True, mem', c')"
      unfolding run by (simp add: False m(1,2) ih(1))
    have "set P \<subseteq> set P'" "P' \<noteq> []" and ex: "(\<exists>y\<in>set (x # xs). rs y \<noteq> []) = True"
      using ih(3) False by auto
    with go st show ?thesis
      unfolding list.case ex by (intro exI [of _ mem'] exI [of _ c'] exI [of _ P'] exI [of _ F'] exI [of _ rs']) simp
  qed
qed

lemma reclaim_ok:
  assumes rep: "cache_rep ps mem c P F E rs"
  shows "\<exists>mem' c' P' F' rs'.
    reclaim_full_with_remote_frees mem c = Some (\<exists>x\<in>set F. rs x \<noteq> [], mem', c') \<and>
    reclaim_step ps mem c (set P \<union> set F \<union> set E) E rs mem' c' P' F' rs' \<and> ((\<exists>x\<in>set F. rs x \<noteq> []) \<longrightarrow> P' \<noteq> [])"
proof -
  have hd: "lh_first (sc_full c) = (case F of [] \<Rightarrow> 0 | x # _ \<Rightarrow> x)"
    by (rule chain_head [OF lists_okD(5) [OF cache_repD(1) [OF rep]]])
  obtain mem' c' P' F' rs' where r:
    "reclaim_loop (case F of [] \<Rightarrow> 0 | x # _ \<Rightarrow> x) False mem c = Some (False \<or> (\<exists>x\<in>set F. rs x \<noteq> []), mem', c')"
    "reclaim_step ps mem c (set P \<union> set F \<union> set E) E rs mem' c' P' F' rs'" "(\<exists>x\<in>set F. rs x \<noteq> []) \<longrightarrow> P' \<noteq> []"
    using reclaim_loop_ok [where ys = "[]", unfolded append_Nil, OF rep refl, of False] by blast
  have "reclaim_full_with_remote_frees mem c = Some (\<exists>x\<in>set F. rs x \<noteq> [], mem', c')"
    unfolding reclaim_full_with_remote_frees_def hd r(1) by (simp only: simp_thms)
  with r(2,3) show ?thesis
    by blast
qed

lemma reclaim_idle:
  assumes rep: "cache_rep ps mem c P F E rs" and idle: "\<forall>x\<in>set F. rs x = []"
  shows "reclaim_full_with_remote_frees mem c = Some (False, mem, c)"
proof -
  have hd: "lh_first (sc_full c) = (case F of [] \<Rightarrow> 0 | x # _ \<Rightarrow> x)"
    by (rule chain_head [OF lists_okD(5) [OF cache_repD(1) [OF rep]]])
  show ?thesis
    unfolding reclaim_full_with_remote_frees_def hd
    by (rule reclaim_loop_idle [where ys = "[]", unfolded append_Nil, OF rep idle])
qed

section \<open>Allocation\<close>

text \<open>The empty slab becomes a partial one.\<close>

lemma from_empty_ok:
  assumes rep: "cache_rep ps mem c P F [e] rs" and S: "S = set P \<union> set F \<union> {e}"
  shows "\<exists>mem3 mem4 emp part. pop_front mem (sc_empty c) = Some (e, mem3, emp) \<and>
    push_front mem3 (sc_partial c) e = Some (mem4, part) \<and>
    reclaim_step ps mem c S [] rs
      mem4 (c\<lparr>sc_empty := emp, sc_empty_count := usize_sub (sc_empty_count c) 1, sc_partial := part\<rparr>) (e # P) F rs"
proof -
  note r = cache_repD [OF rep]
  note l = lists_okD [OF r(1)]
  have dist: "distinct ([e] @ P)" "({e} \<union> set P) \<inter> set F = {}"
    using l(7) by auto
  obtain mem3 mem4 h where m: "list_remove mem (sc_empty c) e = Some (mem3, (sc_empty c)\<lparr>lh_first := h\<rparr>)"
    "push_front mem3 (sc_partial c) e = Some (mem4, (sc_partial c)\<lparr>lh_first := e\<rparr>)"
    "chain (sm_hdr mem4) ListEmpty 0 h []" "chain (sm_hdr mem4) ListPartial 0 e (e # P)"
    "relinked mem mem4 ({e} \<union> set P)"
    using move_ok [of mem "sc_empty c" "[e]" "sc_partial c" P e] l(1,3,4,6) dist(1) by auto
  have full: "chain (sm_hdr mem4) ListFull 0 (lh_first (sc_full c)) F"
    by (rule chain_relinked [OF l(5) m(5)]) (use dist(2) in blast)
  define c' where "c' = c\<lparr>sc_empty := (sc_empty c)\<lparr>lh_first := h\<rparr>, sc_empty_count := usize_sub (sc_empty_count c) 1,
    sc_partial := (sc_partial c)\<lparr>lh_first := e\<rparr>\<rparr>"
  have cc: "sc_class c' = sc_class c"
    by (simp add: c'_def)
  have cnt: "sc_empty_count c' = 0"
    using l(8) by (simp add: c'_def usize_sub_def usize_lim_def)
  have "lists_ok (sm_hdr mem4) c' (e # P) F []"
    using m(3,4) full l(1-3,7) cnt by (auto simp: lists_ok_def c'_def)
  moreover have "slabs_ok ps mem4 c' S rs"
    using slabs_ok_relinked [OF m(5) r(2) cc] S by simp
  moreover have "sorted_slabs ps mem4 c' (e # P) F [] rs"
    using r(3,4) cc unfolding sorted_slabs_def by (auto simp: relinked_free [OF m(5)] lessThan_empty_iff)
  moreover have sets: "set (e # P) \<union> set F \<union> set [] = S"
    using S by auto
  ultimately have rep4: "cache_rep ps mem4 c' (e # P) F [] rs"
    unfolding cache_rep_def using r(4) cc by simp
  have "reclaim_step ps mem c S [] rs mem4 c' (e # P) F rs"
    unfolding reclaim_step_def using rep4 sets cc cache_live_relinked [OF m(5) cc]
      relinked_frame [OF m(5), of S] S by auto
  moreover have "pop_front mem (sc_empty c) = Some (e, mem3, (sc_empty c)\<lparr>lh_first := h\<rparr>)"
    using m(1) l(6) by (simp add: pop_front_def)
  ultimately show ?thesis
    using m(2) unfolding c'_def by blast
qed

lemma alloc_step_after:
  assumes st: "reclaim_step ps mem c S E rs mem1 c1 P1 F1 rs1" and al: "alloc_step ps mem1 c1 S rs1 addr mem' c'"
  shows "alloc_step ps mem c S rs addr mem' c'"
proof -
  have s: "sc_class c1 = sc_class c" "cache_live ps mem1 c1 S rs1 = cache_live ps mem c S rs" "mem_frame mem mem1 S"
    using st unfolding reclaim_step_def by blast+
  show ?thesis
    using al mem_frame_trans [OF s(3)] unfolding alloc_step_def s(1,2) by blast
qed

lemma try_alloc_after:
  assumes st: "reclaim_step ps mem c S E' rs mem1 c1 P1 F1 rs1" and ne: "P1 \<noteq> []"
  shows "\<exists>addr mem' c'. try_alloc_from_partial mem1 c1 = Some (Some addr, mem', c') \<and>
    alloc_step ps mem c S rs addr mem' c'"
proof -
  obtain b P where P1: "P1 = b # P"
    using ne by (cases P1) auto
  have rep: "cache_rep ps mem1 c1 (b # P) F1 E' rs1" "set (b # P) \<union> set F1 \<union> set E' = S"
    using st P1 unfolding reclaim_step_def by blast+
  show ?thesis
    using try_alloc_ok [OF rep(1), unfolded rep(2)] alloc_step_after [OF st] by blast
qed

text \<open>
  An allocation fails only when no slab of the cache has a free slot and, if remote frees are announced, none
  has a remotely freed one.
\<close>

definition object_outcome where
  "object_outcome ps mem c P F E rs pending r mem' c' \<longleftrightarrow>
     (case r of
        Some addr \<Rightarrow> alloc_step ps mem c (set P \<union> set F \<union> set E) rs addr mem' c'
      | None \<Rightarrow> mem' = mem \<and> c' = c \<and> P = [] \<and> E = [] \<and> (pending \<longrightarrow> (\<forall>b\<in>set F. rs b = [])))"

lemma alloc_object_ok:
  assumes rep: "cache_rep ps mem c P F E rs"
  shows "\<exists>r h' mem' c'. alloc_object_hinted rp h mem c = Some (r, h', mem', c') \<and>
    object_outcome ps mem c P F E rs (fst (rp h)) r mem' c'"
proof (cases P)
  case (Cons b P')
  have "\<exists>addr mem' c'. try_alloc_from_partial mem c = Some (Some addr, mem', c') \<and>
      alloc_step ps mem c (set P \<union> set F \<union> set E) rs addr mem' c'"
    using try_alloc_ok [of ps mem c b P' F E rs] rep Cons by simp
  then show ?thesis
    unfolding alloc_object_hinted_def object_outcome_def by auto
next
  case Nil
  define S where "S = set P \<union> set F \<union> set E"
  obtain pending h1 where rp: "rp h = (pending, h1)"
    by (cases "rp h")
  have first: "try_alloc_from_partial mem c = Some (None, mem, c)"
    using rep unfolding Nil by (rule try_alloc_empty)
  show ?thesis
  proof (cases "pending \<and> (\<exists>x\<in>set F. rs x \<noteq> [])")
    case True
    then have ex: "(\<exists>x\<in>set F. rs x \<noteq> []) = True"
      by simp
    obtain mem2 c2 P2 F2 rs2 where m: "reclaim_full_with_remote_frees mem c = Some (True, mem2, c2)"
      "reclaim_step ps mem c S E rs mem2 c2 P2 F2 rs2" "P2 \<noteq> []"
      using reclaim_ok [OF rep, folded S_def] unfolding ex by blast
    obtain addr mem' c' where a: "try_alloc_from_partial mem2 c2 = Some (Some addr, mem', c')"
      "alloc_step ps mem c S rs addr mem' c'"
      using try_alloc_after [OF m(2,3)] by blast
    have "alloc_object_hinted rp h mem c = Some (Some addr, h1, mem', c')"
      using True by (simp add: alloc_object_hinted_def first rp m(1) a(1))
    then show ?thesis
      using a(2) by (auto simp: object_outcome_def S_def)
  next
    case False
    have mid: "(if pending then reclaim_full_with_remote_frees mem c else Some (False, mem, c)) = Some (False, mem, c)"
      using False reclaim_idle [OF rep] by auto
    show ?thesis
    proof (cases E)
      case Nil
      then have "list_is_empty (sc_empty c)"
        using lists_okD(6) [OF cache_repD(1) [OF rep]] by (simp add: list_is_empty_def)
      then have "alloc_object_hinted rp h mem c = Some (None, h1, mem, c)"
        by (simp add: alloc_object_hinted_def first rp mid)
      then show ?thesis
        using False \<open>P = []\<close> Nil by (auto simp: object_outcome_def rp)
    next
      case (Cons e E')
      then have E: "E = [e]"
        using lists_okD(9) [OF cache_repD(1) [OF rep]] by (cases E') auto
      then have ne: "\<not> list_is_empty (sc_empty c)"
        using lists_okD(6) [OF cache_repD(1) [OF rep]] chain_member(1) by (force simp: list_is_empty_def)
      have S: "S = set P \<union> set F \<union> {e}"
        by (simp add: S_def E)
      obtain mem3 mem4 emp part where m: "pop_front mem (sc_empty c) = Some (e, mem3, emp)"
        "push_front mem3 (sc_partial c) e = Some (mem4, part)"
        "reclaim_step ps mem c S [] rs
          mem4 (c\<lparr>sc_empty := emp, sc_empty_count := usize_sub (sc_empty_count c) 1, sc_partial := part\<rparr>) (e # P) F rs"
        using from_empty_ok [OF rep [unfolded E] S] by blast
      obtain addr mem' c' where a: "try_alloc_from_partial mem4
          (c\<lparr>sc_empty := emp, sc_empty_count := usize_sub (sc_empty_count c) 1, sc_partial := part\<rparr>) = Some (Some addr, mem', c')"
        "alloc_step ps mem c S rs addr mem' c'"
        using try_alloc_after [OF m(3)] by blast
      have "alloc_object_hinted rp h mem c = Some (Some addr, h1, mem', c')"
        by (simp add: alloc_object_hinted_def first rp mid ne m(1,2) a(1) del: One_nat_def)
      then show ?thesis
        using a(2) by (auto simp: object_outcome_def S_def)
    qed
  qed
qed

lemma alloc_object_hint:
  assumes "alloc_object_hinted rp h mem c = Some (r, h', mem', c')"
  shows "h' = h \<or> h' = snd (rp h)"
  using assms by (auto simp: alloc_object_hinted_def bind_eq_Some_conv split: prod.splits option.splits if_splits)

end
