(* ===== verification/SlabFree.thy ===== *)
theory SlabFree
  imports SlabOps
begin

text \<open>
  Releasing objects: the backwards search for the slab of an object, \<open>dealloc_object\<close>, and the caches that
  new slabs are added to.
\<close>

section \<open>The slab of an object\<close>

text \<open>Slabs in use do not overlap; a header whose magic number was cleared does not count.\<close>

definition headers_apart :: "headers \<Rightarrow> bool" where
  "headers_apart f \<longleftrightarrow> (\<forall>b b' h h'. f b = Some h \<and> f b' = Some h' \<and> sh_magic h = SLAB_MAGIC \<and>
     sh_magic h' = SLAB_MAGIC \<and> b \<noteq> b' \<longrightarrow>
     {b..<b + sh_slab_bytes h} \<inter> {b'..<b' + sh_slab_bytes h'} = {})"

lemma search_base_found:
  assumes "\<And>j. m \<le> j \<Longrightarrow> j < k \<Longrightarrow> \<not> P (pb - j * ps)" "P (pb - k * ps)" "m \<le> k" "k < n" "k * ps \<le> pb" "pb < usize_lim"
  shows "search_base P ps pb [m..<n] = Some (pb - k * ps)"
  using assms
proof (induction "k - m" arbitrary: m)
  case 0
  then have "m = k" "[m..<n] = m # [Suc m..<n]"
    by (simp_all add: upt_conv_Cons)
  then show ?case
    using "0.prems" by (simp add: usize_mul_exact usize_checked_sub_def)
next
  case (Suc d)
  then have up: "[m..<n] = m # [Suc m..<n]" and mk: "m < k"
    by (simp_all add: upt_conv_Cons)
  then have "m * ps \<le> k * ps"
    by simp
  then have le: "m * ps \<le> pb"
    using Suc.prems(5) by linarith
  have "search_base P ps pb [Suc m..<n] = Some (pb - k * ps)"
    using Suc.hyps(2) mk Suc.prems by (intro Suc.hyps(1)) auto
  then show ?case
    using Suc.prems(1) [of m] Suc.prems(6) mk le up by (simp add: usize_mul_exact usize_checked_sub_def)
qed

text \<open>The pages between the header and an object hold no header of their own.\<close>

lemma slab_search:
  assumes f: "sm_hdr mem b = Some h" and apart: "headers_apart (sm_hdr mem)"
    and mg: "sh_magic h = SLAB_MAGIC" "sh_slab_bytes h = n * ps" "b + n * ps < usize_lim"
    and pw: "is_power_of_two ps" and al: "ps dvd b" and a: "b \<le> a" "a < b + n * ps" and N: "n \<le> N"
    and hit: "P b" and Pm: "\<And>x. P x \<Longrightarrow> \<exists>h'. sm_hdr mem x = Some h' \<and> sh_magic h' = SLAB_MAGIC \<and>
      x \<le> a \<and> a < usize_add x (sh_slab_bytes h')"
  shows "search_base P ps (a AND usize_not (usize_sub ps 1)) [0..<N] = Some b"
proof -
  obtain w where ps: "ps = 2 ^ w" "w < 64"
    using pw by (rule is_power_of_twoE)
  have pos: "0 < ps" and lim: "a < usize_lim"
    using ps a(2) mg(3) by simp_all
  have pb: "a AND usize_not (usize_sub ps 1) = a - a mod ps"
    using and_not_mask_nat [of a w] lim ps by (simp add: usize_sub_exact)
  define k where "k = a div ps - b div ps"
  have bd: "b div ps * ps = b"
    using al by simp
  have le: "b div ps \<le> a div ps"
    using a(1) by (rule div_le_mono)
  have adiv: "a - a mod ps = a div ps * ps"
    by (simp add: minus_mod_eq_div_mult)
  have kb: "a - a mod ps - k * ps = b" "k * ps \<le> a - a mod ps"
    unfolding adiv k_def using mult_le_mono1 [OF le, of ps] bd by (simp_all add: diff_mult_distrib)
  have kn: "k < n"
  proof -
    have "a div ps < b div ps + n"
      using a(2) bd pos by (simp add: div_less_iff_less_mult algebra_simps)
    then show ?thesis
      using le unfolding k_def by linarith
  qed
  have miss: "\<not> P (a - a mod ps - j * ps)" if "j < k" for j
  proof
    assume "P (a - a mod ps - j * ps)"
    from Pm [OF this] obtain h' where h': "sm_hdr mem (a - a mod ps - j * ps) = Some h'" "sh_magic h' = SLAB_MAGIC"
      "a - a mod ps - j * ps \<le> a" "a < usize_add (a - a mod ps - j * ps) (sh_slab_bytes h')"
      by blast
    define x where "x = a - a mod ps - j * ps"
    have "j * ps < k * ps"
      using that pos by simp
    then have "x \<noteq> b"
      unfolding x_def using kb by linarith
    moreover have "a < x + sh_slab_bytes h'"
      using h'(4) mod_less_eq_dividend [of "x + sh_slab_bytes h'" usize_lim]
      unfolding x_def [symmetric] usize_add_def by linarith
    ultimately show False
      using apart f h'(1-3) mg(1,2) a unfolding headers_apart_def x_def [symmetric]
      by (metis (no_types) IntI atLeastLessThan_iff empty_iff)
  qed
  have "search_base P ps (a - a mod ps) [0..<N] = Some (a - a mod ps - k * ps)"
    using miss hit kb kn N lim by (intro search_base_found) auto
  then show ?thesis
    unfolding pb kb(1) .
qed

text \<open>What the two searches return for an object of a slab.\<close>

lemma base_from_obj_addr_ok:
  assumes f: "sm_hdr mem b = Some h" and apart: "headers_apart (sm_hdr mem)"
    and mg: "sh_magic h = SLAB_MAGIC" "sh_slab_bytes h = n * ps" "b + n * ps < usize_lim"
    and pw: "is_power_of_two ps" and al: "ps dvd b" and a: "b \<le> a" "a < b + n * ps"
  shows "base_from_obj_addr ps mem a (n * ps) = b"
proof -
  have pos: "0 < ps"
    using pw by (auto elim: is_power_of_twoE)
  let ?P = "\<lambda>candidate. case sm_hdr mem candidate of None \<Rightarrow> False
     | Some hdr \<Rightarrow> sh_magic hdr = SLAB_MAGIC \<and> sh_slab_bytes hdr = n * ps \<and> candidate \<le> a \<and>
         a < usize_add candidate (n * ps)"
  have "search_base ?P ps (a AND usize_not (usize_sub ps 1)) [0..<n] = Some b"
  proof (rule slab_search [OF f apart mg pw al a order_refl])
    show "?P b"
      using f mg a by (simp add: usize_add_exact)
  qed (auto split: option.splits)
  then show ?thesis
    using pos unfolding base_from_obj_addr_def by simp
qed

lemma base_from_obj_addr_unknown_ok:
  assumes f: "sm_hdr mem b = Some h" and apart: "headers_apart (sm_hdr mem)"
    and mg: "sh_magic h = SLAB_MAGIC" "sh_slab_bytes h = n * ps" "b + n * ps < usize_lim"
    and pw: "is_power_of_two ps" and al: "ps dvd b" and a: "b \<le> a" "a < b + n * ps" and n: "n \<le> MAX_SLAB_PAGES"
  shows "base_from_obj_addr_unknown ps mem a = Some b"
proof -
  let ?P = "\<lambda>candidate. case sm_hdr mem candidate of None \<Rightarrow> False
     | Some hdr \<Rightarrow> let slab_bytes = sh_slab_bytes hdr in
         \<not> (sh_magic hdr \<noteq> SLAB_MAGIC \<or> slab_bytes = 0 \<or> \<not> is_multiple_of slab_bytes ps \<or>
            slab_bytes div ps > MAX_SLAB_PAGES) \<and> candidate \<le> a \<and> a < usize_add candidate slab_bytes"
  have pos: "0 < ps" "0 < n"
    using pw a by (auto elim: is_power_of_twoE intro: gr0I)
  have "search_base ?P ps (a AND usize_not (usize_sub ps 1)) [0..<MAX_SLAB_PAGES] = Some b"
  proof (rule slab_search [OF f apart mg pw al a n])
    show "?P b"
      using f mg a n pos by (auto simp: usize_add_exact is_multiple_of_def)
  qed (auto split: option.splits simp: Let_def)
  then show ?thesis
    using pw pos unfolding base_from_obj_addr_unknown_def by simp
qed

section \<open>Releasing an object\<close>

lemma cache_live_free:
  assumes "hfree hdr' \<union> set js = insert i (hfree (hat (sm_hdr mem) b) \<union> set (rs b))"
  shows "cache_live ps (mem\<lparr>sm_hdr := (sm_hdr mem)(b \<mapsto> hdr')\<rparr>) c S (rs(b := js)) = cache_live ps mem c S rs - {(b, i)}"
proof -
  have k: "j \<notin> hfree hdr' \<and> j \<notin> set js \<longleftrightarrow> j \<noteq> i \<and> j \<notin> hfree (hat (sm_hdr mem) b) \<and> j \<notin> set (rs b)" for j
    using assms by blast
  have "x \<in> cache_live ps (mem\<lparr>sm_hdr := (sm_hdr mem)(b \<mapsto> hdr')\<rparr>) c S (rs(b := js)) \<longleftrightarrow>
      x \<in> cache_live ps mem c S rs - {(b, i)}" for x
  proof (cases "fst x = b")
    case True
    then show ?thesis
      using k [of "snd x"] by (cases x) (auto simp: cache_live_def)
  next
    case False
    then show ?thesis
      by (cases x) (simp add: cache_live_def)
  qed
  then show ?thesis
    by blast
qed

lemma drop_state:
  assumes "chain f k p h xs" "x \<in> set xs"
  shows "sh_state (hat f x) = k"
  using assms chain_member [of f k p h xs x] by auto

text \<open>A slab that has a free slot again leaves the full list.\<close>

lemma leave_full_ok:
  assumes lo: "lists_ok (sm_hdr mem) c P F E" and b: "b \<in> set P \<union> set F" and S: "S = set P \<union> set F \<union> set E"
    and st: "hdr = hat (sm_hdr mem) b"
  shows "\<exists>mem2 c2 P' F'. (if sh_state hdr = ListFull then move_to_partial_from_full mem c b else Some (mem, c)) = Some (mem2, c2) \<and>
    lists_ok (sm_hdr mem2) c2 P' F' E \<and> sc_class c2 = sc_class c \<and> relinked mem mem2 S \<and> b \<in> set P' \<and>
    set P' \<union> set F' \<union> set E = S \<and> set P' \<subseteq> insert b (set P) \<and> set F' \<subseteq> set F - {b}"
proof (cases "b \<in> set F")
  case True
  note l = lists_okD [OF lo]
  have "sh_state hdr = ListFull"
    using drop_state [OF l(5) True] by (simp add: st)
  moreover obtain mem2 h2 where m: "move_to_partial_from_full mem c b = Some (mem2,
      c\<lparr>sc_full := (sc_full c)\<lparr>lh_first := h2\<rparr>, sc_partial := (sc_partial c)\<lparr>lh_first := b\<rparr>\<rparr>)"
    "relinked mem mem2 (set P \<union> set F)"
    "lists_ok (sm_hdr mem2) (c\<lparr>sc_full := (sc_full c)\<lparr>lh_first := h2\<rparr>, sc_partial := (sc_partial c)\<lparr>lh_first := b\<rparr>\<rparr>)
      (b # P) (remove1 b F) E"
    using to_partial_ok [OF lo True] by blast
  moreover have "relinked mem mem2 S"
    by (rule relinked_mono [OF m(2)]) (simp add: S)
  moreover have "set (b # P) \<union> set (remove1 b F) \<union> set E = S" "set (remove1 b F) \<subseteq> set F - {b}"
    using True l(7) by (auto simp: S)
  ultimately show ?thesis
    by (intro exI [of _ mem2] exI [of _ "c\<lparr>sc_full := (sc_full c)\<lparr>lh_first := h2\<rparr>, sc_partial := (sc_partial c)\<lparr>lh_first := b\<rparr>\<rparr>"]
      exI [of _ "b # P"] exI [of _ "remove1 b F"]) auto
next
  case False
  then have P: "b \<in> set P"
    using b by simp
  then have "sh_state hdr = ListPartial"
    using drop_state [OF lists_okD(4) [OF lo]] by (simp add: st)
  then show ?thesis
    using lo False P by (auto simp: S intro: relinked_refl)
qed

text \<open>Draining a slab in place.\<close>

lemma drain_in_place:
  assumes lo: "lists_ok (sm_hdr mem) c P F E" and so: "slabs_ok ps mem c S rs" and b: "b \<in> S"
    and S: "set P \<union> set F \<union> set E = S"
  shows "\<exists>mem' hdr'. drain_remote_frees mem b = Some mem' \<and> mem' = mem\<lparr>sm_hdr := (sm_hdr mem)(b \<mapsto> hdr')\<rparr> \<and>
    lists_ok (sm_hdr mem') c P F E \<and> slabs_ok ps mem' c S (rs(b := [])) \<and>
    hfree hdr' = hfree (hat (sm_hdr mem) b) \<union> set (rs b) \<and>
    cache_live ps mem' c S (rs(b := [])) = cache_live ps mem c S rs \<and> mem_frame mem mem' S"
proof -
  define hdr where "hdr = hat (sm_hdr mem) b"
  have h: "sm_hdr mem b = Some hdr"
    using lists_ok_hdr [OF lo, unfolded S, OF b] by (simp add: hdr_def)
  have ok: "slab_ok (sm_word mem) (sc_class c) (cbytes ps c) b hdr (rs b)"
    using so b unfolding slabs_ok_def hdr_def by blast
  obtain hdr' where h': "drain_remote_frees mem b = Some (mem\<lparr>sm_hdr := (sm_hdr mem)(b \<mapsto> hdr')\<rparr>)"
    "slab_ok (sm_word mem) (sc_class c) (cbytes ps c) b hdr' []" "hfree hdr' = hfree hdr \<union> set (rs b)" "same_link hdr hdr'"
    "sh_owner_cpu hdr' = sh_owner_cpu hdr"
    using drain_ok [OF h ok] by blast
  have lists': "lists_ok (sm_hdr (mem\<lparr>sm_hdr := (sm_hdr mem)(b \<mapsto> hdr')\<rparr>)) c P F E"
    using lists_ok_data [OF lo h h'(4)] by simp
  have "cache_live ps (mem\<lparr>sm_hdr := (sm_hdr mem)(b \<mapsto> hdr')\<rparr>) c S (rs(b := [])) = cache_live ps mem c S rs"
    by (rule cache_live_same) (use h'(3) in \<open>simp add: hdr_def\<close>)
  with h'(1) h'(3) [unfolded hdr_def] lists' slabs_ok_data [OF so h'(2)] data_frame [OF h b h'(5)] show ?thesis
    by blast
qed

text \<open>The first half of \<open>dealloc_object\<close>: after it the slab is a drained one on the partial list.\<close>

lemma release_one:
  assumes rep: "cache_rep ps mem c P F E rs" and live: "(b, i) \<in> cache_live ps mem c S rs"
    and S: "S = set P \<union> set F \<union> set E"
  shows "\<exists>hdr hdr1 mem2 c2 mem3 hdr3 P' F'. sm_hdr mem b = Some hdr \<and> local_free hdr i = Some hdr1 \<and>
    (if sh_state hdr = ListFull then move_to_partial_from_full (mem\<lparr>sm_hdr := (sm_hdr mem)(b \<mapsto> hdr1)\<rparr>) c b
     else Some (mem\<lparr>sm_hdr := (sm_hdr mem)(b \<mapsto> hdr1)\<rparr>, c)) = Some (mem2, c2) \<and>
    drain_remote_frees mem2 b = Some mem3 \<and> sm_hdr mem3 b = Some hdr3 \<and> b \<in> set P' \<and>
    cache_rep ps mem3 c2 P' F' E (rs(b := [])) \<and> set P' \<union> set F' \<union> set E = S \<and> sc_class c2 = sc_class c \<and>
    cache_live ps mem3 c2 S (rs(b := [])) = cache_live ps mem c S rs - {(b, i)} \<and> mem_frame mem mem3 S"
proof -
  note r = cache_repD [OF rep]
  note l = lists_okD [OF r(1)]
  let ?f = "sm_hdr mem" and ?sc = "sc_class c"
  define hdr where "hdr = hat ?f b"
  have b: "b \<in> S" "i < ccap ps c" "i \<notin> hfree hdr" "i \<notin> set (rs b)"
    using live by (simp_all add: cache_live_def hdr_def)
  have h: "?f b = Some hdr"
    using lists_ok_hdr [OF r(1)] b(1) by (simp add: S hdr_def)
  have ok: "slab_ok (sm_word mem) ?sc (cbytes ps c) b hdr (rs b)"
    using r(2) b(1) unfolding slabs_ok_def hdr_def S by blast
  obtain hdr1 where h1: "local_free hdr i = Some hdr1" "slab_ok (sm_word mem) ?sc (cbytes ps c) b hdr1 (rs b)"
    "hfree hdr1 = insert i (hfree hdr)" "same_link hdr hdr1" "sh_owner_cpu hdr1 = sh_owner_cpu hdr"
    using local_free_ok [OF ok b(2-4)] by blast
  define mem1 where "mem1 = mem\<lparr>sm_hdr := ?f(b \<mapsto> hdr1)\<rparr>"
  have lists1: "lists_ok (sm_hdr mem1) c P F E"
    using lists_ok_data [OF r(1) h h1(4)] by (simp add: mem1_def)
  have slabs1: "slabs_ok ps mem1 c S rs"
    using slabs_ok_data [OF r(2) h1(2)] unfolding S mem1_def by simp
  have live1: "cache_live ps mem1 c S rs = cache_live ps mem c S rs - {(b, i)}"
    using cache_live_free [where js = "rs b" and rs = rs and mem = mem and b = b and i = i and hdr' = hdr1] h1(3)
    by (simp add: mem1_def hdr_def)
  have notE: "b \<notin> set E"
    using r(3) b(2,3) unfolding sorted_slabs_def hdr_def by blast
  have bPF: "b \<in> set P \<union> set F" and st: "sh_state hdr = sh_state (hat (sm_hdr mem1) b)"
    using b(1) notE h1(4) by (simp_all add: S mem1_def same_link_def)
  obtain mem2 c2 P' F' where m: "(if sh_state hdr = ListFull then move_to_partial_from_full mem1 c b else Some (mem1, c)) = Some (mem2, c2)"
    "lists_ok (sm_hdr mem2) c2 P' F' E" "sc_class c2 = ?sc" "relinked mem1 mem2 S" "b \<in> set P'"
    "set P' \<union> set F' \<union> set E = S" "set P' \<subseteq> insert b (set P)" "set F' \<subseteq> set F - {b}"
    using leave_full_ok [OF lists1 bPF S refl] unfolding st by blast
  obtain mem3 hdr3 where d: "drain_remote_frees mem2 b = Some mem3" "mem3 = mem2\<lparr>sm_hdr := (sm_hdr mem2)(b \<mapsto> hdr3)\<rparr>"
    "lists_ok (sm_hdr mem3) c2 P' F' E" "slabs_ok ps mem3 c2 S (rs(b := []))"
    "hfree hdr3 = hfree (hat (sm_hdr mem2) b) \<union> set (rs b)"
    "cache_live ps mem3 c2 S (rs(b := [])) = cache_live ps mem2 c2 S rs" "mem_frame mem2 mem3 S"
    using drain_in_place [OF m(2) slabs_ok_relinked [OF m(4) slabs1 m(3)] b(1) m(6)] by blast
  have fr2: "hfree (hat (sm_hdr mem2) x) = hfree (hat (sm_hdr mem1) x)" for x
    by (rule relinked_free [OF m(4)])
  have fr: "hfree (hat (sm_hdr mem3) x) = hfree (hat ?f x)" if "x \<noteq> b" for x
    using that by (simp add: d(2) fr2) (simp add: mem1_def)
  have "i \<in> hfree hdr3"
    using d(5) h1(3) fr2 [of b] by (simp add: mem1_def)
  then have "sorted_slabs ps mem3 c2 P' F' E (rs(b := []))"
    using m(7,8) notE by (intro sorted_slabsI [OF r(3) fr m(3)]) (auto simp: d(2))
  then have rep3: "cache_rep ps mem3 c2 P' F' E (rs(b := []))"
    unfolding cache_rep_def using d(3,4) m(3,6) r(4) by simp
  have live3: "cache_live ps mem3 c2 S (rs(b := [])) = cache_live ps mem c S rs - {(b, i)}"
    unfolding d(6) cache_live_relinked [OF m(4,3)] by (rule live1)
  have "mem_frame mem mem1 S"
    unfolding mem1_def by (rule data_frame [OF h b(1) h1(5)])
  then have frame3: "mem_frame mem mem3 S"
    using relinked_frame [OF m(4) order_refl] d(7) mem_frame_trans by blast
  show ?thesis
    using h h1(1) m(1) [unfolded mem1_def] d(1) m(3,5,6) rep3 live3 frame3
    by (intro exI [of _ hdr] exI [of _ hdr1] exI [of _ mem2] exI [of _ c2] exI [of _ mem3] exI [of _ hdr3]
      exI [of _ P'] exI [of _ F']) (simp add: d(2))
qed

text \<open>
  The outcome of releasing slot \<open>i\<close> of slab \<open>b\<close>. A slab that is handed back holds no live object and its
  header is no longer recognised.
\<close>

definition free_step where
  "free_step ps mem c S rs b i res mem' c' \<longleftrightarrow> (\<exists>P' F' E' rs'.
     cache_rep ps mem' c' P' F' E' rs' \<and> sc_class c' = sc_class c \<and> mem_frame mem mem' S \<and>
     (case res of
        CacheDone \<Rightarrow> set P' \<union> set F' \<union> set E' = S \<and>
          cache_live ps mem' c' S rs' = cache_live ps mem c S rs - {(b, i)}
      | CacheFreeSlab base n \<Rightarrow> base = b \<and> n = slab_pages (sc_class c) ps \<and>
          set P' \<union> set F' \<union> set E' = S - {b} \<and> length E' = 1 \<and>
          (\<forall>j. (b, j) \<in> cache_live ps mem c S rs \<longrightarrow> j = i) \<and>
          cache_live ps mem' c' (S - {b}) rs' = cache_live ps mem c S rs - {(b, i)} \<and>
          sh_magic (hat (sm_hdr mem') b) = 0))"

lemma to_empty_ok:
  assumes rep: "cache_rep ps mem c P F [] rs" and b: "b \<in> set P" "hfree (hat (sm_hdr mem) b) = {..<ccap ps c}"
    and S: "S = set P \<union> set F"
  shows "\<exists>mem4 mem5 emp part. list_remove mem (sc_partial c) b = Some (mem4, part) \<and>
    push_front mem4 (sc_empty c) b = Some (mem5, emp) \<and>
    reclaim_step ps mem c S [b] rs mem5
      (c\<lparr>sc_partial := part, sc_empty := emp, sc_empty_count := usize_add (sc_empty_count c) 1\<rparr>) (remove1 b P) F rs"
proof -
  note r = cache_repD [OF rep]
  note l = lists_okD [OF r(1)]
  have dist: "distinct P" "b \<notin> set F" "set P \<inter> set F = {}"
    using l(7) b by auto
  obtain mem4 mem5 h where m: "list_remove mem (sc_partial c) b = Some (mem4, (sc_partial c)\<lparr>lh_first := h\<rparr>)"
    "push_front mem4 (sc_empty c) b = Some (mem5, (sc_empty c)\<lparr>lh_first := b\<rparr>)"
    "chain (sm_hdr mem5) ListPartial 0 h (remove1 b P)" "chain (sm_hdr mem5) ListEmpty 0 b [b]"
    "relinked mem mem5 (set P)"
    using move_ok [of mem "sc_partial c" P "sc_empty c" "[]" b] l(1,3,4,6) dist(1) b(1) by auto
  have full: "chain (sm_hdr mem5) ListFull 0 (lh_first (sc_full c)) F"
    by (rule chain_relinked [OF l(5) m(5)]) (use dist(3) in blast)
  define c' where "c' = c\<lparr>sc_partial := (sc_partial c)\<lparr>lh_first := h\<rparr>, sc_empty := (sc_empty c)\<lparr>lh_first := b\<rparr>,
    sc_empty_count := usize_add (sc_empty_count c) 1\<rparr>"
  have cc: "sc_class c' = sc_class c"
    by (simp add: c'_def)
  have sets: "set (remove1 b P) \<union> set F \<union> set [b] = S"
    using b(1) dist(1) S by auto
  have "lists_ok (sm_hdr mem5) c' (remove1 b P) F [b]"
    using m(3,4) full l(1-3,7,8) dist by (auto simp: lists_ok_def c'_def usize_add_def usize_lim_def)
  moreover have "slabs_ok ps mem5 c' S rs"
    using slabs_ok_relinked [OF m(5) r(2) cc] S by simp
  moreover have "sorted_slabs ps mem5 c' (remove1 b P) F [b] rs"
    using r(3) cc b(2) dist(1) unfolding sorted_slabs_def by (simp add: relinked_free [OF m(5)])
  ultimately have rep5: "cache_rep ps mem5 c' (remove1 b P) F [b] rs"
    unfolding cache_rep_def using r(4) cc sets by simp
  have "reclaim_step ps mem c S [b] rs mem5 c' (remove1 b P) F rs"
    unfolding reclaim_step_def using rep5 sets cc cache_live_relinked [OF m(5) cc]
      relinked_frame [OF m(5), of S] S by auto
  then show ?thesis
    using m(1,2) unfolding c'_def by blast
qed

lemma slabs_ok_frame:
  assumes "slabs_ok ps mem c S rs" "S' \<subseteq> S" "sm_word mem' = sm_word mem" "\<And>x. x \<in> S' \<Longrightarrow> sm_hdr mem' x = sm_hdr mem x"
  shows "slabs_ok ps mem' c S' rs"
  using assms(1) subsetD [OF assms(2)] assms(4) unfolding slabs_ok_def assms(3) by metis

text \<open>A second empty slab leaves the cache.\<close>

lemma drop_slab_ok:
  assumes rep: "cache_rep ps mem c P F E rs" and b: "b \<in> set P" "hfree (hat (sm_hdr mem) b) = {..<ccap ps c}" "rs b = []"
    and S: "S = set P \<union> set F \<union> set E"
  shows "\<exists>mem4 hdr4 hdr5 part. list_remove mem (sc_partial c) b = Some (mem4, part) \<and> sm_hdr mem4 b = Some hdr4 \<and>
    prepare_for_buddy_free hdr4 = Some hdr5 \<and> sh_magic hdr5 = 0 \<and>
    cache_rep ps (mem4\<lparr>sm_hdr := (sm_hdr mem4)(b \<mapsto> hdr5)\<rparr>) (c\<lparr>sc_partial := part\<rparr>) (remove1 b P) F E rs \<and>
    set (remove1 b P) \<union> set F \<union> set E = S - {b} \<and>
    cache_live ps (mem4\<lparr>sm_hdr := (sm_hdr mem4)(b \<mapsto> hdr5)\<rparr>) (c\<lparr>sc_partial := part\<rparr>) (S - {b}) rs = cache_live ps mem c S rs \<and>
    mem_frame mem (mem4\<lparr>sm_hdr := (sm_hdr mem4)(b \<mapsto> hdr5)\<rparr>) S"
proof -
  note r = cache_repD [OF rep]
  note l = lists_okD [OF r(1)]
  have dist: "distinct P" "b \<notin> set F" "b \<notin> set E" "set P \<inter> (set F \<union> set E) = {}" "distinct (F @ E)"
    using l(7) b by auto
  obtain mem4 h where m: "list_remove mem (sc_partial c) b = Some (mem4, (sc_partial c)\<lparr>lh_first := h\<rparr>)"
    "chain (sm_hdr mem4) ListPartial 0 h (remove1 b P)" "relinked mem mem4 (set P)"
    using list_remove_ok [of mem "sc_partial c" P b, unfolded l(1), OF l(4) dist(1) b(1)] by blast
  define hdr4 where "hdr4 = hat (sm_hdr mem4) b"
  have h4: "sm_hdr mem4 b = Some hdr4"
  proof -
    have "b \<in> dom (sm_hdr mem4)"
      using m(3) chain_member [OF l(4) b(1)] unfolding relinked_def by simp
    then show ?thesis
      unfolding hdr4_def by force
  qed
  have "slab_ok (sm_word mem) (sc_class c) (cbytes ps c) b (hat (sm_hdr mem) b) []"
    using r(2) b unfolding slabs_ok_def by (metis UnI1)
  then have "slab_ok (sm_word mem) (sc_class c) (cbytes ps c) b hdr4 []"
    unfolding hdr4_def slab_ok_dat [OF relinked_dat [OF m(3)]] .
  then have "sh_remote_head hdr4 = 0"
    using slab_okD(12) by force
  then obtain hdr5 where h5: "prepare_for_buddy_free hdr4 = Some hdr5" "sh_magic hdr5 = 0"
    "sh_owner_cpu hdr5 = sh_owner_cpu hdr4" "sh_bitmap hdr5 = sh_bitmap hdr4"
    by (simp add: prepare_for_buddy_free_def)
  define c' mem' where "c' = c\<lparr>sc_partial := (sc_partial c)\<lparr>lh_first := h\<rparr>\<rparr>"
    and "mem' = mem4\<lparr>sm_hdr := (sm_hdr mem4)(b \<mapsto> hdr5)\<rparr>"
  have cc: "sc_class c' = sc_class c"
    by (simp add: c'_def)
  have sets: "set (remove1 b P) \<union> set F \<union> set E = S - {b}"
    using dist S by auto
  have ch: "chain (sm_hdr mem') k 0 g xs" if "chain (sm_hdr mem4) k 0 g xs" "b \<notin> set xs" for k g xs
    by (rule chain_frame [OF that(1)]) (use that(2) in \<open>auto simp: mem'_def\<close>)
  have FE: "chain (sm_hdr mem4) ListFull 0 (lh_first (sc_full c)) F" "chain (sm_hdr mem4) ListEmpty 0 (lh_first (sc_empty c)) E"
    by (rule chain_relinked [OF l(5) m(3)] chain_relinked [OF l(6) m(3)]; use dist(4) in blast)+
  have "lists_ok (sm_hdr mem') c' (remove1 b P) F E"
    using ch [OF m(2)] ch [OF FE(1)] ch [OF FE(2)] l(1-3,7-9) dist by (auto simp: lists_ok_def c'_def)
  moreover have "slabs_ok ps mem' c' (S - {b}) rs"
    by (rule slabs_ok_frame [OF slabs_ok_relinked [OF m(3) r(2) cc]]) (auto simp: S mem'_def)
  moreover have fr: "hfree (hat (sm_hdr mem') x) = hfree (hat (sm_hdr mem) x)" for x
    using relinked_free [OF m(3), of x] h5(4) by (cases "x = b") (simp_all add: mem'_def hdr4_def)
  then have "sorted_slabs ps mem' c' (remove1 b P) F E rs"
    using r(3) cc dist(1) unfolding sorted_slabs_def by simp
  ultimately have rep': "cache_rep ps mem' c' (remove1 b P) F E rs"
    unfolding cache_rep_def using r(4) cc sets by simp
  have "mem_frame mem mem' S"
    using relinked_frame [OF m(3)] data_frame [OF h4 _ h5(3), of S] mem_frame_trans b(1) S unfolding mem'_def by blast
  moreover have "cache_live ps mem' c' (S - {b}) rs = cache_live ps mem c S rs"
    using b(2) cc fr by (auto simp: cache_live_def)
  ultimately show ?thesis
    using m(1) h4 h5(1,2) rep' sets unfolding c'_def mem'_def by blast
qed

lemma slot_in_range:
  assumes "i < capacity sc bytes"
  shows "b \<le> slot_addr sc b i" "slot_addr sc b i < b + bytes"
  using slot_in_slab [OF assms, of b] class_size_bounds(3) [of sc] by linarith+

text \<open>The second half of \<open>dealloc_object\<close>: an empty slab is kept or handed back.\<close>

definition settle where
  "settle ps mem3 c2 b hdr3 =
     (if is_all_free hdr3 then
       if sc_empty_count c2 = 0 then do {
         (mem4, part) \<leftarrow> list_remove mem3 (sc_partial c2) b;
         (mem5, emp) \<leftarrow> push_front mem4 (sc_empty c2) b;
         Some (CacheDone, mem5, c2\<lparr>sc_partial := part, sc_empty := emp,
           sc_empty_count := usize_add (sc_empty_count c2) 1\<rparr>)
       }
       else do {
         (mem4, part) \<leftarrow> list_remove mem3 (sc_partial c2) b;
         hdr4 \<leftarrow> sm_hdr mem4 b;
         hdr5 \<leftarrow> prepare_for_buddy_free hdr4;
         Some (CacheFreeSlab b (slab_pages (sc_class c2) ps),
           mem4\<lparr>sm_hdr := (sm_hdr mem4)(b \<mapsto> hdr5)\<rparr>, c2\<lparr>sc_partial := part\<rparr>)
       }
     else Some (CacheDone, mem3, c2))"

lemma free_step_done:
  assumes st: "reclaim_step ps mem3 c3 S E' rs3 mem' c' P' F' rs'" and cc: "sc_class c3 = sc_class c"
    and live: "cache_live ps mem3 c3 S rs3 = cache_live ps mem c S rs - {(b, i)}" and fr: "mem_frame mem mem3 S"
  shows "free_step ps mem c S rs b i CacheDone mem' c'"
proof -
  have "cache_rep ps mem' c' P' F' E' rs'" "set P' \<union> set F' \<union> set E' = S" "sc_class c' = sc_class c"
    "cache_live ps mem' c' S rs' = cache_live ps mem c S rs - {(b, i)}" "mem_frame mem mem' S"
    using st cc live mem_frame_trans [OF fr] unfolding reclaim_step_def by simp_all
  then show ?thesis
    unfolding free_step_def cache_dealloc_result.case
    by (intro exI [of _ P'] exI [of _ F'] exI [of _ E'] exI [of _ rs']) simp
qed

lemma settle_ok:
  assumes rep: "cache_rep ps mem3 c2 P' F' E rs3" and S: "S = set P' \<union> set F' \<union> set E" and b: "b \<in> set P'" "rs3 b = []"
    and h3: "sm_hdr mem3 b = Some hdr3" and cc: "sc_class c2 = sc_class c"
    and live: "cache_live ps mem3 c2 S rs3 = cache_live ps mem c S rs - {(b, i)}" and fr: "mem_frame mem mem3 S"
  shows "\<exists>res mem' c'. settle ps mem3 c2 b hdr3 = Some (res, mem', c') \<and> free_step ps mem c S rs b i res mem' c'"
proof (cases "is_all_free hdr3")
  case False
  then show ?thesis
    using free_step_done [OF reclaim_step_refl [OF rep S] cc live fr] by (simp add: settle_def)
next
  case af: True
  note l2 = lists_okD [OF cache_repD(1) [OF rep]]
  have "slab_ok (sm_word mem3) (sc_class c2) (cbytes ps c2) b (hat (sm_hdr mem3) b) (rs3 b)"
    using cache_repD(2) [OF rep] b(1) unfolding slabs_ok_def by blast
  then have all: "hfree (hat (sm_hdr mem3) b) = {..<ccap ps c2}"
    using slab_all_free_iff af unfolding h3 option.sel by blast
  show ?thesis
  proof (cases "sc_empty_count c2 = 0")
    case True
    then have E: "E = []"
      using l2(8) by simp
    obtain mem4 mem5 emp part where t: "list_remove mem3 (sc_partial c2) b = Some (mem4, part)"
      "push_front mem4 (sc_empty c2) b = Some (mem5, emp)"
      "reclaim_step ps mem3 c2 S [b] rs3 mem5
        (c2\<lparr>sc_partial := part, sc_empty := emp, sc_empty_count := usize_add (sc_empty_count c2) 1\<rparr>) (remove1 b P') F' rs3"
      using to_empty_ok [OF rep [unfolded E] b(1) all] S E by auto
    show ?thesis
      using free_step_done [OF t(3) cc live fr] af True t(1,2) by (simp add: settle_def)
  next
    case False
    obtain mem4 hdr4 hdr5 part where t: "list_remove mem3 (sc_partial c2) b = Some (mem4, part)" "sm_hdr mem4 b = Some hdr4"
      "prepare_for_buddy_free hdr4 = Some hdr5" "sh_magic hdr5 = 0"
      "cache_rep ps (mem4\<lparr>sm_hdr := (sm_hdr mem4)(b \<mapsto> hdr5)\<rparr>) (c2\<lparr>sc_partial := part\<rparr>) (remove1 b P') F' E rs3"
      "set (remove1 b P') \<union> set F' \<union> set E = S - {b}"
      "cache_live ps (mem4\<lparr>sm_hdr := (sm_hdr mem4)(b \<mapsto> hdr5)\<rparr>) (c2\<lparr>sc_partial := part\<rparr>) (S - {b}) rs3 =
        cache_live ps mem3 c2 S rs3"
      "mem_frame mem3 (mem4\<lparr>sm_hdr := (sm_hdr mem4)(b \<mapsto> hdr5)\<rparr>) S"
      using drop_slab_ok [OF rep b(1) all b(2) S] by blast
    have "length E = 1"
      using False l2(8,9) by linarith
    moreover have "j = i" if "(b, j) \<in> cache_live ps mem c S rs" for j
    proof (rule ccontr)
      assume "j \<noteq> i"
      then have "(b, j) \<in> cache_live ps mem3 c2 S rs3"
        using that live by simp
      then show False
        using all unfolding cache_live_def by blast
    qed
    ultimately have "free_step ps mem c S rs b i (CacheFreeSlab b (slab_pages (sc_class c2) ps))
        (mem4\<lparr>sm_hdr := (sm_hdr mem4)(b \<mapsto> hdr5)\<rparr>) (c2\<lparr>sc_partial := part\<rparr>)"
      unfolding free_step_def cache_dealloc_result.case using t(4-7) mem_frame_trans [OF fr t(8)] cc live
      by (intro exI [of _ "remove1 b P'"] exI [of _ F'] exI [of _ E] exI [of _ rs3]) simp
    then show ?thesis
      using False af t(1-3) by (simp add: settle_def)
  qed
qed

lemma dealloc_object_ok:
  assumes rep: "cache_rep ps mem c P F E rs" and S: "S = set P \<union> set F \<union> set E"
    and live: "(b, i) \<in> cache_live ps mem c S rs" and apart: "headers_apart (sm_hdr mem)" and pw: "is_power_of_two ps"
  shows "\<exists>res mem' c'. dealloc_object ps mem c (slot_addr (sc_class c) b i) = Some (res, mem', c') \<and>
    free_step ps mem c S rs b i res mem' c'"
proof -
  note r = cache_repD [OF rep]
  have b: "b \<in> S" "i < ccap ps c"
    using live by (simp_all add: cache_live_def)
  obtain hdr hdr1 mem2 c2 mem3 hdr3 P' F' where m: "sm_hdr mem b = Some hdr" "local_free hdr i = Some hdr1"
    "(if sh_state hdr = ListFull then move_to_partial_from_full (mem\<lparr>sm_hdr := (sm_hdr mem)(b \<mapsto> hdr1)\<rparr>) c b
      else Some (mem\<lparr>sm_hdr := (sm_hdr mem)(b \<mapsto> hdr1)\<rparr>, c)) = Some (mem2, c2)"
    "drain_remote_frees mem2 b = Some mem3" "sm_hdr mem3 b = Some hdr3" "b \<in> set P'"
    "cache_rep ps mem3 c2 P' F' E (rs(b := []))" "set P' \<union> set F' \<union> set E = S" "sc_class c2 = sc_class c"
    "cache_live ps mem3 c2 S (rs(b := [])) = cache_live ps mem c S rs - {(b, i)}" "mem_frame mem mem3 S"
    using release_one [OF rep live S] by (elim exE conjE) (rule that)
  have "slab_ok (sm_word mem) (sc_class c) (cbytes ps c) b (hat (sm_hdr mem) b) (rs b)" and al: "ps dvd b"
    using r(2) b(1) unfolding slabs_ok_def S by blast+
  note ok = slab_okD [OF this(1) [unfolded m(1) option.sel]]
  have cb: "usize_mul (slab_pages (sc_class c) ps) ps = cbytes ps c"
    using ok(1) by (simp add: usize_mul_exact)
  have base: "base_from_obj_addr ps mem (slot_addr (sc_class c) b i) (cbytes ps c) = b"
    by (rule base_from_obj_addr_ok [OF m(1) apart ok(2,4,1) pw al slot_in_range [OF b(2)]])
  have idx: "object_index hdr b (slot_addr (sc_class c) b i) = i"
    by (rule object_exact(2) [OF ok(3) b(2) ok(1)])
  have run: "dealloc_object ps mem c (slot_addr (sc_class c) b i) = settle ps mem3 c2 b hdr3"
    unfolding dealloc_object_def drain_pending_eq settle_def cb Let_def base m(1) Option.bind.simps idx m(2,3) prod.case m(4,5)
    by (rule refl)
  show ?thesis
    unfolding run by (rule settle_ok [OF m(7) m(8) [symmetric] m(6) fun_upd_same m(5) m(9-11)])
qed

end
