(* ===== verification/SlabRemote.thy ===== *)
theory SlabRemote
  imports SlabFree
begin

text \<open>
  What else changes a cache: new slabs, objects freed by other CPUs, and the writes of the clients into their
  objects.
\<close>

section \<open>The words of the objects\<close>

definition slot_range :: "size_class \<Rightarrow> usize \<times> nat \<Rightarrow> usize set" where
  "slot_range sc = (\<lambda>(b, i). {slot_addr sc b i..<slot_addr sc b i + class_size sc})"

lemma slot_range_sub:
  assumes "i < capacity sc bytes"
  shows "slot_range sc (b, i) \<subseteq> {b..<b + bytes}"
  using slot_in_slab [OF assms, of b] by (auto simp: slot_range_def)

lemma slot_range_disjoint:
  assumes so: "slabs_ok ps mem c S rs" and x: "b \<in> S" "i < ccap ps c" and y: "b' \<in> S" "j < ccap ps c"
    and ne: "(b, i) \<noteq> (b', j)"
  shows "slot_range (sc_class c) (b, i) \<inter> slot_range (sc_class c) (b', j) = {}"
proof (cases "b = b'")
  case False
  then have "{b..<b + cbytes ps c} \<inter> {b'..<b' + cbytes ps c} = {}"
    using so x(1) y(1) unfolding slabs_ok_def by blast
  then show ?thesis
    using slot_range_sub [OF x(2)] slot_range_sub [OF y(2)] by blast
next
  case True
  then have "i < j \<or> j < i"
    using ne by auto
  then have "Suc i * class_size (sc_class c) \<le> j * class_size (sc_class c) \<or>
      Suc j * class_size (sc_class c) \<le> i * class_size (sc_class c)"
    by (meson Suc_leI mult_le_mono1)
  then show ?thesis
    using True by (auto simp: slot_range_def slot_addr_def)
qed

text \<open>Words outside the remote-free stacks are not the cache's business.\<close>

lemma cache_rep_words:
  assumes rep: "cache_rep ps mem c P F E rs"
    and same: "\<And>b j. b \<in> set P \<union> set F \<union> set E \<Longrightarrow> j \<in> set (rs b) \<Longrightarrow>
      words' (slot_addr (sc_class c) b j) = sm_word mem (slot_addr (sc_class c) b j)"
  shows "cache_rep ps (mem\<lparr>sm_word := words'\<rparr>) c P F E rs"
proof -
  note r = cache_repD [OF rep]
  let ?S = "set P \<union> set F \<union> set E"
  have "slab_ok words' (sc_class c) (cbytes ps c) b (hat (sm_hdr mem) b) (rs b)" if "b \<in> ?S" for b
  proof -
    have ok: "slab_ok (sm_word mem) (sc_class c) (cbytes ps c) b (hat (sm_hdr mem) b) (rs b)"
      using r(2) that unfolding slabs_ok_def by blast
    have "stack words' (sh_remote_head (hat (sm_hdr mem) b)) (map (slot_addr (sc_class c) b) (rs b))"
      by (rule stack_frame [OF slab_okD(12) [OF ok]]) (use same [OF that] in auto)
    with ok show ?thesis
      unfolding slab_ok_def by blast
  qed
  with r show ?thesis
    unfolding cache_rep_def slabs_ok_def sorted_slabs_def by simp
qed

text \<open>Clients write into live objects only.\<close>

definition client_write :: "size_class \<Rightarrow> (usize \<times> nat) set \<Rightarrow> slab_mem \<Rightarrow> slab_mem \<Rightarrow> bool" where
  "client_write sc L mem mem' \<longleftrightarrow> sm_hdr mem' = sm_hdr mem \<and>
     (\<forall>a. sm_word mem' a \<noteq> sm_word mem a \<longrightarrow> (\<exists>x\<in>L. a \<in> slot_range sc x))"

lemma client_write_ok:
  assumes rep: "cache_rep ps mem c P F E rs" and S: "S = set P \<union> set F \<union> set E"
    and w: "client_write (sc_class c) (cache_live ps mem c S rs) mem mem'"
  shows "cache_rep ps mem' c P F E rs" "cache_live ps mem' c S rs = cache_live ps mem c S rs"
proof -
  note so = cache_repD(2) [OF rep, folded S]
  have hdr: "sm_hdr mem' = sm_hdr mem"
    using w by (simp add: client_write_def)
  have same: "sm_word mem' (slot_addr (sc_class c) b j) = sm_word mem (slot_addr (sc_class c) b j)"
    if b: "b \<in> set P \<union> set F \<union> set E" and j: "j \<in> set (rs b)" for b j
  proof (rule ccontr)
    assume "\<not> ?thesis"
    then obtain b' i where x: "(b', i) \<in> cache_live ps mem c S rs" "slot_addr (sc_class c) b j \<in> slot_range (sc_class c) (b', i)"
      using w unfolding client_write_def by force
    have jc: "j < ccap ps c"
      using so b j unfolding slabs_ok_def S using slab_okD(10) by blast
    have "slot_addr (sc_class c) b j \<in> slot_range (sc_class c) (b, j)"
      using class_size_bounds(3) [of "sc_class c"] by (simp add: slot_range_def)
    moreover have "b' \<in> S" "i < ccap ps c" "(b, j) \<noteq> (b', i)"
      using x(1) j by (auto simp: cache_live_def)
    ultimately show False
      using slot_range_disjoint [OF so b [folded S] jc] x(2) by blast
  qed
  have "mem' = mem\<lparr>sm_word := sm_word mem'\<rparr>"
    using hdr by simp
  then show "cache_rep ps mem' c P F E rs"
    using cache_rep_words [OF rep same] by simp
  show "cache_live ps mem' c S rs = cache_live ps mem c S rs"
    by (simp add: cache_live_def hdr)
qed

section \<open>A free from another CPU\<close>

lemma remote_free_ok:
  assumes rep: "cache_rep ps mem c P F E rs" and S: "S = set P \<union> set F \<union> set E"
    and live: "(b, i) \<in> cache_live ps mem c S rs"
  shows "\<exists>mem' hdr hdr'. remote_free mem b (slot_addr (sc_class c) b i) = Some mem' \<and> sm_hdr mem b = Some hdr \<and>
    mem' = mem\<lparr>sm_word := (sm_word mem)(slot_addr (sc_class c) b i := sh_remote_head hdr), sm_hdr := (sm_hdr mem)(b \<mapsto> hdr')\<rparr> \<and>
    sh_owner_cpu hdr' = sh_owner_cpu hdr \<and> sh_remote_head hdr' = slot_addr (sc_class c) b i \<and>
    cache_rep ps mem' c P F E (rs(b := i # rs b)) \<and>
    cache_live ps mem' c S (rs(b := i # rs b)) = cache_live ps mem c S rs - {(b, i)}"
proof -
  define a where "a = slot_addr (sc_class c) b i"
  have b: "b \<in> S" "i < ccap ps c" "i \<notin> hfree (hat (sm_hdr mem) b)" "i \<notin> set (rs b)"
    using live by (simp_all add: cache_live_def)
  define hdr where "hdr = hat (sm_hdr mem) b"
  have h: "sm_hdr mem b = Some hdr"
    using lists_ok_hdr [OF cache_repD(1) [OF rep]] b(1) by (simp add: S hdr_def)
  define mem1 where "mem1 = mem\<lparr>sm_word := (sm_word mem)(a := sh_remote_head hdr)\<rparr>"
  have "a \<in> slot_range (sc_class c) (b, i)"
    using class_size_bounds(3) [of "sc_class c"] by (simp add: slot_range_def a_def)
  then have "client_write (sc_class c) (cache_live ps mem c S rs) mem mem1"
    using live unfolding client_write_def mem1_def by (auto split: if_splits)
  note w = client_write_ok [OF rep S this]
  note r = cache_repD [OF w(1)]
  define hdr' where "hdr' = hdr\<lparr>sh_remote_head := a, sh_remote_count := as_u32 (sh_remote_count hdr + 1)\<rparr>"
  have hd1: "sm_hdr mem1 = sm_hdr mem" and hh: "hat (sm_hdr mem1) b = hdr"
    using h by (simp_all add: mem1_def)
  have "slab_ok (sm_word mem1) (sc_class c) (cbytes ps c) b hdr (rs b)"
    using r(2) b(1) hh unfolding slabs_ok_def S by metis
  note ok = slab_okD [OF this]
  have "a \<noteq> 0"
    using slot_in_slab(2) [OF b(2), of b] by (simp add: a_def)
  moreover have "sm_word mem1 a = sh_remote_head hdr"
    by (simp add: mem1_def)
  ultimately have ok': "slab_ok (sm_word mem1) (sc_class c) (cbytes ps c) b hdr' (i # rs b)"
    using ok b unfolding slab_ok_def hdr_def [symmetric] by (simp add: hdr'_def a_def)
  define mem' where "mem' = mem1\<lparr>sm_hdr := (sm_hdr mem1)(b \<mapsto> hdr')\<rparr>"
  have run: "remote_free mem b a = Some mem'"
    using h by (simp add: remote_free_def Let_def hdr_upd_def mem'_def hdr'_def mem1_def)
  have "lists_ok (sm_hdr mem') c P F E"
    using lists_ok_data [OF r(1), of b hdr hdr'] h by (simp add: mem'_def hd1 same_link_def hdr'_def)
  moreover have "slabs_ok ps mem' c S (rs(b := i # rs b))"
    unfolding mem'_def by (rule slabs_ok_data [OF r(2) [folded S] ok'])
  moreover have fr: "hfree (hat (sm_hdr mem') x) = hfree (hat (sm_hdr mem1) x)" for x
    using hh by (simp add: mem'_def) (simp add: hdr'_def)
  then have "sorted_slabs ps mem' c P F E (rs(b := i # rs b))"
    using r(3) unfolding sorted_slabs_def by simp
  ultimately have "cache_rep ps mem' c P F E (rs(b := i # rs b))"
    unfolding cache_rep_def using r(4) by (simp add: S)
  moreover have "cache_live ps mem' c S (rs(b := i # rs b)) = cache_live ps mem1 c S rs - {(b, i)}"
    unfolding mem'_def by (rule cache_live_free) (simp add: hh hdr'_def)
  moreover have "mem' = mem\<lparr>sm_word := (sm_word mem)(a := sh_remote_head hdr), sm_hdr := (sm_hdr mem)(b \<mapsto> hdr')\<rparr>"
    by (simp add: mem'_def mem1_def)
  ultimately show ?thesis
    using run h w(2) unfolding a_def [symmetric]
    by (intro exI [of _ mem'] exI [of _ hdr] exI [of _ hdr']) (simp add: hdr'_def)
qed

section \<open>A new slab\<close>

lemma add_slab_ok:
  assumes rep: "cache_rep ps mem c P F E rs" and S: "S = set P \<union> set F \<union> set E"
    and b: "b \<noteq> 0" "b \<notin> S" "ps dvd b" "b + cbytes ps c < usize_lim" "cbytes ps c < 2 ^ 32"
    and disj: "\<And>b'. b' \<in> S \<Longrightarrow> {b..<b + cbytes ps c} \<inter> {b'..<b' + cbytes ps c} = {}"
  shows "\<exists>mem' c'. cache_add_slab mem c b (cbytes ps c) cpu = Some (mem', c') \<and>
    cache_rep ps mem' c' (b # P) F E (rs(b := [])) \<and> sc_class c' = sc_class c \<and>
    cache_live ps mem' c' (insert b S) (rs(b := [])) = cache_live ps mem c S rs \<and>
    sm_word mem' = sm_word mem \<and> (\<forall>x. x \<notin> insert b S \<longrightarrow> sm_hdr mem' x = sm_hdr mem x) \<and>
    (\<forall>x\<in>S. sh_owner_cpu (hat (sm_hdr mem') x) = sh_owner_cpu (hat (sm_hdr mem) x)) \<and>
    sh_owner_cpu (hat (sm_hdr mem') b) = cpu"
proof -
  note r = cache_repD [OF rep]
  note l = lists_okD [OF r(1)]
  obtain hdr where h: "header_init (sc_class c) (cbytes ps c) cpu = Some hdr"
    "slab_ok (sm_word mem) (sc_class c) (cbytes ps c) b hdr []" "hfree hdr = {..<ccap ps c}" "sh_owner_cpu hdr = cpu"
    using header_init_ok [OF b(4,5), of "sc_class c" cpu "sm_word mem"] by blast
  define mem1 where "mem1 = mem\<lparr>sm_hdr := (sm_hdr mem)(b \<mapsto> hdr)\<rparr>"
  have bn: "b \<notin> set P" "b \<notin> set F" "b \<notin> set E" "distinct P"
    using b(2) l(7) by (auto simp: S)
  have ch: "chain (sm_hdr mem1) k 0 g xs" if "chain (sm_hdr mem) k 0 g xs" "b \<notin> set xs" for k g xs
    by (rule chain_frame [OF that(1)]) (use that(2) in \<open>auto simp: mem1_def\<close>)
  have P1: "chain (sm_hdr mem1) (lh_kind (sc_partial c)) 0 (lh_first (sc_partial c)) P" and bd: "b \<in> dom (sm_hdr mem1)"
    using ch [OF l(4) bn(1)] l(1) by (simp_all add: mem1_def)
  obtain mem' where m: "push_front mem1 (sc_partial c) b = Some (mem', (sc_partial c)\<lparr>lh_first := b\<rparr>)"
    "chain (sm_hdr mem') ListPartial 0 b (b # P)" "relinked mem1 mem' (set (b # P))"
    using push_front_ok [OF P1 bn(4,1) b(1) bd, unfolded l(1)] by blast
  define c' where "c' = c\<lparr>sc_partial := (sc_partial c)\<lparr>lh_first := b\<rparr>\<rparr>"
  have cc: "sc_class c' = sc_class c"
    by (simp add: c'_def)
  have FE: "chain (sm_hdr mem') ListFull 0 (lh_first (sc_full c)) F" "chain (sm_hdr mem') ListEmpty 0 (lh_first (sc_empty c)) E"
    by (rule chain_relinked [OF ch [OF l(5) bn(2)] m(3)] chain_relinked [OF ch [OF l(6) bn(3)] m(3)];
      use l(7) bn in auto)+
  have "lists_ok (sm_hdr mem') c' (b # P) F E"
    using m(2) FE l(1-3,7-9) bn by (auto simp: lists_ok_def c'_def)
  moreover have slabs1: "slabs_ok ps mem1 c (insert b S) (rs(b := []))"
    using r(2) h(2) b(2,3) disj unfolding slabs_ok_def S [symmetric] mem1_def by (auto simp: Int_commute)
  note slabs' = slabs_ok_relinked [OF m(3) slabs1 cc]
  moreover have fr: "hfree (hat (sm_hdr mem') x) = hfree (hat (sm_hdr mem1) x)" for x
    by (rule relinked_free [OF m(3)])
  have "sorted_slabs ps mem' c' (b # P) F E (rs(b := []))"
    using r(3,4) cc h(3) bn unfolding sorted_slabs_def fr by (auto simp: mem1_def lessThan_empty_iff)
  ultimately have rep': "cache_rep ps mem' c' (b # P) F E (rs(b := []))"
    unfolding cache_rep_def using r(4) cc by (simp add: S)
  have "cache_live ps mem' c' (insert b S) (rs(b := [])) = cache_live ps mem c S rs"
  proof -
    have "x \<in> cache_live ps mem1 c (insert b S) (rs(b := [])) \<longleftrightarrow> x \<in> cache_live ps mem c S rs" for x
      using b(2) h(3) by (cases x, cases "fst x = b") (auto simp: cache_live_def mem1_def)
    then show ?thesis
      unfolding cache_live_relinked [OF m(3) cc] by blast
  qed
  moreover have ow: "sh_owner_cpu (hat (sm_hdr mem') x) = sh_owner_cpu (hat (sm_hdr mem1) x)" for x
    by (rule dat_fields(8) [OF relinked_dat [OF m(3)]])
  moreover have "sm_hdr mem' x = sm_hdr mem x" if "x \<notin> insert b S" for x
    using m(3) that by (auto simp: relinked_def mem1_def S)
  moreover have "cache_add_slab mem c b (cbytes ps c) cpu = Some (mem', c')" "sm_word mem' = sm_word mem"
    using m(1,3) h(1) by (simp_all add: cache_add_slab_def mem1_def c'_def relinked_def)
  moreover have "sh_owner_cpu (hat (sm_hdr mem1) x) = (if x = b then cpu else sh_owner_cpu (hat (sm_hdr mem) x))" for x
    by (simp add: mem1_def h(4))
  ultimately show ?thesis
    using rep' cc b(2) by (intro exI [of _ mem'] exI [of _ c']) auto
qed

end
