(* ===== verification/SlabPool.thy ===== *)
theory SlabPool
  imports Slab
begin

text \<open>
  The slab allocator over all size classes, the hint that announces remote frees, the slab of one CPU and the
  static pool of all CPUs (\<open>buddy-slab-allocator/src/slab/mod.rs\<close>). Every operation threads the memory that
  holds the slab headers.
\<close>

unbundle bit_operations_syntax

section \<open>Results\<close>

datatype slab_alloc_result = SlabAllocated usize | NeedsSlab size_class usize

datatype slab_dealloc_result = SlabDone | SlabFreeSlab usize usize

datatype slab_pool_dealloc_result = PoolDone | RemoteQueued | PoolFreeSlab usize usize

section \<open>The remote-free hint\<close>

type_synonym remote_free_hint = "16 word"

definition hint_new :: remote_free_hint where
  "hint_new = 0"

definition hint_mark :: "remote_free_hint \<Rightarrow> size_class \<Rightarrow> remote_free_hint" where
  "hint_mark h sc = h OR push_bit (class_index sc) 1"

definition hint_take :: "remote_free_hint \<Rightarrow> size_class \<Rightarrow> bool \<times> remote_free_hint" where
  "hint_take h sc = (let b = push_bit (class_index sc) 1 in (h AND b \<noteq> 0, h AND NOT b))"

definition hint_clear :: "remote_free_hint \<Rightarrow> remote_free_hint" where
  "hint_clear h = 0"

section \<open>The allocator over all size classes\<close>

record slab_allocator =
  sa_caches :: "slab_cache list"

definition slab_allocator_new :: slab_allocator where
  "slab_allocator_new = \<lparr>sa_caches = map cache_new
     [Bytes8, Bytes16, Bytes32, Bytes64, Bytes128, Bytes256, Bytes512, Bytes1024, Bytes2048]\<rparr>"

text \<open>The closure given to \<open>alloc_object_hinted\<close>; without a hint every allocation walks.\<close>

definition hint_pending :: "size_class \<Rightarrow> remote_free_hint option \<Rightarrow> bool \<times> remote_free_hint option" where
  "hint_pending sc hint =
     (case hint of
        None \<Rightarrow> (True, None)
      | Some h \<Rightarrow> let (pending, h') = hint_take h sc in (pending, Some h'))"

definition slab_alloc_hinted ::
  "usize \<Rightarrow> slab_mem \<Rightarrow> slab_allocator \<Rightarrow> layout \<Rightarrow> remote_free_hint option \<Rightarrow>
     (slab_alloc_result alloc_result \<times> remote_free_hint option \<times> slab_mem \<times> slab_allocator) option" where
  "slab_alloc_hinted page_size mem sa l hint =
     (case from_layout l of
        None \<Rightarrow> Some (Inl AllocInvalidParam, hint, mem, sa)
      | Some sc \<Rightarrow>
          let i = class_index sc in
          if i < length (sa_caches sa) then do {
            (r, hint', mem', c') \<leftarrow> alloc_object_hinted (hint_pending sc) hint mem (sa_caches sa ! i);
            Some (Inr (case r of
                Some addr \<Rightarrow> SlabAllocated addr
              | None \<Rightarrow> NeedsSlab sc (slab_pages sc page_size)),
              hint', mem', sa\<lparr>sa_caches := (sa_caches sa)[i := c']\<rparr>)
          }
          else None)"

definition slab_allocator_alloc ::
  "usize \<Rightarrow> slab_mem \<Rightarrow> slab_allocator \<Rightarrow> layout \<Rightarrow>
     (slab_alloc_result alloc_result \<times> slab_mem \<times> slab_allocator) option" where
  "slab_allocator_alloc page_size mem sa l =
     map_option (\<lambda>(r, _, mem', sa'). (r, mem', sa')) (slab_alloc_hinted page_size mem sa l None)"

definition slab_allocator_dealloc ::
  "usize \<Rightarrow> slab_mem \<Rightarrow> slab_allocator \<Rightarrow> usize \<Rightarrow> layout \<Rightarrow>
     (slab_dealloc_result \<times> slab_mem \<times> slab_allocator) option" where
  "slab_allocator_dealloc page_size mem sa ptr l = do {
     sc \<leftarrow> from_layout l;
     let i = class_index sc;
     if i < length (sa_caches sa) then do {
       (r, mem', c') \<leftarrow> dealloc_object page_size mem (sa_caches sa ! i) ptr;
       Some (case r of
           CacheDone \<Rightarrow> SlabDone
         | CacheFreeSlab base n \<Rightarrow> SlabFreeSlab base n,
         mem', sa\<lparr>sa_caches := (sa_caches sa)[i := c']\<rparr>)
     }
     else None
   }"

definition slab_allocator_add_slab ::
  "slab_mem \<Rightarrow> slab_allocator \<Rightarrow> size_class \<Rightarrow> usize \<Rightarrow> usize \<Rightarrow> nat \<Rightarrow> (slab_mem \<times> slab_allocator) option" where
  "slab_allocator_add_slab mem sa sc base bytes owner_cpu = do {
     let i = class_index sc;
     if i < length (sa_caches sa) then do {
       (mem', c') \<leftarrow> cache_add_slab mem (sa_caches sa ! i) base bytes owner_cpu;
       Some (mem', sa\<lparr>sa_caches := (sa_caches sa)[i := c']\<rparr>)
     }
     else None
   }"

section \<open>The slab of one CPU\<close>

record per_cpu_slab =
  pc_cpu_id :: nat
  pc_inner :: slab_allocator
  pc_remote_hint :: remote_free_hint

definition per_cpu_slab_new :: "nat \<Rightarrow> per_cpu_slab" where
  "per_cpu_slab_new cpu_id = \<lparr>pc_cpu_id = cpu_id, pc_inner = slab_allocator_new, pc_remote_hint = hint_new\<rparr>"

definition per_cpu_reset :: "per_cpu_slab \<Rightarrow> per_cpu_slab" where
  "per_cpu_reset s = s\<lparr>pc_inner := slab_allocator_new, pc_remote_hint := hint_clear (pc_remote_hint s)\<rparr>"

definition per_cpu_alloc ::
  "usize \<Rightarrow> slab_mem \<Rightarrow> per_cpu_slab \<Rightarrow> layout \<Rightarrow>
     (slab_alloc_result alloc_result \<times> slab_mem \<times> per_cpu_slab) option" where
  "per_cpu_alloc page_size mem s l = do {
     (r, hint', mem', sa') \<leftarrow> slab_alloc_hinted page_size mem (pc_inner s) l (Some (pc_remote_hint s));
     h' \<leftarrow> hint';
     Some (r, mem', s\<lparr>pc_inner := sa', pc_remote_hint := h'\<rparr>)
   }"

definition per_cpu_add_slab ::
  "slab_mem \<Rightarrow> per_cpu_slab \<Rightarrow> size_class \<Rightarrow> usize \<Rightarrow> usize \<Rightarrow> (slab_mem \<times> per_cpu_slab) option" where
  "per_cpu_add_slab mem s sc base bytes = do {
     (mem', sa') \<leftarrow> slab_allocator_add_slab mem (pc_inner s) sc base bytes (pc_cpu_id s);
     Some (mem', s\<lparr>pc_inner := sa'\<rparr>)
   }"

definition per_cpu_dealloc_local ::
  "usize \<Rightarrow> slab_mem \<Rightarrow> per_cpu_slab \<Rightarrow> usize \<Rightarrow> layout \<Rightarrow>
     (slab_dealloc_result \<times> slab_mem \<times> per_cpu_slab) option" where
  "per_cpu_dealloc_local page_size mem s ptr l = do {
     (r, mem', sa') \<leftarrow> slab_allocator_dealloc page_size mem (pc_inner s) ptr l;
     Some (r, mem', s\<lparr>pc_inner := sa'\<rparr>)
   }"

definition per_cpu_dealloc_remote ::
  "usize \<Rightarrow> slab_mem \<Rightarrow> per_cpu_slab \<Rightarrow> usize \<Rightarrow> (slab_mem \<times> per_cpu_slab) option" where
  "per_cpu_dealloc_remote page_size mem s ptr = do {
     (queued, mem') \<leftarrow> queue_remote_free page_size mem ptr;
     Some (mem', case queued of
         Some sc \<Rightarrow> s\<lparr>pc_remote_hint := hint_mark (pc_remote_hint s) sc\<rparr>
       | None \<Rightarrow> s)
   }"

text \<open>The default method of the trait, which the pool calls; the slab of a CPU always publishes its hint.\<close>

definition remote_free_hint_of :: "per_cpu_slab \<Rightarrow> remote_free_hint option" where
  "remote_free_hint_of s = Some (pc_remote_hint s)"

definition trait_dealloc_remote ::
  "usize \<Rightarrow> slab_mem \<Rightarrow> per_cpu_slab \<Rightarrow> usize \<Rightarrow> (slab_mem \<times> per_cpu_slab) option" where
  "trait_dealloc_remote page_size mem s ptr =
     (if pc_cpu_id s < 2 ^ 16 then do {
        (queued, mem') \<leftarrow> queue_remote_free page_size mem ptr;
        Some (mem', case (queued, remote_free_hint_of s) of
            (Some sc, Some hint) \<Rightarrow> s\<lparr>pc_remote_hint := hint_mark hint sc\<rparr>
          | _ \<Rightarrow> s)
      }
      else None)"

section \<open>The pool\<close>

text \<open>The index of the current CPU comes from a hook of the platform; it is an argument of the operations.\<close>

record static_slab_pool =
  sp_slabs :: "per_cpu_slab list"

definition current_slab :: "usize \<Rightarrow> static_slab_pool \<Rightarrow> per_cpu_slab option" where
  "current_slab cpu pool = (if cpu < length (sp_slabs pool) then Some (sp_slabs pool ! cpu) else None)"

definition owner_slab :: "static_slab_pool \<Rightarrow> usize \<Rightarrow> per_cpu_slab option" where
  "owner_slab pool cpu_idx =
     (if cpu_idx < length (sp_slabs pool) then Some (sp_slabs pool ! cpu_idx) else None)"

definition pool_alloc ::
  "usize \<Rightarrow> usize \<Rightarrow> slab_mem \<Rightarrow> static_slab_pool \<Rightarrow> layout \<Rightarrow>
     (slab_alloc_result alloc_result \<times> slab_mem \<times> static_slab_pool) option" where
  "pool_alloc cpu page_size mem pool l = do {
     s \<leftarrow> current_slab cpu pool;
     (r, mem', s') \<leftarrow> per_cpu_alloc page_size mem s l;
     Some (r, mem', pool\<lparr>sp_slabs := (sp_slabs pool)[cpu := s']\<rparr>)
   }"

definition pool_add_slab ::
  "usize \<Rightarrow> slab_mem \<Rightarrow> static_slab_pool \<Rightarrow> size_class \<Rightarrow> usize \<Rightarrow> usize \<Rightarrow>
     (slab_mem \<times> static_slab_pool) option" where
  "pool_add_slab cpu mem pool sc base bytes = do {
     s \<leftarrow> current_slab cpu pool;
     (mem', s') \<leftarrow> per_cpu_add_slab mem s sc base bytes;
     Some (mem', pool\<lparr>sp_slabs := (sp_slabs pool)[cpu := s']\<rparr>)
   }"

definition pool_dealloc ::
  "usize \<Rightarrow> usize \<Rightarrow> slab_mem \<Rightarrow> static_slab_pool \<Rightarrow> usize \<Rightarrow> layout \<Rightarrow> usize \<Rightarrow>
     (slab_pool_dealloc_result \<times> slab_mem \<times> static_slab_pool) option" where
  "pool_dealloc cpu page_size mem pool ptr l owner_cpu = do {
     cur \<leftarrow> current_slab cpu pool;
     if owner_cpu = pc_cpu_id cur then do {
       (r, mem', s') \<leftarrow> per_cpu_dealloc_local page_size mem cur ptr l;
       Some (case r of
           SlabDone \<Rightarrow> PoolDone
         | SlabFreeSlab base n \<Rightarrow> PoolFreeSlab base n,
         mem', pool\<lparr>sp_slabs := (sp_slabs pool)[cpu := s']\<rparr>)
     }
     else do {
       s \<leftarrow> owner_slab pool owner_cpu;
       (mem', s') \<leftarrow> trait_dealloc_remote page_size mem s ptr;
       Some (RemoteQueued, mem', pool\<lparr>sp_slabs := (sp_slabs pool)[owner_cpu := s']\<rparr>)
     }
   }"

end
