(* ===== verification/PoolInv.thy ===== *)
theory PoolInv
  imports SlabRemote SlabPool
begin

text \<open>
  The invariant of the slab pool: the caches of all CPUs and size classes share one memory, their slabs do
  not overlap, every slab knows its CPU, and no other memory looks like a slab. An operation on one cache
  leaves the others alone.
\<close>

section \<open>Views\<close>

record cache_view =
  cv_partial :: "usize list"
  cv_full :: "usize list"
  cv_empty :: "usize list"
  cv_remote :: "usize \<Rightarrow> nat list"

definition slabs_in :: "cache_view \<Rightarrow> usize set" where
  "slabs_in v = set (cv_partial v) \<union> set (cv_full v) \<union> set (cv_empty v)"

definition rep_view :: "usize \<Rightarrow> slab_mem \<Rightarrow> slab_cache \<Rightarrow> cache_view \<Rightarrow> bool" where
  "rep_view ps mem c v \<longleftrightarrow> cache_rep ps mem c (cv_partial v) (cv_full v) (cv_empty v) (cv_remote v)"

definition view_live :: "usize \<Rightarrow> slab_mem \<Rightarrow> slab_cache \<Rightarrow> cache_view \<Rightarrow> (usize \<times> nat) set" where
  "view_live ps mem c v = cache_live ps mem c (slabs_in v) (cv_remote v)"

abbreviation mk_view :: "usize list \<Rightarrow> usize list \<Rightarrow> usize list \<Rightarrow> (usize \<Rightarrow> nat list) \<Rightarrow> cache_view" where
  "mk_view P F E rs \<equiv> \<lparr>cv_partial = P, cv_full = F, cv_empty = E, cv_remote = rs\<rparr>"

lemma rep_view_mk [simp]: "rep_view ps mem c (mk_view P F E rs) \<longleftrightarrow> cache_rep ps mem c P F E rs"
  by (simp add: rep_view_def)

lemma slabs_in_mk [simp]: "slabs_in (mk_view P F E rs) = set P \<union> set F \<union> set E"
  by (simp add: slabs_in_def)

lemma rep_viewD:
  assumes "rep_view ps mem c v"
  shows "slabs_ok ps mem c (slabs_in v) (cv_remote v)" "0 < ccap ps c"
    "x \<in> slabs_in v \<Longrightarrow> sm_hdr mem x = Some (hat (sm_hdr mem) x)"
  using assms lists_ok_hdr unfolding rep_view_def cache_rep_def slabs_in_def by blast+

lemma rep_view_slab:
  assumes "rep_view ps mem c v" "b \<in> slabs_in v"
  shows "slab_ok (sm_word mem) (sc_class c) (cbytes ps c) b (hat (sm_hdr mem) b) (cv_remote v b)" "ps dvd b"
  using rep_viewD(1) [OF assms(1)] assms(2) unfolding slabs_ok_def by blast+

text \<open>Only the headers of its slabs and the words on their remote-free stacks matter to a cache.\<close>

lemma rep_view_frame:
  assumes rep: "rep_view ps mem c v" and h: "\<And>x. x \<in> slabs_in v \<Longrightarrow> sm_hdr mem' x = sm_hdr mem x"
    and w: "\<And>b j. b \<in> slabs_in v \<Longrightarrow> j \<in> set (cv_remote v b) \<Longrightarrow>
      sm_word mem' (slot_addr (sc_class c) b j) = sm_word mem (slot_addr (sc_class c) b j)"
  shows "rep_view ps mem' c v" "view_live ps mem' c v = view_live ps mem c v"
proof -
  let ?P = "cv_partial v" and ?F = "cv_full v" and ?E = "cv_empty v" and ?rs = "cv_remote v" and ?S = "slabs_in v"
  have S: "?S = set ?P \<union> set ?F \<union> set ?E"
    by (simp add: slabs_in_def)
  have "cache_rep ps (mem\<lparr>sm_word := sm_word mem'\<rparr>) c ?P ?F ?E ?rs"
    by (rule cache_rep_words [OF rep [unfolded rep_view_def]]) (use w S in blast)
  note r = cache_repD [OF this, folded S]
  have "lists_ok (sm_hdr mem') c ?P ?F ?E"
  proof -
    have "chain (sm_hdr mem') k p g xs" if "chain (sm_hdr mem) k p g xs" "set xs \<subseteq> ?S" for k p g xs
      by (rule chain_frame [OF that(1)]) (use that(2) h in auto)
    with r(1) show ?thesis
      unfolding lists_ok_def S by (simp add: le_supI1)
  qed
  moreover have "slabs_ok ps mem' c ?S ?rs"
    by (rule slabs_ok_frame [OF r(2) order_refl]) (simp_all add: h)
  moreover have "sorted_slabs ps mem' c ?P ?F ?E ?rs"
    using r(3) h unfolding sorted_slabs_def S by simp
  ultimately show "rep_view ps mem' c v"
    unfolding rep_view_def cache_rep_def using r(4) S by simp
  show "view_live ps mem' c v = view_live ps mem c v"
    using h by (auto simp: view_live_def cache_live_def)
qed

section \<open>The invariant\<close>

type_synonym cache_id = "nat \<times> size_class"

definition cache_at :: "static_slab_pool \<Rightarrow> cache_id \<Rightarrow> slab_cache" where
  "cache_at pool u = sa_caches (pc_inner (sp_slabs pool ! fst u)) ! class_index (snd u)"

abbreviation cpus :: "static_slab_pool \<Rightarrow> nat" where
  "cpus pool \<equiv> length (sp_slabs pool)"

definition pool_shape :: "static_slab_pool \<Rightarrow> bool" where
  "pool_shape pool \<longleftrightarrow> cpus pool \<le> 2 ^ 16 \<and>
     (\<forall>s\<in>set (sp_slabs pool). length (sa_caches (pc_inner s)) = SIZE_CLASS_COUNT) \<and>
     (\<forall>cpu<cpus pool. pc_cpu_id (sp_slabs pool ! cpu) = cpu)"

abbreviation class_bytes :: "usize \<Rightarrow> size_class \<Rightarrow> usize" where
  "class_bytes ps sc \<equiv> slab_pages sc ps * ps"

definition pool_inv :: "usize \<Rightarrow> slab_mem \<Rightarrow> static_slab_pool \<Rightarrow> (cache_id \<Rightarrow> cache_view) \<Rightarrow> bool" where
  "pool_inv ps mem pool G \<longleftrightarrow> pool_shape pool \<and>
     (\<forall>u. fst u < cpus pool \<longrightarrow> sc_class (cache_at pool u) = snd u \<and> rep_view ps mem (cache_at pool u) (G u)) \<and>
     (\<forall>u. \<not> fst u < cpus pool \<longrightarrow> slabs_in (G u) = {}) \<and>
     (\<forall>u. \<forall>b\<in>slabs_in (G u). sh_owner_cpu (hat (sm_hdr mem) b) = fst u) \<and>
     (\<forall>u w. u \<noteq> w \<longrightarrow> (\<forall>b\<in>slabs_in (G u). \<forall>b'\<in>slabs_in (G w).
        {b..<b + class_bytes ps (snd u)} \<inter> {b'..<b' + class_bytes ps (snd w)} = {})) \<and>
     (\<forall>b h. sm_hdr mem b = Some h \<and> sh_magic h = SLAB_MAGIC \<longrightarrow> (\<exists>u. b \<in> slabs_in (G u)))"

definition unit_live ::
  "usize \<Rightarrow> slab_mem \<Rightarrow> static_slab_pool \<Rightarrow> (cache_id \<Rightarrow> cache_view) \<Rightarrow> cache_id \<Rightarrow> (usize \<times> nat) set" where
  "unit_live ps mem pool G u = view_live ps mem (cache_at pool u) (G u)"

lemma pool_invD:
  assumes "pool_inv ps mem pool G"
  shows "pool_shape pool" "fst u < cpus pool \<Longrightarrow> sc_class (cache_at pool u) = snd u"
    "fst u < cpus pool \<Longrightarrow> rep_view ps mem (cache_at pool u) (G u)"
    "b \<in> slabs_in (G u) \<Longrightarrow> fst u < cpus pool"
    "b \<in> slabs_in (G u) \<Longrightarrow> sh_owner_cpu (hat (sm_hdr mem) b) = fst u"
    "u \<noteq> w \<Longrightarrow> b \<in> slabs_in (G u) \<Longrightarrow> b' \<in> slabs_in (G w) \<Longrightarrow>
      {b..<b + class_bytes ps (snd u)} \<inter> {b'..<b' + class_bytes ps (snd w)} = {}"
    "sm_hdr mem b = Some h \<Longrightarrow> sh_magic h = SLAB_MAGIC \<Longrightarrow> \<exists>u. b \<in> slabs_in (G u)"
  using assms unfolding pool_inv_def by (blast, blast, blast, blast, blast, blast, blast)

lemma pool_inv_slab:
  assumes inv: "pool_inv ps mem pool G" and b: "b \<in> slabs_in (G u)"
  shows "slab_ok (sm_word mem) (snd u) (class_bytes ps (snd u)) b (hat (sm_hdr mem) b) (cv_remote (G u) b)" "ps dvd b"
    "sm_hdr mem b = Some (hat (sm_hdr mem) b)"
proof -
  note v = pool_invD(4) [OF inv b]
  note r = pool_invD(2,3) [OF inv v]
  show "slab_ok (sm_word mem) (snd u) (class_bytes ps (snd u)) b (hat (sm_hdr mem) b) (cv_remote (G u) b)" "ps dvd b"
    using rep_view_slab [OF r(2) b] unfolding r(1) .
  show "sm_hdr mem b = Some (hat (sm_hdr mem) b)"
    by (rule rep_viewD(3) [OF r(2) b])
qed

lemma pool_headers_apart:
  assumes inv: "pool_inv ps mem pool G"
  shows "headers_apart (sm_hdr mem)"
  unfolding headers_apart_def
proof (intro allI impI, elim conjE)
  fix b b' h h' assume h: "sm_hdr mem b = Some h" "sm_hdr mem b' = Some h'" "sh_magic h = SLAB_MAGIC"
    "sh_magic h' = SLAB_MAGIC" "b \<noteq> b'"
  obtain u w where u: "b \<in> slabs_in (G u)" and w: "b' \<in> slabs_in (G w)"
    using pool_invD(7) [OF inv h(1,3)] pool_invD(7) [OF inv h(2,4)] by blast
  have bytes: "sh_slab_bytes h = class_bytes ps (snd u)" "sh_slab_bytes h' = class_bytes ps (snd w)"
    using slab_okD(4) [OF pool_inv_slab(1) [OF inv u]] slab_okD(4) [OF pool_inv_slab(1) [OF inv w]] h(1,2) by simp_all
  show "{b..<b + sh_slab_bytes h} \<inter> {b'..<b' + sh_slab_bytes h'} = {}"
  proof (cases "u = w")
    case False
    show ?thesis
      unfolding bytes by (rule pool_invD(6) [OF inv False u w])
  next
    case True
    note v = pool_invD(4) [OF inv u]
    have "slabs_ok ps mem (cache_at pool u) (slabs_in (G u)) (cv_remote (G u))"
      by (rule rep_viewD(1) [OF pool_invD(3) [OF inv v]])
    then show ?thesis
      using u w h(5) True unfolding bytes slabs_ok_def pool_invD(2) [OF inv v] by blast
  qed
qed

section \<open>An operation on one cache\<close>

text \<open>\<open>pool'\<close> is \<open>pool\<close> with another cache at \<open>u\<close>; the hints may differ.\<close>

definition pool_set :: "static_slab_pool \<Rightarrow> cache_id \<Rightarrow> slab_cache \<Rightarrow> static_slab_pool \<Rightarrow> bool" where
  "pool_set pool u c' pool' \<longleftrightarrow> pool_shape pool' \<and> cpus pool' = cpus pool \<and> cache_at pool' u = c' \<and>
     (\<forall>w. fst w < cpus pool \<and> w \<noteq> u \<longrightarrow> cache_at pool' w = cache_at pool w)"

text \<open>A change of memory that only concerns the slabs \<open>S\<close> and words in ranges that are live in cache \<open>u\<close>.\<close>

definition mem_local :: "slab_mem \<Rightarrow> slab_mem \<Rightarrow> usize set \<Rightarrow> usize set \<Rightarrow> bool" where
  "mem_local mem mem' S W \<longleftrightarrow> (\<forall>x. x \<notin> S \<longrightarrow> sm_hdr mem' x = sm_hdr mem x) \<and>
     (\<forall>a. a \<notin> W \<longrightarrow> sm_word mem' a = sm_word mem a)"

lemma remote_slot_outside:
  assumes inv: "pool_inv ps mem pool G" and w: "b \<in> slabs_in (G w)" "j \<in> set (cv_remote (G w) b)"
    and u: "b' \<in> slabs_in (G u)" and ne: "w \<noteq> u"
  shows "slot_addr (snd w) b j \<notin> {b'..<b' + class_bytes ps (snd u)}"
proof -
  have "j < capacity (snd w) (class_bytes ps (snd w))"
    using slab_okD(10) [OF pool_inv_slab(1) [OF inv w(1)]] w(2) by blast
  then have "slot_addr (snd w) b j \<in> {b..<b + class_bytes ps (snd w)}"
    using slot_in_range by simp
  with pool_invD(6) [OF inv ne w(1) u] show ?thesis
    by blast
qed

lemma unit_step:
  assumes inv: "pool_inv ps mem pool G" and u: "fst u < cpus pool" and pool': "pool_set pool u c' pool'"
    and rep': "rep_view ps mem' c' v'" and cls: "sc_class c' = snd u"
    and loc: "mem_local mem mem' (slabs_in (G u) \<union> slabs_in v') (\<Union>b\<in>slabs_in (G u). {b..<b + class_bytes ps (snd u)})"
    and own: "\<forall>b\<in>slabs_in v'. sh_owner_cpu (hat (sm_hdr mem') b) = fst u"
    and new: "\<forall>b\<in>slabs_in v' - slabs_in (G u). \<forall>w. w \<noteq> u \<longrightarrow> (\<forall>b'\<in>slabs_in (G w). b \<noteq> b' \<and>
      {b..<b + class_bytes ps (snd u)} \<inter> {b'..<b' + class_bytes ps (snd w)} = {})"
    and dead: "\<forall>b\<in>slabs_in (G u) - slabs_in v'. sh_magic (hat (sm_hdr mem') b) \<noteq> SLAB_MAGIC"
    and pos: "0 < ps" "\<forall>sc. 0 < slab_pages sc ps"
  shows "pool_inv ps mem' pool' (G(u := v'))"
    "\<And>w. w \<noteq> u \<Longrightarrow> fst w < cpus pool \<Longrightarrow> unit_live ps mem' pool' (G(u := v')) w = unit_live ps mem pool G w"
    "unit_live ps mem' pool' (G(u := v')) u = view_live ps mem' c' v'"
proof -
  have p: "pool_shape pool'" "cpus pool' = cpus pool" "cache_at pool' u = c'"
    "\<And>w. fst w < cpus pool \<Longrightarrow> w \<noteq> u \<Longrightarrow> cache_at pool' w = cache_at pool w"
    using pool' unfolding pool_set_def by blast+
  have outside: "b \<notin> slabs_in (G u) \<union> slabs_in v'" if w: "w \<noteq> u" "b \<in> slabs_in (G w)" for w b
  proof -
    have "b \<in> {b..<b + class_bytes ps (snd w)}" "b \<in> {b..<b + class_bytes ps (snd u)}"
      using pos by simp_all
    then have "b \<notin> slabs_in (G u)"
      using pool_invD(6) [OF inv w(1,2), of b] by blast
    then show ?thesis
      using new w by blast
  qed
  have hdr: "sm_hdr mem' b = sm_hdr mem b" if "w \<noteq> u" "b \<in> slabs_in (G w)" for w b
    using loc outside [OF that] unfolding mem_local_def by blast
  have other: "rep_view ps mem' (cache_at pool w) (G w)"
    "view_live ps mem' (cache_at pool w) (G w) = view_live ps mem (cache_at pool w) (G w)"
    if w: "w \<noteq> u" "fst w < cpus pool" for w
  proof -
    have sl: "sm_word mem' (slot_addr (sc_class (cache_at pool w)) b j) = sm_word mem (slot_addr (sc_class (cache_at pool w)) b j)"
      if bj: "b \<in> slabs_in (G w)" "j \<in> set (cv_remote (G w) b)" for b j
    proof -
      have "slot_addr (snd w) b j \<notin> (\<Union>b\<in>slabs_in (G u). {b..<b + class_bytes ps (snd u)})"
        using remote_slot_outside [OF inv bj _ w(1)] by blast
      then show ?thesis
        using loc unfolding mem_local_def pool_invD(2) [OF inv w(2)] by blast
    qed
    show "rep_view ps mem' (cache_at pool w) (G w)"
      "view_live ps mem' (cache_at pool w) (G w) = view_live ps mem (cache_at pool w) (G w)"
      by (rule rep_view_frame [OF pool_invD(3) [OF inv w(2)] hdr [OF w(1)] sl]; assumption)+
  qed
  show "unit_live ps mem' pool' (G(u := v')) w = unit_live ps mem pool G w" if "w \<noteq> u" "fst w < cpus pool" for w
    using other(2) [OF that] p(4) that by (simp add: unit_live_def)
  show "unit_live ps mem' pool' (G(u := v')) u = view_live ps mem' c' v'"
    by (simp add: unit_live_def p(3))
  have reps: "sc_class (cache_at pool' w) = snd w \<and> rep_view ps mem' (cache_at pool' w) ((G(u := v')) w)"
    if w: "fst w < cpus pool" for w
    using other(1) [OF _ w] p(3) p(4) [OF w] rep' cls pool_invD(2) [OF inv w] by (cases "w = u") simp_all
  have owners: "sh_owner_cpu (hat (sm_hdr mem') b) = fst w" if "b \<in> slabs_in ((G(u := v')) w)" for w b
    using that own hdr [of w b] pool_invD(5) [OF inv, of b w] by (cases "w = u") simp_all
  have mixed: "{b..<b + class_bytes ps (snd u)} \<inter> {b'..<b' + class_bytes ps (snd w)} = {}"
    if "w \<noteq> u" "b \<in> slabs_in v'" "b' \<in> slabs_in (G w)" for w b b'
    using that new pool_invD(6) [OF inv, of u w b b'] by blast
  have apart: "{b..<b + class_bytes ps (snd x)} \<inter> {b'..<b' + class_bytes ps (snd y)} = {}"
    if "x \<noteq> y" "b \<in> slabs_in ((G(u := v')) x)" "b' \<in> slabs_in ((G(u := v')) y)" for x y b b'
    using that mixed [of y b b'] mixed [of x b' b] pool_invD(6) [OF inv, of x y b b']
    by (cases "x = u"; cases "y = u") (auto simp: Int_commute)
  have magic: "\<exists>w. b \<in> slabs_in ((G(u := v')) w)" if m: "sm_hdr mem' b = Some h" "sh_magic h = SLAB_MAGIC" for b h
  proof (cases "b \<in> slabs_in (G u) \<union> slabs_in v'")
    case True
    then have "b \<in> slabs_in v'"
      using dead m(2) by (metis DiffI UnE m(1) option.sel)
    then show ?thesis
      by (intro exI [of _ u]) simp
  next
    case False
    then have "sm_hdr mem b = Some h"
      using loc m(1) unfolding mem_local_def by metis
    then obtain w where "b \<in> slabs_in (G w)"
      using pool_invD(7) [OF inv _ m(2)] by blast
    then show ?thesis
      using False by (intro exI [of _ w]) auto
  qed
  have none: "slabs_in ((G(u := v')) w) = {}" if "\<not> fst w < cpus pool" for w
    using that u pool_invD(4) [OF inv, of _ w] by (cases "w = u") fastforce+
  show "pool_inv ps mem' pool' (G(u := v'))"
    unfolding pool_inv_def p(2) using p(1) reps none owners apart magic by blast
qed

end
