(* ===== verification/PoolOps.thy ===== *)
theory PoolOps
  imports PoolInv
begin

text \<open>
  The operations of the slab pool keep its invariant: allocation from the cache of the current CPU, release
  on the CPU that owns the slab, release from another CPU, and new slabs.
\<close>

section \<open>Size classes\<close>

lemma class_index_less: "class_index sc < SIZE_CLASS_COUNT"
  by (cases sc) (simp_all add: SIZE_CLASS_COUNT_def)

lemma class_index_inj: "class_index sc = class_index sc' \<longleftrightarrow> sc = sc'"
  by (cases sc; cases sc') simp_all

lemma slab_pages_bounds: "0 < slab_pages sc ps" "slab_pages sc ps \<le> MAX_SLAB_PAGES"
  by (cases sc; simp add: slab_pages_def class_size_def CLASS_SIZES_def Let_def MAX_SLAB_PAGES_def)+

lemma slab_pages_pos: "\<forall>sc. 0 < slab_pages sc ps"
  using slab_pages_bounds(1) by blast

lemma pool_set_slab:
  assumes sh: "pool_shape pool" and cpu: "cpu < cpus pool" and s: "s = sp_slabs pool ! cpu"
    and s': "pc_inner s' = (pc_inner s)\<lparr>sa_caches := (sa_caches (pc_inner s))[class_index sc := c']\<rparr>"
      "pc_cpu_id s' = pc_cpu_id s"
  shows "pool_set pool (cpu, sc) c' (pool\<lparr>sp_slabs := (sp_slabs pool)[cpu := s']\<rparr>)"
proof -
  let ?pool' = "pool\<lparr>sp_slabs := (sp_slabs pool)[cpu := s']\<rparr>"
  have len: "length (sa_caches (pc_inner s)) = SIZE_CLASS_COUNT"
    using sh cpu s by (simp add: pool_shape_def)
  have "\<forall>x\<in>set (sp_slabs ?pool'). length (sa_caches (pc_inner x)) = SIZE_CLASS_COUNT"
    using sh len s'(1) set_update_subset_insert [of "sp_slabs pool" cpu s'] unfolding pool_shape_def by fastforce
  moreover have "pc_cpu_id (sp_slabs ?pool' ! k) = k" if "k < cpus pool" for k
    using sh that cpu s s'(2) by (cases "k = cpu") (simp_all add: pool_shape_def)
  ultimately have "pool_shape ?pool'"
    using sh by (simp add: pool_shape_def)
  moreover have "cache_at ?pool' w = cache_at pool w" if "fst w < cpus pool" "w \<noteq> (cpu, sc)" for w
    using that cpu s s'(1) class_index_inj [of sc "snd w"] len by (cases "fst w = cpu") (auto simp: cache_at_def prod_eq_iff)
  ultimately show ?thesis
    using cpu s'(1) class_index_less [of sc] len by (auto simp: pool_set_def cache_at_def)
qed

text \<open>What the invariant says of one cache.\<close>

lemma pool_unit:
  assumes inv: "pool_inv ps mem pool G" and cpu: "cpu < cpus pool"
    and u: "u = (cpu, sc)" and s: "s = sp_slabs pool ! cpu" and c: "c = cache_at pool u" and v: "v = G u"
  shows "fst u < cpus pool" "snd u = sc" "sc_class c = sc"
    "cache_rep ps mem c (cv_partial v) (cv_full v) (cv_empty v) (cv_remote v)" "pool_shape pool"
    "class_index sc < length (sa_caches (pc_inner s))" "pc_cpu_id s = cpu" "cpu < 2 ^ 16"
    "sa_caches (pc_inner s) ! class_index sc = c"
    "unit_live ps mem pool G u = cache_live ps mem c (slabs_in v) (cv_remote v)"
proof -
  show "fst u < cpus pool"
    using cpu by (simp add: u)
  note d = pool_invD(2,3) [OF inv this] and sh = pool_invD(1) [OF inv]
  show "pool_shape pool"
    by (rule sh)
  show "sc_class c = sc" "cache_rep ps mem c (cv_partial v) (cv_full v) (cv_empty v) (cv_remote v)"
    using d by (simp_all add: c u v rep_view_def)
  show "class_index sc < length (sa_caches (pc_inner s))" "pc_cpu_id s = cpu" "cpu < 2 ^ 16"
    using sh cpu class_index_less [of sc] by (simp_all add: pool_shape_def s)
  show "snd u = sc" "sa_caches (pc_inner s) ! class_index sc = c"
    "unit_live ps mem pool G u = cache_live ps mem c (slabs_in v) (cv_remote v)"
    by (simp_all add: c cache_at_def s u unit_live_def view_live_def v)
qed

lemma mem_frame_local: "mem_frame mem mem' S \<Longrightarrow> S \<subseteq> T \<Longrightarrow> mem_local mem mem' T W"
  by (auto simp: mem_frame_def mem_local_def)

section \<open>Allocation\<close>

definition pool_granted where
  "pool_granted ps mem pool G u a mem' pool' \<longleftrightarrow> (\<exists>b i v'. b \<in> slabs_in (G u) \<and>
     i < capacity (snd u) (class_bytes ps (snd u)) \<and> a = slot_addr (snd u) b i \<and> (b, i) \<notin> unit_live ps mem pool G u \<and>
     pool_inv ps mem' pool' (G(u := v')) \<and> cpus pool' = cpus pool \<and> slabs_in v' = slabs_in (G u) \<and>
     unit_live ps mem' pool' (G(u := v')) u = insert (b, i) (unit_live ps mem pool G u) \<and>
     (\<forall>w. w \<noteq> u \<and> fst w < cpus pool \<longrightarrow> unit_live ps mem' pool' (G(u := v')) w = unit_live ps mem pool G w))"

definition pool_alloc_outcome where
  "pool_alloc_outcome ps mem pool G u r mem' pool' \<longleftrightarrow>
     (case r of
        SlabAllocated a \<Rightarrow> pool_granted ps mem pool G u a mem' pool'
      | NeedsSlab sc n \<Rightarrow> sc = snd u \<and> n = slab_pages sc ps \<and> mem' = mem \<and> pool_set pool u (cache_at pool u) pool' \<and>
          cv_partial (G u) = [] \<and> cv_empty (G u) = [])"

lemma pool_alloc_ok:
  assumes inv: "pool_inv ps mem pool G" and cpu: "cpu < cpus pool" and sc: "from_layout l = Some sc" and ps: "0 < ps"
  shows "\<exists>r mem' pool'. pool_alloc cpu ps mem pool l = Some (Inr r, mem', pool') \<and>
    pool_alloc_outcome ps mem pool G (cpu, sc) r mem' pool'"
proof -
  define u s c v where "u = (cpu, sc)" and "s = sp_slabs pool ! cpu" and "c = cache_at pool u" and "v = G u"
  note un = pool_unit [OF inv cpu u_def s_def c_def v_def]
  note u = un(1) and cls = un(3) and rep = un(4) and sh = un(5) and len = un(6) and cc = un(9)
  obtain r h' mem' c' where a: "alloc_object_hinted (hint_pending sc) (Some (pc_remote_hint s)) mem c = Some (r, h', mem', c')"
    "object_outcome ps mem c (cv_partial v) (cv_full v) (cv_empty v) (cv_remote v)
      (fst (hint_pending sc (Some (pc_remote_hint s)))) r mem' c'"
    using alloc_object_ok [OF rep, of "hint_pending sc" "Some (pc_remote_hint s)"] by blast
  obtain hh where hh: "h' = Some hh"
    using alloc_object_hint [OF a(1)] by (auto simp: hint_pending_def split: prod.splits)
  define s' where "s' = s\<lparr>pc_inner := (pc_inner s)\<lparr>sa_caches := (sa_caches (pc_inner s))[class_index sc := c']\<rparr>, pc_remote_hint := hh\<rparr>"
  define pool' where "pool' = pool\<lparr>sp_slabs := (sp_slabs pool)[cpu := s']\<rparr>"
  have run: "pool_alloc cpu ps mem pool l = Some (Inr (case r of Some addr \<Rightarrow> SlabAllocated addr
      | None \<Rightarrow> NeedsSlab sc (slab_pages sc ps)), mem', pool')"
    using cpu sc len a(1) by (simp add: pool_alloc_def current_slab_def per_cpu_alloc_def slab_alloc_hinted_def Let_def
      s_def [symmetric] cc hh s'_def pool'_def)
  have pset: "pool_set pool u c' pool'"
    unfolding u_def pool'_def by (rule pool_set_slab [OF sh cpu s_def]) (simp_all add: s'_def)
  show ?thesis
  proof (cases r)
    case None
    then show ?thesis
      using a(2) run pset by (simp add: object_outcome_def pool_alloc_outcome_def u_def [symmetric] c_def v_def)
        (simp add: u_def)
  next
    case (Some addr)
    have "alloc_step ps mem c (slabs_in v) (cv_remote v) addr mem' c'"
      using a(2) by (simp add: object_outcome_def Some slabs_in_def)
    then obtain b i P' F' E' rs' where st: "b \<in> slabs_in v" "i < ccap ps c" "addr = slot_addr sc b i"
      "(b, i) \<notin> cache_live ps mem c (slabs_in v) (cv_remote v)" "cache_rep ps mem' c' P' F' E' rs'"
      "set P' \<union> set F' \<union> set E' = slabs_in v" "sc_class c' = sc"
      "cache_live ps mem' c' (slabs_in v) rs' = insert (b, i) (cache_live ps mem c (slabs_in v) (cv_remote v))"
      "mem_frame mem mem' (slabs_in v)"
      unfolding alloc_step_def cls by blast
    define v' where "v' = mk_view P' F' E' rs'"
    have sv: "slabs_in v' = slabs_in v"
      using st(6) by (simp add: v'_def)
    have own: "\<forall>x\<in>slabs_in v'. sh_owner_cpu (hat (sm_hdr mem') x) = fst u"
      using st(9) pool_invD(5) [OF inv, of _ u] unfolding mem_frame_def sv v_def by simp
    have us: "rep_view ps mem' c' v'" "sc_class c' = snd u"
      using st(5,7) by (simp_all add: v'_def u_def)
    note us = unit_step [OF inv u pset us mem_frame_local [OF st(9)] own _ _ ps slab_pages_pos, unfolded sv, folded v_def, simplified]
    have "unit_live ps mem' pool' (G(u := v')) u = insert (b, i) (unit_live ps mem pool G u)"
      unfolding us(3) using st(8) by (simp add: view_live_def sv unit_live_def c_def [symmetric] v_def [symmetric])
        (simp add: v'_def)
    then have "pool_granted ps mem pool G u addr mem' pool'"
      unfolding pool_granted_def using st(1-4) us(1,2) sv pset cls
      by (intro exI [of _ b] exI [of _ i] exI [of _ v'])
        (simp add: v_def u_def [symmetric] unit_live_def view_live_def c_def pool_set_def, simp add: u_def)
    then show ?thesis
      using run Some by (simp add: pool_alloc_outcome_def u_def)
  qed
qed

section \<open>New slabs\<close>

lemma pool_add_slab_ok:
  assumes inv: "pool_inv ps mem pool G" and cpu: "cpu < cpus pool" and ps: "0 < ps"
    and b: "b \<noteq> 0" "ps dvd b" "b + class_bytes ps sc < usize_lim" "class_bytes ps sc < 2 ^ 32"
    and fresh: "\<And>w b'. b' \<in> slabs_in (G w) \<Longrightarrow> {b..<b + class_bytes ps sc} \<inter> {b'..<b' + class_bytes ps (snd w)} = {}"
  shows "\<exists>mem' pool' v'. pool_add_slab cpu mem pool sc b (class_bytes ps sc) = Some (mem', pool') \<and>
    pool_inv ps mem' pool' (G((cpu, sc) := v')) \<and> cpus pool' = cpus pool \<and>
    slabs_in v' = insert b (slabs_in (G (cpu, sc))) \<and> cv_partial v' \<noteq> [] \<and>
    (\<forall>w. fst w < cpus pool \<longrightarrow> unit_live ps mem' pool' (G((cpu, sc) := v')) w = unit_live ps mem pool G w)"
proof -
  define u s c v where "u = (cpu, sc)" and "s = sp_slabs pool ! cpu" and "c = cache_at pool u" and "v = G u"
  note un = pool_unit [OF inv cpu u_def s_def c_def v_def]
  note u = un(1,2) and cls = un(3) and rep = un(4) and sh = un(5) and len = un(6,7) and cc = un(9)
  have range: "x \<in> {x..<x + class_bytes ps k}" for x k
    using ps slab_pages_bounds(1) [of k ps] by simp
  have bn: "b \<notin> slabs_in (G w)" for w
    using fresh [of b w] range [of b sc] range [of b "snd w"] by blast
  have disj: "{b..<b + cbytes ps c} \<inter> {b'..<b' + cbytes ps c} = {}" if "b' \<in> slabs_in v" for b'
    using fresh [of b' u] that u(2) unfolding cls v_def by simp
  obtain mem' c' where a: "cache_add_slab mem c b (class_bytes ps sc) cpu = Some (mem', c')"
    "cache_rep ps mem' c' (b # cv_partial v) (cv_full v) (cv_empty v) ((cv_remote v)(b := []))" "sc_class c' = sc"
    "cache_live ps mem' c' (insert b (slabs_in v)) ((cv_remote v)(b := [])) = cache_live ps mem c (slabs_in v) (cv_remote v)"
    "sm_word mem' = sm_word mem" "\<forall>x. x \<notin> insert b (slabs_in v) \<longrightarrow> sm_hdr mem' x = sm_hdr mem x"
    "\<forall>x\<in>slabs_in v. sh_owner_cpu (hat (sm_hdr mem') x) = sh_owner_cpu (hat (sm_hdr mem) x)"
    "sh_owner_cpu (hat (sm_hdr mem') b) = cpu"
    using add_slab_ok [OF rep slabs_in_def b(1) bn [of u, folded v_def] b(2), unfolded cls, OF b(3,4) disj [unfolded cls], of cpu] by blast
  define v' where "v' = mk_view (b # cv_partial v) (cv_full v) (cv_empty v) ((cv_remote v)(b := []))"
  have sv: "slabs_in v' = insert b (slabs_in v)"
    by (simp add: v'_def slabs_in_def)
  define s' where "s' = s\<lparr>pc_inner := (pc_inner s)\<lparr>sa_caches := (sa_caches (pc_inner s))[class_index sc := c']\<rparr>\<rparr>"
  define pool' where "pool' = pool\<lparr>sp_slabs := (sp_slabs pool)[cpu := s']\<rparr>"
  have run: "pool_add_slab cpu mem pool sc b (class_bytes ps sc) = Some (mem', pool')"
    using cpu len a(1) by (simp add: pool_add_slab_def current_slab_def per_cpu_add_slab_def slab_allocator_add_slab_def
      s_def [symmetric] cc s'_def pool'_def)
  have pset: "pool_set pool u c' pool'"
    unfolding u_def pool'_def by (rule pool_set_slab [OF sh cpu s_def]) (simp_all add: s'_def)
  have own: "\<forall>x\<in>slabs_in v'. sh_owner_cpu (hat (sm_hdr mem') x) = fst u"
    using a(7,8) pool_invD(5) [OF inv, of _ u] unfolding sv v_def by (auto simp: u_def)
  have loc: "mem_local mem mem' (slabs_in (G u) \<union> slabs_in v') W" for W
    using a(5,6) unfolding mem_local_def sv v_def by simp
  have "slabs_in v' - slabs_in (G u) = {b}" "slabs_in (G u) - slabs_in v' = {}"
    using bn [of u] unfolding sv v_def by blast+
  note only = this
  have new: "\<forall>x\<in>slabs_in v' - slabs_in (G u). \<forall>w. w \<noteq> u \<longrightarrow> (\<forall>b'\<in>slabs_in (G w). x \<noteq> b' \<and>
      {x..<x + class_bytes ps (snd u)} \<inter> {b'..<b' + class_bytes ps (snd w)} = {})"
    using fresh bn u(2) unfolding only by blast
  have dead: "\<forall>x\<in>slabs_in (G u) - slabs_in v'. sh_magic (hat (sm_hdr mem') x) \<noteq> SLAB_MAGIC"
    unfolding only by blast
  have rv: "rep_view ps mem' c' v'" "sc_class c' = snd u"
    using a(2,3) by (simp_all add: v'_def u_def)
  note us = unit_step [OF inv u(1) pset rv loc own new dead ps slab_pages_pos]
  have "view_live ps mem' c' v' = unit_live ps mem pool G u"
    unfolding view_live_def unit_live_def sv c_def [symmetric] v_def [symmetric] using a(4) by (simp add: v'_def)
  then have "unit_live ps mem' pool' (G(u := v')) u = unit_live ps mem pool G u"
    by (rule trans [OF us(3)])
  then have "\<forall>w. fst w < cpus pool \<longrightarrow> unit_live ps mem' pool' (G(u := v')) w = unit_live ps mem pool G w"
    using us(2) by metis
  moreover have "cpus pool' = cpus pool" "cv_partial v' \<noteq> []"
    by (simp_all add: pool'_def v'_def)
  ultimately show ?thesis
    using run us(1) sv unfolding u_def v_def by blast
qed

section \<open>Release\<close>

definition pool_released where
  "pool_released ps mem pool G u b i r mem' pool' \<longleftrightarrow> (\<exists>v'. pool_inv ps mem' pool' (G(u := v')) \<and> cpus pool' = cpus pool \<and>
     unit_live ps mem' pool' (G(u := v')) u = unit_live ps mem pool G u - {(b, i)} \<and>
     (\<forall>w. w \<noteq> u \<and> fst w < cpus pool \<longrightarrow> unit_live ps mem' pool' (G(u := v')) w = unit_live ps mem pool G w) \<and>
     (case r of
        PoolDone \<Rightarrow> slabs_in v' = slabs_in (G u)
      | RemoteQueued \<Rightarrow> slabs_in v' = slabs_in (G u) \<and> bit (pc_remote_hint (sp_slabs pool' ! fst u)) (class_index (snd u)) \<and>
          i \<in> set (cv_remote v' b)
      | PoolFreeSlab base n \<Rightarrow> base = b \<and> n = slab_pages (snd u) ps \<and> slabs_in v' = slabs_in (G u) - {b} \<and>
          (\<forall>j. (b, j) \<in> unit_live ps mem pool G u \<longrightarrow> j = i)))"

lemma pool_dealloc_local_ok:
  assumes inv: "pool_inv ps mem pool G" and cpu: "cpu < cpus pool" and pw: "is_power_of_two ps"
    and live: "(b, i) \<in> unit_live ps mem pool G (cpu, sc)" and sc: "from_layout l = Some sc"
  shows "\<exists>r mem' pool'. pool_dealloc cpu ps mem pool (slot_addr sc b i) l cpu = Some (r, mem', pool') \<and>
    pool_released ps mem pool G (cpu, sc) b i r mem' pool'"
proof -
  define u s c v where "u = (cpu, sc)" and "s = sp_slabs pool ! cpu" and "c = cache_at pool u" and "v = G u"
  note un = pool_unit [OF inv cpu u_def s_def c_def v_def]
  note u = un(1,2) and cls = un(3) and rep = un(4) and sh = un(5) and len = un(6,7) and cc = un(9)
  note lv = un(10)
  have ps: "0 < ps"
    using pw by (auto elim: is_power_of_twoE)
  obtain res mem' c' where d: "dealloc_object ps mem c (slot_addr sc b i) = Some (res, mem', c')"
    "free_step ps mem c (slabs_in v) (cv_remote v) b i res mem' c'"
    using dealloc_object_ok [OF rep slabs_in_def _ pool_headers_apart [OF inv] pw, of b i] live lv cls by (auto simp: u_def)
  obtain P' F' E' rs' where st: "cache_rep ps mem' c' P' F' E' rs'" "sc_class c' = sc" "mem_frame mem mem' (slabs_in v)"
    "case res of
        CacheDone \<Rightarrow> set P' \<union> set F' \<union> set E' = slabs_in v \<and>
          cache_live ps mem' c' (slabs_in v) rs' = cache_live ps mem c (slabs_in v) (cv_remote v) - {(b, i)}
      | CacheFreeSlab base n \<Rightarrow> base = b \<and> n = slab_pages sc ps \<and>
          set P' \<union> set F' \<union> set E' = slabs_in v - {b} \<and> length E' = 1 \<and>
          (\<forall>j. (b, j) \<in> cache_live ps mem c (slabs_in v) (cv_remote v) \<longrightarrow> j = i) \<and>
          cache_live ps mem' c' (slabs_in v - {b}) rs' = cache_live ps mem c (slabs_in v) (cv_remote v) - {(b, i)} \<and>
          sh_magic (hat (sm_hdr mem') b) = 0"
    using d(2) unfolding free_step_def cls by blast
  define v' where "v' = mk_view P' F' E' rs'"
  define s' where "s' = s\<lparr>pc_inner := (pc_inner s)\<lparr>sa_caches := (sa_caches (pc_inner s))[class_index sc := c']\<rparr>\<rparr>"
  define pool' where "pool' = pool\<lparr>sp_slabs := (sp_slabs pool)[cpu := s']\<rparr>"
  define r where "r = (case res of CacheDone \<Rightarrow> PoolDone | CacheFreeSlab base n \<Rightarrow> PoolFreeSlab base n)"
  have run: "pool_dealloc cpu ps mem pool (slot_addr sc b i) l cpu = Some (r, mem', pool')"
    using cpu len d(1) sc by (simp add: pool_dealloc_def current_slab_def per_cpu_dealloc_local_def slab_allocator_dealloc_def
      s_def [symmetric] cc s'_def pool'_def r_def split: cache_dealloc_result.splits)
  have pset: "pool_set pool u c' pool'"
    unfolding u_def pool'_def by (rule pool_set_slab [OF sh cpu s_def]) (simp_all add: s'_def)
  have sub: "slabs_in v' \<subseteq> slabs_in v" "slabs_in v - slabs_in v' \<subseteq> {b}"
    "slabs_in v - slabs_in v' \<noteq> {} \<longrightarrow> sh_magic (hat (sm_hdr mem') b) = 0"
    "view_live ps mem' c' v' = cache_live ps mem c (slabs_in v) (cv_remote v) - {(b, i)}"
    using st(4) unfolding v'_def view_live_def by (auto split: cache_dealloc_result.splits)
  have own: "\<forall>x\<in>slabs_in v'. sh_owner_cpu (hat (sm_hdr mem') x) = fst u"
    using st(3) sub(1) pool_invD(5) [OF inv, of _ u] unfolding mem_frame_def v_def by auto
  have loc: "mem_local mem mem' (slabs_in (G u) \<union> slabs_in v') W" for W
    by (rule mem_frame_local [OF st(3)]) (simp add: v_def)
  have "slabs_in v' - slabs_in (G u) = {}"
    using sub(1) by (auto simp: v_def)
  then have new: "\<forall>x\<in>slabs_in v' - slabs_in (G u). \<forall>w. w \<noteq> u \<longrightarrow> (\<forall>b'\<in>slabs_in (G w). x \<noteq> b' \<and>
      {x..<x + class_bytes ps (snd u)} \<inter> {b'..<b' + class_bytes ps (snd w)} = {})"
    by blast
  have dead: "\<forall>x\<in>slabs_in (G u) - slabs_in v'. sh_magic (hat (sm_hdr mem') x) \<noteq> SLAB_MAGIC"
    using sub(2,3) unfolding v_def SLAB_MAGIC_def by auto
  have rv: "rep_view ps mem' c' v'" "sc_class c' = snd u"
    using st(1,2) by (simp_all add: v'_def u_def)
  note us = unit_step [OF inv u(1) pset rv loc own new dead ps slab_pages_pos]
  have "unit_live ps mem' pool' (G(u := v')) u = unit_live ps mem pool G u - {(b, i)}"
    unfolding us(3) lv by (rule sub(4))
  moreover have "case r of PoolDone \<Rightarrow> slabs_in v' = slabs_in (G u) | RemoteQueued \<Rightarrow> False
      | PoolFreeSlab base n \<Rightarrow> base = b \<and> n = slab_pages (snd u) ps \<and> slabs_in v' = slabs_in (G u) - {b} \<and>
          (\<forall>j. (b, j) \<in> unit_live ps mem pool G u \<longrightarrow> j = i)"
    using st(4) unfolding r_def lv u(2) by (auto simp: v'_def v_def split: cache_dealloc_result.splits)
  ultimately have "pool_released ps mem pool G u b i r mem' pool'"
    unfolding pool_released_def using us(1,2) pset
    by (intro exI [of _ v']) (auto simp: pool_set_def split: slab_pool_dealloc_result.splits)
  with run show ?thesis
    unfolding u_def by blast
qed

text \<open>A free from another CPU, with its announcement.\<close>

lemma hint_mark_bit: "bit (hint_mark h sc) (class_index sc)"
  by (cases sc) (simp_all add: hint_mark_def bit_or_iff bit_push_bit_iff)

lemma pool_dealloc_remote_ok:
  assumes inv: "pool_inv ps mem pool G" and cur: "cur < cpus pool" and cpu: "cpu < cpus pool" "cpu \<noteq> cur"
    and pw: "is_power_of_two ps" and live: "(b, i) \<in> unit_live ps mem pool G (cpu, sc)"
  shows "\<exists>mem' pool'. pool_dealloc cur ps mem pool (slot_addr sc b i) l cpu = Some (RemoteQueued, mem', pool') \<and>
    pool_released ps mem pool G (cpu, sc) b i RemoteQueued mem' pool'"
proof -
  define u s c v where "u = (cpu, sc)" and "s = sp_slabs pool ! cpu" and "c = cache_at pool u" and "v = G u"
  note un = pool_unit [OF inv cpu(1) u_def s_def c_def v_def]
  have ps: "0 < ps"
    using pw by (auto elim: is_power_of_twoE)
  have lv: "(b, i) \<in> cache_live ps mem c (slabs_in v) (cv_remote v)"
    using live un(10) by (simp add: u_def)
  then have bi: "b \<in> slabs_in v" "i < capacity sc (class_bytes ps sc)"
    using un(3) by (simp_all add: cache_live_def)
  define a where "a = slot_addr sc b i"
  obtain mem' hdr hdr' where m: "remote_free mem b a = Some mem'" "sm_hdr mem b = Some hdr"
    "mem' = mem\<lparr>sm_word := (sm_word mem)(a := sh_remote_head hdr), sm_hdr := (sm_hdr mem)(b \<mapsto> hdr')\<rparr>"
    "sh_owner_cpu hdr' = sh_owner_cpu hdr"
    "cache_rep ps mem' c (cv_partial v) (cv_full v) (cv_empty v) ((cv_remote v)(b := i # cv_remote v b))"
    "cache_live ps mem' c (slabs_in v) ((cv_remote v)(b := i # cv_remote v b)) = cache_live ps mem c (slabs_in v) (cv_remote v) - {(b, i)}"
    using remote_free_ok [OF un(4) slabs_in_def lv] unfolding un(3) a_def [symmetric] by blast
  have "slab_ok (sm_word mem) sc (class_bytes ps sc) b hdr (cv_remote v b)" and al: "ps dvd b"
    using pool_inv_slab [OF inv bi(1) [unfolded v_def]] un(2) m(2) by (simp_all add: v_def)
  note ok = slab_okD [OF this(1)]
  have "base_from_obj_addr_unknown ps mem a = Some b"
    unfolding a_def by (rule base_from_obj_addr_unknown_ok [OF m(2) pool_headers_apart [OF inv] ok(2,4,1) pw al
      slot_in_range [OF bi(2)] slab_pages_bounds(2)])
  then have q: "queue_remote_free ps mem a = Some (Some sc, mem')"
    using m(1,2) ok(3) by (simp add: queue_remote_free_def)
  define s' where "s' = s\<lparr>pc_remote_hint := hint_mark (pc_remote_hint s) sc\<rparr>"
  define pool' where "pool' = pool\<lparr>sp_slabs := (sp_slabs pool)[cpu := s']\<rparr>"
  define v' where "v' = mk_view (cv_partial v) (cv_full v) (cv_empty v) ((cv_remote v)(b := i # cv_remote v b))"
  have sv: "slabs_in v' = slabs_in v"
    by (simp add: v'_def slabs_in_def)
  have "pc_cpu_id (sp_slabs pool ! cur) = cur"
    using un(5) cur by (simp add: pool_shape_def)
  then have run: "pool_dealloc cur ps mem pool a l cpu = Some (RemoteQueued, mem', pool')"
    using cur cpu un(7,8) q by (simp add: pool_dealloc_def current_slab_def owner_slab_def trait_dealloc_remote_def
      remote_free_hint_of_def s_def [symmetric] s'_def pool'_def)
  have "pool_set pool (cpu, sc) c pool'"
    unfolding pool'_def by (rule pool_set_slab [OF un(5) cpu(1) s_def]) (simp_all add: s'_def un(9) [symmetric])
  then have pset: "pool_set pool u c pool'"
    by (simp add: u_def)
  have own: "\<forall>x\<in>slabs_in v'. sh_owner_cpu (hat (sm_hdr mem') x) = fst u"
    using pool_invD(5) [OF inv, of _ u] pool_invD(5) [OF inv, of b u] m(2,4) unfolding sv v_def m(3) by auto
  have "a \<in> {b..<b + class_bytes ps (snd u)}"
    using slot_in_range [OF bi(2), of b] by (simp add: a_def un(2))
  then have loc: "mem_local mem mem' (slabs_in (G u) \<union> slabs_in v') (\<Union>b\<in>slabs_in (G u). {b..<b + class_bytes ps (snd u)})"
    using bi(1) unfolding mem_local_def m(3) v_def by auto
  have nd: "\<forall>x\<in>slabs_in v' - slabs_in (G u). \<forall>w. w \<noteq> u \<longrightarrow> (\<forall>b'\<in>slabs_in (G w). x \<noteq> b' \<and>
      {x..<x + class_bytes ps (snd u)} \<inter> {b'..<b' + class_bytes ps (snd w)} = {})"
    "\<forall>x\<in>slabs_in (G u) - slabs_in v'. sh_magic (hat (sm_hdr mem') x) \<noteq> SLAB_MAGIC"
    unfolding sv v_def by blast+
  have rv: "rep_view ps mem' c v'" "sc_class c = snd u"
    using m(5) un(2,3) by (simp_all add: v'_def)
  note us = unit_step [OF inv un(1) pset rv loc own nd ps slab_pages_pos]
  have "view_live ps mem' c v' = unit_live ps mem pool G u - {(b, i)}"
    unfolding view_live_def sv un(10) using m(6) by (simp add: v'_def)
  moreover have "bit (pc_remote_hint (sp_slabs pool' ! fst u)) (class_index (snd u))"
    using cpu(1) hint_mark_bit by (simp add: pool'_def s'_def u_def)
  ultimately have "pool_released ps mem pool G u b i RemoteQueued mem' pool'"
    unfolding pool_released_def using us pset sv
    by (intro exI [of _ v']) (simp add: pool_set_def v_def, simp add: v'_def)
  with run show ?thesis
    unfolding u_def a_def by blast
qed

end
