(* ===== verification/Global.thy ===== *)
theory Global
  imports SlabPool
begin

text \<open>
  The global allocator (\<open>buddy-slab-allocator/src/global.rs\<close>): small requests go to the slab pool, which is
  fed with pages of the buddy allocator, large ones to the buddy allocator. The state holds the allocator,
  the flag \<open>GLOBAL_ALLOCATOR_LIVE\<close>, the slab pool of the platform interface, the memory of the slabs, and the
  bytes of the clients.
\<close>

unbundle bit_operations_syntax

definition REGION_GRANULE :: usize where
  "REGION_GRANULE = 2 * 1024 * 1024"

record global_state =
  gs_buddy :: buddy_allocator
  gs_initialized :: bool
  gs_live :: bool
  gs_pool :: static_slab_pool
  gs_mem :: slab_mem
  gs_bytes :: "usize \<Rightarrow> 8 word"

section \<open>Regions\<close>

definition region_spec :: "usize \<Rightarrow> usize \<Rightarrow> usize \<Rightarrow> region_layout \<Rightarrow> section_init_spec" where
  "region_spec page_size region_start region_size l =
     \<lparr>si_region_start = region_start, si_region_size = region_size,
      si_section_ptr = rl_section_start l, si_meta_ptr = rl_meta_start l,
      si_meta_size = required_meta_size page_size (rl_managed_heap_size l),
      si_heap_start = rl_managed_heap_start l, si_heap_size = rl_managed_heap_size l\<rparr>"

definition global_init ::
  "usize \<Rightarrow> global_state \<Rightarrow> usize \<Rightarrow> usize \<Rightarrow> (unit alloc_result \<times> global_state) option" where
  "global_init page_size g start len =
     (if gs_initialized g then Some (Inl AlreadyInitialized, g)
      else if gs_live g then Some (Inl AlreadyInitialized, g)
      else
        let g1 = g\<lparr>gs_live := True\<rparr> in
        case compute_region_layout_with_heap_align page_size start len REGION_GRANULE of
          None \<Rightarrow> Some (Inl AllocInvalidParam, g1\<lparr>gs_live := False\<rparr>)
        | Some l \<Rightarrow> do {
            (r, ba) \<leftarrow> add_region_raw page_size (buddy_reset (gs_buddy g1)) (region_spec page_size start len l);
            Some (case r of
                Inl err \<Rightarrow> (Inl err, g1\<lparr>gs_buddy := ba, gs_live := False\<rparr>)
              | Inr _ \<Rightarrow> (Inr (), g1\<lparr>gs_buddy := ba, gs_initialized := True\<rparr>))
          })"

definition add_region_with_heap_align ::
  "usize \<Rightarrow> global_state \<Rightarrow> usize \<Rightarrow> usize \<Rightarrow> usize \<Rightarrow> (usize alloc_result \<times> global_state) option" where
  "add_region_with_heap_align page_size g start len heap_align =
     (if \<not> gs_initialized g then Some (Inl NotInitialized, g)
      else case compute_region_layout_with_heap_align page_size start len heap_align of
        None \<Rightarrow> Some (Inr 0, g)
      | Some l \<Rightarrow> do {
          (r, ba) \<leftarrow> add_region_raw page_size (gs_buddy g) (region_spec page_size start len l);
          Some (case r of
              Inl err \<Rightarrow> (Inl err, g\<lparr>gs_buddy := ba\<rparr>)
            | Inr _ \<Rightarrow> (Inr (rl_managed_heap_size l), g\<lparr>gs_buddy := ba\<rparr>))
        })"

definition global_add_region ::
  "usize \<Rightarrow> global_state \<Rightarrow> usize \<Rightarrow> usize \<Rightarrow> (unit alloc_result \<times> global_state) option" where
  "global_add_region page_size g start len = do {
     (r, g') \<leftarrow> add_region_with_heap_align page_size g start len REGION_GRANULE;
     Some (case r of Inl err \<Rightarrow> Inl err | Inr _ \<Rightarrow> Inr (), g')
   }"

definition add_compact_region ::
  "usize \<Rightarrow> global_state \<Rightarrow> usize \<Rightarrow> usize \<Rightarrow> (usize alloc_result \<times> global_state) option" where
  "add_compact_region page_size g start len =
     (let heap_align =
        (case compute_region_layout_with_heap_align page_size start len REGION_GRANULE of
           Some l \<Rightarrow> if rl_managed_heap_size l \<ge> REGION_GRANULE then REGION_GRANULE else page_size
         | None \<Rightarrow> page_size)
      in add_region_with_heap_align page_size g start len heap_align)"

definition global_drop :: "global_state \<Rightarrow> global_state" where
  "global_drop g = (if gs_initialized g then g\<lparr>gs_initialized := False, gs_live := False\<rparr> else g)"

section \<open>Counters and pages\<close>

definition managed_section_count :: "global_state \<Rightarrow> usize" where
  "managed_section_count g = ba_section_count (gs_buddy g)"

definition global_managed_section :: "global_state \<Rightarrow> usize \<Rightarrow> managed_section option" where
  "global_managed_section g index = managed_section_at (gs_buddy g) index"

definition managed_bytes :: "global_state \<Rightarrow> usize" where
  "managed_bytes g = buddy_managed_bytes (gs_buddy g)"

definition allocated_bytes :: "usize \<Rightarrow> global_state \<Rightarrow> usize" where
  "allocated_bytes page_size g = buddy_allocated_bytes page_size (gs_buddy g)"

definition available_bytes :: "usize \<Rightarrow> global_state \<Rightarrow> usize" where
  "available_bytes page_size g = usize_saturating_sub (managed_bytes g) (allocated_bytes page_size g)"

definition global_alloc_pages ::
  "usize \<Rightarrow> global_state \<Rightarrow> usize \<Rightarrow> usize \<Rightarrow> (usize alloc_result \<times> global_state) option" where
  "global_alloc_pages page_size g count align = do {
     (r, ba) \<leftarrow> alloc_pages page_size (gs_buddy g) count align;
     Some (r, g\<lparr>gs_buddy := ba\<rparr>)
   }"

definition global_dealloc_pages :: "usize \<Rightarrow> global_state \<Rightarrow> usize \<Rightarrow> usize \<Rightarrow> global_state option" where
  "global_dealloc_pages page_size g addr count = do {
     ba \<leftarrow> dealloc_pages page_size (gs_buddy g) addr count;
     Some (g\<lparr>gs_buddy := ba\<rparr>)
   }"

definition global_alloc_pages_lowmem ::
  "(usize \<Rightarrow> usize) \<Rightarrow> usize \<Rightarrow> global_state \<Rightarrow> usize \<Rightarrow> usize \<Rightarrow> (usize alloc_result \<times> global_state) option" where
  "global_alloc_pages_lowmem virt_to_phys page_size g count align = do {
     (r, ba) \<leftarrow> alloc_pages_lowmem virt_to_phys page_size (gs_buddy g) count align;
     Some (r, g\<lparr>gs_buddy := ba\<rparr>)
   }"

section \<open>Objects\<close>

definition is_slab_eligible :: "layout \<Rightarrow> bool" where
  "is_slab_eligible l \<longleftrightarrow> ly_size l \<le> SLAB_MAX_SIZE \<and> ly_align l \<le> SLAB_MAX_SIZE"

definition slab_alloc ::
  "usize \<Rightarrow> usize \<Rightarrow> global_state \<Rightarrow> layout \<Rightarrow> (usize alloc_result \<times> global_state) option" where
  "slab_alloc cpu page_size g l = do {
     (r, mem1, pool1) \<leftarrow> pool_alloc cpu page_size (gs_mem g) (gs_pool g) l;
     let g1 = g\<lparr>gs_mem := mem1, gs_pool := pool1\<rparr>;
     (case r of
        Inl err \<Rightarrow> Some (Inl err, g1)
      | Inr (SlabAllocated ptr) \<Rightarrow> Some (Inr ptr, g1)
      | Inr (NeedsSlab sc pages_n) \<Rightarrow> do {
          let bytes = usize_mul pages_n page_size;
          (r2, g2) \<leftarrow> global_alloc_pages page_size g1 pages_n bytes;
          (case r2 of
             Inl err \<Rightarrow> Some (Inl err, g2)
           | Inr addr \<Rightarrow> do {
               (r3, ba3) \<leftarrow> set_page_flags page_size (gs_buddy g2) addr Slab;
               let g3 = g2\<lparr>gs_buddy := ba3\<rparr>;
               (case r3 of
                  Inl err \<Rightarrow> Some (Inl err, g3)
                | Inr _ \<Rightarrow> do {
                    (mem4, pool4) \<leftarrow> pool_add_slab cpu (gs_mem g3) (gs_pool g3) sc addr bytes;
                    (r5, mem5, pool5) \<leftarrow> pool_alloc cpu page_size mem4 pool4 l;
                    let g5 = g3\<lparr>gs_mem := mem5, gs_pool := pool5\<rparr>;
                    Some (case r5 of
                        Inl err \<Rightarrow> (Inl err, g5)
                      | Inr (SlabAllocated ptr) \<Rightarrow> (Inr ptr, g5)
                      | Inr (NeedsSlab _ _) \<Rightarrow> (Inl NoMemory, g5))
                  })
             })
        })
   }"

definition slab_dealloc :: "usize \<Rightarrow> usize \<Rightarrow> global_state \<Rightarrow> usize \<Rightarrow> layout \<Rightarrow> global_state option" where
  "slab_dealloc cpu page_size g ptr l = do {
     sc \<leftarrow> from_layout l;
     let slab_bytes = usize_mul (slab_pages sc page_size) page_size;
     let base = base_from_obj_addr page_size (gs_mem g) ptr slab_bytes;
     hdr \<leftarrow> sm_hdr (gs_mem g) base;
     (r, mem', pool') \<leftarrow> pool_dealloc cpu page_size (gs_mem g) (gs_pool g) ptr l (sh_owner_cpu hdr);
     let g' = g\<lparr>gs_mem := mem', gs_pool := pool'\<rparr>;
     (case r of
        PoolDone \<Rightarrow> Some g'
      | RemoteQueued \<Rightarrow> Some g'
      | PoolFreeSlab base n \<Rightarrow> global_dealloc_pages page_size g' base n)
   }"

definition large_pages :: "usize \<Rightarrow> layout \<Rightarrow> usize" where
  "large_pages page_size l = buddy_align_up (ly_size l) page_size div page_size"

definition large_alloc :: "usize \<Rightarrow> global_state \<Rightarrow> layout \<Rightarrow> (usize alloc_result \<times> global_state) option" where
  "large_alloc page_size g l =
     global_alloc_pages page_size g (large_pages page_size l) (max (ly_align l) page_size)"

definition large_dealloc :: "usize \<Rightarrow> global_state \<Rightarrow> usize \<Rightarrow> layout \<Rightarrow> global_state option" where
  "large_dealloc page_size g ptr l = global_dealloc_pages page_size g ptr (large_pages page_size l)"

definition global_alloc ::
  "usize \<Rightarrow> usize \<Rightarrow> global_state \<Rightarrow> layout \<Rightarrow> (usize alloc_result \<times> global_state) option" where
  "global_alloc cpu page_size g l =
     (if \<not> gs_initialized g then Some (Inl NotInitialized, g)
      else if is_slab_eligible l then slab_alloc cpu page_size g l
      else large_alloc page_size g l)"

definition global_dealloc :: "usize \<Rightarrow> usize \<Rightarrow> global_state \<Rightarrow> usize \<Rightarrow> layout \<Rightarrow> global_state option" where
  "global_dealloc cpu page_size g ptr l =
     (if is_slab_eligible l then slab_dealloc cpu page_size g ptr l else large_dealloc page_size g ptr l)"

section \<open>The interface of the language\<close>

text \<open>The null pointer stands for failure.\<close>

definition ga_alloc :: "usize \<Rightarrow> usize \<Rightarrow> global_state \<Rightarrow> layout \<Rightarrow> (usize \<times> global_state) option" where
  "ga_alloc cpu page_size g l = do {
     (r, g') \<leftarrow> global_alloc cpu page_size g l;
     Some (case r of Inr ptr \<Rightarrow> ptr | Inl _ \<Rightarrow> 0, g')
   }"

definition ga_dealloc :: "usize \<Rightarrow> usize \<Rightarrow> global_state \<Rightarrow> usize \<Rightarrow> layout \<Rightarrow> global_state option" where
  "ga_dealloc cpu page_size g ptr l =
     (if ptr \<noteq> 0 then global_dealloc cpu page_size g ptr l else Some g)"

text \<open>\<open>Layout::from_size_align\<close> of the standard library.\<close>

definition layout_from_size_align :: "usize \<Rightarrow> usize \<Rightarrow> layout option" where
  "layout_from_size_align len align =
     (if is_power_of_two align \<and> len \<le> 2 ^ 63 - align then Some \<lparr>ly_size = len, ly_align = align\<rparr> else None)"

definition copy_nonoverlapping :: "(usize \<Rightarrow> 8 word) \<Rightarrow> usize \<Rightarrow> usize \<Rightarrow> nat \<Rightarrow> usize \<Rightarrow> 8 word" where
  "copy_nonoverlapping bytes src dst n =
     (\<lambda>a. if dst \<le> a \<and> a < dst + n then bytes (src + (a - dst)) else bytes a)"

definition ga_realloc ::
  "usize \<Rightarrow> usize \<Rightarrow> global_state \<Rightarrow> usize \<Rightarrow> layout \<Rightarrow> usize \<Rightarrow> (usize \<times> global_state) option" where
  "ga_realloc cpu page_size g ptr l new_size =
     (case layout_from_size_align new_size (ly_align l) of
        None \<Rightarrow> Some (0, g)
      | Some new_layout \<Rightarrow> do {
          (new_ptr, g1) \<leftarrow> ga_alloc cpu page_size g new_layout;
          if new_ptr \<noteq> 0 then do {
            let g2 = g1\<lparr>gs_bytes := copy_nonoverlapping (gs_bytes g1) ptr new_ptr (min (ly_size l) new_size)\<rparr>;
            g3 \<leftarrow> ga_dealloc cpu page_size g2 ptr l;
            Some (new_ptr, g3)
          }
          else Some (new_ptr, g1)
        })"

end
