(* ===== verification/BuddyPages.thy ===== *)
theory BuddyPages
  imports BuddyAllocator
begin

text \<open>
  What the slab allocator needs of the buddy allocator besides requests and releases: where live blocks can
  lie, and that marking their pages as slab pages changes nothing else.
\<close>

section \<open>Live blocks\<close>

lemma live_bounds:
  assumes rep: "ba_rep s ba reps" and l: "(addr, k) \<in> live s ba reps"
  shows "0 < addr" "2 ^ s dvd addr" "addr + 2 ^ k * 2 ^ s < usize_lim" "s < 64"
proof -
  obtain i q where i: "i < length (ba_sections ba)" and q: "(q, k) \<in> snd (reps ! i)"
    and addr: "addr = block_addr (2 ^ s) (ba_sections ba ! i) q"
    using l unfolding live_def sec_live_def by blast
  let ?sec = "ba_sections ba ! i"
  note ok = ba_repD(2) [OF rep i]
  have core: "sec_core ?sec (fst (reps ! i)) (snd (reps ! i)) {}" and geom: "sec_geom s ?sec" and h: "0 < bs_heap_start ?sec"
    using ok by (simp_all add: sec_ok_def sec_rep_def)
  have "q + 2 ^ k \<le> bs_total_pages ?sec"
    using sec_core_block(3) [OF core] q by blast
  then have "(q + 2 ^ k) * 2 ^ s \<le> bs_total_pages ?sec * 2 ^ s"
    by (rule mult_le_mono1)
  moreover have "addr + 2 ^ k * 2 ^ s = bs_heap_start ?sec + (q + 2 ^ k) * 2 ^ s"
    by (simp add: addr block_addr_def algebra_simps)
  ultimately show "addr + 2 ^ k * 2 ^ s < usize_lim"
    using geom unfolding sec_geom_def by linarith
  show "0 < addr" "2 ^ s dvd addr" "s < 64"
    using h geom by (simp_all add: addr block_addr_def sec_geom_def)
qed

lemma flag_section:
  assumes rep: "sec_rep sec fl A" and q: "(q, k) \<in> A" and f: "f \<noteq> Free"
  defines "sec' \<equiv> sec\<lparr>bs_meta := (bs_meta sec)[q := (bs_meta sec ! q)\<lparr>pm_flags := f\<rparr>]\<rparr>"
  shows "sec_rep sec' fl A" "same_geometry sec sec'" "q < length (bs_meta sec)"
proof -
  have core: "sec_core sec fl A {}"
    using rep by (simp add: sec_rep_def)
  note d = sec_coreD [OF core]
  have q1: "q < bs_total_pages sec"
    using sec_core_block(4) [OF core] q by blast
  then show ql: "q < length (bs_meta sec)"
    using d(1) by simp
  let ?meta = "(bs_meta sec)[q := (bs_meta sec ! q)\<lparr>pm_flags := f\<rparr>]"
  have "same_links (bs_meta sec) ?meta X" for X
    using ql by (auto simp: same_links_def nth_list_update)
  then have "freelists_ok ?meta (bs_free_lists sec) fl"
    by (rule freelists_ok_frame [OF d(4)])
  moreover have "(q, j) \<notin> frees fl" for j
  proof
    assume "(q, j) \<in> frees fl"
    then have "pm_flags (bs_meta sec ! q) = Free"
      using d(9) unfolding heads_marked_def by blast
    moreover have "pm_flags (bs_meta sec ! q) \<noteq> Free"
      using d(9) q unfolding heads_marked_def by blast
    ultimately show False
      by simp
  qed
  then have "heads_marked ?meta (frees fl) A"
    using d(9) f ql unfolding heads_marked_def by (simp add: nth_list_update)
  ultimately have "sec_core sec' fl A {}"
    unfolding sec_core_def sec'_def using d by simp
  then show "sec_rep sec' fl A"
    using rep by (simp add: sec_rep_def sec'_def)
  show "same_geometry sec sec'"
    by (simp add: same_geometry_def sec'_def)
qed

lemma set_page_flags_ok:
  assumes rep: "ba_rep s ba reps" and l: "(addr, k) \<in> live s ba reps" and f: "f \<noteq> Free"
  shows "\<exists>ba' reps'. set_page_flags (2 ^ s) ba addr f = Some (Inr (), ba') \<and> ba_rep s ba' reps' \<and>
    live s ba' reps' = live s ba reps"
proof -
  obtain i q where i: "i < length (ba_sections ba)" and q: "(q, k) \<in> snd (reps ! i)"
    and addr: "addr = block_addr (2 ^ s) (ba_sections ba ! i) q"
    using l unfolding live_def sec_live_def by blast
  let ?sec = "ba_sections ba ! i" and ?A = "snd (reps ! i)" and ?fl = "fst (reps ! i)"
  note ok = ba_repD(2) [OF rep i]
  have srep: "sec_rep ?sec ?fl ?A"
    using ok by (simp add: sec_ok_def)
  then have core: "sec_core ?sec ?fl ?A {}"
    by (simp add: sec_rep_def)
  have "q + 2 ^ k \<le> bs_total_pages ?sec"
    using sec_core_block(3) [OF core] q by blast
  then have "addr \<in> heap_range ?sec"
    using addrs_in_heap [OF ok] addrs_head unfolding addr by blast
  then have fs: "find_section_by_addr (ba_sections ba) addr = Some i"
    by (rule find_section_live [OF rep i])
  have pfn: "addr_pfn (2 ^ s) ?sec addr = q"
    unfolding addr addr_pfn_def by (simp add: block_addr_def usize_sub_exact)
  note fl = flag_section [OF srep q f]
  define sec' where "sec' = ?sec\<lparr>bs_meta := (bs_meta ?sec)[q := (bs_meta ?sec ! q)\<lparr>pm_flags := f\<rparr>]\<rparr>"
  define ba' where "ba' = ba\<lparr>ba_sections := (ba_sections ba)[i := sec']\<rparr>"
  have run: "set_page_flags (2 ^ s) ba addr f = Some (Inr (), ba')"
    using fs pfn fl(3) by (simp add: set_page_flags_def Let_def meta_upd_def ba'_def sec'_def)
  have rep': "ba_rep s ba' (reps[i := (?fl, ?A)])"
    unfolding ba'_def by (rule ba_rep_update [OF rep i]) (use fl in \<open>simp_all add: sec'_def\<close>)
  have same: "sec_live s (ba_sections ba' ! j) (reps[i := (?fl, ?A)] ! j) = sec_live s (ba_sections ba ! j) (reps ! j)"
    if "j < length (ba_sections ba)" for j
    using that ba_repD(1) [OF rep] i by (cases "j = i") (simp_all add: ba'_def sec'_def sec_live_def block_addr_def)
  have "live s ba' (reps[i := (?fl, ?A)]) = live s ba reps"
    unfolding live_def using same by (simp add: ba'_def)
  with run rep' show ?thesis
    by blast
qed

section \<open>The contract for page memory\<close>

locale page_memory = page_source +
  fixes flag :: "'a \<Rightarrow> usize \<Rightarrow> page_flags \<Rightarrow> (unit alloc_result \<times> 'a) option"
  assumes bounds_law: "R st L \<Longrightarrow> (a, k) \<in> L \<Longrightarrow> 0 < a \<and> 2 ^ s dvd a \<and> a + 2 ^ k * 2 ^ s < usize_lim"
    and flag_law: "R st L \<Longrightarrow> (a, k) \<in> L \<Longrightarrow> f \<noteq> Free \<Longrightarrow> \<exists>st'. flag st a f = Some (Inr (), st') \<and> R st' L"
begin

lemma good_disjoint:
  assumes "good st C" "x \<in> C" "y \<in> C" "x \<noteq> y"
  shows "client_range s x \<inter> client_range s y = {}"
  using assms backed_disjoint unfolding good_def by blast

lemma good_bounds:
  assumes g: "good st C" and x: "(a, c) \<in> C"
  shows "0 < a" "2 ^ s dvd a" "a + c * 2 ^ s < usize_lim" "0 < c"
proof -
  obtain L k where L: "R st L" "(a, k) \<in> L" "0 < c" "c \<le> 2 ^ k"
    using g x unfolding good_def backed_def by meson
  note b = bounds_law [OF L(1,2)]
  then show "0 < a" "2 ^ s dvd a" "0 < c"
    using L(3) by simp_all
  have "c * 2 ^ s \<le> 2 ^ k * 2 ^ s"
    using L(4) by (rule mult_le_mono1)
  with b show "a + c * 2 ^ s < usize_lim"
    by linarith
qed

lemma good_flagged:
  assumes g: "good st C" and x: "(a, c) \<in> C" and f: "f \<noteq> Free"
  shows "\<exists>st'. flag st a f = Some (Inr (), st') \<and> good st' C"
proof -
  obtain L k where L: "R st L" "apart s L" "backed s C L" "(a, k) \<in> L"
    using g x unfolding good_def backed_def by meson
  with flag_law [OF L(1,4) f] show ?thesis
    unfolding good_def by blast
qed

lemma good_request:
  assumes g: "good st C" and c: "0 < c" "is_power_of_two al" "2 ^ s \<le> al"
  shows "\<exists>r st'. request st c al = Some (r, st') \<and>
    (case r of
       Inl e \<Rightarrow> st' = st
     | Inr a \<Rightarrow> al dvd a \<and> good st' (insert (a, c) C) \<and> (\<forall>x\<in>C. client_range s x \<inter> client_range s (a, c) = {}))"
proof -
  obtain L where L: "R st L" "apart s L" "backed s C L"
    using g by (auto simp: good_def)
  obtain r st' where r: "request st c al = Some (r, st')"
    "case r of Inl e \<Rightarrow> st' = st
     | Inr a \<Rightarrow> \<exists>k. c \<le> 2 ^ k \<and> al dvd a \<and> R st' (insert (a, k) L) \<and> (\<forall>b\<in>L. addrs s b \<inter> addrs s (a, k) = {})"
    using request_law [OF L(1) c] by blast
  show ?thesis
  proof (cases r)
    case (Inl e)
    with r show ?thesis
      by auto
  next
    case (Inr a)
    obtain k where k: "c \<le> 2 ^ k" "al dvd a" "\<forall>b\<in>L. addrs s b \<inter> addrs s (a, k) = {}"
      using r(2) Inr by auto
    have "client_range s x \<inter> client_range s (a, c) = {}" if xC: "x \<in> C" for x
    proof -
      obtain a' c' where x: "x = (a', c')"
        by (cases x)
      obtain k' where "(a', k') \<in> L" "c' \<le> 2 ^ k'"
        using L(3) xC unfolding x backed_def by blast
      then have "addrs s (a', k') \<inter> addrs s (a, k) = {}" "client_range s x \<subseteq> addrs s (a', k')"
        using k(3) client_range_addrs x by blast+
      then show ?thesis
        using client_range_addrs [OF k(1), of s a] by blast
    qed
    with good_granted [OF g c r(1) [unfolded Inr]] k(2) r(1) Inr show ?thesis
      by auto
  qed
qed

lemma good_release:
  assumes g: "good st C" and x: "(a, c) \<in> C"
  shows "\<exists>st'. release st a c' = Some st' \<and> good st' (C - {(a, c)})"
proof -
  obtain L k where L: "R st L" "(a, k) \<in> L"
    using g x unfolding good_def backed_def by meson
  obtain st' where "release st a c' = Some st'"
    using release_law [OF L] by blast
  with good_returned [OF g x this] show ?thesis
    by blast
qed

end

interpretation bmem: page_memory "buddy_R s" "alloc_pages (2 ^ s)" "dealloc_pages (2 ^ s)" s "set_page_flags (2 ^ s)" for s
proof unfold_locales
  fix ba L a k and f assume R: "buddy_R s ba L" and l: "(a, k) \<in> L"
  then obtain reps where rep: "ba_rep s ba reps" and L: "(a, k) \<in> live s ba reps" "L = live s ba reps"
    by (auto simp: buddy_R_def)
  show "0 < a \<and> 2 ^ s dvd a \<and> a + 2 ^ k * 2 ^ s < usize_lim"
    using live_bounds [OF rep L(1)] by blast
  assume "f \<noteq> Free"
  then show "\<exists>st'. set_page_flags (2 ^ s) ba a f = Some (Inr (), st') \<and> buddy_R s st' L"
    using set_page_flags_ok [OF rep L(1)] L(2) unfolding buddy_R_def by metis
qed

abbreviation pages_held :: "nat \<Rightarrow> buddy_allocator \<Rightarrow> (usize \<times> usize) set \<Rightarrow> bool" where
  "pages_held s \<equiv> page_source.good (buddy_R s) s"

end
