(* ===== verification/GlobalInv.thy ===== *)
theory GlobalInv
  imports PoolOps Global BuddyPages
begin

text \<open>
  The global allocator composes the slab pool with the buddy allocator. Its invariant says that every slab and
  every large allocation is a page run of its own, held from the buddy allocator; the allocations a client
  holds are then disjoint, whatever mixture of sizes it asked for.
\<close>

section \<open>Layouts\<close>

lemma from_layout_cases:
  "from_layout l = (let z = max (ly_size l) (ly_align l) in
     if z \<le> 8 then Some Bytes8 else if z \<le> 16 then Some Bytes16 else if z \<le> 32 then Some Bytes32
     else if z \<le> 64 then Some Bytes64 else if z \<le> 128 then Some Bytes128 else if z \<le> 256 then Some Bytes256
     else if z \<le> 512 then Some Bytes512 else if z \<le> 1024 then Some Bytes1024 else if z \<le> 2048 then Some Bytes2048
     else None)"
proof -
  define z where "z = max (ly_size l) (ly_align l)"
  show ?thesis
    unfolding from_layout_def Let_def z_def [symmetric]
    by (auto simp: SLAB_MAX_SIZE_def CLASS_SIZES_def class_ALL_def enumerate_eq_zip upt_rec)
qed

lemma from_layout_Some:
  assumes "from_layout l = Some sc"
  shows "ly_size l \<le> class_size sc" "ly_align l \<le> class_size sc"
  using assms by (auto simp: from_layout_cases Let_def class_size_def CLASS_SIZES_def split: if_splits)

lemma eligible_iff: "is_slab_eligible l \<longleftrightarrow> from_layout l \<noteq> None"
  by (auto simp: from_layout_cases is_slab_eligible_def SLAB_MAX_SIZE_def Let_def)

lemma class_size_pow2: "\<exists>k. class_size sc = 2 ^ k \<and> k \<le> 11"
proof -
  have "class_size sc \<in> {2 ^ 3, 2 ^ 4, 2 ^ 5, 2 ^ 6, 2 ^ 7, 2 ^ 8, 2 ^ 9, 2 ^ 10, 2 ^ 11}"
    by (cases sc) (simp_all add: class_size_def CLASS_SIZES_def)
  then show ?thesis
    by (elim insertE emptyE) (rule exI, rule conjI, assumption, simp)+
qed

lemma pow2_dvd:
  assumes "is_power_of_two a" "a \<le> 2 ^ k"
  shows "a dvd 2 ^ k"
proof -
  obtain j where "a = 2 ^ j"
    using assms(1) by (auto elim: is_power_of_twoE)
  with assms(2) show ?thesis
    by (simp add: le_imp_power_dvd)
qed

lemma slot_aligned:
  assumes "from_layout l = Some sc" "is_power_of_two (ly_align l)" "2 ^ s dvd b" "11 \<le> s"
  shows "ly_align l dvd slot_addr sc b i"
proof -
  obtain k where k: "class_size sc = 2 ^ k" "k \<le> 11"
    using class_size_pow2 by blast
  have "ly_align l dvd class_size sc"
    using from_layout_Some(2) [OF assms(1)] pow2_dvd [OF assms(2), of k] k(1) by simp
  moreover have "class_size sc dvd b"
    unfolding k(1) by (rule dvd_trans [OF le_imp_power_dvd assms(3)]) (use k(2) assms(4) in simp)
  moreover have "class_size sc dvd data_offset (class_size sc)"
    by (cases sc) (simp_all add: class_size_def CLASS_SIZES_def data_offset_values)
  ultimately show ?thesis
    unfolding slot_addr_def by (meson dvd_add dvd_trans dvd_triv_right)
qed

lemma slab_bytes_pow2:
  assumes "12 \<le> s" "s \<le> 29"
  shows "is_power_of_two (class_bytes (2 ^ s) sc)" "2 ^ s \<le> class_bytes (2 ^ s) sc" "class_bytes (2 ^ s) sc < 2 ^ 32"
proof -
  have lim: "(2::nat) ^ s \<le> 2 ^ 29"
    using assms(2) by (intro power_increasing) simp_all
  have "(2::nat) ^ s = 2 ^ (s - 12) * 4096"
    using power_add [of "2::nat" "s - 12" 12] assms(1) by simp
  then have "usize_mul 16 (2 ^ s) div 16384 = 4 * 2 ^ (s - 12)"
    using lim by (simp add: usize_mul_exact usize_lim_def)
  then have p: "slab_pages sc (2 ^ s) = 1 \<or> slab_pages sc (2 ^ s) = 2 \<or> slab_pages sc (2 ^ s) = 4"
    by (cases sc) (simp_all add: slab_pages_def class_size_def CLASS_SIZES_def Let_def)
  then have "\<exists>k\<le>2. class_bytes (2 ^ s) sc = 2 ^ (s + k)"
    by (elim disjE) (rule exI [of _ 0] exI [of _ 1] exI [of _ 2], simp add: power_add)+
  then show "is_power_of_two (class_bytes (2 ^ s) sc)"
    using assms(2) unfolding is_power_of_two_iff by fastforce
  show "2 ^ s \<le> class_bytes (2 ^ s) sc" "class_bytes (2 ^ s) sc < 2 ^ 32"
    using p lim by auto
qed

section \<open>The invariant\<close>

text \<open>The page runs behind the slabs.\<close>

definition slab_runs :: "nat \<Rightarrow> (cache_id \<Rightarrow> cache_view) \<Rightarrow> (usize \<times> usize) set" where
  "slab_runs s G = (\<Union>u. (\<lambda>b. (b, slab_pages (snd u) (2 ^ s))) ` slabs_in (G u))"

lemma slab_runI: "b \<in> slabs_in (G u) \<Longrightarrow> (b, slab_pages (snd u) (2 ^ s)) \<in> slab_runs s G"
  unfolding slab_runs_def by blast

text \<open>\<open>A\<close> holds the page runs of large allocations.\<close>

definition global_inv :: "nat \<Rightarrow> global_state \<Rightarrow> (cache_id \<Rightarrow> cache_view) \<Rightarrow> (usize \<times> usize) set \<Rightarrow> bool" where
  "global_inv s g G A \<longleftrightarrow> gs_initialized g \<and> 12 \<le> s \<and> s \<le> 29 \<and> pool_inv (2 ^ s) (gs_mem g) (gs_pool g) G \<and>
     pages_held s (gs_buddy g) (slab_runs s G \<union> A) \<and> slab_runs s G \<inter> A = {}"

definition owned ::
  "nat \<Rightarrow> global_state \<Rightarrow> (cache_id \<Rightarrow> cache_view) \<Rightarrow> (usize \<times> usize) set \<Rightarrow> usize \<Rightarrow> layout \<Rightarrow> bool" where
  "owned s g G A a l \<longleftrightarrow>
     (case from_layout l of
        Some sc \<Rightarrow> \<exists>cpu b i. cpu < cpus (gs_pool g) \<and> (b, i) \<in> unit_live (2 ^ s) (gs_mem g) (gs_pool g) G (cpu, sc) \<and>
          a = slot_addr sc b i
      | None \<Rightarrow> (a, large_pages (2 ^ s) l) \<in> A)"

definition valid_layout :: "layout \<Rightarrow> bool" where
  "valid_layout l \<longleftrightarrow> is_power_of_two (ly_align l) \<and> ly_size l + ly_align l \<le> 2 ^ 63"

definition object_range :: "usize \<Rightarrow> layout \<Rightarrow> usize set" where
  "object_range a l = {a..<a + ly_size l}"

lemma global_invD:
  assumes "global_inv s g G A"
  shows "gs_initialized g" "12 \<le> s" "s \<le> 29" "pool_inv (2 ^ s) (gs_mem g) (gs_pool g) G"
    "pages_held s (gs_buddy g) (slab_runs s G \<union> A)" "slab_runs s G \<inter> A = {}"
  using assms by (simp_all add: global_inv_def)

lemma slab_run_range:
  "client_range s (b, slab_pages sc (2 ^ s)) = {b..<b + class_bytes (2 ^ s) sc}"
  by (simp add: client_range_def)

lemma large_pages_bound:
  assumes "valid_layout l" "s \<le> 29"
  shows "ly_size l \<le> large_pages (2 ^ s) l * 2 ^ s"
proof -
  have lim: "(2::nat) ^ s \<le> 2 ^ 29"
    using assms(2) by (intro power_increasing) simp_all
  have "ly_size l \<le> 2 ^ 63"
    using assms(1) by (simp add: valid_layout_def)
  then have fit: "ly_size l + 2 ^ s < usize_lim"
    using lim by (simp add: usize_lim_def)
  have "buddy_align_up (ly_size l) (2 ^ s) = (ly_size l + 2 ^ s - 1) - (ly_size l + 2 ^ s - 1) mod 2 ^ s"
  proof -
    have "usize_sub (usize_add (ly_size l) (2 ^ s)) 1 = ly_size l + 2 ^ s - 1" "usize_sub (2 ^ s) 1 = 2 ^ s - 1"
      using fit by (simp_all add: usize_add_exact usize_sub_def trans_le_add2)
    then show ?thesis
      using and_not_mask_nat [of "ly_size l + 2 ^ s - 1" s] fit assms(2) unfolding buddy_align_up_def by simp
  qed
  then have "large_pages (2 ^ s) l = (ly_size l + 2 ^ s - 1) div 2 ^ s"
    by (simp add: large_pages_def minus_mod_eq_mult_div)
  moreover have "(ly_size l + 2 ^ s - 1) mod 2 ^ s < 2 ^ s"
    by simp
  moreover have "(0::nat) < 2 ^ s"
    by simp
  ultimately show ?thesis
    using div_mult_mod_eq [of "ly_size l + 2 ^ s - 1" "2 ^ s"] unfolding \<open>large_pages (2 ^ s) l = _\<close> by linarith
qed

text \<open>Every allocation lies in a page run; small ones in a slot of their own.\<close>

lemma owned_small:
  assumes inv: "global_inv s g G A" and o: "owned s g G A a l" and sc: "from_layout l = Some sc"
  shows "\<exists>cpu b i. cpu < cpus (gs_pool g) \<and> b \<in> slabs_in (G (cpu, sc)) \<and>
    i < capacity sc (class_bytes (2 ^ s) sc) \<and> a = slot_addr sc b i \<and>
    (b, i) \<in> unit_live (2 ^ s) (gs_mem g) (gs_pool g) G (cpu, sc) \<and>
    (b, slab_pages sc (2 ^ s)) \<in> slab_runs s G \<and> object_range a l \<subseteq> slot_range sc (b, i) \<and>
    object_range a l \<subseteq> client_range s (b, slab_pages sc (2 ^ s))"
proof -
  obtain cpu b i where o': "cpu < cpus (gs_pool g)" "(b, i) \<in> unit_live (2 ^ s) (gs_mem g) (gs_pool g) G (cpu, sc)"
    "a = slot_addr sc b i"
    using o sc by (auto simp: owned_def)
  note un = pool_unit [where sc = sc, OF global_invD(4) [OF inv] o'(1) refl refl refl refl]
  have bi: "b \<in> slabs_in (G (cpu, sc))" "i < capacity sc (class_bytes (2 ^ s) sc)"
    using o'(2) unfolding un(10) by (simp_all add: cache_live_def un(3))
  have "object_range a l \<subseteq> slot_range sc (b, i)"
    using from_layout_Some(1) [OF sc] o'(3) by (auto simp: object_range_def slot_range_def)
  moreover have "slot_range sc (b, i) \<subseteq> client_range s (b, slab_pages sc (2 ^ s))"
    unfolding slab_run_range by (rule slot_range_sub [OF bi(2)])
  moreover have "(b, slab_pages sc (2 ^ s)) \<in> slab_runs s G"
    using slab_runI [where G = G and u = "(cpu, sc)"] bi(1) by simp
  ultimately show ?thesis
    using o' bi by blast
qed

lemma owned_large:
  assumes inv: "global_inv s g G A" and o: "owned s g G A a l" and sc: "from_layout l = None" and v: "valid_layout l"
  shows "(a, large_pages (2 ^ s) l) \<in> A" "object_range a l \<subseteq> client_range s (a, large_pages (2 ^ s) l)"
proof -
  show "(a, large_pages (2 ^ s) l) \<in> A"
    using o sc by (simp add: owned_def)
  show "object_range a l \<subseteq> client_range s (a, large_pages (2 ^ s) l)"
    using large_pages_bound [OF v global_invD(3) [OF inv]] by (auto simp: object_range_def client_range_def)
qed

lemma owned_run:
  assumes inv: "global_inv s g G A" and o: "owned s g G A a l" and v: "valid_layout l"
  shows "\<exists>r. r \<in> slab_runs s G \<union> A \<and> object_range a l \<subseteq> client_range s r \<and> (r \<in> A \<longrightarrow> fst r = a) \<and>
    (r \<in> A \<longleftrightarrow> from_layout l = None)"
proof (cases "from_layout l")
  case None
  note l = owned_large [OF inv o None v]
  then show ?thesis
    using None by (intro exI [of _ "(a, large_pages (2 ^ s) l)"]) simp
next
  case (Some sc)
  obtain b where b: "(b, slab_pages sc (2 ^ s)) \<in> slab_runs s G" "object_range a l \<subseteq> client_range s (b, slab_pages sc (2 ^ s))"
    using owned_small [OF inv o Some] by blast
  then have "(b, slab_pages sc (2 ^ s)) \<notin> A"
    using global_invD(6) [OF inv] by blast
  with b Some show ?thesis
    by (intro exI [of _ "(b, slab_pages sc (2 ^ s))"]) simp
qed

lemma owned_disjoint:
  assumes inv: "global_inv s g G A" and o: "owned s g G A a l" "valid_layout l" and o': "owned s g G A a' l'" "valid_layout l'"
    and ne: "a \<noteq> a'"
  shows "object_range a l \<inter> object_range a' l' = {}"
proof (cases "from_layout l = None \<or> from_layout l' = None")
  case True
  obtain r where r: "r \<in> slab_runs s G \<union> A" "object_range a l \<subseteq> client_range s r" "r \<in> A \<longrightarrow> fst r = a"
    "r \<in> A \<longleftrightarrow> from_layout l = None"
    using owned_run [OF inv o] by (elim exE conjE) (rule that)
  obtain r' where r': "r' \<in> slab_runs s G \<union> A" "object_range a' l' \<subseteq> client_range s r'" "r' \<in> A \<longrightarrow> fst r' = a'"
    "r' \<in> A \<longleftrightarrow> from_layout l' = None"
    using owned_run [OF inv o'] by (elim exE conjE) (rule that)
  have "r \<noteq> r'"
    using True r(3,4) r'(3,4) ne by metis
  then have "client_range s r \<inter> client_range s r' = {}"
    by (rule bmem.good_disjoint [OF global_invD(5) [OF inv] r(1) r'(1)])
  with r(2) r'(2) show ?thesis
    by blast
next
  case False
  then obtain sc sc' where sc: "from_layout l = Some sc" "from_layout l' = Some sc'"
    by auto
  obtain cpu b i where x: "cpu < cpus (gs_pool g)" "b \<in> slabs_in (G (cpu, sc))" "i < capacity sc (class_bytes (2 ^ s) sc)"
    "a = slot_addr sc b i" "object_range a l \<subseteq> slot_range sc (b, i)"
    using owned_small [OF inv o(1) sc(1)] by blast
  obtain cpu' b' i' where y: "cpu' < cpus (gs_pool g)" "b' \<in> slabs_in (G (cpu', sc'))"
    "i' < capacity sc' (class_bytes (2 ^ s) sc')" "a' = slot_addr sc' b' i'" "object_range a' l' \<subseteq> slot_range sc' (b', i')"
    using owned_small [OF inv o'(1) sc(2)] by blast
  note pinv = global_invD(4) [OF inv]
  have "slot_range sc (b, i) \<inter> slot_range sc' (b', i') = {}"
  proof (cases "(cpu, sc) = (cpu', sc')")
    case True
    note un = pool_unit [where sc = sc, OF pinv x(1) refl refl refl refl]
    have so: "slabs_ok (2 ^ s) (gs_mem g) (cache_at (gs_pool g) (cpu, sc)) (slabs_in (G (cpu, sc))) (cv_remote (G (cpu, sc)))"
      using cache_repD(2) [OF un(4)] by (simp add: slabs_in_def)
    show ?thesis
      using slot_range_disjoint [OF so, unfolded un(3), OF x(2,3), of b' i'] y(2-4) x(4) ne True by auto
  next
    case False
    have "{b..<b + class_bytes (2 ^ s) sc} \<inter> {b'..<b' + class_bytes (2 ^ s) sc'} = {}"
      using pool_invD(6) [OF pinv False x(2) y(2)] by simp
    then show ?thesis
      using slot_range_sub [OF x(3)] slot_range_sub [OF y(3)] by blast
  qed
  with x(5) y(5) show ?thesis
    by blast
qed

end
