(* ===== verification/GlobalOps.thy ===== *)
theory GlobalOps
  imports GlobalInv
begin

text \<open>
  The operations of the global allocator keep its invariant: small and large allocation and release.
\<close>

section \<open>Ownership\<close>

lemma owned_mono:
  assumes "owned s g G A a l" "A \<subseteq> A'" "cpus (gs_pool g') = cpus (gs_pool g)"
    "\<And>u. fst u < cpus (gs_pool g) \<Longrightarrow>
      unit_live (2 ^ s) (gs_mem g) (gs_pool g) G u \<subseteq> unit_live (2 ^ s) (gs_mem g') (gs_pool g') G' u"
  shows "owned s g' G' A' a l"
proof (cases "from_layout l")
  case None
  with assms(1,2) show ?thesis
    by (auto simp: owned_def)
next
  case (Some sc)
  then obtain cpu b i where o: "cpu < cpus (gs_pool g)" "(b, i) \<in> unit_live (2 ^ s) (gs_mem g) (gs_pool g) G (cpu, sc)"
    "a = slot_addr sc b i"
    using assms(1) by (auto simp: owned_def)
  then have "(b, i) \<in> unit_live (2 ^ s) (gs_mem g') (gs_pool g') G' (cpu, sc)"
    using assms(4) [of "(cpu, sc)"] by auto
  with o Some assms(3) show ?thesis
    by (auto simp: owned_def)
qed

text \<open>The address of a slot belongs to the object in it.\<close>

lemma slot_owner:
  assumes inv: "global_inv s g G A" and u: "b \<in> slabs_in (G u)" "i < capacity (snd u) (class_bytes (2 ^ s) (snd u))"
    and o: "owned s g G A (slot_addr (snd u) b i) l" "valid_layout l"
  shows "from_layout l = Some (snd u)" "(b, i) \<in> unit_live (2 ^ s) (gs_mem g) (gs_pool g) G u"
proof -
  define a where "a = slot_addr (snd u) b i"
  note pinv = global_invD(4) [OF inv]
  have run: "(b, slab_pages (snd u) (2 ^ s)) \<in> slab_runs s G"
    using u(1) by (rule slab_runI)
  have a: "a \<in> slot_range (snd u) (b, i)" "a \<in> {b..<b + class_bytes (2 ^ s) (snd u)}"
    using class_size_bounds(3) [of "snd u"] slot_in_range [OF u(2), of b] by (simp_all add: slot_range_def a_def)
  have some: "from_layout l \<noteq> None"
  proof
    assume n: "from_layout l = None"
    note la = owned_large(1) [OF inv o(1) n o(2), folded a_def]
    have mem: "(a, large_pages (2 ^ s) l) \<in> slab_runs s G \<union> A" "(b, slab_pages (snd u) (2 ^ s)) \<in> slab_runs s G \<union> A"
      using la run by simp_all
    have "(a, large_pages (2 ^ s) l) \<noteq> (b, slab_pages (snd u) (2 ^ s))"
      using la run global_invD(6) [OF inv] by (metis disjoint_iff)
    then have "client_range s (a, large_pages (2 ^ s) l) \<inter> client_range s (b, slab_pages (snd u) (2 ^ s)) = {}"
      by (rule bmem.good_disjoint [OF global_invD(5) [OF inv] mem])
    moreover have "a \<in> client_range s (a, large_pages (2 ^ s) l)"
      using bmem.good_bounds(4) [OF global_invD(5) [OF inv] mem(1)] by (simp add: client_range_def)
    ultimately show False
      using a(2) unfolding slab_run_range by blast
  qed
  then obtain sc where sc: "from_layout l = Some sc"
    by blast
  obtain cpu b' i' where o': "cpu < cpus (gs_pool g)" "b' \<in> slabs_in (G (cpu, sc))" "i' < capacity sc (class_bytes (2 ^ s) sc)"
    "a = slot_addr sc b' i'" "(b', i') \<in> unit_live (2 ^ s) (gs_mem g) (gs_pool g) G (cpu, sc)"
    using owned_small [OF inv o(1) sc, folded a_def] by blast
  have a': "a \<in> slot_range sc (b', i')" "a \<in> {b'..<b' + class_bytes (2 ^ s) sc}"
    using class_size_bounds(3) [of sc] slot_in_range [OF o'(3), of b'] o'(4) by (simp_all add: slot_range_def)
  have uu: "u = (cpu, sc)"
    using pool_invD(6) [OF pinv _ u(1) o'(2)] a(2) a'(2) unfolding snd_conv by blast
  note un = pool_unit [where sc = sc, OF pinv o'(1) refl refl refl refl]
  have so: "slabs_ok (2 ^ s) (gs_mem g) (cache_at (gs_pool g) (cpu, sc)) (slabs_in (G (cpu, sc))) (cv_remote (G (cpu, sc)))"
    using cache_repD(2) [OF un(4)] by (simp add: slabs_in_def)
  have "(b, i) = (b', i')"
    using slot_range_disjoint [OF so, unfolded un(3), of b i b' i'] u o'(2,3) a(1) a'(1) uu by auto
  with o'(5) sc uu show "from_layout l = Some (snd u)" "(b, i) \<in> unit_live (2 ^ s) (gs_mem g) (gs_pool g) G u"
    by simp_all
qed

section \<open>Small allocations\<close>

lemma slab_runs_same: "slabs_in v' = slabs_in (G u) \<Longrightarrow> slab_runs s (G(u := v')) = slab_runs s G"
proof -
  assume "slabs_in v' = slabs_in (G u)"
  then have "slabs_in ((G(u := v')) w) = slabs_in (G w)" for w
    by simp
  then show ?thesis
    unfolding slab_runs_def by (simp only:)
qed

lemma slab_runs_split:
  "slab_runs s (G(u := v')) = (\<lambda>b. (b, slab_pages (snd u) (2 ^ s))) ` slabs_in v' \<union>
     (\<Union>w\<in>- {u}. (\<lambda>b. (b, slab_pages (snd w) (2 ^ s))) ` slabs_in (G w))"
proof -
  have "UNIV = insert u (- {u})"
    by blast
  then have "slab_runs s (G(u := v')) = (\<Union>w\<in>insert u (- {u}). (\<lambda>b. (b, slab_pages (snd w) (2 ^ s))) ` slabs_in ((G(u := v')) w))"
    unfolding slab_runs_def by simp
  then show ?thesis
    by simp
qed

lemma slab_runs_insert:
  assumes "slabs_in v' = insert b (slabs_in (G u))"
  shows "slab_runs s (G(u := v')) = insert (b, slab_pages (snd u) (2 ^ s)) (slab_runs s G)"
proof -
  have "slab_runs s G = slab_runs s (G(u := G u))"
    by simp
  then show ?thesis
    unfolding slab_runs_split assms by simp
qed

lemma pool_inv_hints:
  assumes inv: "pool_inv ps mem pool G" and u: "fst u < cpus pool" and p: "pool_set pool u (cache_at pool u) pool'"
  shows "pool_inv ps mem pool' G" "fst w < cpus pool \<Longrightarrow> unit_live ps mem pool' G w = unit_live ps mem pool G w"
    "cpus pool' = cpus pool"
proof -
  have same: "cache_at pool' w = cache_at pool w" if "fst w < cpus pool" for w
    using p that unfolding pool_set_def by (cases "w = u") blast+
  then show "fst w < cpus pool \<Longrightarrow> unit_live ps mem pool' G w = unit_live ps mem pool G w"
    by (simp add: unit_live_def)
  show "cpus pool' = cpus pool"
    using p by (simp add: pool_set_def)
  then show "pool_inv ps mem pool' G"
    using inv same p unfolding pool_inv_def pool_set_def by simp
qed

text \<open>A state after a successful allocation.\<close>

definition keeps ::
  "nat \<Rightarrow> global_state \<Rightarrow> (cache_id \<Rightarrow> cache_view) \<Rightarrow> (usize \<times> usize) set \<Rightarrow>
     global_state \<Rightarrow> (cache_id \<Rightarrow> cache_view) \<Rightarrow> (usize \<times> usize) set \<Rightarrow> bool" where
  "keeps s g G A g' G' A' \<longleftrightarrow> global_inv s g' G' A' \<and> cpus (gs_pool g') = cpus (gs_pool g) \<and>
     gs_bytes g' = gs_bytes g \<and> (\<forall>a l. owned s g G A a l \<longrightarrow> owned s g' G' A' a l)"

definition fresh_object :: "nat \<Rightarrow> global_state \<Rightarrow> (cache_id \<Rightarrow> cache_view) \<Rightarrow> (usize \<times> usize) set \<Rightarrow> usize \<Rightarrow> bool" where
  "fresh_object s g G A a \<longleftrightarrow> (\<forall>l. valid_layout l \<longrightarrow> \<not> owned s g G A a l)"

lemma keeps_trans: "keeps s g G A g1 G1 A1 \<Longrightarrow> keeps s g1 G1 A1 g2 G2 A2 \<Longrightarrow> keeps s g G A g2 G2 A2"
  by (simp add: keeps_def)

lemma keeps_fresh: "keeps s g G A g1 G1 A1 \<Longrightarrow> fresh_object s g1 G1 A1 a \<Longrightarrow> fresh_object s g G A a"
  unfolding keeps_def fresh_object_def by blast

text \<open>The pool served the request.\<close>

lemma granted_ok:
  assumes inv: "global_inv s g G A" and cpu: "cpu < cpus (gs_pool g)" and sc: "from_layout l = Some sc"
    and gr: "pool_granted (2 ^ s) (gs_mem g) (gs_pool g) G (cpu, sc) a mem' pool'"
  shows "\<exists>G'. keeps s g G A (g\<lparr>gs_mem := mem', gs_pool := pool'\<rparr>) G' A \<and>
    owned s (g\<lparr>gs_mem := mem', gs_pool := pool'\<rparr>) G' A a l \<and> fresh_object s g G A a"
proof -
  define u where "u = (cpu, sc)"
  define g' where "g' = g\<lparr>gs_mem := mem', gs_pool := pool'\<rparr>"
  obtain b i v' where r: "b \<in> slabs_in (G u)" "i < capacity sc (class_bytes (2 ^ s) sc)" "a = slot_addr sc b i"
    "(b, i) \<notin> unit_live (2 ^ s) (gs_mem g) (gs_pool g) G u" "pool_inv (2 ^ s) mem' pool' (G(u := v'))"
    "cpus pool' = cpus (gs_pool g)" "slabs_in v' = slabs_in (G u)"
    "unit_live (2 ^ s) mem' pool' (G(u := v')) u = insert (b, i) (unit_live (2 ^ s) (gs_mem g) (gs_pool g) G u)"
    "\<forall>w. w \<noteq> u \<and> fst w < cpus (gs_pool g) \<longrightarrow>
      unit_live (2 ^ s) mem' pool' (G(u := v')) w = unit_live (2 ^ s) (gs_mem g) (gs_pool g) G w"
    using gr unfolding pool_granted_def u_def [symmetric] by (elim exE conjE) (rule that; simp add: u_def)
  have inv': "global_inv s g' (G(u := v')) A"
    using inv r(5) unfolding global_inv_def slab_runs_same [where G = G, OF r(7)] by (simp add: g'_def)
  have mono: "unit_live (2 ^ s) (gs_mem g) (gs_pool g) G w \<subseteq> unit_live (2 ^ s) (gs_mem g') (gs_pool g') (G(u := v')) w"
    if "fst w < cpus (gs_pool g)" for w
  proof (cases "w = u")
    case True
    with r(8) show ?thesis
      by (simp add: g'_def subset_insertI)
  next
    case False
    then have "unit_live (2 ^ s) mem' pool' (G(u := v')) w = unit_live (2 ^ s) (gs_mem g) (gs_pool g) G w"
      using r(9) that by blast
    then show ?thesis
      by (simp add: g'_def)
  qed
  have "owned s g' (G(u := v')) A a' l'" if "owned s g G A a' l'" for a' l'
    by (rule owned_mono [OF that order_refl _ mono]) (simp_all add: g'_def r(6))
  then have "keeps s g G A g' (G(u := v')) A"
    unfolding keeps_def using inv' r(6) by (simp add: g'_def)
  moreover have "owned s g' (G(u := v')) A a l"
    using sc cpu r(3,6,8) by (auto simp: owned_def g'_def u_def)
  moreover have "fresh_object s g G A a"
    unfolding fresh_object_def
  proof (intro allI impI notI)
    fix l' assume "valid_layout l'" "owned s g G A a l'"
    then show False
      using slot_owner(2) [OF inv r(1), of i l'] r(2-4) by (simp add: u_def)
  qed
  ultimately show ?thesis
    unfolding g'_def by blast
qed

text \<open>The pool needs pages.\<close>

lemma hints_ok:
  assumes inv: "global_inv s g G A" and cpu: "cpu < cpus (gs_pool g)"
    and p: "pool_set (gs_pool g) (cpu, sc) (cache_at (gs_pool g) (cpu, sc)) pool'"
  shows "keeps s g G A (g\<lparr>gs_pool := pool'\<rparr>) G A"
proof -
  note h = pool_inv_hints [OF global_invD(4) [OF inv] _ p]
  have "owned s (g\<lparr>gs_pool := pool'\<rparr>) G A a l" if "owned s g G A a l" for a l
    by (rule owned_mono [OF that order_refl]) (use h cpu in auto)
  then show ?thesis
    unfolding keeps_def global_inv_def using inv h(1,3) cpu by (simp add: global_inv_def)
qed

lemma buddy_ok:
  assumes inv: "global_inv s g G A" and p: "pages_held s ba' (slab_runs s G \<union> A')" "slab_runs s G \<inter> A' = {}" "A \<subseteq> A'"
  shows "keeps s g G A (g\<lparr>gs_buddy := ba'\<rparr>) G A'"
proof -
  have "owned s (g\<lparr>gs_buddy := ba'\<rparr>) G A' a l" if "owned s g G A a l" for a l
    by (rule owned_mono [OF that p(3)]) simp_all
  then show ?thesis
    unfolding keeps_def global_inv_def using inv p by (simp add: global_inv_def)
qed

lemma feed_ok:
  assumes inv: "global_inv s g G A" and cpu: "cpu < cpus (gs_pool g)"
    and held: "pages_held s ba' (insert (b, slab_pages sc (2 ^ s)) (slab_runs s G \<union> A))"
    and fresh: "\<forall>x\<in>slab_runs s G \<union> A. client_range s x \<inter> client_range s (b, slab_pages sc (2 ^ s)) = {}"
  shows "\<exists>mem' pool' G'. pool_add_slab cpu (gs_mem g) (gs_pool g) sc b (class_bytes (2 ^ s) sc) = Some (mem', pool') \<and>
    keeps s g G A (g\<lparr>gs_buddy := ba', gs_mem := mem', gs_pool := pool'\<rparr>) G' A \<and> cv_partial (G' (cpu, sc)) \<noteq> []"
proof -
  note i = global_invD [OF inv]
  define n where "n = slab_pages sc (2 ^ s)"
  have ps: "(0::nat) < 2 ^ s"
    by simp
  have bb: "b \<noteq> 0" "2 ^ s dvd b" "b + class_bytes (2 ^ s) sc < usize_lim"
    using bmem.good_bounds [OF held, of b n] by (simp_all add: n_def)
  have fr: "{b..<b + class_bytes (2 ^ s) sc} \<inter> {b'..<b' + class_bytes (2 ^ s) (snd w)} = {}" if "b' \<in> slabs_in (G w)" for w b'
  proof -
    have "(b', slab_pages (snd w) (2 ^ s)) \<in> slab_runs s G \<union> A"
      using slab_runI [where G = G, OF that] by blast
    with fresh have "client_range s (b', slab_pages (snd w) (2 ^ s)) \<inter> client_range s (b, slab_pages sc (2 ^ s)) = {}"
      by blast
    then show ?thesis
      unfolding slab_run_range by blast
  qed
  obtain mem' pool' v' where a: "pool_add_slab cpu (gs_mem g) (gs_pool g) sc b (class_bytes (2 ^ s) sc) = Some (mem', pool')"
    "pool_inv (2 ^ s) mem' pool' (G((cpu, sc) := v'))" "cpus pool' = cpus (gs_pool g)"
    "slabs_in v' = insert b (slabs_in (G (cpu, sc)))" "cv_partial v' \<noteq> []"
    "\<forall>w. fst w < cpus (gs_pool g) \<longrightarrow>
      unit_live (2 ^ s) mem' pool' (G((cpu, sc) := v')) w = unit_live (2 ^ s) (gs_mem g) (gs_pool g) G w"
    using pool_add_slab_ok [OF i(4) cpu ps bb slab_bytes_pow2(3) [OF i(2,3)] fr] by blast
  define g' where "g' = g\<lparr>gs_buddy := ba', gs_mem := mem', gs_pool := pool'\<rparr>"
  have runs: "slab_runs s (G((cpu, sc) := v')) = insert (b, n) (slab_runs s G)"
    using slab_runs_insert [where G = G and u = "(cpu, sc)", OF a(4), of s] by (simp add: n_def)
  have "b \<in> client_range s (b, n)"
    using slab_pages_bounds(1) [of sc "2 ^ s"] by (simp add: client_range_def n_def)
  then have "(b, n) \<notin> A"
    using fresh unfolding n_def by blast
  then have "global_inv s g' (G((cpu, sc) := v')) A"
    using inv a(2) held unfolding global_inv_def runs by (simp add: g'_def n_def)
  moreover have "owned s g' (G((cpu, sc) := v')) A a' l'" if "owned s g G A a' l'" for a' l'
  proof (rule owned_mono [OF that order_refl])
    fix w :: cache_id assume "fst w < cpus (gs_pool g)"
    then have "unit_live (2 ^ s) mem' pool' (G((cpu, sc) := v')) w = unit_live (2 ^ s) (gs_mem g) (gs_pool g) G w"
      using a(6) by blast
    then show "unit_live (2 ^ s) (gs_mem g) (gs_pool g) G w \<subseteq> unit_live (2 ^ s) (gs_mem g') (gs_pool g') (G((cpu, sc) := v')) w"
      by (simp add: g'_def)
  qed (simp add: g'_def a(3))
  ultimately have "keeps s g G A g' (G((cpu, sc) := v')) A"
    unfolding keeps_def using a(3) by (simp add: g'_def)
  then show ?thesis
    using a(1,5) unfolding g'_def by (intro exI [of _ mem'] exI [of _ pool'] exI [of _ "G((cpu, sc) := v')"]) simp
qed

definition alloc_answer ::
  "nat \<Rightarrow> global_state \<Rightarrow> (cache_id \<Rightarrow> cache_view) \<Rightarrow> (usize \<times> usize) set \<Rightarrow> layout \<Rightarrow>
     usize alloc_result \<Rightarrow> global_state \<Rightarrow> bool" where
  "alloc_answer s g G A l r g' \<longleftrightarrow> (\<exists>G' A'. keeps s g G A g' G' A' \<and>
     (case r of Inl _ \<Rightarrow> A' = A | Inr a \<Rightarrow> owned s g' G' A' a l \<and> fresh_object s g G A a))"

lemma alloc_answer_after: "keeps s g G A g1 G1 A \<Longrightarrow> alloc_answer s g1 G1 A l r g' \<Longrightarrow> alloc_answer s g G A l r g'"
  unfolding alloc_answer_def using keeps_trans keeps_fresh by (cases r) (simp, blast)+

text \<open>The second attempt, with a fresh slab in the pool, succeeds.\<close>

lemma retry_ok:
  assumes inv: "global_inv s g G A" and cpu: "cpu < cpus (gs_pool g)" and sc: "from_layout l = Some sc"
    and ne: "cv_partial (G (cpu, sc)) \<noteq> []"
  shows "\<exists>a mem' pool'. pool_alloc cpu (2 ^ s) (gs_mem g) (gs_pool g) l = Some (Inr (SlabAllocated a), mem', pool') \<and>
    alloc_answer s g G A l (Inr a) (g\<lparr>gs_mem := mem', gs_pool := pool'\<rparr>)"
proof -
  obtain r mem' pool' where p: "pool_alloc cpu (2 ^ s) (gs_mem g) (gs_pool g) l = Some (Inr r, mem', pool')"
    "pool_alloc_outcome (2 ^ s) (gs_mem g) (gs_pool g) G (cpu, sc) r mem' pool'"
    using pool_alloc_ok [OF global_invD(4) [OF inv] cpu sc] by auto
  then obtain a where r: "r = SlabAllocated a" "pool_granted (2 ^ s) (gs_mem g) (gs_pool g) G (cpu, sc) a mem' pool'"
    using ne by (cases r) (auto simp: pool_alloc_outcome_def)
  then show ?thesis
    using p(1) granted_ok [OF inv cpu sc r(2)] unfolding alloc_answer_def by auto
qed

lemma pages_request:
  assumes inv: "global_inv s g G A" and c: "0 < c" "is_power_of_two al" "2 ^ s \<le> al"
  shows "\<exists>r ba'. alloc_pages (2 ^ s) (gs_buddy g) c al = Some (r, ba') \<and>
    (case r of
       Inl e \<Rightarrow> ba' = gs_buddy g
     | Inr a \<Rightarrow> al dvd a \<and> pages_held s ba' (insert (a, c) (slab_runs s G \<union> A)) \<and>
         (\<forall>x\<in>slab_runs s G \<union> A. client_range s x \<inter> client_range s (a, c) = {}))"
  by (rule bmem.good_request [OF global_invD(5) [OF inv] c])

lemma slab_alloc_ok:
  assumes inv: "global_inv s g G A" and cpu: "cpu < cpus (gs_pool g)" and sc: "from_layout l = Some sc"
  shows "\<exists>r g'. slab_alloc cpu (2 ^ s) g l = Some (r, g') \<and> alloc_answer s g G A l r g'"
proof -
  note i = global_invD [OF inv]
  obtain r mem1 pool1 where p: "pool_alloc cpu (2 ^ s) (gs_mem g) (gs_pool g) l = Some (Inr r, mem1, pool1)"
    "pool_alloc_outcome (2 ^ s) (gs_mem g) (gs_pool g) G (cpu, sc) r mem1 pool1"
    using pool_alloc_ok [OF i(4) cpu sc] by auto
  define g1 where "g1 = g\<lparr>gs_mem := mem1, gs_pool := pool1\<rparr>"
  show ?thesis
  proof (cases r)
    case (SlabAllocated a)
    then have "pool_granted (2 ^ s) (gs_mem g) (gs_pool g) G (cpu, sc) a mem1 pool1"
      using p(2) by (simp add: pool_alloc_outcome_def)
    from granted_ok [OF inv cpu sc this] have "alloc_answer s g G A l (Inr a) g1"
      unfolding alloc_answer_def g1_def by auto
    moreover have "slab_alloc cpu (2 ^ s) g l = Some (Inr a, g1)"
      using p(1) SlabAllocated by (simp add: slab_alloc_def g1_def)
    ultimately show ?thesis
      by blast
  next
    case (NeedsSlab sc' n)
    then have ns: "sc' = sc" "n = slab_pages sc (2 ^ s)" "mem1 = gs_mem g"
      "pool_set (gs_pool g) (cpu, sc) (cache_at (gs_pool g) (cpu, sc)) pool1"
      using p(2) by (auto simp: pool_alloc_outcome_def)
    have k1: "keeps s g G A g1 G A"
      using hints_ok [OF inv cpu ns(4)] by (simp add: g1_def ns(3))
    then have inv1: "global_inv s g1 G A" and cpu1: "cpu < cpus (gs_pool g1)"
      using cpu by (simp_all add: keeps_def)
    have bts: "usize_mul n (2 ^ s) = class_bytes (2 ^ s) sc"
      using slab_bytes_pow2(3) [OF i(2,3), of sc] by (simp add: ns(2) usize_mul_exact usize_lim_def)
    obtain r2 ba2 where r2: "alloc_pages (2 ^ s) (gs_buddy g1) n (class_bytes (2 ^ s) sc) = Some (r2, ba2)"
      "case r2 of
         Inl e \<Rightarrow> ba2 = gs_buddy g1
       | Inr a \<Rightarrow> class_bytes (2 ^ s) sc dvd a \<and> pages_held s ba2 (insert (a, n) (slab_runs s G \<union> A)) \<and>
           (\<forall>x\<in>slab_runs s G \<union> A. client_range s x \<inter> client_range s (a, n) = {})"
      using pages_request [OF inv1 _ slab_bytes_pow2(1,2) [OF i(2,3), of sc], of n] slab_pages_bounds(1) ns(2) by auto
    show ?thesis
    proof (cases r2)
      case (Inl e)
      have "slab_alloc cpu (2 ^ s) g l = Some (Inl e, g1\<lparr>gs_buddy := ba2\<rparr>)"
        using p(1) NeedsSlab r2(1) Inl by (simp add: slab_alloc_def g1_def global_alloc_pages_def bts Let_def)
      moreover have "g1\<lparr>gs_buddy := ba2\<rparr> = g1"
        using r2(2) Inl by simp
      ultimately show ?thesis
        using k1 unfolding alloc_answer_def by auto
    next
      case (Inr b)
      have held: "pages_held s ba2 (insert (b, n) (slab_runs s G \<union> A))"
        "\<forall>x\<in>slab_runs s G \<union> A. client_range s x \<inter> client_range s (b, n) = {}"
        using r2(2) Inr by simp_all
      obtain ba3 where b3: "set_page_flags (2 ^ s) ba2 b Slab = Some (Inr (), ba3)"
        "pages_held s ba3 (insert (b, n) (slab_runs s G \<union> A))"
        using bmem.good_flagged [OF held(1), of b n Slab] by auto
      obtain mem4 pool4 G4 where f: "pool_add_slab cpu (gs_mem g1) (gs_pool g1) sc b (class_bytes (2 ^ s) sc) = Some (mem4, pool4)"
        "keeps s g1 G A (g1\<lparr>gs_buddy := ba3, gs_mem := mem4, gs_pool := pool4\<rparr>) G4 A" "cv_partial (G4 (cpu, sc)) \<noteq> []"
        using feed_ok [OF inv1 cpu1 b3(2) [unfolded ns(2)] held(2) [unfolded ns(2)]] by blast
      define g4 where "g4 = g1\<lparr>gs_buddy := ba3, gs_mem := mem4, gs_pool := pool4\<rparr>"
      have k4: "keeps s g G A g4 G4 A"
        using keeps_trans [OF k1 f(2)] by (simp add: g4_def)
      have inv4: "global_inv s g4 G4 A" and cpu4: "cpu < cpus (gs_pool g4)"
        using k4 cpu by (simp_all add: keeps_def)
      obtain a mem5 pool5 where r5: "pool_alloc cpu (2 ^ s) mem4 pool4 l = Some (Inr (SlabAllocated a), mem5, pool5)"
        "alloc_answer s g4 G4 A l (Inr a) (g4\<lparr>gs_mem := mem5, gs_pool := pool5\<rparr>)"
        using retry_ok [OF inv4 cpu4 sc f(3)] by (auto simp: g4_def)
      have "slab_alloc cpu (2 ^ s) g l = Some (Inr a, g4\<lparr>gs_mem := mem5, gs_pool := pool5\<rparr>)"
        using p(1) NeedsSlab r2(1) Inr b3(1) f(1) r5(1)
        by (simp add: slab_alloc_def g1_def g4_def global_alloc_pages_def bts ns(1) Let_def)
      then show ?thesis
        using alloc_answer_after [OF k4 r5(2)] by blast
    qed
  qed
qed

section \<open>Large allocations\<close>

lemma owned_in_run:
  assumes inv: "global_inv s g G A" and o: "owned s g G A a l" "valid_layout l"
  shows "\<exists>r\<in>slab_runs s G \<union> A. a \<in> client_range s r"
proof (cases "from_layout l")
  case None
  then have la: "(a, large_pages (2 ^ s) l) \<in> slab_runs s G \<union> A"
    using owned_large(1) [OF inv o(1) _ o(2)] by simp
  moreover have "a \<in> client_range s (a, large_pages (2 ^ s) l)"
    using bmem.good_bounds(4) [OF global_invD(5) [OF inv] la] by (simp add: client_range_def)
  ultimately show ?thesis
    by blast
next
  case (Some sc)
  then obtain b i where b: "a = slot_addr sc b i" "i < capacity sc (class_bytes (2 ^ s) sc)"
    "(b, slab_pages sc (2 ^ s)) \<in> slab_runs s G"
    using owned_small [OF inv o(1)] by blast
  have "a \<in> client_range s (b, slab_pages sc (2 ^ s))"
    unfolding slab_run_range using slot_in_range [OF b(2), of b] b(1) by simp
  with b(3) show ?thesis
    by blast
qed

lemma large_alloc_ok:
  assumes inv: "global_inv s g G A" and sc: "from_layout l = None" and v: "valid_layout l"
  shows "\<exists>r g'. large_alloc (2 ^ s) g l = Some (r, g') \<and> alloc_answer s g G A l r g' \<and>
    (case r of Inl _ \<Rightarrow> True | Inr a \<Rightarrow> max (ly_align l) (2 ^ s) dvd a)"
proof -
  note i = global_invD [OF inv]
  define c where "c = large_pages (2 ^ s) l"
  define al where "al = max (ly_align l) (2 ^ s)"
  have al: "is_power_of_two al" "2 ^ s \<le> al"
    using v i(3) by (auto simp: al_def valid_layout_def max_def is_power_of_two_iff)
  have self: "keeps s g G A g G A"
    using inv by (simp add: keeps_def)
  show ?thesis
  proof (cases "c = 0")
    case True
    then have "large_alloc (2 ^ s) g l = Some (Inl AllocInvalidParam, g)"
      by (simp add: large_alloc_def global_alloc_pages_def c_def [symmetric] alloc_pages_def alloc_pages_with_def)
    then show ?thesis
      using self unfolding alloc_answer_def by auto
  next
    case False
    obtain r ba' where r: "alloc_pages (2 ^ s) (gs_buddy g) c al = Some (r, ba')"
      "case r of
         Inl e \<Rightarrow> ba' = gs_buddy g
       | Inr a \<Rightarrow> al dvd a \<and> pages_held s ba' (insert (a, c) (slab_runs s G \<union> A)) \<and>
           (\<forall>x\<in>slab_runs s G \<union> A. client_range s x \<inter> client_range s (a, c) = {})"
      using pages_request [OF inv _ al, of c] False by auto
    have run: "large_alloc (2 ^ s) g l = Some (r, g\<lparr>gs_buddy := ba'\<rparr>)"
      using r(1) by (simp add: large_alloc_def global_alloc_pages_def c_def al_def)
    show ?thesis
    proof (cases r)
      case (Inl e)
      then have "g\<lparr>gs_buddy := ba'\<rparr> = g"
        using r(2) by simp
      then show ?thesis
        using run self Inl unfolding alloc_answer_def by auto
    next
      case (Inr a)
      have h: "al dvd a" "pages_held s ba' (slab_runs s G \<union> insert (a, c) A)"
        "\<forall>x\<in>slab_runs s G \<union> A. client_range s x \<inter> client_range s (a, c) = {}"
        using r(2) Inr by simp_all
      have "a \<in> client_range s (a, c)"
        using False by (simp add: client_range_def)
      then have "(a, c) \<notin> slab_runs s G" and fr: "fresh_object s g G A a"
        using h(3) owned_in_run [OF inv] unfolding fresh_object_def by blast+
      then have "slab_runs s G \<inter> insert (a, c) A = {}"
        using i(6) by blast
      from buddy_ok [OF inv h(2) this] have "keeps s g G A (g\<lparr>gs_buddy := ba'\<rparr>) G (insert (a, c) A)"
        by blast
      moreover have "owned s (g\<lparr>gs_buddy := ba'\<rparr>) G (insert (a, c) A) a l"
        using sc by (simp add: owned_def c_def)
      ultimately have "alloc_answer s g G A l r (g\<lparr>gs_buddy := ba'\<rparr>)"
        unfolding alloc_answer_def Inr using fr by auto
      then show ?thesis
        using run h(1) unfolding Inr al_def by auto
    qed
  qed
qed

section \<open>Release\<close>

definition drops ::
  "nat \<Rightarrow> global_state \<Rightarrow> (cache_id \<Rightarrow> cache_view) \<Rightarrow> (usize \<times> usize) set \<Rightarrow> usize \<Rightarrow> global_state \<Rightarrow> bool" where
  "drops s g G A a g' \<longleftrightarrow> (\<exists>G' A'. global_inv s g' G' A' \<and> cpus (gs_pool g') = cpus (gs_pool g) \<and>
     gs_bytes g' = gs_bytes g \<and>
     (\<forall>a' l'. valid_layout l' \<and> owned s g G A a' l' \<and> a' \<noteq> a \<longrightarrow> owned s g' G' A' a' l'))"

lemma large_dealloc_ok:
  assumes inv: "global_inv s g G A" and sc: "from_layout l = None" and o: "owned s g G A a l"
  shows "\<exists>g'. large_dealloc (2 ^ s) g a l = Some g' \<and> drops s g G A a g'"
proof -
  note i = global_invD [OF inv]
  define c where "c = large_pages (2 ^ s) l"
  have la: "(a, c) \<in> A"
    using o sc by (simp add: owned_def c_def)
  then obtain ba' where d: "dealloc_pages (2 ^ s) (gs_buddy g) a c = Some ba'"
    "pages_held s ba' (slab_runs s G \<union> A - {(a, c)})"
    using bmem.good_release [OF i(5), of a c c] by blast
  have "(a, c) \<notin> slab_runs s G"
    using la i(6) by blast
  then have "slab_runs s G \<union> A - {(a, c)} = slab_runs s G \<union> (A - {(a, c)})"
    by blast
  then have "global_inv s (g\<lparr>gs_buddy := ba'\<rparr>) G (A - {(a, c)})"
    using inv d(2) unfolding global_inv_def by auto
  moreover have "owned s (g\<lparr>gs_buddy := ba'\<rparr>) G (A - {(a, c)}) a' l'" if "owned s g G A a' l'" "a' \<noteq> a" for a' l'
    using that by (auto simp: owned_def split: option.splits)
  ultimately have "drops s g G A a (g\<lparr>gs_buddy := ba'\<rparr>)"
    unfolding drops_def by (intro exI [of _ G] exI [of _ "A - {(a, c)}"]) simp
  with d(1) show ?thesis
    by (simp add: large_dealloc_def global_dealloc_pages_def c_def)
qed

lemma slab_runs_remove:
  assumes inv: "pool_inv (2 ^ s) mem pool G" and b: "b \<in> slabs_in (G u)" and v': "slabs_in v' = slabs_in (G u) - {b}"
  shows "slab_runs s (G(u := v')) = slab_runs s G - {(b, slab_pages (snd u) (2 ^ s))}"
proof -
  have other: "b \<notin> slabs_in (G w)" if "w \<noteq> u" for w
  proof
    assume w: "b \<in> slabs_in (G w)"
    have "b \<in> {b..<b + class_bytes (2 ^ s) (snd x)}" for x :: cache_id
      using slab_pages_bounds(1) [of "snd x" "2 ^ s"] by simp
    then show False
      using pool_invD(6) [OF inv that w b] by blast
  qed
  let ?f = "\<lambda>b. (b, slab_pages (snd u) (2 ^ s))" and ?R = "\<Union>w\<in>- {u}. (\<lambda>b. (b, slab_pages (snd w) (2 ^ s))) ` slabs_in (G w)"
  have "?f ` (slabs_in (G u) - {b}) = ?f ` slabs_in (G u) - {?f b}"
    by auto
  moreover have "?f b \<notin> ?R"
    using other by fastforce
  moreover have "slab_runs s G = ?f ` slabs_in (G u) \<union> ?R"
    using slab_runs_split [of s G u "G u"] by (simp only: fun_upd_triv)
  ultimately show ?thesis
    unfolding slab_runs_split v' by (simp only: Un_Diff) simp
qed

text \<open>Where the pool released a slot.\<close>

lemma released_ok:
  assumes inv: "global_inv s g G A" and u: "fst u < cpus (gs_pool g)"
    and rel: "pool_released (2 ^ s) (gs_mem g) (gs_pool g) G u b i r mem' pool'"
    and b: "b \<in> slabs_in (G u)" "i < capacity (snd u) (class_bytes (2 ^ s) (snd u))"
  shows "case r of
      PoolFreeSlab base n \<Rightarrow> base = b \<and> n = slab_pages (snd u) (2 ^ s) \<and>
        (\<exists>ba'. dealloc_pages (2 ^ s) (gs_buddy g) b n = Some ba' \<and>
          drops s g G A (slot_addr (snd u) b i) (g\<lparr>gs_mem := mem', gs_pool := pool', gs_buddy := ba'\<rparr>))
    | _ \<Rightarrow> drops s g G A (slot_addr (snd u) b i) (g\<lparr>gs_mem := mem', gs_pool := pool'\<rparr>)"
proof -
  note gi = global_invD [OF inv]
  obtain v' where r: "pool_inv (2 ^ s) mem' pool' (G(u := v'))" "cpus pool' = cpus (gs_pool g)"
    "unit_live (2 ^ s) mem' pool' (G(u := v')) u = unit_live (2 ^ s) (gs_mem g) (gs_pool g) G u - {(b, i)}"
    "\<forall>w. w \<noteq> u \<and> fst w < cpus (gs_pool g) \<longrightarrow>
      unit_live (2 ^ s) mem' pool' (G(u := v')) w = unit_live (2 ^ s) (gs_mem g) (gs_pool g) G w"
    "case r of
        PoolDone \<Rightarrow> slabs_in v' = slabs_in (G u)
      | RemoteQueued \<Rightarrow> slabs_in v' = slabs_in (G u) \<and> bit (pc_remote_hint (sp_slabs pool' ! fst u)) (class_index (snd u)) \<and>
          i \<in> set (cv_remote v' b)
      | PoolFreeSlab base n \<Rightarrow> base = b \<and> n = slab_pages (snd u) (2 ^ s) \<and> slabs_in v' = slabs_in (G u) - {b} \<and>
          (\<forall>j. (b, j) \<in> unit_live (2 ^ s) (gs_mem g) (gs_pool g) G u \<longrightarrow> j = i)"
    using rel unfolding pool_released_def by (elim exE conjE) (rule that)
  define a where "a = slot_addr (snd u) b i"
  have own: "owned s g' (G(u := v')) A a' l'"
    if g': "gs_mem g' = mem'" "gs_pool g' = pool'" and o: "owned s g G A a' l'" "a' \<noteq> a" for g' a' l'
  proof (cases "from_layout l'")
    case None
    with o(1) show ?thesis
      by (simp add: owned_def)
  next
    case (Some sc)
    then obtain cpu b' i' where o': "cpu < cpus (gs_pool g)" "(b', i') \<in> unit_live (2 ^ s) (gs_mem g) (gs_pool g) G (cpu, sc)"
      "a' = slot_addr sc b' i'"
      using o(1) by (auto simp: owned_def)
    have "(b', i') \<in> unit_live (2 ^ s) mem' pool' (G(u := v')) (cpu, sc)"
    proof (cases "(cpu, sc) = u")
      case True
      then have "(b', i') \<noteq> (b, i)"
        using o(2) o'(3) by (auto simp: a_def)
      then show ?thesis
        using o'(2) r(3) True by simp
    next
      case False
      then have "unit_live (2 ^ s) mem' pool' (G(u := v')) (cpu, sc) = unit_live (2 ^ s) (gs_mem g) (gs_pool g) G (cpu, sc)"
        using r(4) o'(1) by simp
      then show ?thesis
        using o'(2) by simp
    qed
    then show ?thesis
      using Some o'(1,3) r(2) g' by (auto simp: owned_def)
  qed
  have dr: "drops s g G A a g'" if "global_inv s g' (G(u := v')) A" "gs_mem g' = mem'" "gs_pool g' = pool'"
    "gs_bytes g' = gs_bytes g" for g'
    unfolding drops_def using that own [OF that(2,3)] r(2) by blast
  have same: "drops s g G A a (g\<lparr>gs_mem := mem', gs_pool := pool'\<rparr>)" if "slabs_in v' = slabs_in (G u)"
    using inv r(1) unfolding global_inv_def slab_runs_same [where G = G, OF that, symmetric]
    by (intro dr) (simp_all add: global_inv_def)
  show ?thesis
  proof (cases r)
    case (PoolFreeSlab base n)
    then have p: "base = b" "n = slab_pages (snd u) (2 ^ s)" "slabs_in v' = slabs_in (G u) - {b}"
      using r(5) by simp_all
    have run: "(b, n) \<in> slab_runs s G"
      unfolding p(2) using b(1) by (rule slab_runI)
    obtain ba' where d: "dealloc_pages (2 ^ s) (gs_buddy g) b n = Some ba'"
      "pages_held s ba' (slab_runs s G \<union> A - {(b, n)})"
      using bmem.good_release [OF gi(5), of b n n] run by blast
    have runs: "slab_runs s (G(u := v')) = slab_runs s G - {(b, n)}"
      unfolding p(2) by (rule slab_runs_remove [OF gi(4) b(1) p(3)])
    have "(b, n) \<notin> A"
      using run gi(6) by blast
    then have "slab_runs s G \<union> A - {(b, n)} = slab_runs s (G(u := v')) \<union> A"
      unfolding runs by blast
    then have "global_inv s (g\<lparr>gs_mem := mem', gs_pool := pool', gs_buddy := ba'\<rparr>) (G(u := v')) A"
      using gi r(1) d(2) unfolding global_inv_def runs by auto
    then have "drops s g G A a (g\<lparr>gs_mem := mem', gs_pool := pool', gs_buddy := ba'\<rparr>)"
      by (rule dr) simp_all
    then show ?thesis
      using PoolFreeSlab p d(1) by (simp add: a_def)
  qed (use same r(5) in \<open>simp_all add: a_def\<close>)
qed

lemma slab_dealloc_ok:
  assumes inv: "global_inv s g G A" and cpu: "cpu < cpus (gs_pool g)" and sc: "from_layout l = Some sc"
    and o: "owned s g G A a l"
  shows "\<exists>g'. slab_dealloc cpu (2 ^ s) g a l = Some g' \<and> drops s g G A a g'"
proof -
  note gi = global_invD [OF inv]
  have pw: "is_power_of_two (2 ^ s)"
    using gi(3) unfolding is_power_of_two_iff by (intro exI [of _ s]) simp
  obtain owner b i where ob: "owner < cpus (gs_pool g)" "b \<in> slabs_in (G (owner, sc))"
    "i < capacity sc (class_bytes (2 ^ s) sc)" "a = slot_addr sc b i"
    "(b, i) \<in> unit_live (2 ^ s) (gs_mem g) (gs_pool g) G (owner, sc)"
    using owned_small [OF inv o sc] by blast
  define hdr where "hdr = hat (sm_hdr (gs_mem g)) b"
  note sl = pool_inv_slab [OF gi(4) ob(2), folded hdr_def, unfolded snd_conv]
  note ok = slab_okD [OF sl(1)]
  have ow: "sh_owner_cpu hdr = owner"
    using pool_invD(5) [OF gi(4) ob(2)] by (simp add: hdr_def)
  have bts: "usize_mul (slab_pages sc (2 ^ s)) (2 ^ s) = class_bytes (2 ^ s) sc"
    using ok(1) by (simp add: usize_mul_exact)
  have base: "base_from_obj_addr (2 ^ s) (gs_mem g) a (class_bytes (2 ^ s) sc) = b"
    unfolding ob(4) by (rule base_from_obj_addr_ok [OF sl(3) pool_headers_apart [OF gi(4)] ok(2,4,1) pw sl(2) slot_in_range [OF ob(3)]])
  obtain r mem' pool' where p: "pool_dealloc cpu (2 ^ s) (gs_mem g) (gs_pool g) a l owner = Some (r, mem', pool')"
    "pool_released (2 ^ s) (gs_mem g) (gs_pool g) G (owner, sc) b i r mem' pool'"
  proof (cases "owner = cpu")
    case True
    then show thesis
      using pool_dealloc_local_ok [OF gi(4) cpu pw _ sc, of b i] ob(4,5) that by blast
  next
    case False
    then show thesis
      using pool_dealloc_remote_ok [OF gi(4) cpu ob(1) False pw ob(5), of l] ob(4) that by blast
  qed
  have run: "slab_dealloc cpu (2 ^ s) g a l = (case r of
        PoolFreeSlab base n \<Rightarrow> global_dealloc_pages (2 ^ s) (g\<lparr>gs_mem := mem', gs_pool := pool'\<rparr>) base n
      | _ \<Rightarrow> Some (g\<lparr>gs_mem := mem', gs_pool := pool'\<rparr>))"
    using sc bts base sl(3) p(1) ow by (simp add: slab_dealloc_def Let_def split: slab_pool_dealloc_result.splits)
  have "fst (owner, sc) < cpus (gs_pool g)" "i < capacity (snd (owner, sc)) (class_bytes (2 ^ s) (snd (owner, sc)))"
    using ob(1,3) by simp_all
  note rel = released_ok [OF inv this(1) p(2) ob(2) this(2), unfolded snd_conv ob(4) [symmetric]]
  show ?thesis
  proof (cases r)
    case (PoolFreeSlab base n)
    then obtain ba' where "dealloc_pages (2 ^ s) (gs_buddy g) base n = Some ba'"
      "drops s g G A a (g\<lparr>gs_mem := mem', gs_pool := pool', gs_buddy := ba'\<rparr>)"
      using rel by auto
    then show ?thesis
      unfolding run PoolFreeSlab by (simp add: global_dealloc_pages_def)
  qed (use run rel in simp_all)
qed

end
