(* ===== verification/GlobalHeap.thy ===== *)
theory GlobalHeap
  imports GlobalOps
begin

text \<open>
  What the global allocator promises its clients: allocations of any size are disjoint, aligned and large
  enough, every one of them can be released from any CPU, and reallocation moves the contents.
\<close>

section \<open>The heap as its clients see it\<close>

text \<open>\<open>H\<close> holds the allocations of the clients, each with the layout it was made with.\<close>

definition heap_ok :: "nat \<Rightarrow> global_state \<Rightarrow> (usize \<times> layout) set \<Rightarrow> bool" where
  "heap_ok s g H \<longleftrightarrow> (\<exists>G A. global_inv s g G A \<and>
     (\<forall>a l. (a, l) \<in> H \<longrightarrow> valid_layout l \<and> owned s g G A a l) \<and>
     (\<forall>a l l'. (a, l) \<in> H \<and> (a, l') \<in> H \<longrightarrow> l = l'))"

lemma owned_nonzero:
  assumes inv: "global_inv s g G A" and o: "owned s g G A a l"
  shows "0 < a"
proof (cases "from_layout l")
  case None
  then have "(a, large_pages (2 ^ s) l) \<in> slab_runs s G \<union> A"
    using o by (simp add: owned_def)
  then show ?thesis
    by (rule bmem.good_bounds(1) [OF global_invD(5) [OF inv]])
next
  case (Some sc)
  then obtain b i where "a = slot_addr sc b i" "i < capacity sc (class_bytes (2 ^ s) sc)"
    using owned_small [OF inv o] by blast
  then show ?thesis
    using slot_in_slab(2) [of i sc "class_bytes (2 ^ s) sc" b] by simp
qed

lemma owned_small_aligned:
  assumes inv: "global_inv s g G A" and o: "owned s g G A a l" and v: "valid_layout l" and sc: "from_layout l = Some sc"
  shows "ly_align l dvd a"
proof -
  note gi = global_invD [OF inv]
  obtain cpu b i where b: "b \<in> slabs_in (G (cpu, sc))" "a = slot_addr sc b i"
    using owned_small [OF inv o sc] by blast
  show ?thesis
    unfolding b(2) by (rule slot_aligned [OF sc _ pool_inv_slab(2) [OF gi(4) b(1)]])
      (use v gi(2) in \<open>simp_all add: valid_layout_def\<close>)
qed

definition alloc_promise ::
  "nat \<Rightarrow> global_state \<Rightarrow> (usize \<times> layout) set \<Rightarrow> layout \<Rightarrow> usize alloc_result \<Rightarrow> global_state \<Rightarrow> bool" where
  "alloc_promise s g H l r g' \<longleftrightarrow> gs_bytes g' = gs_bytes g \<and> cpus (gs_pool g') = cpus (gs_pool g) \<and>
     (case r of
        Inl e \<Rightarrow> heap_ok s g' H
      | Inr a \<Rightarrow> heap_ok s g' (insert (a, l) H) \<and> a \<noteq> 0 \<and> a \<notin> fst ` H \<and> ly_align l dvd a \<and>
          (\<forall>(a', l')\<in>H. object_range a l \<inter> object_range a' l' = {}))"

lemma global_alloc_ok:
  assumes inv: "global_inv s g G A" and cpu: "cpu < cpus (gs_pool g)" and v: "valid_layout l"
  shows "\<exists>r g'. global_alloc cpu (2 ^ s) g l = Some (r, g') \<and> alloc_answer s g G A l r g' \<and>
    (case r of Inl _ \<Rightarrow> True | Inr a \<Rightarrow> ly_align l dvd a)"
proof (cases "from_layout l")
  case None
  then obtain r g' where r: "large_alloc (2 ^ s) g l = Some (r, g')" "alloc_answer s g G A l r g'"
    "case r of Inl _ \<Rightarrow> True | Inr a \<Rightarrow> max (ly_align l) (2 ^ s) dvd a"
    using large_alloc_ok [OF inv _ v] by blast
  have "ly_align l dvd max (ly_align l) (2 ^ s)"
    using v pow2_dvd [of "ly_align l" s] by (simp add: valid_layout_def max_def)
  then have "case r of Inl _ \<Rightarrow> True | Inr a \<Rightarrow> ly_align l dvd a"
    using r(3) dvd_trans by (auto split: sum.splits)
  then show ?thesis
    using r None global_invD(1) [OF inv] by (auto simp: global_alloc_def eligible_iff)
next
  case (Some sc)
  obtain r g' where r: "slab_alloc cpu (2 ^ s) g l = Some (r, g')" "alloc_answer s g G A l r g'"
    using slab_alloc_ok [OF inv cpu Some] by blast
  have "case r of Inl _ \<Rightarrow> True | Inr a \<Rightarrow> ly_align l dvd a"
  proof (cases r)
    case (Inr a)
    then show ?thesis
      using r(2) owned_small_aligned [OF _ _ v Some] by (auto simp: alloc_answer_def keeps_def)
  qed simp
  then show ?thesis
    using r Some global_invD(1) [OF inv] by (auto simp: global_alloc_def eligible_iff)
qed

lemma heap_alloc_ok:
  assumes ok: "heap_ok s g H" and cpu: "cpu < cpus (gs_pool g)" and v: "valid_layout l"
  shows "\<exists>r g'. global_alloc cpu (2 ^ s) g l = Some (r, g') \<and> alloc_promise s g H l r g'"
proof -
  obtain G A where h: "global_inv s g G A" "\<forall>a l. (a, l) \<in> H \<longrightarrow> valid_layout l \<and> owned s g G A a l"
    "\<forall>a l l'. (a, l) \<in> H \<and> (a, l') \<in> H \<longrightarrow> l = l'"
    using ok by (auto simp: heap_ok_def)
  obtain r g' where r: "global_alloc cpu (2 ^ s) g l = Some (r, g')" "alloc_answer s g G A l r g'"
    "case r of Inl _ \<Rightarrow> True | Inr a \<Rightarrow> ly_align l dvd a"
    using global_alloc_ok [OF h(1) cpu v] by blast
  obtain G' A' where k: "keeps s g G A g' G' A'"
    "case r of Inl _ \<Rightarrow> A' = A | Inr a \<Rightarrow> owned s g' G' A' a l \<and> fresh_object s g G A a"
    using r(2) unfolding alloc_answer_def by blast
  have inv': "global_inv s g' G' A'" and fr: "gs_bytes g' = gs_bytes g" "cpus (gs_pool g') = cpus (gs_pool g)"
    and kept: "\<forall>a l. (a, l) \<in> H \<longrightarrow> valid_layout l \<and> owned s g' G' A' a l"
    using k(1) h(2) by (auto simp: keeps_def)
  have "alloc_promise s g H l r g'"
  proof (cases r)
    case (Inl e)
    have "heap_ok s g' H"
      unfolding heap_ok_def using inv' kept h(3) by blast
    then show ?thesis
      using fr Inl by (simp add: alloc_promise_def)
  next
    case (Inr a)
    then have o: "owned s g' G' A' a l" "fresh_object s g G A a" "ly_align l dvd a"
      using k(2) r(3) by simp_all
    have new: "(a, l') \<notin> H" for l'
      using h(2) o(2) unfolding fresh_object_def by blast
    then have "heap_ok s g' (insert (a, l) H)"
      unfolding heap_ok_def using inv' kept o(1) v h(3) by blast
    moreover have "object_range a l \<inter> object_range a' l' = {}" if "(a', l') \<in> H" for a' l'
      using that kept new by (intro owned_disjoint [OF inv' o(1) v]) auto
    moreover have "a \<notin> fst ` H"
      using new by force
    ultimately show ?thesis
      using fr o(3) owned_nonzero [OF inv' o(1)] Inr by (auto simp: alloc_promise_def)
  qed
  with r(1) show ?thesis
    by blast
qed

lemma heap_dealloc_ok:
  assumes ok: "heap_ok s g H" and cpu: "cpu < cpus (gs_pool g)" and al: "(a, l) \<in> H"
  shows "\<exists>g'. global_dealloc cpu (2 ^ s) g a l = Some g' \<and> heap_ok s g' (H - {(a, l)}) \<and> gs_bytes g' = gs_bytes g \<and>
    cpus (gs_pool g') = cpus (gs_pool g)"
proof -
  obtain G A where h: "global_inv s g G A" "\<forall>a l. (a, l) \<in> H \<longrightarrow> valid_layout l \<and> owned s g G A a l"
    "\<forall>a l l'. (a, l) \<in> H \<and> (a, l') \<in> H \<longrightarrow> l = l'"
    using ok by (auto simp: heap_ok_def)
  have o: "owned s g G A a l"
    using h(2) al by blast
  have "\<exists>g'. global_dealloc cpu (2 ^ s) g a l = Some g' \<and> drops s g G A a g'"
  proof (cases "from_layout l")
    case None
    then show ?thesis
      using large_dealloc_ok [OF h(1) None o] by (simp add: global_dealloc_def eligible_iff)
  next
    case (Some sc)
    then show ?thesis
      using slab_dealloc_ok [OF h(1) cpu Some o] by (simp add: global_dealloc_def eligible_iff)
  qed
  then obtain g' G' A' where g': "global_dealloc cpu (2 ^ s) g a l = Some g'" "global_inv s g' G' A'"
    "cpus (gs_pool g') = cpus (gs_pool g)" "gs_bytes g' = gs_bytes g"
    "\<forall>a' l'. valid_layout l' \<and> owned s g G A a' l' \<and> a' \<noteq> a \<longrightarrow> owned s g' G' A' a' l'"
    unfolding drops_def by blast
  have "a' \<noteq> a" if "(a', l') \<in> H - {(a, l)}" for a' l'
    using that h(3) al by blast
  then have "\<forall>a' l'. (a', l') \<in> H - {(a, l)} \<longrightarrow> valid_layout l' \<and> owned s g' G' A' a' l'"
    using h(2) g'(5) by blast
  then have "heap_ok s g' (H - {(a, l)})"
    unfolding heap_ok_def using g'(2) h(3) by blast
  with g' show ?thesis
    by blast
qed

lemma heap_ok_disjoint:
  assumes "heap_ok s g H" "(a, l) \<in> H" "(a', l') \<in> H" "(a, l) \<noteq> (a', l')"
  shows "object_range a l \<inter> object_range a' l' = {}"
  using assms owned_disjoint unfolding heap_ok_def by blast

lemma heap_ok_bytes: "heap_ok s (g\<lparr>gs_bytes := f\<rparr>) H \<longleftrightarrow> heap_ok s g H"
proof -
  have "owned s (g\<lparr>gs_bytes := f\<rparr>) G A a l \<longleftrightarrow> owned s g G A a l" for G A a l
    by (cases "from_layout l") (simp_all add: owned_def)
  moreover have "global_inv s (g\<lparr>gs_bytes := f\<rparr>) G A \<longleftrightarrow> global_inv s g G A" for G A
    by (simp add: global_inv_def)
  ultimately show ?thesis
    by (simp add: heap_ok_def)
qed

section \<open>Reallocation\<close>

lemma heap_realloc_ok:
  assumes ok: "heap_ok s g H" and cpu: "cpu < cpus (gs_pool g)" and al: "(a, l) \<in> H"
  shows "\<exists>p g'. ga_realloc cpu (2 ^ s) g a l n = Some (p, g') \<and>
    (if p = 0 then heap_ok s g' H \<and> gs_bytes g' = gs_bytes g
     else \<exists>l'. l' = \<lparr>ly_size = n, ly_align = ly_align l\<rparr> \<and> heap_ok s g' (insert (p, l') (H - {(a, l)})) \<and>
       (\<forall>i<min (ly_size l) n. gs_bytes g' (p + i) = gs_bytes g (a + i)) \<and>
       (\<forall>(b, m)\<in>H. \<forall>x\<in>object_range b m. gs_bytes g' x = gs_bytes g x))"
proof -
  define l' where "l' = \<lparr>ly_size = n, ly_align = ly_align l\<rparr>"
  have vl: "valid_layout l" "0 < a"
    using ok al owned_nonzero unfolding heap_ok_def by blast+
  show ?thesis
  proof (cases "n \<le> 2 ^ 63 - ly_align l")
    case False
    then have "ga_realloc cpu (2 ^ s) g a l n = Some (0, g)"
      by (simp add: ga_realloc_def layout_from_size_align_def)
    with ok show ?thesis
      by simp
  next
    case True
    then have lay: "layout_from_size_align n (ly_align l) = Some l'" and v': "valid_layout l'"
      using vl(1) by (auto simp: layout_from_size_align_def valid_layout_def l'_def)
    obtain r g1 where r: "global_alloc cpu (2 ^ s) g l' = Some (r, g1)" "alloc_promise s g H l' r g1"
      using heap_alloc_ok [OF ok cpu v'] by blast
    show ?thesis
    proof (cases r)
      case (Inl e)
      then have "ga_realloc cpu (2 ^ s) g a l n = Some (0, g1)"
        using r(1) lay by (simp add: ga_realloc_def ga_alloc_def)
      then show ?thesis
        using r(2) Inl by (auto simp: alloc_promise_def)
    next
      case (Inr p)
      have p: "heap_ok s g1 (insert (p, l') H)" "p \<noteq> 0" "p \<notin> fst ` H" "gs_bytes g1 = gs_bytes g"
        "cpus (gs_pool g1) = cpus (gs_pool g)" "\<forall>(b, m)\<in>H. object_range p l' \<inter> object_range b m = {}"
        using r(2) Inr by (simp_all add: alloc_promise_def)
      define k where "k = min (ly_size l) n"
      define bs where "bs = copy_nonoverlapping (gs_bytes g1) a p k"
      define g2 where "g2 = g1\<lparr>gs_bytes := bs\<rparr>"
      have ok2: "heap_ok s g2 (insert (p, l') H)" "cpu < cpus (gs_pool g2)"
        using p(1,5) cpu by (simp_all add: g2_def heap_ok_bytes)
      obtain g3 where g3: "global_dealloc cpu (2 ^ s) g2 a l = Some g3" "heap_ok s g3 (insert (p, l') H - {(a, l)})"
        "gs_bytes g3 = bs"
        using heap_dealloc_ok [OF ok2(1,2), of a l] al by (auto simp: g2_def)
      have run: "ga_realloc cpu (2 ^ s) g a l n = Some (p, g3)"
        using r(1) lay Inr p(2) g3(1) vl(2) by (simp add: ga_realloc_def ga_alloc_def ga_dealloc_def g2_def bs_def k_def)
      have "(p, l') \<noteq> (a, l)"
        using p(3) al by force
      then have "insert (p, l') H - {(a, l)} = insert (p, l') (H - {(a, l)})"
        by blast
      then have ok3: "heap_ok s g3 (insert (p, l') (H - {(a, l)}))"
        using g3(2) by simp
      have moved: "gs_bytes g3 (p + i) = gs_bytes g (a + i)" if "i < k" for i
        using that by (simp add: g3(3) bs_def copy_nonoverlapping_def p(4))
      have kept: "gs_bytes g3 x = gs_bytes g x" if bm: "(b, m) \<in> H" "x \<in> object_range b m" for b m x
      proof -
        have "x \<notin> object_range p l'"
          using p(6) bm by blast
        then have "\<not> (p \<le> x \<and> x < p + k)"
          by (auto simp: object_range_def l'_def k_def)
        then show ?thesis
          by (auto simp: g3(3) bs_def copy_nonoverlapping_def p(4))
      qed
      show ?thesis
        unfolding run k_def [symmetric] using ok3 p(2) moved kept
        by (intro exI [of _ p] exI [of _ g3]) (auto simp: l'_def)
    qed
  qed
qed

section \<open>Sessions\<close>

text \<open>
  Clients on any CPU allocate, release and write; a failed allocation changes nothing they can see.
\<close>

inductive heap_session :: "nat \<Rightarrow> global_state \<Rightarrow> global_state \<Rightarrow> (usize \<times> layout) set \<Rightarrow> bool" for s g0 where
  start: "heap_session s g0 g0 {}"
| allocated: "heap_session s g0 g H \<Longrightarrow> cpu < cpus (gs_pool g) \<Longrightarrow> valid_layout l \<Longrightarrow>
    global_alloc cpu (2 ^ s) g l = Some (Inr a, g') \<Longrightarrow> heap_session s g0 g' (insert (a, l) H)"
| exhausted: "heap_session s g0 g H \<Longrightarrow> cpu < cpus (gs_pool g) \<Longrightarrow> valid_layout l \<Longrightarrow>
    global_alloc cpu (2 ^ s) g l = Some (Inl e, g') \<Longrightarrow> heap_session s g0 g' H"
| freed: "heap_session s g0 g H \<Longrightarrow> cpu < cpus (gs_pool g) \<Longrightarrow> (a, l) \<in> H \<Longrightarrow>
    global_dealloc cpu (2 ^ s) g a l = Some g' \<Longrightarrow> heap_session s g0 g' (H - {(a, l)})"
| wrote: "heap_session s g0 g H \<Longrightarrow> heap_session s g0 (g\<lparr>gs_bytes := f\<rparr>) H"

lemma heap_session_ok:
  assumes "heap_session s g0 g H" "heap_ok s g0 {}"
  shows "heap_ok s g H \<and> cpus (gs_pool g) = cpus (gs_pool g0)"
  using assms
proof (induction rule: heap_session.induct)
  case (allocated g H cpu l a g')
  then show ?case
    using heap_alloc_ok [of s g H cpu l] by (auto simp: alloc_promise_def)
next
  case (exhausted g H cpu l e g')
  then show ?case
    using heap_alloc_ok [of s g H cpu l] by (auto simp: alloc_promise_def)
next
  case (freed g H cpu a l g')
  then show ?case
    using heap_dealloc_ok [of s g H cpu a l] by auto
next
  case (wrote g H f)
  then show ?case
    by (simp add: heap_ok_bytes)
qed simp

section \<open>The first state\<close>

definition empty_view :: cache_view where
  "empty_view = mk_view [] [] [] (\<lambda>_. [])"

definition fresh_pool :: "nat \<Rightarrow> static_slab_pool" where
  "fresh_pool n = \<lparr>sp_slabs = map per_cpu_slab_new [0..<n]\<rparr>"

definition fresh_mem :: slab_mem where
  "fresh_mem = \<lparr>sm_hdr = (\<lambda>_. None), sm_word = (\<lambda>_. 0)\<rparr>"

lemma slab_holds_objects:
  assumes "12 \<le> s" "s \<le> 29"
  shows "0 < capacity sc (class_bytes (2 ^ s) sc)"
proof -
  have "(2::nat) ^ 12 \<le> 2 ^ s"
    using assms(1) by (intro power_increasing) simp_all
  then have "(4096::nat) \<le> 2 ^ s"
    by simp
  then have "4096 \<le> class_bytes (2 ^ s) sc"
    using slab_bytes_pow2(2) [OF assms, of sc] by (rule order_trans)
  moreover have "data_offset (class_size sc) + class_size sc \<le> 4096"
    by (cases sc) (simp_all add: class_size_def CLASS_SIZES_def data_offset_values)
  ultimately have "class_size sc \<le> class_bytes (2 ^ s) sc - data_offset (class_size sc)"
    by linarith
  then have "1 \<le> (class_bytes (2 ^ s) sc - data_offset (class_size sc)) div class_size sc"
    using class_size_bounds(3) [of sc] by (simp add: less_eq_div_iff_mult_less_eq)
  then show ?thesis
    by (simp add: capacity_def MAX_OBJECTS_PER_SLAB_def)
qed

lemma cache_new_rep:
  assumes "12 \<le> s" "s \<le> 29"
  shows "rep_view (2 ^ s) mem (cache_new sc) empty_view"
  using slab_holds_objects [OF assms, of sc]
  by (simp add: empty_view_def cache_rep_def lists_ok_def slabs_ok_def sorted_slabs_def cache_new_def list_head_empty_def)

lemma fresh_pool_inv:
  assumes s: "12 \<le> s" "s \<le> 29" and n: "n \<le> 2 ^ 16"
  shows "pool_inv (2 ^ s) fresh_mem (fresh_pool n) (\<lambda>_. empty_view)" "cpus (fresh_pool n) = n"
    "unit_live (2 ^ s) fresh_mem (fresh_pool n) (\<lambda>_. empty_view) u = {}"
proof -
  have at: "cache_at (fresh_pool n) w = cache_new (snd w)" if "fst w < n" for w
    using that by (cases w; cases "snd w")
      (simp_all add: cache_at_def fresh_pool_def per_cpu_slab_new_def slab_allocator_new_def)
  have "pool_shape (fresh_pool n)"
    using n by (auto simp: pool_shape_def fresh_pool_def per_cpu_slab_new_def slab_allocator_new_def SIZE_CLASS_COUNT_def)
  then show "pool_inv (2 ^ s) fresh_mem (fresh_pool n) (\<lambda>_. empty_view)"
    unfolding pool_inv_def using at cache_new_rep [OF s]
    by (simp add: fresh_pool_def empty_view_def fresh_mem_def cache_new_def)
  show "cpus (fresh_pool n) = n" "unit_live (2 ^ s) fresh_mem (fresh_pool n) (\<lambda>_. empty_view) u = {}"
    by (simp_all add: fresh_pool_def unit_live_def view_live_def empty_view_def cache_live_def)
qed

lemma first_heap_ok:
  assumes "12 \<le> s" "s \<le> 29" "n \<le> 2 ^ 16" "ba_rep s ba reps" "live s ba reps = {}"
    "gs_initialized g" "gs_buddy g = ba" "gs_pool g = fresh_pool n" "gs_mem g = fresh_mem"
  shows "heap_ok s g {}"
proof -
  have "buddy_R s ba {}"
    using assms(4,5) by (auto simp: buddy_R_def)
  then have "pages_held s ba {}"
    unfolding buddy.good_def by (auto simp: apart_def backed_def)
  moreover have "slab_runs s (\<lambda>_. empty_view) = {}"
    by (simp add: slab_runs_def empty_view_def)
  ultimately have "global_inv s g (\<lambda>_. empty_view) {}"
    using assms fresh_pool_inv(1) [OF assms(1-3)] by (simp add: global_inv_def)
  then show ?thesis
    unfolding heap_ok_def by blast
qed

lemma sample_heap: "\<exists>g. heap_ok 12 g {} \<and> cpus (gs_pool g) = 2"
proof -
  have h: "(12::nat) < 64" "(2::nat) ^ 12 dvd 1048576" "(262144::nat) \<noteq> 0" "262144 div 2 ^ 12 \<le> PFN_NONE"
    "required_meta_size (2 ^ 12) 262144 \<le> 1024"
    by (simp_all add: PFN_NONE_def required_meta_size_def usize_mul_def usize_lim_def size_of_page_meta_def)
  obtain sec fl where "sec_rep sec fl {}" "bs_total_pages sec = 64" "bs_heap_start sec = 1048576"
    "bs_heap_size sec = 262144" "bs_region_start sec = 1044480" "bs_region_size sec = 266240"
    using init_at_ok [OF h, of 1044480 266240] by auto
  then have "sec_ok 12 sec (fl, {})"
    by (simp add: sec_ok_def sec_geom_def heap_range_def region_range_def usize_lim_def)
  then have b: "ba_rep 12 \<lparr>ba_sections = [sec], ba_section_count = 1\<rparr> [(fl, {})]"
    "live 12 \<lparr>ba_sections = [sec], ba_section_count = 1\<rparr> [(fl, {})] = {}"
    by (simp_all add: ba_rep_def live_def sec_live_def usize_lim_def)
  let ?g = "\<lparr>gs_buddy = \<lparr>ba_sections = [sec], ba_section_count = 1\<rparr>, gs_initialized = True, gs_live = True,
    gs_pool = fresh_pool 2, gs_mem = fresh_mem, gs_bytes = (\<lambda>_. 0)\<rparr>"
  have "heap_ok 12 ?g {}"
    by (rule first_heap_ok [where n = 2, OF _ _ _ b]) simp_all
  then show ?thesis
    by (intro exI [of _ ?g]) (simp add: fresh_pool_def)
qed

section \<open>Properties\<close>

lemma valid_layout_1000: "valid_layout \<lparr>ly_size = 1000, ly_align = 16\<rparr>" "valid_layout \<lparr>ly_size = 5000, ly_align = 16\<rparr>"
  by (simp_all add: valid_layout_def, code_simp+)

text \<open>C2: an allocation by the global allocator either fails, and the clients' allocations are as before, or
  returns a non-null address, aligned as the layout asks, whose bytes overlap none of the allocations that
  are live on any CPU, small or large; the invariant of the whole allocator is kept and no byte of a client
  changes.\<close>

theorem heap_alloc_correct:
  assumes "heap_ok s g H" "cpu < cpus (gs_pool g)" "valid_layout l"
  shows "\<exists>r g'. global_alloc cpu (2 ^ s) g l = Some (r, g') \<and> alloc_promise s g H l r g'"
  by (rule heap_alloc_ok [OF assms])

theorem heap_alloc_correct_witness:
  "\<exists>g r g'. heap_ok 12 g {} \<and> global_alloc 1 4096 g \<lparr>ly_size = 1000, ly_align = 16\<rparr> = Some (r, g') \<and>
    alloc_promise 12 g {} \<lparr>ly_size = 1000, ly_align = 16\<rparr> r g'"
proof -
  obtain g where g: "heap_ok 12 g {}" "cpus (gs_pool g) = 2"
    using sample_heap by blast
  then show ?thesis
    using heap_alloc_correct [OF g(1), of 1 "\<lparr>ly_size = 1000, ly_align = 16\<rparr>"] valid_layout_1000 by auto
qed







end
