(* ===== verification/SlabSpec.thy ===== *)
theory SlabSpec
  imports GlobalHeap
begin

text \<open>
  What the cache of a size class promises, stated over its slabs and live objects only: the lists, the bitmaps
  and the remote-free stacks do not show. Also the choice of the size class for a layout.
\<close>

section \<open>Size classes\<close>

definition class_for :: "usize \<Rightarrow> size_class option" where
  "class_for z = (if z \<le> 8 then Some Bytes8 else if z \<le> 16 then Some Bytes16 else if z \<le> 32 then Some Bytes32
     else if z \<le> 64 then Some Bytes64 else if z \<le> 128 then Some Bytes128 else if z \<le> 256 then Some Bytes256
     else if z \<le> 512 then Some Bytes512 else if z \<le> 1024 then Some Bytes1024 else if z \<le> 2048 then Some Bytes2048
     else None)"

lemma from_layout_class: "from_layout l = class_for (max (ly_size l) (ly_align l))"
  unfolding from_layout_cases class_for_def Let_def ..

lemma class_for_least:
  assumes "z \<le> class_size sc'"
  shows "\<exists>sc. class_for z = Some sc \<and> class_size sc \<le> class_size sc'"
  using assms by (cases sc') (simp_all add: class_for_def class_size_def CLASS_SIZES_def)

text \<open>C12: The size class chosen for a layout is the smallest whose objects hold it, and its size is a multiple of
  the requested alignment; there is none exactly when no class is large enough. A slab of the class has room for
  at least one object and for no more than its bitmap has bits.\<close>

theorem size_class_sound:
  assumes "valid_layout l" "12 \<le> s" "s \<le> 29"
  shows "case from_layout l of
      Some sc \<Rightarrow> ly_size l \<le> class_size sc \<and> ly_align l dvd class_size sc \<and>
        (\<forall>sc'. ly_size l \<le> class_size sc' \<and> ly_align l dvd class_size sc' \<longrightarrow> class_size sc \<le> class_size sc') \<and>
        0 < capacity sc (class_bytes (2 ^ s) sc) \<and> capacity sc (class_bytes (2 ^ s) sc) \<le> 64 * BITMAP_WORDS
    | None \<Rightarrow> \<forall>sc'. \<not> (ly_size l \<le> class_size sc' \<and> ly_align l dvd class_size sc')"
proof -
  have pw: "is_power_of_two (ly_align l)"
    using assms(1) by (simp add: valid_layout_def)
  have le: "ly_align l \<le> class_size sc'" if "ly_align l dvd class_size sc'" for sc'
    using that class_size_bounds(3) [of sc'] by (simp add: dvd_imp_le)
  show ?thesis
  proof (cases "from_layout l")
    case None
    then have "\<not> max (ly_size l) (ly_align l) \<le> class_size sc'" for sc'
      using class_for_least [of "max (ly_size l) (ly_align l)" sc'] by (auto simp: from_layout_class)
    then have "\<not> (ly_size l \<le> class_size sc' \<and> ly_align l dvd class_size sc')" for sc'
      using le [of sc'] by auto
    with None show ?thesis
      by simp
  next
    case (Some sc)
    obtain k where k: "class_size sc = 2 ^ k"
      using class_size_pow2 by blast
    have "ly_align l dvd class_size sc"
      using from_layout_Some(2) [OF Some] pow2_dvd [OF pw, of k] k by simp
    moreover have "class_size sc \<le> class_size sc'" if "ly_size l \<le> class_size sc'" "ly_align l dvd class_size sc'" for sc'
      using class_for_least [of "max (ly_size l) (ly_align l)" sc'] Some that le [of sc'] by (simp add: from_layout_class)
    ultimately show ?thesis
      using Some from_layout_Some(1) [OF Some] slab_holds_objects [OF assms(2,3), of sc]
        capacity_le [of sc "class_bytes (2 ^ s) sc"] by (simp add: BITMAP_WORDS_def)
  qed
qed

theorem size_class_sound_witness:
  "from_layout \<lparr>ly_size = 1000, ly_align = 16\<rparr> = Some Bytes1024 \<and> 16 dvd class_size Bytes1024"
proof -
  have f: "from_layout \<lparr>ly_size = 1000, ly_align = 16\<rparr> = Some Bytes1024"
    by code_simp
  show ?thesis
    using size_class_sound [OF valid_layout_1000(1), of 12] f by simp
qed

section \<open>The cache as a set of live objects\<close>

text \<open>The cache owns the slabs \<open>S\<close>, and the slots \<open>L\<close> of them are in use.\<close>

definition cache_holds :: "usize \<Rightarrow> slab_mem \<Rightarrow> slab_cache \<Rightarrow> usize set \<Rightarrow> (usize \<times> nat) set \<Rightarrow> bool" where
  "cache_holds ps mem c S L \<longleftrightarrow> (\<exists>P F E rs. cache_rep ps mem c P F E rs \<and> S = set P \<union> set F \<union> set E \<and>
     L = cache_live ps mem c S rs)"

lemma cache_holdsI: "cache_rep ps mem c P F E rs \<Longrightarrow> S = set P \<union> set F \<union> set E \<Longrightarrow>
    L = cache_live ps mem c S rs \<Longrightarrow> cache_holds ps mem c S L"
  unfolding cache_holds_def by blast

lemma cache_exhausted:
  assumes "cache_rep ps mem c [] F [] rs" "\<forall>b\<in>set F. rs b = []"
  shows "cache_live ps mem c (set F) rs = set F \<times> {..<ccap ps c}"
  using cache_repD(3) [OF assms(1)] assms(2) by (auto simp: cache_live_def sorted_slabs_def)

text \<open>C10: An allocation from the cache of a size class hands out a slot that was not in use and marks exactly it,
  or reports that there is none and changes nothing. When it may look at the frees queued by other CPUs, it
  reports that only if every slot of every slab is in use.\<close>

theorem cache_alloc_exact:
  assumes "cache_holds ps mem c S L"
  shows "\<exists>r h' mem' c'. alloc_object_hinted rp h mem c = Some (r, h', mem', c') \<and>
    (case r of
       Some addr \<Rightarrow> \<exists>b i. b \<in> S \<and> i < ccap ps c \<and> (b, i) \<notin> L \<and> addr = slot_addr (sc_class c) b i \<and>
         cache_holds ps mem' c' S (insert (b, i) L) \<and> sc_class c' = sc_class c
     | None \<Rightarrow> mem' = mem \<and> c' = c \<and> (fst (rp h) \<longrightarrow> L = S \<times> {..<ccap ps c}))"
proof -
  obtain P F E rs where rep: "cache_rep ps mem c P F E rs" and S: "S = set P \<union> set F \<union> set E"
    and L: "L = cache_live ps mem c S rs"
    using assms unfolding cache_holds_def by blast
  obtain r h' mem' c' where run: "alloc_object_hinted rp h mem c = Some (r, h', mem', c')"
    and out: "object_outcome ps mem c P F E rs (fst (rp h)) r mem' c'"
    using alloc_object_ok [OF rep, of rp h] by blast
  show ?thesis
  proof (cases r)
    case None
    then have "mem' = mem" "c' = c" "P = []" "E = []" "fst (rp h) \<longrightarrow> (\<forall>b\<in>set F. rs b = [])"
      using out by (simp_all add: object_outcome_def)
    with None run rep S L cache_exhausted [of ps mem c F rs] show ?thesis
      by auto
  next
    case (Some addr)
    then obtain b i P' F' E' rs' where st: "b \<in> S" "i < ccap ps c" "addr = slot_addr (sc_class c) b i" "(b, i) \<notin> L"
      "cache_rep ps mem' c' P' F' E' rs'" "set P' \<union> set F' \<union> set E' = S" "sc_class c' = sc_class c"
      "cache_live ps mem' c' S rs' = insert (b, i) L"
      using out unfolding Some object_outcome_def alloc_step_def S [symmetric] L [symmetric] option.case
      by (elim exE conjE) (rule that)
    then have "cache_holds ps mem' c' S (insert (b, i) L)"
      by (intro cache_holdsI [OF st(5)]) simp_all
    with Some run st show ?thesis
      by auto
  qed
qed

text \<open>C11: Giving back an object in use, from the CPU that owns the cache or from another one, takes exactly it out
  of the set of live objects. A local free may give up its slab, which then had no other live object; a remote
  free keeps all slabs.\<close>

theorem cache_free_exact:
  assumes "cache_holds ps mem c S L" "(b, i) \<in> L" "headers_apart (sm_hdr mem)" "is_power_of_two ps"
  shows "(\<exists>res mem' c'. dealloc_object ps mem c (slot_addr (sc_class c) b i) = Some (res, mem', c') \<and>
      (case res of
         CacheDone \<Rightarrow> cache_holds ps mem' c' S (L - {(b, i)})
       | CacheFreeSlab base n \<Rightarrow> base = b \<and> n = slab_pages (sc_class c) ps \<and> (\<forall>j. (b, j) \<in> L \<longrightarrow> j = i) \<and>
           cache_holds ps mem' c' (S - {b}) (L - {(b, i)}))) \<and>
    (\<exists>mem'. remote_free mem b (slot_addr (sc_class c) b i) = Some mem' \<and> cache_holds ps mem' c S (L - {(b, i)}))"
proof -
  obtain P F E rs where rep: "cache_rep ps mem c P F E rs" and S: "S = set P \<union> set F \<union> set E"
    and L: "L = cache_live ps mem c S rs"
    using assms(1) unfolding cache_holds_def by blast
  note live = assms(2) [unfolded L]
  obtain res mem' c' P' F' E' rs' where
    run: "dealloc_object ps mem c (slot_addr (sc_class c) b i) = Some (res, mem', c')"
    and rep': "cache_rep ps mem' c' P' F' E' rs'"
    and res: "case res of
        CacheDone \<Rightarrow> set P' \<union> set F' \<union> set E' = S \<and> cache_live ps mem' c' S rs' = L - {(b, i)}
      | CacheFreeSlab base n \<Rightarrow> base = b \<and> n = slab_pages (sc_class c) ps \<and> set P' \<union> set F' \<union> set E' = S - {b} \<and>
          length E' = 1 \<and> (\<forall>j. (b, j) \<in> L \<longrightarrow> j = i) \<and> cache_live ps mem' c' (S - {b}) rs' = L - {(b, i)} \<and>
          sh_magic (hat (sm_hdr mem') b) = 0"
    using dealloc_object_ok [OF rep S live assms(3,4)] unfolding SlabFree.free_step_def L [symmetric]
    by (elim exE conjE) (rule that)
  have local: "case res of
         CacheDone \<Rightarrow> cache_holds ps mem' c' S (L - {(b, i)})
       | CacheFreeSlab base n \<Rightarrow> base = b \<and> n = slab_pages (sc_class c) ps \<and> (\<forall>j. (b, j) \<in> L \<longrightarrow> j = i) \<and>
           cache_holds ps mem' c' (S - {b}) (L - {(b, i)})"
    using res cache_holdsI [OF rep'] by (cases res) simp_all
  obtain mem2 where rf: "remote_free mem b (slot_addr (sc_class c) b i) = Some mem2"
    "cache_rep ps mem2 c P F E (rs(b := i # rs b))" "cache_live ps mem2 c S (rs(b := i # rs b)) = L - {(b, i)}"
    using remote_free_ok [OF rep S live] unfolding L [symmetric] by (elim exE conjE) (rule that)
  have "cache_holds ps mem2 c S (L - {(b, i)})"
    by (rule cache_holdsI [OF rf(2) S rf(3) [symmetric]])
  with run local rf(1) show ?thesis
    by (intro conjI exI)
qed

section \<open>A cache with one object\<close>

lemma one_header_apart: "\<forall>x. x \<noteq> b \<longrightarrow> f x = None \<Longrightarrow> headers_apart f"
  unfolding headers_apart_def by (metis option.distinct(1))

lemma sample_cache:
  "\<exists>mem c i. cache_holds 4096 mem c {4096} {(4096, i)} \<and> headers_apart (sm_hdr mem) \<and> sc_class c = Bytes64"
proof -
  have new: "cache_rep 4096 fresh_mem (cache_new Bytes64) [] [] [] (\<lambda>_. [])"
    using cache_new_rep [of 12 fresh_mem Bytes64] by (simp add: empty_view_def)
  have cb: "cbytes 4096 (cache_new Bytes64) = 4096" "sc_class (cache_new Bytes64) = Bytes64"
    by (simp_all add: cache_new_def slab_pages_def class_size_def CLASS_SIZES_def Let_def)
  obtain mem c where add: "cache_rep 4096 mem c [4096] [] [] (\<lambda>_. [])" "sc_class c = Bytes64"
    "cache_live 4096 mem c {4096} (\<lambda>_. []) = {}" "\<forall>x. x \<noteq> 4096 \<longrightarrow> sm_hdr mem x = None"
    using add_slab_ok [OF new refl, of 4096 0] cb
    by (auto simp: usize_lim_def cache_live_def fresh_mem_def fun_upd_idem)
  obtain r h' mem' c' where out: "object_outcome 4096 mem c [4096] [] [] (\<lambda>_. []) True r mem' c'"
    using alloc_object_ok [OF add(1), of "\<lambda>h. (True, h)" "()"] by auto
  then obtain addr where "alloc_step 4096 mem c {4096} (\<lambda>_. []) addr mem' c'"
    by (cases r) (auto simp: object_outcome_def)
  then obtain i P F E rs where a: "cache_rep 4096 mem' c' P F E rs" "set P \<union> set F \<union> set E = {4096}" "sc_class c' = sc_class c"
    "cache_live 4096 mem' c' {4096} rs = {(4096, i)}" "mem_frame mem mem' {4096}"
    unfolding alloc_step_def add(3) by auto
  have "headers_apart (sm_hdr mem')"
    using a(5) add(4) by (intro one_header_apart [of 4096]) (simp add: mem_frame_def)
  moreover have "cache_holds 4096 mem' c' {4096} {(4096, i)}"
    by (rule cache_holdsI [OF a(1) a(2,4) [symmetric]])
  ultimately show ?thesis
    using a(3) add(2) by auto
qed

theorem cache_alloc_exact_witness:
  "\<exists>mem c i r h mem' c'. cache_holds 4096 mem c {4096} {(4096, i)} \<and>
     alloc_object_hinted (\<lambda>h. (True, h)) () mem c = Some (r, h, mem', c')"
proof -
  obtain mem c i where c: "cache_holds 4096 mem c {4096} {(4096, i)}"
    using sample_cache by blast
  with cache_alloc_exact [OF c, of "\<lambda>h. (True, h)" "()"] show ?thesis
    by blast
qed

theorem cache_free_exact_witness:
  "\<exists>mem c i mem'. cache_holds 4096 mem c {4096} {(4096, i)} \<and>
     remote_free mem 4096 (slot_addr Bytes64 4096 i) = Some mem' \<and> cache_holds 4096 mem' c {4096} {}"
proof -
  obtain mem c i where c: "cache_holds 4096 mem c {4096} {(4096, i)}" "headers_apart (sm_hdr mem)" "sc_class c = Bytes64"
    using sample_cache by blast
  have "is_power_of_two 4096"
    by code_simp
  with cache_free_exact [OF c(1) _ c(2), of 4096 i] c show ?thesis
    by auto
qed

end
