(* ===== verification/RemoteRace.thy ===== *)
theory RemoteRace
  imports SlabPage
begin

text \<open>
  Cross-CPU frees as they interleave with the owner of a slab. Several CPUs push objects on the remote-free
  stack of the slab with a compare-and-swap loop (\<open>remote_free\<close>) and then announce it
  (\<open>RemoteFreeHint::mark\<close>); the owner, under its lock, allocates from the slab, frees to it, or walks the full
  list after \<open>RemoteFreeHint::take\<close>, and drains the stack on the way (\<open>drain_remote_frees\<close>). One step is one
  access to shared memory; accesses are sequentially consistent. The invariant says where every object is, and
  that a full slab with pending frees is announced or about to be.
\<close>

section \<open>The steps\<close>

text \<open>Where a freeing CPU is: about to read the head, to store the link, to compare and swap, to count the free
  in the header, or to announce it. The number says how often the head had changed when it was read.\<close>

datatype freer = FIdle | FLoad usize | FStore usize usize nat | FSwap usize usize nat | FCount | FMark

text \<open>Why the owner drains, and where it is: about to look at the head, to swap it out, walking the chain it
  took, past the drain, deciding whether the slab is full, or done with the slab for good.\<close>

datatype reason = AWalk | AAlloc | AFree

datatype owner = OIdle | OLook reason | OSwap reason | ODrain reason usize | OEnd reason | OLast | OGone

record race =
  ra_objects :: "usize set"
  ra_head :: usize
  ra_word :: "usize \<Rightarrow> usize"
  ra_count :: nat
  ra_flag :: bool
  ra_full :: bool
  ra_pc :: "nat \<Rightarrow> freer"
  ra_owner :: owner
  ra_live :: "usize set"
  ra_free :: "usize set"
  ra_changes :: nat

text \<open>\<open>remote_free\<close> and the announcement that follows it, by CPU \<open>t\<close>. A weak compare-and-swap may fail even
  when the head is unchanged.\<close>

inductive remote_step :: "nat \<Rightarrow> race \<Rightarrow> race \<Rightarrow> bool" for t where
  begin_free: "ra_pc st t = FIdle \<Longrightarrow> x \<in> ra_live st \<Longrightarrow>
    remote_step t st (st\<lparr>ra_pc := (ra_pc st)(t := FLoad x), ra_live := ra_live st - {x}\<rparr>)"
| load_head: "ra_pc st t = FLoad x \<Longrightarrow>
    remote_step t st (st\<lparr>ra_pc := (ra_pc st)(t := FStore x (ra_head st) (ra_changes st))\<rparr>)"
| store_link: "ra_pc st t = FStore x h n \<Longrightarrow>
    remote_step t st (st\<lparr>ra_word := (ra_word st)(x := h), ra_pc := (ra_pc st)(t := FSwap x h n)\<rparr>)"
| cas_ok: "ra_pc st t = FSwap x h n \<Longrightarrow> ra_head st = h \<Longrightarrow>
    remote_step t st (st\<lparr>ra_head := x, ra_changes := Suc (ra_changes st), ra_pc := (ra_pc st)(t := FCount)\<rparr>)"
| cas_fail: "ra_pc st t = FSwap x h n \<Longrightarrow>
    remote_step t st (st\<lparr>ra_pc := (ra_pc st)(t := FLoad x)\<rparr>)"
| count: "ra_pc st t = FCount \<Longrightarrow>
    remote_step t st (st\<lparr>ra_count := as_u32 (ra_count st + 1), ra_pc := (ra_pc st)(t := FMark)\<rparr>)"
| mark: "ra_pc st t = FMark \<Longrightarrow>
    remote_step t st (st\<lparr>ra_flag := True, ra_pc := (ra_pc st)(t := FIdle)\<rparr>)"

text \<open>The owner. \<open>take\<close> is asked once the partial slab is spent, and the walk visits the slab if it is full.\<close>

inductive owner_step :: "race \<Rightarrow> race \<Rightarrow> bool" where
  take: "ra_owner st = OIdle \<Longrightarrow>
    owner_step st (st\<lparr>ra_flag := False, ra_owner := (if ra_flag st \<and> ra_full st then OLook AWalk else OIdle)\<rparr>)"
| begin_alloc: "ra_owner st = OIdle \<Longrightarrow> \<not> ra_full st \<Longrightarrow> owner_step st (st\<lparr>ra_owner := OLook AAlloc\<rparr>)"
| local_free: "ra_owner st = OIdle \<Longrightarrow> x \<in> ra_live st \<Longrightarrow>
    owner_step st (st\<lparr>ra_live := ra_live st - {x}, ra_free := insert x (ra_free st), ra_full := False,
      ra_owner := OLook AFree\<rparr>)"
| look_none: "ra_owner st = OLook a \<Longrightarrow> ra_head st = 0 \<Longrightarrow>
    owner_step st (st\<lparr>ra_owner := (if a = AWalk then OIdle else OEnd a)\<rparr>)"
| look_some: "ra_owner st = OLook a \<Longrightarrow> ra_head st \<noteq> 0 \<Longrightarrow> owner_step st (st\<lparr>ra_owner := OSwap a\<rparr>)"
| swap_head: "ra_owner st = OSwap a \<Longrightarrow>
    owner_step st (st\<lparr>ra_head := 0, ra_changes := Suc (ra_changes st), ra_count := 0,
      ra_owner := ODrain a (ra_head st)\<rparr>)"
| drain_one: "ra_owner st = ODrain a p \<Longrightarrow> p \<noteq> 0 \<Longrightarrow>
    owner_step st (st\<lparr>ra_free := insert p (ra_free st), ra_owner := ODrain a (ra_word st p)\<rparr>)"
| drain_end: "ra_owner st = ODrain a 0 \<Longrightarrow>
    owner_step st (st\<lparr>ra_full := (ra_full st \<and> a \<noteq> AWalk), ra_owner := (if a = AWalk then OIdle else OEnd a)\<rparr>)"
| local_alloc: "ra_owner st = OEnd AAlloc \<Longrightarrow> x \<in> ra_free st \<Longrightarrow>
    owner_step st (st\<lparr>ra_free := ra_free st - {x}, ra_live := insert x (ra_live st),
      ra_owner := (if ra_free st = {x} then OLast else OIdle)\<rparr>)"
| alloc_none: "ra_owner st = OEnd AAlloc \<Longrightarrow> ra_free st = {} \<Longrightarrow> owner_step st (st\<lparr>ra_owner := OIdle\<rparr>)"
| last_object: "ra_owner st = OLast \<Longrightarrow>
    owner_step st (st\<lparr>ra_full := (ra_head st = 0), ra_owner := OIdle\<rparr>)"
| keep_slab: "ra_owner st = OEnd AFree \<Longrightarrow> owner_step st (st\<lparr>ra_owner := OIdle\<rparr>)"
| return_slab: "ra_owner st = OEnd AFree \<Longrightarrow> ra_free st = ra_objects st \<Longrightarrow> ra_head st = 0 \<Longrightarrow>
    owner_step st (st\<lparr>ra_owner := OGone\<rparr>)"

text \<open>What others do: the holder of an object writes to it, and another slab of the class is announced.\<close>

inductive other_step :: "race \<Rightarrow> race \<Rightarrow> bool" where
  scribble: "x \<in> ra_live st \<Longrightarrow> other_step st (st\<lparr>ra_word := (ra_word st)(x := w)\<rparr>)"
| mark_other: "other_step st (st\<lparr>ra_flag := True\<rparr>)"

inductive race_step :: "race \<Rightarrow> race \<Rightarrow> bool" where
  "remote_step t st st' \<Longrightarrow> race_step st st'"
| "owner_step st st' \<Longrightarrow> race_step st st'"
| "other_step st st' \<Longrightarrow> race_step st st'"

inductive_cases remote_stepE: "remote_step t st st'"
inductive_cases owner_stepE: "owner_step st st'"
inductive_cases other_stepE: "other_step st st'"

text \<open>A slab as \<open>add_slab\<close> leaves it.\<close>

definition race_start :: "race \<Rightarrow> bool" where
  "race_start st \<longleftrightarrow> ra_head st = 0 \<and> ra_count st = 0 \<and> \<not> ra_full st \<and> ra_pc st = (\<lambda>_. FIdle) \<and>
     ra_owner st = OIdle \<and> ra_live st = {} \<and> ra_free st = ra_objects st \<and> 0 \<notin> ra_objects st"

inductive race_reachable :: "race \<Rightarrow> bool" where
  "race_start st \<Longrightarrow> race_reachable st"
| "race_reachable st \<Longrightarrow> race_step st st' \<Longrightarrow> race_reachable st'"

section \<open>The invariant\<close>

fun flying :: "freer \<Rightarrow> usize option" where
  "flying (FLoad x) = Some x"
| "flying (FStore x h n) = Some x"
| "flying (FSwap x h n) = Some x"
| "flying _ = None"

fun taken :: "owner \<Rightarrow> usize" where
  "taken (ODrain a p) = p"
| "taken _ = 0"

definition announced :: "race \<Rightarrow> bool" where
  "announced st \<longleftrightarrow> ra_flag st \<or> (\<exists>t. ra_pc st t = FCount \<or> ra_pc st t = FMark) \<or>
     ra_owner st = OLook AWalk \<or> ra_owner st = OSwap AWalk"

text \<open>Every object is in one place: held by a client, free in the bitmap, in the hands of one freeing CPU, on
  the stack (\<open>xs\<close>) or on the chain the owner is walking (\<open>ys\<close>).\<close>

datatype place = Live | Free | Flying nat | Stacked | Taken

definition placed :: "race \<Rightarrow> usize list \<Rightarrow> usize list \<Rightarrow> (usize \<Rightarrow> place) \<Rightarrow> bool" where
  "placed st xs ys \<pi> \<longleftrightarrow> (\<forall>x. x \<in> ra_live st \<longleftrightarrow> x \<in> ra_objects st \<and> \<pi> x = Live) \<and>
     (\<forall>x. x \<in> ra_free st \<longleftrightarrow> x \<in> ra_objects st \<and> \<pi> x = Free) \<and>
     (\<forall>x t. flying (ra_pc st t) = Some x \<longleftrightarrow> x \<in> ra_objects st \<and> \<pi> x = Flying t) \<and>
     (\<forall>x. x \<in> set xs \<longleftrightarrow> x \<in> ra_objects st \<and> \<pi> x = Stacked) \<and>
     (\<forall>x. x \<in> set ys \<longleftrightarrow> x \<in> ra_objects st \<and> \<pi> x = Taken)"

definition linked :: "race \<Rightarrow> usize list \<Rightarrow> usize list \<Rightarrow> bool" where
  "linked st xs ys \<longleftrightarrow> stack (ra_word st) (ra_head st) xs \<and> distinct xs \<and>
     stack (ra_word st) (taken (ra_owner st)) ys \<and> distinct ys \<and> 0 \<notin> ra_objects st \<and>
     (\<forall>t x h n. ra_pc st t = FSwap x h n \<longrightarrow> ra_word st x = h)"

definition fresh_reads :: "race \<Rightarrow> bool" where
  "fresh_reads st \<longleftrightarrow> (\<forall>t x h n. ra_pc st t = FStore x h n \<or> ra_pc st t = FSwap x h n \<longrightarrow>
     n < ra_changes st \<or> n = ra_changes st \<and> h = ra_head st)"

definition listed :: "race \<Rightarrow> bool" where
  "listed st \<longleftrightarrow> (ra_full st \<longrightarrow> ra_head st \<noteq> 0 \<longrightarrow> announced st) \<and>
     (ra_owner st \<in> {OLook AAlloc, OSwap AAlloc, OEnd AAlloc, OLast, OLook AFree, OSwap AFree, OEnd AFree, OGone} \<longrightarrow>
       \<not> ra_full st) \<and>
     (\<forall>a p. ra_owner st = ODrain a p \<longrightarrow> ra_full st \<longrightarrow> a = AWalk) \<and>
     (ra_full st \<longrightarrow> (\<forall>p. ra_owner st \<noteq> ODrain AWalk p) \<longrightarrow> ra_free st = {}) \<and>
     (ra_owner st = OLast \<longrightarrow> ra_free st = {}) \<and> (ra_owner st = OGone \<longrightarrow> ra_free st = ra_objects st)"

definition race_inv :: "race \<Rightarrow> bool" where
  "race_inv st \<longleftrightarrow> (\<exists>xs ys \<pi>. placed st xs ys \<pi> \<and> linked st xs ys) \<and> fresh_reads st \<and> listed st"

lemma race_start_inv:
  assumes "race_start st"
  shows "race_inv st"
proof -
  have "placed st [] [] (\<lambda>_. Free)" "linked st [] []"
    using assms by (auto simp: race_start_def placed_def linked_def)
  moreover have "fresh_reads st" "listed st"
    using assms by (simp_all add: race_start_def fresh_reads_def listed_def)
  ultimately show ?thesis
    unfolding race_inv_def by blast
qed

section \<open>The invariant is kept\<close>

lemma fresh_reads_free: "remote_step t st st' \<Longrightarrow> fresh_reads st \<Longrightarrow> fresh_reads st'"
  by (erule remote_stepE) (auto simp: fresh_reads_def less_Suc_eq split: if_splits)

lemma fresh_reads_owner: "owner_step st st' \<Longrightarrow> fresh_reads st \<Longrightarrow> fresh_reads st'"
  by (erule owner_stepE) (auto simp: fresh_reads_def less_Suc_eq)

lemma fresh_reads_other: "other_step st st' \<Longrightarrow> fresh_reads st \<Longrightarrow> fresh_reads st'"
  by (erule other_stepE) (auto simp: fresh_reads_def)

lemma remote_step_same:
  "remote_step t st st' \<Longrightarrow> ra_owner st' = ra_owner st \<and> ra_full st' = ra_full st \<and> ra_free st' = ra_free st \<and>
     ra_objects st' = ra_objects st"
  by (erule remote_stepE) simp_all

lemma announced_pc: "ra_pc st t = FCount \<or> ra_pc st t = FMark \<Longrightarrow> announced st"
  by (auto simp: announced_def)

lemma announced_move:
  assumes "announced st" "ra_pc st t \<noteq> FCount" "ra_pc st t \<noteq> FMark" "ra_flag st' = ra_flag st" "ra_owner st' = ra_owner st"
    "ra_pc st' = (ra_pc st)(t := q)"
  shows "announced st'"
  using assms unfolding announced_def by (metis fun_upd_other)

lemma announced_free: "remote_step t st st' \<Longrightarrow> announced st \<Longrightarrow> announced st'"
  by (erule remote_stepE)
    (auto intro: announced_pc [where t = t] announced_move [where t = t] simp: announced_def [of "_\<lparr>ra_flag := True, ra_pc := _\<rparr>"])

lemma remote_step_head: "remote_step t st st' \<Longrightarrow> ra_head st' = ra_head st \<or> announced st'"
  by (erule remote_stepE) (auto intro: announced_pc [where t = t])

lemma listed_free:
  assumes "remote_step t st st'" "listed st"
  shows "listed st'"
  using assms(2) remote_step_same [OF assms(1)] announced_free [OF assms(1)] remote_step_head [OF assms(1)]
  unfolding listed_def by metis

lemma reason_walk: "a \<noteq> AAlloc \<Longrightarrow> a \<noteq> AFree \<Longrightarrow> a = AWalk"
  by (cases a) simp_all

lemma listed_owner: "owner_step st st' \<Longrightarrow> listed st \<Longrightarrow> listed st'"
  by (erule owner_stepE) (auto simp: listed_def announced_def intro: reason_walk split: if_splits)

lemma listed_other: "other_step st st' \<Longrightarrow> listed st \<Longrightarrow> listed st'"
  by (erule other_stepE) (auto simp: listed_def announced_def)

text \<open>Writing to a word that neither chain runs through keeps the chains.\<close>

lemma linked_write:
  assumes "placed st xs ys \<pi>" "linked st xs ys" "\<pi> x \<noteq> Stacked" "\<pi> x \<noteq> Taken" "\<And>t. \<pi> x \<noteq> Flying t"
  shows "linked (st\<lparr>ra_word := (ra_word st)(x := w)\<rparr>) xs ys"
proof -
  have out: "x \<notin> set xs" "x \<notin> set ys" "\<And>t. flying (ra_pc st t) \<noteq> Some x"
    using assms(1,3-) by (auto simp: placed_def)
  have "ra_pc st t = FSwap y h n \<Longrightarrow> y \<noteq> x" for t y h n
    using out(3) [of t] by auto
  moreover have "stack ((ra_word st)(x := w)) p zs" if "stack (ra_word st) p zs" "x \<notin> set zs" for p zs
    using that(1) by (rule stack_frame) (use that(2) in auto)
  ultimately show ?thesis
    using assms(2) out(1,2) unfolding linked_def by simp
qed

definition chained :: "race \<Rightarrow> bool" where
  "chained st \<longleftrightarrow> (\<exists>xs ys \<pi>. placed st xs ys \<pi> \<and> linked st xs ys)"

lemma chainedI: "placed st xs ys \<pi> \<Longrightarrow> linked st xs ys \<Longrightarrow> chained st"
  unfolding chained_def by blast

text \<open>A CPU that keeps hold of its object and touches neither chain.\<close>

lemma chained_move:
  assumes "chained st" "flying (ra_pc st' t) = flying (ra_pc st t)" "\<forall>x h n. ra_pc st' t \<noteq> FSwap x h n"
    "\<forall>t'. t' \<noteq> t \<longrightarrow> ra_pc st' t' = ra_pc st t'" "ra_objects st' = ra_objects st" "ra_head st' = ra_head st" "ra_word st' = ra_word st"
    "ra_owner st' = ra_owner st" "ra_live st' = ra_live st" "ra_free st' = ra_free st"
  shows "chained st'"
proof -
  obtain xs ys \<pi> where p: "placed st xs ys \<pi>" and l: "linked st xs ys"
    using assms(1) unfolding chained_def by blast
  have "flying (ra_pc st' t') = flying (ra_pc st t')" for t'
    using assms(2,4) by (cases "t' = t") simp_all
  then have "placed st' xs ys \<pi>"
    using p assms(5-) by (simp add: placed_def)
  moreover have "linked st' xs ys"
    using l assms(3-) unfolding linked_def by metis
  ultimately show ?thesis
    by (rule chainedI)
qed

lemma chained_free:
  assumes "remote_step t st st'" "chained st"
  shows "chained st'"
proof -
  obtain xs ys \<pi> where p: "placed st xs ys \<pi>" and l: "linked st xs ys"
    using assms(2) unfolding chained_def by blast
  then have fl: "\<forall>x. flying (ra_pc st t) = Some x \<longleftrightarrow> x \<in> ra_objects st \<and> \<pi> x = Flying t"
    by (simp add: placed_def)
  from assms(1) show ?thesis
  proof cases
    case (begin_free x)
    have "placed st' xs ys (\<pi>(x := Flying t))" "linked st' xs ys"
      using p l fl begin_free by (auto simp: placed_def linked_def)
    then show ?thesis
      by (rule chainedI)
  next
    case (store_link x h n)
    then have x: "x \<in> ra_objects st" "\<pi> x = Flying t"
      using fl by auto
    have p': "placed st' xs ys \<pi>"
      using p fl store_link by (auto simp: placed_def)
    have "x \<notin> set xs" "x \<notin> set ys"
      using p x by (simp_all add: placed_def)
    moreover have "t' = t" if "ra_pc st t' = FSwap x h' n'" for t' h' n'
      using p x that unfolding placed_def by (metis flying.simps(3) place.inject)
    moreover have "stack ((ra_word st)(x := h)) p zs" if "stack (ra_word st) p zs" "x \<notin> set zs" for p zs
      using that(1) by (rule stack_frame) (use that(2) in auto)
    ultimately have "linked st' xs ys"
      using l store_link(1) unfolding linked_def by auto
    with p' show ?thesis
      by (rule chainedI)
  next
    case (cas_ok x h n)
    then have x: "x \<in> ra_objects st" "\<pi> x = Flying t"
      using fl by auto
    have "placed st' (x # xs) ys (\<pi>(x := Stacked))"
      using p fl cas_ok x by (auto simp: placed_def)
    moreover
    have "x \<notin> set xs" "x \<noteq> 0"
      using p l x by (auto simp: placed_def linked_def)
    moreover have "ra_word st x = h"
      using l cas_ok unfolding linked_def by blast
    ultimately show ?thesis
      using l cas_ok by (intro chainedI) (auto simp: linked_def)
  qed (rule chained_move [OF assms(2), where t = t]; simp)+
qed

lemma chained_owner:
  assumes "owner_step st st'" "chained st"
  shows "chained st'"
proof -
  obtain xs ys \<pi> where p: "placed st xs ys \<pi>" and l: "linked st xs ys"
    using assms(2) unfolding chained_def by blast
  from assms(1) show ?thesis
  proof cases
    case (local_free x)
    have "placed st' xs ys (\<pi>(x := Free))" "linked st' xs ys"
      using p l local_free by (auto simp: placed_def linked_def)
    then show ?thesis
      by (rule chainedI)
  next
    case (swap_head a)
    have ys: "ys = []"
      using l swap_head by (cases ys) (auto simp: linked_def)
    have "placed st' [] xs (\<lambda>x. if \<pi> x = Stacked then Taken else \<pi> x)" "linked st' [] xs"
      using p l swap_head ys by (auto simp: placed_def linked_def)
    then show ?thesis
      by (rule chainedI)
  next
    case (drain_one a q)
    then obtain ys' where ys: "ys = q # ys'"
      using l by (cases ys) (auto simp: linked_def)
    then have "q \<in> ra_objects st \<and> \<pi> q = Taken"
      using p unfolding placed_def by (metis list.set_intros(1))
    then have "placed st' xs ys' (\<pi>(q := Free))" "linked st' xs ys'"
      using p l drain_one ys by (auto simp: placed_def linked_def)
    then show ?thesis
      by (rule chainedI)
  next
    case (local_alloc x)
    have "placed st' xs ys (\<pi>(x := Live))" "linked st' xs ys"
      using p l local_alloc by (auto simp: placed_def linked_def)
    then show ?thesis
      by (rule chainedI)
  qed (rule chainedI [of _ xs ys \<pi>]; use p l in \<open>simp add: placed_def linked_def\<close>)+
qed

lemma chained_other:
  assumes "other_step st st'" "chained st"
  shows "chained st'"
proof -
  obtain xs ys \<pi> where p: "placed st xs ys \<pi>" and l: "linked st xs ys"
    using assms(2) unfolding chained_def by blast
  from assms(1) show ?thesis
  proof cases
    case (scribble x w)
    then have "\<pi> x = Live"
      using p by (simp add: placed_def)
    then have "linked st' xs ys"
      unfolding scribble(1) by (intro linked_write [OF p l]) simp_all
    moreover have "placed st' xs ys \<pi>"
      using p scribble by (simp add: placed_def)
    ultimately show ?thesis
      by (intro chainedI)
  qed (rule chainedI [of _ xs ys \<pi>]; use p l in \<open>simp add: placed_def linked_def\<close>)
qed

lemma race_inv_step:
  assumes "race_step st st'" "race_inv st"
  shows "race_inv st'"
  using assms unfolding race_inv_def chained_def [symmetric]
  by (auto elim!: race_step.cases intro: chained_free chained_owner chained_other fresh_reads_free fresh_reads_owner
      fresh_reads_other listed_free listed_owner listed_other)

lemma race_reachable_inv: "race_reachable st \<Longrightarrow> race_inv st"
  by (induction rule: race_reachable.induct) (auto intro: race_start_inv race_inv_step)

section \<open>A run\<close>

text \<open>A slab of two objects; both are allocated and CPU 1 pushes the first one back.\<close>

definition race_begin :: race where
  "race_begin = \<lparr>ra_objects = {8, 16}, ra_head = 0, ra_word = (\<lambda>_. 0), ra_count = 0, ra_flag = False,
     ra_full = False, ra_pc = (\<lambda>_. FIdle), ra_owner = OIdle, ra_live = {}, ra_free = {8, 16}, ra_changes = 0\<rparr>"

definition race_pushed :: race where
  "race_pushed = race_begin\<lparr>ra_live := {16}, ra_free := {}, ra_full := True, ra_head := 8,
     ra_pc := (\<lambda>_. FIdle)(1 := FCount), ra_changes := 1\<rparr>"

definition race_gone :: race where
  "race_gone = race_begin\<lparr>ra_owner := OGone, ra_pc := (\<lambda>_. FIdle)(1 := FCount), ra_changes := 2\<rparr>"

lemma reach_owner: "race_reachable st \<Longrightarrow> owner_step st st' \<Longrightarrow> race_reachable st'"
  by (blast intro: race_reachable.intros race_step.intros)

lemma reach_free: "race_reachable st \<Longrightarrow> remote_step t st st' \<Longrightarrow> race_reachable st'"
  by (blast intro: race_reachable.intros race_step.intros)

lemma race_allocated: "race_reachable (race_begin\<lparr>ra_live := {8, 16}, ra_free := {}, ra_full := True\<rparr>)"
proof -
  have r: "race_reachable race_begin"
    by (intro race_reachable.intros(1)) (simp add: race_start_def race_begin_def)
  have r: "race_reachable (race_begin\<lparr>ra_owner := OLook AAlloc\<rparr>)"
    using reach_owner [OF r begin_alloc] by (simp add: race_begin_def)
  have r: "race_reachable (race_begin\<lparr>ra_owner := OEnd AAlloc\<rparr>)"
    using reach_owner [OF r look_none] by (simp add: race_begin_def)
  have r: "race_reachable (race_begin\<lparr>ra_live := {8}, ra_free := {16}\<rparr>)"
    using reach_owner [OF r local_alloc [where x = 8]] by (simp add: race_begin_def)
  have r: "race_reachable (race_begin\<lparr>ra_live := {8}, ra_free := {16}, ra_owner := OLook AAlloc\<rparr>)"
    using reach_owner [OF r begin_alloc] by (simp add: race_begin_def)
  have r: "race_reachable (race_begin\<lparr>ra_live := {8}, ra_free := {16}, ra_owner := OEnd AAlloc\<rparr>)"
    using reach_owner [OF r look_none] by (simp add: race_begin_def)
  have r: "race_reachable (race_begin\<lparr>ra_live := {8, 16}, ra_free := {}, ra_owner := OLast\<rparr>)"
    using reach_owner [OF r local_alloc [where x = 16]] by (simp add: race_begin_def insert_commute)
  show ?thesis
    using reach_owner [OF r last_object] by (simp add: race_begin_def)
qed

lemma race_pushed_reachable: "race_reachable race_pushed"
proof -
  have r: "race_reachable (race_begin\<lparr>ra_live := {16}, ra_free := {}, ra_full := True,
      ra_pc := (\<lambda>_. FIdle)(1 := FLoad 8)\<rparr>)"
    using reach_free [OF race_allocated begin_free [where t = 1 and x = 8]] by (simp add: race_begin_def)
  have r: "race_reachable (race_begin\<lparr>ra_live := {16}, ra_free := {}, ra_full := True,
      ra_pc := (\<lambda>_. FIdle)(1 := FStore 8 0 0)\<rparr>)"
    using reach_free [OF r load_head [where t = 1 and x = 8]] by (simp add: race_begin_def)
  have r: "race_reachable (race_begin\<lparr>ra_live := {16}, ra_free := {}, ra_full := True,
      ra_pc := (\<lambda>_. FIdle)(1 := FSwap 8 0 0)\<rparr>)"
    using reach_free [OF r store_link [where t = 1 and x = 8]] by (simp add: race_begin_def fun_upd_idem)
  show ?thesis
    using reach_free [OF r cas_ok [where t = 1 and x = 8]] by (simp add: race_begin_def race_pushed_def)
qed

text \<open>The owner frees the other object, drains the stack and returns the slab while CPU 1 still has to count
  its free in the header.\<close>

lemma race_gone_reachable: "race_reachable race_gone"
proof -
  define st where "st = race_begin\<lparr>ra_free := {16}, ra_pc := (\<lambda>_. FIdle)(1 := FCount)\<rparr>"
  note run = st_def race_begin_def race_pushed_def race_gone_def
  have r: "race_reachable (st\<lparr>ra_head := 8, ra_changes := 1, ra_owner := OLook AFree\<rparr>)"
    using reach_owner [OF race_pushed_reachable local_free [where x = 16]] by (simp add: run)
  have r: "race_reachable (st\<lparr>ra_head := 8, ra_changes := 1, ra_owner := OSwap AFree\<rparr>)"
    using reach_owner [OF r look_some] by (simp add: run)
  have r: "race_reachable (st\<lparr>ra_changes := 2, ra_owner := ODrain AFree 8\<rparr>)"
    using reach_owner [OF r swap_head] by (simp add: run numeral_2_eq_2)
  have r: "race_reachable (st\<lparr>ra_free := {8, 16}, ra_changes := 2, ra_owner := ODrain AFree 0\<rparr>)"
    using reach_owner [OF r drain_one] by (simp add: run)
  have r: "race_reachable (st\<lparr>ra_free := {8, 16}, ra_changes := 2, ra_owner := OEnd AFree\<rparr>)"
    using reach_owner [OF r drain_end] by (simp add: run)
  show ?thesis
    using reach_owner [OF r return_slab] by (simp add: run)
qed

section \<open>What the protocol guarantees\<close>

lemma placed_partition:
  assumes "placed st xs ys \<pi>"
  defines "held \<equiv> {x. \<exists>t. flying (ra_pc st t) = Some x}"
  shows "ra_objects st = ra_live st \<union> ra_free st \<union> held \<union> set xs \<union> set ys"
    "ra_live st \<inter> ra_free st = {}" "(ra_live st \<union> ra_free st) \<inter> (held \<union> set xs \<union> set ys) = {}"
    "held \<inter> (set xs \<union> set ys) = {}" "set xs \<inter> set ys = {}"
    "\<forall>t t' x. flying (ra_pc st t) = Some x \<and> flying (ra_pc st t') = Some x \<longrightarrow> t = t'"
proof -
  have "x \<in> ra_live st \<longleftrightarrow> x \<in> ra_objects st \<and> \<pi> x = Live" "x \<in> ra_free st \<longleftrightarrow> x \<in> ra_objects st \<and> \<pi> x = Free"
    "x \<in> held \<longleftrightarrow> x \<in> ra_objects st \<and> (\<exists>t. \<pi> x = Flying t)" "x \<in> set xs \<longleftrightarrow> x \<in> ra_objects st \<and> \<pi> x = Stacked"
    "x \<in> set ys \<longleftrightarrow> x \<in> ra_objects st \<and> \<pi> x = Taken" for x
    using assms unfolding placed_def by auto
  note at = this
  have "x \<in> ra_objects st \<longleftrightarrow> x \<in> ra_live st \<union> ra_free st \<union> held \<union> set xs \<union> set ys" for x
    unfolding Un_iff at by (cases "\<pi> x") auto
  then show "ra_objects st = ra_live st \<union> ra_free st \<union> held \<union> set xs \<union> set ys"
    by blast
  show "ra_live st \<inter> ra_free st = {}" "(ra_live st \<union> ra_free st) \<inter> (held \<union> set xs \<union> set ys) = {}"
    "held \<inter> (set xs \<union> set ys) = {}" "set xs \<inter> set ys = {}"
    using at by auto
  show "\<forall>t t' x. flying (ra_pc st t) = Some x \<and> flying (ra_pc st t') = Some x \<longrightarrow> t = t'"
    using assms(1) unfolding placed_def by (metis place.inject)
qed

text \<open>C5: Whatever the interleaving of the freeing CPUs with the owner, no object of a slab is lost and none
  is in two places: every object is either held by a client, free in the bitmap, in the hands of exactly one
  freeing CPU, on the remote-free stack, or on the chain the owner is draining, and both chains are intact.
  When the owner finds every object free, the stack is empty, so the assertion of \<open>prepare_for_buddy_free\<close>
  holds.\<close>

theorem remote_free_conserves:
  assumes "race_reachable st"
  defines "held \<equiv> {x. \<exists>t. flying (ra_pc st t) = Some x}"
  shows "(\<exists>xs ys. stack (ra_word st) (ra_head st) xs \<and> stack (ra_word st) (taken (ra_owner st)) ys \<and>
      distinct xs \<and> distinct ys \<and> set xs \<inter> set ys = {} \<and>
      ra_objects st = ra_live st \<union> ra_free st \<union> held \<union> set xs \<union> set ys \<and> ra_live st \<inter> ra_free st = {} \<and>
      (ra_live st \<union> ra_free st) \<inter> (held \<union> set xs \<union> set ys) = {} \<and> held \<inter> (set xs \<union> set ys) = {}) \<and>
    (\<forall>t t' x. flying (ra_pc st t) = Some x \<and> flying (ra_pc st t') = Some x \<longrightarrow> t = t') \<and>
    (ra_free st = ra_objects st \<longrightarrow> ra_head st = 0)"
proof -
  obtain xs ys \<pi> where p: "placed st xs ys \<pi>" and l: "linked st xs ys"
    using race_reachable_inv [OF assms(1)] unfolding race_inv_def by blast
  note part = placed_partition [OF p, folded held_def]
  have "xs = []" if "ra_free st = ra_objects st"
    using part(1,3) that by (cases xs) auto
  then have "ra_free st = ra_objects st \<longrightarrow> ra_head st = 0"
    using l by (auto simp: linked_def)
  moreover have "stack (ra_word st) (ra_head st) xs" "stack (ra_word st) (taken (ra_owner st)) ys" "distinct xs" "distinct ys"
    using l by (simp_all add: linked_def)
  ultimately show ?thesis
    using part by blast
qed

theorem remote_free_conserves_witness:
  "ra_head race_pushed = 8 \<and> (\<exists>xs. stack (ra_word race_pushed) 8 xs \<and> set xs \<inter> ra_live race_pushed = {})"
  using remote_free_conserves [OF race_pushed_reachable] by (auto simp: race_pushed_def race_begin_def)

section \<open>Progress\<close>

lemma announce_run:
  assumes "ra_pc st t = FCount \<or> ra_pc st t = FMark"
  shows "\<exists>c. (remote_step t)\<^sup>*\<^sup>* st (st\<lparr>ra_count := c, ra_flag := True, ra_pc := (ra_pc st)(t := FIdle)\<rparr>)"
proof (cases "ra_pc st t = FMark")
  case True
  then have "remote_step t st (st\<lparr>ra_count := ra_count st, ra_flag := True, ra_pc := (ra_pc st)(t := FIdle)\<rparr>)"
    using mark [of st t] by simp
  then show ?thesis
    by blast
next
  case False
  with assms have c: "ra_pc st t = FCount"
    by simp
  define st1 where "st1 = st\<lparr>ra_count := as_u32 (ra_count st + 1), ra_pc := (ra_pc st)(t := FMark)\<rparr>"
  have "remote_step t st st1"
    unfolding st1_def using c by (rule count)
  moreover have "remote_step t st1 (st1\<lparr>ra_flag := True, ra_pc := (ra_pc st1)(t := FIdle)\<rparr>)"
    by (rule mark) (simp add: st1_def)
  ultimately have "(remote_step t)\<^sup>*\<^sup>* st (st1\<lparr>ra_flag := True, ra_pc := (ra_pc st1)(t := FIdle)\<rparr>)"
    by (meson converse_rtranclp_into_rtranclp r_into_rtranclp)
  then show ?thesis
    by (auto simp: st1_def)
qed

text \<open>A CPU that runs alone pushes its object: a push that read the current head succeeds, any other attempt
  goes back to reading the head.\<close>

definition pushes :: "nat \<Rightarrow> usize \<Rightarrow> race \<Rightarrow> bool" where
  "pushes t x st \<longleftrightarrow> (\<exists>st'. (remote_step t)\<^sup>*\<^sup>* st st' \<and> ra_pc st' t = FIdle \<and> ra_flag st' \<and> ra_head st' = x)"

lemma pushes_step: "remote_step t st st' \<Longrightarrow> pushes t x st' \<Longrightarrow> pushes t x st"
  unfolding pushes_def by (blast intro: converse_rtranclp_into_rtranclp)

lemma pushes_FCount:
  assumes "ra_pc st t = FCount \<or> ra_pc st t = FMark"
  shows "pushes t (ra_head st) st"
proof -
  obtain c where "(remote_step t)\<^sup>*\<^sup>* st (st\<lparr>ra_count := c, ra_flag := True, ra_pc := (ra_pc st)(t := FIdle)\<rparr>)"
    using announce_run [OF assms] by blast
  moreover define st1 where "st1 = st\<lparr>ra_count := c, ra_flag := True, ra_pc := (ra_pc st)(t := FIdle)\<rparr>"
  ultimately have "(remote_step t)\<^sup>*\<^sup>* st st1" "ra_pc st1 t = FIdle" "ra_flag st1" "ra_head st1 = ra_head st"
    by simp_all
  then show ?thesis
    unfolding pushes_def by blast
qed

lemma pushes_FSwap_current:
  assumes "ra_pc st t = FSwap x (ra_head st) n"
  shows "pushes t x st"
  by (rule pushes_step [OF cas_ok [OF assms refl]])
    (use pushes_FCount [of "st\<lparr>ra_head := x, ra_changes := Suc (ra_changes st), ra_pc := (ra_pc st)(t := FCount)\<rparr>" t] in simp)

lemma pushes_FLoad:
  assumes "ra_pc st t = FLoad x"
  shows "pushes t x st"
proof (rule pushes_step [OF load_head [OF assms]], rule pushes_step [OF store_link])
  show "ra_pc (st\<lparr>ra_pc := (ra_pc st)(t := FStore x (ra_head st) (ra_changes st))\<rparr>) t = FStore x (ra_head st) (ra_changes st)"
    by simp
qed (rule pushes_FSwap_current, simp)

lemma pushes_FSwap:
  assumes "ra_pc st t = FSwap x h n"
  shows "pushes t x st"
  by (rule pushes_step [OF cas_fail [OF assms]], rule pushes_FLoad) simp

lemma pushes_FStore:
  assumes "ra_pc st t = FStore x h n"
  shows "pushes t x st"
  by (rule pushes_step [OF store_link [OF assms]], rule pushes_FSwap) simp

text \<open>C7: \<open>remote_free\<close> is lock-free. From any reachable state a CPU in the middle of a free finishes by its own
  steps alone: its object is then on the top of the stack and the free is announced. And it can be sent back by
  a stale head only when the stack has changed since it read the head, that is, when another CPU's push or the
  owner's drain has succeeded in the meantime.\<close>

theorem remote_free_progress:
  assumes "race_reachable st"
  shows "(\<forall>x. flying (ra_pc st t) = Some x \<longrightarrow>
      (\<exists>st'. (remote_step t)\<^sup>*\<^sup>* st st' \<and> ra_pc st' t = FIdle \<and> ra_flag st' \<and> ra_head st' = x)) \<and>
    (\<forall>x h n. ra_pc st t = FSwap x h n \<and> ra_head st \<noteq> h \<longrightarrow> n < ra_changes st)"
proof -
  have "pushes t x st" if "flying (ra_pc st t) = Some x" for x
    using that by (cases "ra_pc st t") (auto intro: pushes_FLoad pushes_FStore pushes_FSwap)
  moreover have "fresh_reads st"
    using race_reachable_inv [OF assms] by (simp add: race_inv_def)
  ultimately show ?thesis
    unfolding pushes_def fresh_reads_def by blast
qed

lemma drain_run:
  "stack (ra_word st) p ys \<Longrightarrow> ra_owner st = ODrain a p \<Longrightarrow>
   owner_step\<^sup>*\<^sup>* st (st\<lparr>ra_free := ra_free st \<union> set ys, ra_owner := ODrain a 0\<rparr>)"
proof (induction ys arbitrary: st p)
  case Nil
  then have "st\<lparr>ra_free := ra_free st \<union> set [], ra_owner := ODrain a 0\<rparr> = st"
    by simp
  then show ?case
    by simp
next
  case (Cons y ys)
  define st1 where "st1 = st\<lparr>ra_free := insert p (ra_free st), ra_owner := ODrain a (ra_word st p)\<rparr>"
  have p: "p = y" "p \<noteq> 0" "stack (ra_word st1) (ra_word st p) ys"
    using Cons.prems(1) by (simp_all add: st1_def)
  have "owner_step st st1"
    unfolding st1_def using Cons.prems(2) p(2) by (rule drain_one)
  also have "owner_step\<^sup>*\<^sup>* st1 (st1\<lparr>ra_free := ra_free st1 \<union> set ys, ra_owner := ODrain a 0\<rparr>)"
    by (rule Cons.IH [OF p(3)]) (simp add: st1_def)
  also have "st1\<lparr>ra_free := ra_free st1 \<union> set ys, ra_owner := ODrain a 0\<rparr> =
      st\<lparr>ra_free := ra_free st \<union> set (y # ys), ra_owner := ODrain a 0\<rparr>"
    by (simp add: st1_def p(1))
  finally show ?case .
qed

lemma walk_run:
  assumes "ra_owner st = OIdle" "ra_full st" "ra_flag st" "ra_head st \<noteq> 0" "stack (ra_word st) (ra_head st) xs"
  shows "\<exists>st'. owner_step\<^sup>*\<^sup>* st st' \<and> ra_free st' = ra_free st \<union> set xs \<and> \<not> ra_full st' \<and> ra_owner st' = OIdle"
proof -
  define st1 where "st1 = st\<lparr>ra_flag := False, ra_owner := OLook AWalk\<rparr>"
  define st2 where "st2 = st1\<lparr>ra_owner := OSwap AWalk\<rparr>"
  define st3 where "st3 = st2\<lparr>ra_head := 0, ra_changes := Suc (ra_changes st2), ra_count := 0,
      ra_owner := ODrain AWalk (ra_head st2)\<rparr>"
  define st4 where "st4 = st3\<lparr>ra_free := ra_free st3 \<union> set xs, ra_owner := ODrain AWalk 0\<rparr>"
  define st5 where "st5 = st4\<lparr>ra_full := False, ra_owner := OIdle\<rparr>"
  note defs = st1_def st2_def st3_def st4_def st5_def
  have "owner_step\<^sup>*\<^sup>* st st1"
    using r_into_rtranclp [of owner_step, OF take [OF assms(1)]] assms(2,3) by (simp add: st1_def)
  also have "owner_step st1 st2"
    using look_some [of st1 AWalk] assms(4) by (simp add: defs)
  also have "owner_step st2 st3"
    using swap_head [of st2 AWalk] by (simp add: defs)
  also have "owner_step\<^sup>*\<^sup>* st3 st4"
    unfolding st4_def by (rule drain_run) (use assms(5) in \<open>simp_all add: defs\<close>)
  also have "owner_step st4 st5"
    using drain_end [of st4 AWalk] by (simp add: defs)
  finally have "owner_step\<^sup>*\<^sup>* st st5" .
  moreover have "ra_free st5 = ra_free st \<union> set xs" "\<not> ra_full st5" "ra_owner st5 = OIdle"
    by (simp_all add: defs)
  ultimately show ?thesis
    by blast
qed

text \<open>C6: A free pending on a full slab is never forgotten. From any reachable state in which the owner is idle
  and objects \<open>xs\<close> are on the stack of a full slab, the announcement is set, or a CPU that pushed needs only its
  own next steps to set it; then the owner's next walk returns all of \<open>xs\<close> to the bitmap and takes the slab off
  the full list.\<close>

theorem pending_free_reclaimed:
  assumes "race_reachable st" "ra_owner st = OIdle" "ra_full st" "stack (ra_word st) (ra_head st) xs" "xs \<noteq> []"
  shows "\<exists>t st1 st2. (remote_step t)\<^sup>*\<^sup>* st st1 \<and> owner_step\<^sup>*\<^sup>* st1 st2 \<and> set xs \<subseteq> ra_free st2 \<and> \<not> ra_full st2 \<and>
    (ra_flag st \<longrightarrow> st1 = st)"
proof -
  have h: "ra_head st \<noteq> 0"
    using assms(4,5) by (cases xs) auto
  have "listed st"
    using race_reachable_inv [OF assms(1)] by (simp add: race_inv_def)
  then consider (flag) "ra_flag st" | (busy) t where "\<not> ra_flag st" "ra_pc st t = FCount \<or> ra_pc st t = FMark"
    using assms(2,3) h unfolding listed_def announced_def by auto
  then show ?thesis
  proof cases
    case flag
    from walk_run [OF assms(2,3) this h assms(4)] show ?thesis
      by blast
  next
    case (busy t)
    from announce_run [OF busy(2)] obtain c where
      run: "(remote_step t)\<^sup>*\<^sup>* st (st\<lparr>ra_count := c, ra_flag := True, ra_pc := (ra_pc st)(t := FIdle)\<rparr>)" ..
    define st1 where "st1 = st\<lparr>ra_count := c, ra_flag := True, ra_pc := (ra_pc st)(t := FIdle)\<rparr>"
    have "\<exists>st'. owner_step\<^sup>*\<^sup>* st1 st' \<and> ra_free st' = ra_free st1 \<union> set xs \<and> \<not> ra_full st' \<and> ra_owner st' = OIdle"
      by (rule walk_run) (use assms h in \<open>simp_all add: st1_def\<close>)
    with run [folded st1_def] busy(1) show ?thesis
      by blast
  qed
qed

theorem remote_free_progress_witness:
  "\<exists>st'. (remote_step 2)\<^sup>*\<^sup>* (race_pushed\<lparr>ra_pc := (ra_pc race_pushed)(2 := FLoad 16), ra_live := {}\<rparr>) st' \<and> ra_head st' = 16"
proof -
  have "race_reachable (race_pushed\<lparr>ra_pc := (ra_pc race_pushed)(2 := FLoad 16), ra_live := {}\<rparr>)"
    using reach_free [OF race_pushed_reachable begin_free [where t = 2 and x = 16]]
    by (simp add: race_pushed_def race_begin_def)
  from remote_free_progress [OF this, of 2] show ?thesis
    by auto
qed

theorem pending_free_reclaimed_witness:
  "\<exists>t st1 st2. (remote_step t)\<^sup>*\<^sup>* race_pushed st1 \<and> owner_step\<^sup>*\<^sup>* st1 st2 \<and> 8 \<in> ra_free st2 \<and> \<not> ra_full st2"
  using pending_free_reclaimed [OF race_pushed_reachable, of "[8]"] by (auto simp: race_pushed_def race_begin_def)

text \<open>C13: A freeing CPU may still be about to update the counter in the header of a slab whose pages the owner has
  already returned to the page allocator: its push made the last object visible to the owner before the counter
  was updated, and the step that updates it is still taken.\<close>

theorem header_written_after_return:
  "\<exists>st t. race_reachable st \<and> ra_owner st = OGone \<and> ra_pc st t = FCount \<and>
     remote_step t st (st\<lparr>ra_count := as_u32 (ra_count st + 1), ra_pc := (ra_pc st)(t := FMark)\<rparr>)"
proof (intro exI conjI)
  show "race_reachable race_gone"
    by (rule race_gone_reachable)
  show "ra_owner race_gone = OGone"
    by (simp add: race_gone_def)
  show pc: "ra_pc race_gone 1 = FCount"
    by (simp add: race_gone_def)
  show "remote_step 1 race_gone (race_gone\<lparr>ra_count := as_u32 (ra_count race_gone + 1), ra_pc := (ra_pc race_gone)(1 := FMark)\<rparr>)"
    using pc by (rule count)
qed

end
