(* ===== verification/Cgroup.thy ===== *)
theory Cgroup
  imports BTreeMap "HOL-Library.AList"
begin

text \<open>
  The cgroup hierarchy and its pids controller (\<open>components/ax-cgroup\<close>): the counters of one node
  (\<open>pids.rs\<close>), the tree of nodes (\<open>node.rs\<close>), and the ledger of tasks with the fork guard
  (\<open>membership.rs\<close>, \<open>lib.rs\<close>, \<open>namespace.rs\<close>).

  A node is an index into the list of all nodes ever created, so that \<open>Arc::ptr_eq\<close> is equality; a node whose
  last strong reference is gone is in \<open>cg_freed\<close>, and a weak reference to it does not upgrade. Every operation on
  the ledger holds its lock, so an operation is one step. Numbers are \<open>u64\<close>.
\<close>

type_synonym u64 = nat
type_synonym process_id = nat
type_synonym node_id = nat

datatype cgroup_error =
  NotInitialized | NotFound | AlreadyExists | ResourceBusy | LimitExceeded | InvalidInput | NoSuchProcess |
  DirectoryNotEmpty

type_synonym 'a cgroup_result = "cgroup_error + 'a"

definition process_id_new :: "u64 \<Rightarrow> process_id option" where
  "process_id_new i = (if i = 0 then None else Some i)"

section \<open>pids.rs\<close>

definition UNLIMITED :: u64 where
  "UNLIMITED = usize_max"

record pids_state =
  ps_current :: u64
  ps_peak :: u64
  ps_maximum :: u64
  ps_max_events :: u64

definition pids_new :: pids_state where
  "pids_new = \<lparr>ps_current = 0, ps_peak = 0, ps_maximum = UNLIMITED, ps_max_events = 0\<rparr>"

definition try_charge :: "pids_state \<Rightarrow> pids_state cgroup_result" where
  "try_charge s =
     (let current = ps_current s; maximum = ps_maximum s in
      if current \<ge> maximum \<or> current = UNLIMITED then Inl LimitExceeded
      else Inr (s\<lparr>ps_current := usize_add current 1, ps_peak := max (ps_peak s) (usize_add current 1)\<rparr>))"

definition charge_unchecked :: "pids_state \<Rightarrow> u64 \<Rightarrow> pids_state" where
  "charge_unchecked s count =
     (let previous = ps_current s in
      s\<lparr>ps_current := usize_add previous count, ps_peak := max (ps_peak s) (usize_add previous count)\<rparr>)"

definition uncharge :: "pids_state \<Rightarrow> u64 \<Rightarrow> pids_state" where
  "uncharge s count = s\<lparr>ps_current := usize_sub (ps_current s) count\<rparr>"

definition record_max :: "pids_state \<Rightarrow> pids_state" where
  "record_max s = s\<lparr>ps_max_events := usize_add (ps_max_events s) 1\<rparr>"

text \<open>Decimal text of a number, and reading it back as \<open>str::parse\<close> does: an optional plus sign, then at least one
  digit, and the value must fit.\<close>

definition digit_char :: "nat \<Rightarrow> char" where
  "digit_char d = char_of (48 + d)"

fun decimal :: "nat \<Rightarrow> string" where
  "decimal n = (if n < 10 then [digit_char n] else decimal (n div 10) @ [digit_char (n mod 10)])"

declare decimal.simps [simp del]

definition digit_value :: "char \<Rightarrow> nat option" where
  "digit_value c = (let k = of_char c in if 48 \<le> k \<and> k \<le> 57 then Some (k - 48) else None)"

fun parse_digits :: "u64 \<Rightarrow> string \<Rightarrow> u64 option" where
  "parse_digits acc [] = Some acc"
| "parse_digits acc (c # cs) = (case digit_value c of
     None \<Rightarrow> None
   | Some d \<Rightarrow> if acc * 10 + d < usize_lim then parse_digits (acc * 10 + d) cs else None)"

definition parse_u64 :: "string \<Rightarrow> u64 option" where
  "parse_u64 text =
     (let digits = (case text of c # cs \<Rightarrow> if c = CHR ''+'' then cs else text | [] \<Rightarrow> []) in
      if digits = [] then None else parse_digits 0 digits)"

text \<open>\<open>str::trim\<close> on ASCII text.\<close>

definition is_space :: "char \<Rightarrow> bool" where
  "is_space c \<longleftrightarrow> of_char c \<in> {9::nat, 10, 11, 12, 13, 32}"

definition trim :: "string \<Rightarrow> string" where
  "trim text = rev (dropWhile is_space (rev (dropWhile is_space text)))"

definition newline :: string where
  "newline = [char_of (10::nat)]"

definition maximum_text :: "pids_state \<Rightarrow> string" where
  "maximum_text s = (if ps_maximum s = UNLIMITED then ''max'' @ newline else decimal (ps_maximum s) @ newline)"

definition current_text :: "pids_state \<Rightarrow> string" where
  "current_text s = decimal (ps_current s) @ newline"

definition peak_text :: "pids_state \<Rightarrow> string" where
  "peak_text s = decimal (ps_peak s) @ newline"

definition events_text :: "pids_state \<Rightarrow> string" where
  "events_text s = ''max '' @ decimal (ps_max_events s) @ newline"

definition set_maximum :: "pids_state \<Rightarrow> string \<Rightarrow> pids_state cgroup_result" where
  "set_maximum s text =
     (let t = trim text in
      if t = ''max'' then Inr (s\<lparr>ps_maximum := UNLIMITED\<rparr>)
      else case parse_u64 t of
        Some v \<Rightarrow> if v \<noteq> UNLIMITED then Inr (s\<lparr>ps_maximum := v\<rparr>) else Inl InvalidInput
      | None \<Rightarrow> Inl InvalidInput)"

section \<open>node.rs\<close>

record cgroup_node =
  cn_id :: u64
  cn_name :: string
  cn_parent :: "node_id option"
  cn_children :: "(string \<times> node_id) list"
  cn_members :: "process_id set"
  cn_pids :: pids_state
  cn_pids_enabled_for_children :: bool
  cn_pins :: usize

record task_membership =
  tm_process_id :: process_id
  tm_cgroup :: node_id

record membership_state =
  ms_pending_tasks :: "process_id btree"
  ms_tasks :: "task_membership btree"

text \<open>The statics: the nodes with the root at index 0 once initialised, the counter of node ids and the ledger.\<close>

record cgroups =
  cg_nodes :: "cgroup_node list"
  cg_freed :: "node_id set"
  cg_next_id :: u64
  cg_ledger :: "membership_state option"

definition node_at :: "cgroups \<Rightarrow> node_id \<Rightarrow> cgroup_node" where
  "node_at st n = cg_nodes st ! n"

definition upd_node :: "cgroups \<Rightarrow> node_id \<Rightarrow> (cgroup_node \<Rightarrow> cgroup_node) \<Rightarrow> cgroups" where
  "upd_node st n f = st\<lparr>cg_nodes := (cg_nodes st)[n := f (node_at st n)]\<rparr>"

definition upd_pids :: "cgroups \<Rightarrow> node_id \<Rightarrow> (pids_state \<Rightarrow> pids_state) \<Rightarrow> cgroups" where
  "upd_pids st n f = upd_node st n (\<lambda>nd. nd\<lparr>cn_pids := f (cn_pids nd)\<rparr>)"

definition new_node :: "u64 \<Rightarrow> string \<Rightarrow> node_id option \<Rightarrow> cgroup_node" where
  "new_node i name parent = \<lparr>cn_id = i, cn_name = name, cn_parent = parent, cn_children = [], cn_members = {},
     cn_pids = pids_new, cn_pids_enabled_for_children = False, cn_pins = 0\<rparr>"

definition new_root :: cgroup_node where
  "new_root = new_node 1 [] None"

definition parent :: "cgroups \<Rightarrow> node_id \<Rightarrow> node_id option" where
  "parent st n = (case cn_parent (node_at st n) of
     Some p \<Rightarrow> if p \<in> cg_freed st then None else Some p
   | None \<Rightarrow> None)"

definition available_controllers :: "cgroups \<Rightarrow> node_id \<Rightarrow> string list" where
  "available_controllers st n =
     (if cn_parent (node_at st n) = None \<or>
         (case parent st n of Some p \<Rightarrow> cn_pids_enabled_for_children (node_at st p) | None \<Rightarrow> False)
      then [''pids''] else [])"

definition enabled_subtree_controllers :: "cgroups \<Rightarrow> node_id \<Rightarrow> string list" where
  "enabled_subtree_controllers st n = (if cn_pids_enabled_for_children (node_at st n) then [''pids''] else [])"

definition write_subtree_control :: "cgroups \<Rightarrow> node_id \<Rightarrow> string \<Rightarrow> cgroups cgroup_result" where
  "write_subtree_control st n data =
     (if trim data \<noteq> ''+pids'' \<or> ''pids'' \<notin> set (available_controllers st n) then Inl InvalidInput
      else Inr (upd_node st n (\<lambda>nd. nd\<lparr>cn_pids_enabled_for_children := True\<rparr>)))"

definition has_pids_interface :: "cgroups \<Rightarrow> node_id \<Rightarrow> bool" where
  "has_pids_interface st n \<longleftrightarrow> cn_parent (node_at st n) \<noteq> None \<and> ''pids'' \<in> set (available_controllers st n)"

definition pids_text :: "(pids_state \<Rightarrow> string) \<Rightarrow> cgroups \<Rightarrow> node_id \<Rightarrow> string cgroup_result" where
  "pids_text render st n = (if has_pids_interface st n then Inr (render (cn_pids (node_at st n))) else Inl NotFound)"

definition pids_max_text :: "cgroups \<Rightarrow> node_id \<Rightarrow> string cgroup_result" where
  "pids_max_text = pids_text maximum_text"

definition pids_current_text :: "cgroups \<Rightarrow> node_id \<Rightarrow> string cgroup_result" where
  "pids_current_text = pids_text current_text"

definition pids_peak_text :: "cgroups \<Rightarrow> node_id \<Rightarrow> string cgroup_result" where
  "pids_peak_text = pids_text peak_text"

definition pids_events_text :: "cgroups \<Rightarrow> node_id \<Rightarrow> string cgroup_result" where
  "pids_events_text = pids_text events_text"

definition write_pids_max :: "cgroups \<Rightarrow> node_id \<Rightarrow> string \<Rightarrow> cgroups cgroup_result" where
  "write_pids_max st n data =
     (if has_pids_interface st n then
        case set_maximum (cn_pids (node_at st n)) data of
          Inl e \<Rightarrow> Inl e
        | Inr s \<Rightarrow> Inr (upd_pids st n (\<lambda>_. s))
      else Inl NotFound)"

definition create_child :: "cgroups \<Rightarrow> node_id \<Rightarrow> string \<Rightarrow> (node_id \<times> cgroups) cgroup_result" where
  "create_child st n name =
     (if name = [] \<or> name = ''.'' \<or> name = ''..'' \<or> CHR ''/'' \<in> set name then Inl InvalidInput
      else if map_of (cn_children (node_at st n)) name \<noteq> None then Inl AlreadyExists
      else
        let child = length (cg_nodes st);
            st1 = st\<lparr>cg_nodes := cg_nodes st @ [new_node (cg_next_id st) name (Some n)],
                     cg_next_id := usize_add (cg_next_id st) 1\<rparr> in
        Inr (child, upd_node st1 n (\<lambda>nd. nd\<lparr>cn_children := AList.update name child (cn_children nd)\<rparr>)))"

definition lookup_child :: "cgroups \<Rightarrow> node_id \<Rightarrow> string \<Rightarrow> node_id cgroup_result" where
  "lookup_child st n name = (case map_of (cn_children (node_at st n)) name of Some c \<Rightarrow> Inr c | None \<Rightarrow> Inl NotFound)"

definition remove_child :: "cgroups \<Rightarrow> node_id \<Rightarrow> string \<Rightarrow> cgroups cgroup_result" where
  "remove_child st n name =
     (case map_of (cn_children (node_at st n)) name of
        None \<Rightarrow> Inl NotFound
      | Some child \<Rightarrow>
          if cn_children (node_at st child) \<noteq> [] then Inl DirectoryNotEmpty
          else if cn_members (node_at st child) \<noteq> {} \<or> cn_pins (node_at st child) \<noteq> 0 then Inl ResourceBusy
          else Inr (upd_node st n (\<lambda>nd. nd\<lparr>cn_children := AList.delete name (cn_children nd)\<rparr>)))"

definition members :: "cgroups \<Rightarrow> node_id \<Rightarrow> process_id list" where
  "members st n = sorted_list_of_set (cn_members (node_at st n))"

definition add_member :: "cgroups \<Rightarrow> node_id \<Rightarrow> process_id \<Rightarrow> bool \<times> cgroups" where
  "add_member st n pid =
     (pid \<notin> cn_members (node_at st n), upd_node st n (\<lambda>nd. nd\<lparr>cn_members := insert pid (cn_members nd)\<rparr>))"

definition remove_member :: "cgroups \<Rightarrow> node_id \<Rightarrow> process_id \<Rightarrow> bool \<times> cgroups" where
  "remove_member st n pid =
     (pid \<in> cn_members (node_at st n), upd_node st n (\<lambda>nd. nd\<lparr>cn_members := cn_members nd - {pid}\<rparr>))"

definition has_member :: "cgroups \<Rightarrow> node_id \<Rightarrow> process_id \<Rightarrow> bool" where
  "has_member st n pid \<longleftrightarrow> pid \<in> cn_members (node_at st n)"

definition try_charge_pids :: "cgroups \<Rightarrow> node_id \<Rightarrow> cgroups cgroup_result" where
  "try_charge_pids st n = (case try_charge (cn_pids (node_at st n)) of
     Inl e \<Rightarrow> Inl e
   | Inr s \<Rightarrow> Inr (upd_pids st n (\<lambda>_. s)))"

definition charge_pids_unchecked :: "cgroups \<Rightarrow> node_id \<Rightarrow> u64 \<Rightarrow> cgroups" where
  "charge_pids_unchecked st n count = upd_pids st n (\<lambda>s. charge_unchecked s count)"

definition uncharge_pids :: "cgroups \<Rightarrow> node_id \<Rightarrow> u64 \<Rightarrow> cgroups" where
  "uncharge_pids st n count = upd_pids st n (\<lambda>s. uncharge s count)"

definition record_pids_max_event :: "cgroups \<Rightarrow> node_id \<Rightarrow> cgroups" where
  "record_pids_max_event st n = upd_pids st n record_max"

definition pin :: "cgroups \<Rightarrow> node_id \<Rightarrow> cgroups" where
  "pin st n = upd_node st n (\<lambda>nd. nd\<lparr>cn_pins := usize_add (cn_pins nd) 1\<rparr>)"

definition pin_drop :: "cgroups \<Rightarrow> node_id \<Rightarrow> cgroups" where
  "pin_drop st n = upd_node st n (\<lambda>nd. nd\<lparr>cn_pins := usize_sub (cn_pins nd) 1\<rparr>)"

text \<open>The loop over the parents.\<close>

partial_function (option) ancestry :: "cgroups \<Rightarrow> node_id \<Rightarrow> node_id list option" where
  "ancestry st n = (case parent st n of
     None \<Rightarrow> Some [n]
   | Some p \<Rightarrow> do { ns \<leftarrow> ancestry st p; Some (n # ns) })"

text \<open>The two counters that run back over a common end of two paths.\<close>

fun common_end :: "node_id list \<Rightarrow> node_id list \<Rightarrow> nat \<Rightarrow> nat \<Rightarrow> nat \<times> nat" where
  "common_end old target (Suc i) (Suc j) =
     (if old ! i = target ! j then common_end old target i j else (Suc i, Suc j))"
| "common_end old target i j = (i, j)"

definition relative_path :: "cgroups \<Rightarrow> node_id \<Rightarrow> node_id \<Rightarrow> string option" where
  "relative_path st root target =
     (if root = target then Some ''/''
      else do {
        root_path \<leftarrow> ancestry st root;
        target_path \<leftarrow> ancestry st target;
        let (ru, tu) = common_end root_path target_path (length root_path) (length target_path);
        let up = fold (\<lambda>index path. (if index \<noteq> 0 then path @ ''/'' else path) @ ''..'') [0..<ru] ''/'';
        Some (fold (\<lambda>n path. (if path \<noteq> ''/'' \<and> last path \<noteq> CHR ''/'' then path @ ''/'' else path) @ cn_name (node_at st n))
          (rev (take tu target_path)) up)
      })"

section \<open>membership.rs\<close>

datatype child_kind = ChildProcess | ChildThread

datatype task_exit = ExitThread | ExitLastProcessTask

datatype fork_publication = Prepared | Published | Committed

record fork_guard =
  fg_cgroup :: node_id
  fg_task_id :: process_id
  fg_task_process_id :: process_id
  fg_child_kind :: child_kind
  fg_charged_path :: "node_id list"
  fg_publication :: fork_publication

datatype process_membership = Active node_id | Exited node_id

definition empty_cgroups :: cgroups where
  "empty_cgroups = \<lparr>cg_nodes = [], cg_freed = {}, cg_next_id = 2, cg_ledger = None\<rparr>"

definition membership_init :: membership_state where
  "membership_init = \<lparr>ms_pending_tasks = [], ms_tasks = []\<rparr>"

text \<open>\<open>init_once\<close> panics when called again.\<close>

definition cgroup_init :: "cgroups \<Rightarrow> cgroups option" where
  "cgroup_init st =
     (if cg_nodes st \<noteq> [] \<or> cg_ledger st \<noteq> None then None
      else Some (st\<lparr>cg_nodes := [new_root], cg_ledger := Some membership_init\<rparr>))"

definition cgroup_root :: "cgroups \<Rightarrow> node_id option" where
  "cgroup_root st = (if cg_nodes st = [] then None else Some 0)"

definition has_pending_task :: "membership_state \<Rightarrow> process_id \<Rightarrow> bool" where
  "has_pending_task ms pid \<longleftrightarrow> pid \<in> set (bt_values (ms_pending_tasks ms))"

fun charge_path_unchecked :: "cgroups \<Rightarrow> node_id list \<Rightarrow> u64 \<Rightarrow> cgroups" where
  "charge_path_unchecked st [] count = st"
| "charge_path_unchecked st (n # ns) count = charge_path_unchecked (charge_pids_unchecked st n count) ns count"

fun uncharge_path :: "cgroups \<Rightarrow> node_id list \<Rightarrow> u64 \<Rightarrow> cgroups" where
  "uncharge_path st [] count = st"
| "uncharge_path st (n # ns) count = uncharge_path (uncharge_pids st n count) ns count"

fun record_max_event :: "cgroups \<Rightarrow> node_id list \<Rightarrow> cgroups" where
  "record_max_event st [] = st"
| "record_max_event st (n # ns) =
     record_max_event (if parent st n \<noteq> None then record_pids_max_event st n else st) ns"

text \<open>The loop of \<open>charge_path\<close>; \<open>path[..charged]\<close> is \<open>charged\<close> and \<open>path[charged..]\<close> is the rest. The counters change
  also when it fails.\<close>

fun charge_loop :: "cgroups \<Rightarrow> node_id list \<Rightarrow> node_id list \<Rightarrow> unit cgroup_result \<times> cgroups" where
  "charge_loop st charged [] = (Inr (), st)"
| "charge_loop st charged (n # ns) = (case try_charge_pids st n of
     Inl e \<Rightarrow> (Inl e, record_max_event (uncharge_path st charged 1) (n # ns))
   | Inr st1 \<Rightarrow> charge_loop st1 (charged @ [n]) ns)"

definition charge_path :: "cgroups \<Rightarrow> node_id list \<Rightarrow> unit cgroup_result \<times> cgroups" where
  "charge_path st path = charge_loop st [] path"

definition unique_paths :: "node_id list \<Rightarrow> node_id list \<Rightarrow> node_id list \<times> node_id list" where
  "unique_paths old_path target_path =
     (let (i, j) = common_end old_path target_path (length old_path) (length target_path) in
      (take i old_path, take j target_path))"

text \<open>Operations on the ledger return the result and the state; the outer option is \<open>None\<close> on a panic.\<close>

definition attach_initial_process :: "cgroups \<Rightarrow> node_id \<Rightarrow> process_id \<Rightarrow> (unit cgroup_result \<times> cgroups) option" where
  "attach_initial_process st root pid =
     (case cg_ledger st of
        None \<Rightarrow> Some (Inl NotInitialized, st)
      | Some ms \<Rightarrow>
          if bt_get (ms_pending_tasks ms) pid \<noteq> None \<or> bt_get (ms_tasks ms) pid \<noteq> None then Some (Inl ResourceBusy, st)
          else do {
            path \<leftarrow> ancestry st root;
            let st1 = charge_path_unchecked st path 1;
            let (added, st2) = add_member st1 root pid;
            if \<not> added then Some (Inl ResourceBusy, uncharge_path st2 path 1)
            else Some (Inr (), st2\<lparr>cg_ledger := Some (ms\<lparr>ms_tasks :=
              bt_insert pid \<lparr>tm_process_id = pid, tm_cgroup = root\<rparr> (ms_tasks ms)\<rparr>)\<rparr>)
          })"

definition begin_task_at ::
  "cgroups \<Rightarrow> node_id \<Rightarrow> process_id \<Rightarrow> process_id \<Rightarrow> child_kind \<Rightarrow> (fork_guard cgroup_result \<times> cgroups) option" where
  "begin_task_at st target pid task_id kind =
     (case cg_ledger st of
        None \<Rightarrow> Some (Inl NotInitialized, st)
      | Some ms \<Rightarrow>
          if bt_get (ms_pending_tasks ms) task_id \<noteq> None \<or> bt_get (ms_tasks ms) task_id \<noteq> None then Some (Inl ResourceBusy, st)
          else do {
            charged_path \<leftarrow> ancestry st target;
            Some (case charge_path st charged_path of
              (Inl e, st1) \<Rightarrow> (Inl e, st1)
            | (Inr _, st1) \<Rightarrow>
                let task_process_id = (case kind of ChildProcess \<Rightarrow> task_id | ChildThread \<Rightarrow> pid) in
                (Inr \<lparr>fg_cgroup = target, fg_task_id = task_id, fg_task_process_id = task_process_id,
                      fg_child_kind = kind, fg_charged_path = charged_path, fg_publication = Prepared\<rparr>,
                 st1\<lparr>cg_ledger := Some (ms\<lparr>ms_pending_tasks := bt_insert task_id task_process_id (ms_pending_tasks ms)\<rparr>)\<rparr>))
          })"

definition begin_process_at :: "cgroups \<Rightarrow> node_id \<Rightarrow> process_id \<Rightarrow> (fork_guard cgroup_result \<times> cgroups) option" where
  "begin_process_at st target child_pid = begin_task_at st target child_pid child_pid ChildProcess"

definition guard_publish :: "cgroups \<Rightarrow> fork_guard \<Rightarrow> unit cgroup_result \<times> cgroups \<times> fork_guard" where
  "guard_publish st g =
     (if fg_publication g \<noteq> Prepared then (Inl ResourceBusy, st, g)
      else case cg_ledger st of
        None \<Rightarrow> (Inl NotInitialized, st, g)
      | Some ms \<Rightarrow>
          if bt_get (ms_pending_tasks ms) (fg_task_id g) \<noteq> Some (fg_task_process_id g) \<or> bt_get (ms_tasks ms) (fg_task_id g) \<noteq> None
          then (Inl ResourceBusy, st, g)
          else
            let (added, st1) = (if fg_child_kind g = ChildProcess then add_member st (fg_cgroup g) (fg_task_id g) else (True, st)) in
            if \<not> added then (Inl ResourceBusy, st1, g)
            else (Inr (), st1\<lparr>cg_ledger := Some (ms\<lparr>ms_tasks := bt_insert (fg_task_id g)
                     \<lparr>tm_process_id = fg_task_process_id g, tm_cgroup = fg_cgroup g\<rparr> (ms_tasks ms)\<rparr>)\<rparr>,
                  g\<lparr>fg_publication := Published\<rparr>))"

text \<open>\<open>commit\<close> consumes the guard; the drop of a committed guard does nothing.\<close>

definition guard_commit :: "cgroups \<Rightarrow> fork_guard \<Rightarrow> cgroups option" where
  "guard_commit st g =
     (if fg_publication g \<noteq> Published then None
      else case cg_ledger st of
        None \<Rightarrow> None
      | Some ms \<Rightarrow>
          if bt_get (ms_pending_tasks ms) (fg_task_id g) \<noteq> Some (fg_task_process_id g) then None
          else Some (st\<lparr>cg_ledger := Some (ms\<lparr>ms_pending_tasks := bt_remove (fg_task_id g) (ms_pending_tasks ms)\<rparr>)\<rparr>))"

definition forget_pending :: "cgroups \<Rightarrow> process_id \<Rightarrow> cgroups" where
  "forget_pending st t = (case cg_ledger st of
     None \<Rightarrow> st
   | Some ms \<Rightarrow> st\<lparr>cg_ledger := Some (ms\<lparr>ms_pending_tasks := bt_remove t (ms_pending_tasks ms)\<rparr>)\<rparr>)"

definition forget_task :: "cgroups \<Rightarrow> process_id \<Rightarrow> cgroups" where
  "forget_task st t = (case cg_ledger st of
     None \<Rightarrow> st
   | Some ms \<Rightarrow> st\<lparr>cg_ledger := Some (ms\<lparr>ms_tasks := bt_remove t (ms_tasks ms)\<rparr>)\<rparr>)"

definition guard_drop :: "cgroups \<Rightarrow> fork_guard \<Rightarrow> cgroups" where
  "guard_drop st g =
     (case fg_publication g of
        Prepared \<Rightarrow> uncharge_path (forget_pending st (fg_task_id g)) (fg_charged_path g) 1
      | Published \<Rightarrow>
          let st1 = forget_task (forget_pending st (fg_task_id g)) (fg_task_id g);
              st2 = (if fg_child_kind g = ChildProcess then snd (remove_member st1 (fg_cgroup g) (fg_task_id g)) else st1) in
          uncharge_path st2 (fg_charged_path g) 1
      | Committed \<Rightarrow> st)"

definition migrate_process :: "cgroups \<Rightarrow> process_id \<Rightarrow> node_id \<Rightarrow> node_id \<Rightarrow> (unit cgroup_result \<times> cgroups) option" where
  "migrate_process st pid old target =
     (case cg_ledger st of
        None \<Rightarrow> Some (Inl NotInitialized, st)
      | Some ms \<Rightarrow>
          if has_pending_task ms pid then Some (Inl ResourceBusy, st)
          else if old = target then Some (if has_member st old pid then Inr () else Inl NoSuchProcess, st)
          else
            let task_ids = map fst (filter (\<lambda>(t, m). tm_process_id m = pid) (ms_tasks ms)) in
            if task_ids = [] \<or> (\<exists>t\<in>set task_ids. map_option tm_cgroup (bt_get (ms_tasks ms) t) \<noteq> Some old)
            then Some (Inl NoSuchProcess, st)
            else do {
              old_path \<leftarrow> ancestry st old;
              target_path \<leftarrow> ancestry st target;
              let (old_unique, target_unique) = unique_paths old_path target_path;
              let task_count = length task_ids;
              let st1 = charge_path_unchecked st target_unique task_count;
              let (removed, st2) = remove_member st1 old pid;
              if \<not> removed then Some (Inl NoSuchProcess, uncharge_path st2 target_unique task_count)
              else
                let (added, st3) = add_member st2 target pid in
                if \<not> added
                then Some (Inl ResourceBusy, uncharge_path (snd (add_member st3 old pid)) target_unique task_count)
                else
                  let tasks = map (\<lambda>(t, m). (t, if t \<in> set task_ids then m\<lparr>tm_cgroup := target\<rparr> else m)) (ms_tasks ms) in
                  Some (Inr (), uncharge_path (st3\<lparr>cg_ledger := Some (ms\<lparr>ms_tasks := tasks\<rparr>)\<rparr>) old_unique task_count)
            })"

definition exit_task_at ::
  "cgroups \<Rightarrow> process_id \<Rightarrow> process_id \<Rightarrow> node_id \<Rightarrow> task_exit \<Rightarrow> (unit cgroup_result \<times> cgroups) option" where
  "exit_task_at st pid task_id expected kind =
     (case cg_ledger st of
        None \<Rightarrow> Some (Inl NotInitialized, st)
      | Some ms \<Rightarrow>
          (case bt_get (ms_tasks ms) task_id of
             None \<Rightarrow> Some (Inr (), st)
           | Some m \<Rightarrow>
               if tm_process_id m \<noteq> pid \<or> tm_cgroup m \<noteq> expected then Some (Inl NoSuchProcess, st)
               else if kind = ExitLastProcessTask \<and>
                 (has_pending_task ms pid \<or>
                  (\<exists>(t, m)\<in>set (ms_tasks ms). t \<noteq> task_id \<and> tm_process_id m = pid))
               then Some (Inl ResourceBusy, st)
               else
                 let st1 = st\<lparr>cg_ledger := Some (ms\<lparr>ms_tasks := bt_remove task_id (ms_tasks ms)\<rparr>)\<rparr>;
                     st2 = (if kind = ExitLastProcessTask then snd (remove_member st1 (tm_cgroup m) pid) else st1) in
                 do { path \<leftarrow> ancestry st2 (tm_cgroup m); Some (Inr (), uncharge_path st2 path 1) }))"

definition rename_task_at ::
  "cgroups \<Rightarrow> process_id \<Rightarrow> process_id \<Rightarrow> process_id \<Rightarrow> node_id \<Rightarrow> unit cgroup_result \<times> cgroups" where
  "rename_task_at st pid old_task_id new_task_id expected =
     (case cg_ledger st of
        None \<Rightarrow> (Inl NotInitialized, st)
      | Some ms \<Rightarrow>
          (case bt_get (ms_tasks ms) old_task_id of
             None \<Rightarrow> (Inl NoSuchProcess, st)
           | Some m \<Rightarrow>
               if tm_process_id m \<noteq> pid \<or> tm_cgroup m \<noteq> expected then (Inl NoSuchProcess, st)
               else if old_task_id \<noteq> new_task_id \<and>
                 (bt_get (ms_pending_tasks ms) new_task_id \<noteq> None \<or> bt_get (ms_tasks ms) new_task_id \<noteq> None)
               then (Inl ResourceBusy, st)
               else (Inr (), st\<lparr>cg_ledger := Some (ms\<lparr>ms_tasks := bt_insert new_task_id m (bt_remove old_task_id (ms_tasks ms))\<rparr>)\<rparr>)))"

text \<open>The membership owned by a process.\<close>

definition membership_new :: "node_id \<Rightarrow> process_membership" where
  "membership_new n = Active n"

definition membership_current :: "process_membership \<Rightarrow> node_id" where
  "membership_current p = (case p of Active n \<Rightarrow> n | Exited n \<Rightarrow> n)"

definition begin_task ::
  "cgroups \<Rightarrow> process_membership \<Rightarrow> process_id \<Rightarrow> process_id \<Rightarrow> child_kind \<Rightarrow> (fork_guard cgroup_result \<times> cgroups) option" where
  "begin_task st p pid task_id kind = (case p of
     Active n \<Rightarrow> begin_task_at st n pid task_id kind
   | Exited _ \<Rightarrow> Some (Inl NoSuchProcess, st))"

definition migrate ::
  "cgroups \<Rightarrow> process_membership \<Rightarrow> process_id \<Rightarrow> node_id \<Rightarrow> (unit cgroup_result \<times> cgroups \<times> process_membership) option" where
  "migrate st p pid target = (case p of
     Exited _ \<Rightarrow> Some (Inl NoSuchProcess, st, p)
   | Active old \<Rightarrow> do {
       (r, st1) \<leftarrow> migrate_process st pid old target;
       Some (r, st1, case r of Inl _ \<Rightarrow> p | Inr _ \<Rightarrow> Active target)
     })"

definition exit_task ::
  "cgroups \<Rightarrow> process_membership \<Rightarrow> process_id \<Rightarrow> process_id \<Rightarrow> task_exit \<Rightarrow>
   (unit cgroup_result \<times> cgroups \<times> process_membership) option" where
  "exit_task st p pid task_id kind = (case p of
     Exited _ \<Rightarrow> Some (Inr (), st, p)
   | Active n \<Rightarrow> do {
       (r, st1) \<leftarrow> exit_task_at st pid task_id n kind;
       Some (r, st1, if r = Inr () \<and> kind = ExitLastProcessTask then Exited n else p)
     })"

definition rename_task ::
  "cgroups \<Rightarrow> process_membership \<Rightarrow> process_id \<Rightarrow> process_id \<Rightarrow> process_id \<Rightarrow> unit cgroup_result \<times> cgroups" where
  "rename_task st p pid old_task_id new_task_id = (case p of
     Active n \<Rightarrow> rename_task_at st pid old_task_id new_task_id n
   | Exited _ \<Rightarrow> (Inl NoSuchProcess, st))"

section \<open>namespace.rs\<close>

record cgroup_namespace =
  ns_id :: u64
  ns_root :: node_id

definition namespace_new :: "cgroups \<Rightarrow> u64 \<Rightarrow> node_id \<Rightarrow> cgroup_namespace \<times> cgroups \<times> u64" where
  "namespace_new st next root = (\<lparr>ns_id = next, ns_root = root\<rparr>, pin st root, usize_add next 1)"

definition pin_root :: "cgroups \<Rightarrow> cgroup_namespace \<Rightarrow> cgroups" where
  "pin_root st ns = pin st (ns_root ns)"

end
