(* ===== verification/CgroupInv.thy ===== *)
theory CgroupInv
  imports Cgroup
begin

text \<open>
  The tree of cgroup nodes, the paths to its root, and what the counter operations do along a path.
\<close>

section \<open>Paths\<close>

abbreviation nodes_of :: "cgroups \<Rightarrow> nat" where
  "nodes_of st \<equiv> length (cg_nodes st)"

abbreviation current_of :: "cgroups \<Rightarrow> node_id \<Rightarrow> u64" where
  "current_of st n \<equiv> ps_current (cn_pids (node_at st n))"

text \<open>The path to the root by the parent links alone, whether or not the parents are still alive.\<close>

function path :: "cgroup_node list \<Rightarrow> node_id \<Rightarrow> node_id list" where
  "path ns n = n # (case cn_parent (ns ! n) of
     Some p \<Rightarrow> if p < n then path ns p else []
   | None \<Rightarrow> [])"
  by pat_completeness auto

termination
  by (relation "measure snd") auto

declare path.simps [simp del]

lemma path_self [simp]: "n \<in> set (path ns n)"
  by (subst path.simps) simp

lemma path_le: "a \<in> set (path ns n) \<Longrightarrow> a \<le> n"
  by (induction ns n rule: path.induct) (subst (asm) (2) path.simps, force split: option.splits if_splits)

lemma path_cong:
  assumes "\<And>a. a \<le> n \<Longrightarrow> cn_parent (ns' ! a) = cn_parent (ns ! a)"
  shows "path ns' n = path ns n"
  using assms
proof (induction ns n rule: path.induct)
  case (1 ns n)
  have "path ns' p = path ns p" if "cn_parent (ns ! n) = Some p" "p < n" for p
    using 1 that by simp
  with 1(2) [of n] show ?case
    by (subst (1 2) path.simps) (auto split: option.splits)
qed

lemma path_suffix: "a \<in> set (path ns n) \<Longrightarrow> \<exists>xs. path ns n = xs @ path ns a"
proof (induction ns n rule: path.induct)
  case (1 ns n)
  show ?case
  proof (cases "a = n")
    case False
    then obtain p where p: "cn_parent (ns ! n) = Some p" "p < n" "a \<in> set (path ns p)"
      using 1(2) path.simps [of ns n] by (auto split: option.splits if_splits)
    from 1(1) [OF p] obtain xs where "path ns p = xs @ path ns a"
      by blast
    then have "path ns n = (n # xs) @ path ns a"
      using p by (subst path.simps) simp
    then show ?thesis
      by blast
  qed auto
qed

lemma path_distinct: "distinct (path ns n)"
proof (induction ns n rule: path.induct)
  case (1 ns n)
  then show ?case
    by (subst path.simps) (auto dest: path_le split: option.splits)
qed

lemma path_nonempty [simp]: "path ns n \<noteq> []"
  by (subst path.simps) simp

text \<open>Running back over the common end of two paths leaves the nodes that are on one path only.\<close>

lemma common_end_bounds: "common_end xs ys i j = (k, l) \<Longrightarrow> k \<le> i \<and> l \<le> j"
  by (induction xs ys i j rule: common_end.induct) (auto split: if_splits)

lemma common_end_split:
  assumes "common_end xs ys i j = (k, l)" "i \<le> length xs" "j \<le> length ys" "drop i xs = drop j ys"
  shows "drop k xs = drop l ys \<and> (k = 0 \<or> l = 0 \<or> xs ! (k - 1) \<noteq> ys ! (l - 1)) \<and> k \<le> length xs \<and> l \<le> length ys"
  using assms
proof (induction xs ys i j rule: common_end.induct)
  case (1 xs ys i j)
  show ?case
  proof (cases "xs ! i = ys ! j")
    case True
    then have "drop i xs = drop j ys"
      using 1(3-5) by (simp add: Cons_nth_drop_Suc [symmetric])
    with 1 True show ?thesis
      by simp
  qed (use 1 in auto)
qed auto

lemma take_past: "x \<in> set (take k (xs @ zs)) \<Longrightarrow> x \<notin> set xs \<Longrightarrow> length xs < k"
  by (rule ccontr) (auto dest: in_set_takeD simp: not_less)

lemma unique_paths_set:
  assumes u: "unique_paths (path ns a) (path ns b) = (ua, ub)"
  shows "set ua = set (path ns a) - set (path ns b)" "set ub = set (path ns b) - set (path ns a)"
    "distinct ua" "distinct ub"
proof -
  let ?A = "path ns a" and ?B = "path ns b"
  obtain k l where kl: "common_end ?A ?B (length ?A) (length ?B) = (k, l)"
    by fastforce
  then have uab: "ua = take k ?A" "ub = take l ?B"
    using u by (simp_all add: unique_paths_def)
  from common_end_split [OF kl] have s: "drop k ?A = drop l ?B" "k = 0 \<or> l = 0 \<or> ?A ! (k - 1) \<noteq> ?B ! (l - 1)"
    "k \<le> length ?A" "l \<le> length ?B"
    by simp_all
  have dis: "set (take k ?A) \<inter> set (take l ?B) = {}"
  proof (rule ccontr)
    assume "\<not> ?thesis"
    then obtain x where x: "x \<in> set (take k ?A)" "x \<in> set (take l ?B)"
      by blast
    then have pos: "0 < k" "0 < l"
      by (auto intro: gr0I)
    obtain xs ys where xy: "?A = xs @ path ns x" "?B = ys @ path ns x"
      using x path_suffix in_set_takeD by metis
    have "x \<notin> set xs" "x \<notin> set ys"
      using path_distinct [of ns a] path_distinct [of ns b] xy by auto
    then have "length xs < k" "length ys < l"
      using x unfolding xy by (auto intro: take_past)
    moreover have "length ?A - k = length ?B - l"
      using arg_cong [OF s(1), of length] by simp
    then have "k - length xs = l - length ys"
      using s(3,4) calculation xy by (auto dest: arg_cong [where f = length])
    moreover have "\<not> k - 1 < length xs" "\<not> l - 1 < length ys"
      using calculation(1,2) by auto
    ultimately have "?A ! (k - 1) = path ns x ! (k - 1 - length xs)" "?B ! (l - 1) = path ns x ! (l - 1 - length ys)"
      "k - 1 - length xs = l - 1 - length ys"
      unfolding xy by (simp_all only: nth_append if_False)
    then have "?A ! (k - 1) = ?B ! (l - 1)"
      by simp
    with s(2) pos show False
      by simp
  qed
  have A: "set ?A = set (take k ?A) \<union> set (drop k ?A)" and B: "set ?B = set (take l ?B) \<union> set (drop k ?A)"
    by (metis append_take_drop_id set_append) (metis append_take_drop_id set_append s(1))
  have dA: "set (take k ?A) \<inter> set (drop k ?A) = {}" and dB: "set (take l ?B) \<inter> set (drop k ?A) = {}"
    using path_distinct [of ns a] path_distinct [of ns b] s(1)
    by (metis append_take_drop_id distinct_append)+
  show "set ua = set ?A - set ?B" "set ub = set ?B - set ?A"
    unfolding uab using A B dis dA dB by blast+
  show "distinct ua" "distinct ub"
    unfolding uab using path_distinct by (simp_all add: distinct_take)
qed

section \<open>Counter operations\<close>

text \<open>Only counters have changed.\<close>

definition same_tree :: "cgroups \<Rightarrow> cgroups \<Rightarrow> bool" where
  "same_tree st st' \<longleftrightarrow> nodes_of st' = nodes_of st \<and> cg_freed st' = cg_freed st \<and> cg_next_id st' = cg_next_id st \<and>
     cg_ledger st' = cg_ledger st \<and>
     (\<forall>n<nodes_of st. \<exists>s. node_at st' n = (node_at st n)\<lparr>cn_pids := s\<rparr> \<and> ps_maximum s = ps_maximum (cn_pids (node_at st n)))"

lemma own_pids: "\<exists>s. nd = nd\<lparr>cn_pids := s\<rparr> \<and> ps_maximum s = ps_maximum (cn_pids nd)"
  by (rule exI [of _ "cn_pids nd"]) simp

lemma same_tree_refl [simp]: "same_tree st st"
  by (simp add: same_tree_def own_pids)

lemma same_tree_trans [trans]: "same_tree st st' \<Longrightarrow> same_tree st' st'' \<Longrightarrow> same_tree st st''"
  unfolding same_tree_def by fastforce

lemma same_tree_fields:
  assumes "same_tree st st'"
  shows "nodes_of st' = nodes_of st" "cg_freed st' = cg_freed st" "cg_next_id st' = cg_next_id st" "cg_ledger st' = cg_ledger st"
    "n < nodes_of st \<Longrightarrow> cn_parent (node_at st' n) = cn_parent (node_at st n)"
    "n < nodes_of st \<Longrightarrow> cn_children (node_at st' n) = cn_children (node_at st n)"
    "n < nodes_of st \<Longrightarrow> cn_name (node_at st' n) = cn_name (node_at st n)"
    "n < nodes_of st \<Longrightarrow> cn_members (node_at st' n) = cn_members (node_at st n)"
    "n < nodes_of st \<Longrightarrow> cn_pins (node_at st' n) = cn_pins (node_at st n)"
    "n < nodes_of st \<Longrightarrow> ps_maximum (cn_pids (node_at st' n)) = ps_maximum (cn_pids (node_at st n))"
  using assms unfolding same_tree_def by (auto dest!: spec [of _ n])

lemma node_at_upd: "n < nodes_of st \<Longrightarrow> node_at (upd_node st n f) m = (if m = n then f (node_at st n) else node_at st m)"
  by (simp add: node_at_def upd_node_def nth_list_update)

lemma upd_node_fields [simp]:
  "nodes_of (upd_node st n f) = nodes_of st" "cg_freed (upd_node st n f) = cg_freed st"
  "cg_next_id (upd_node st n f) = cg_next_id st" "cg_ledger (upd_node st n f) = cg_ledger st"
  by (simp_all add: upd_node_def)

lemma upd_pids_tree:
  assumes "n < nodes_of st" "ps_maximum (f (cn_pids (node_at st n))) = ps_maximum (cn_pids (node_at st n))"
  shows "same_tree st (upd_pids st n f)"
  unfolding same_tree_def upd_pids_def
  by (auto simp: node_at_upd assms own_pids intro: exI [of _ "f (cn_pids (node_at st n))"])

lemma upd_pids_current:
  "n < nodes_of st \<Longrightarrow> cn_pids (node_at (upd_pids st n f) m) = (if m = n then f (cn_pids (node_at st n)) else cn_pids (node_at st m))"
  by (simp add: upd_pids_def node_at_upd)

lemma charge_unchecked_step:
  assumes "n < nodes_of st"
  shows "same_tree st (charge_pids_unchecked st n k)"
    "current_of (charge_pids_unchecked st n k) m = (if m = n then usize_add (current_of st n) k else current_of st m)"
  using assms unfolding charge_pids_unchecked_def
  by (auto intro!: upd_pids_tree simp: upd_pids_current charge_unchecked_def Let_def)

lemma uncharge_step:
  assumes "n < nodes_of st"
  shows "same_tree st (uncharge_pids st n k)"
    "current_of (uncharge_pids st n k) m = (if m = n then usize_sub (current_of st n) k else current_of st m)"
  using assms unfolding uncharge_pids_def
  by (auto intro!: upd_pids_tree simp: upd_pids_current uncharge_def)

lemma record_step:
  assumes "n < nodes_of st"
  shows "same_tree st (record_pids_max_event st n)" "current_of (record_pids_max_event st n) m = current_of st m"
  using assms unfolding record_pids_max_event_def
  by (auto intro!: upd_pids_tree simp: upd_pids_current record_max_def)

lemma path_fold:
  assumes step: "\<And>st n. n < nodes_of st \<Longrightarrow> same_tree st (f st n) \<and>
      (\<forall>m. current_of (f st n) m = (if m = n then h (current_of st n) else current_of st m))"
    and "distinct ns" "set ns \<subseteq> {..<nodes_of st}"
  shows "same_tree st (fold (\<lambda>n st. f st n) ns st) \<and>
    (\<forall>m. current_of (fold (\<lambda>n st. f st n) ns st) m = (if m \<in> set ns then h (current_of st m) else current_of st m))"
  using assms(2,3)
proof (induction ns arbitrary: st)
  case (Cons n ns)
  have one: "same_tree st (f st n)" "\<And>m. current_of (f st n) m = (if m = n then h (current_of st n) else current_of st m)"
    using step [of n st] Cons.prems by auto
  have "set ns \<subseteq> {..<nodes_of (f st n)}"
    using Cons.prems same_tree_fields(1) [OF one(1)] by simp
  with Cons.IH [of "f st n"] Cons.prems same_tree_trans [OF one(1)] show ?case
    by (auto simp: one(2))
qed simp

lemma charge_path_unchecked_ok:
  assumes "distinct ns" "set ns \<subseteq> {..<nodes_of st}"
  shows "same_tree st (charge_path_unchecked st ns k)"
    "current_of (charge_path_unchecked st ns k) m = (if m \<in> set ns then usize_add (current_of st m) k else current_of st m)"
proof -
  have eq: "charge_path_unchecked st ns k = fold (\<lambda>n st. charge_pids_unchecked st n k) ns st" for st
    by (induction ns arbitrary: st) simp_all
  show "same_tree st (charge_path_unchecked st ns k)"
    "current_of (charge_path_unchecked st ns k) m = (if m \<in> set ns then usize_add (current_of st m) k else current_of st m)"
    unfolding eq using path_fold [where f = "\<lambda>st n. charge_pids_unchecked st n k" and h = "\<lambda>c. usize_add c k", OF _ assms]
    by (simp_all add: charge_unchecked_step)
qed

lemma uncharge_path_ok:
  assumes "distinct ns" "set ns \<subseteq> {..<nodes_of st}"
  shows "same_tree st (uncharge_path st ns k)"
    "current_of (uncharge_path st ns k) m = (if m \<in> set ns then usize_sub (current_of st m) k else current_of st m)"
proof -
  have eq: "uncharge_path st ns k = fold (\<lambda>n st. uncharge_pids st n k) ns st" for st
    by (induction ns arbitrary: st) simp_all
  show "same_tree st (uncharge_path st ns k)"
    "current_of (uncharge_path st ns k) m = (if m \<in> set ns then usize_sub (current_of st m) k else current_of st m)"
    unfolding eq using path_fold [where f = "\<lambda>st n. uncharge_pids st n k" and h = "\<lambda>c. usize_sub c k", OF _ assms]
    by (simp_all add: uncharge_step)
qed

lemma record_max_event_ok:
  assumes "set ns \<subseteq> {..<nodes_of st}"
  shows "same_tree st (record_max_event st ns) \<and> (\<forall>m. current_of (record_max_event st ns) m = current_of st m)"
  using assms
proof (induction ns arbitrary: st)
  case (Cons n ns)
  define st1 where "st1 = (if parent st n \<noteq> None then record_pids_max_event st n else st)"
  have one: "same_tree st st1" "\<And>m. current_of st1 m = current_of st m"
    using Cons.prems record_step [of n st] by (auto simp: st1_def)
  have "set ns \<subseteq> {..<nodes_of st1}"
    using Cons.prems same_tree_fields(1) [OF one(1)] by simp
  then have "same_tree st1 (record_max_event st1 ns) \<and> (\<forall>m. current_of (record_max_event st1 ns) m = current_of st1 m)"
    by (rule Cons.IH)
  moreover have "record_max_event st (n # ns) = record_max_event st1 ns"
    by (simp add: st1_def)
  ultimately show ?case
    using same_tree_trans [OF one(1)] one(2) by simp
qed simp

lemma try_charge_Inr:
  assumes "n < nodes_of st" "current_of st n < usize_lim" "try_charge_pids st n = Inr st1"
  shows "same_tree st st1" "current_of st1 m = (if m = n then current_of st n + 1 else current_of st m)"
    "current_of st n < ps_maximum (cn_pids (node_at st n))" "current_of st n + 1 < usize_lim"
proof -
  obtain s where s: "try_charge (cn_pids (node_at st n)) = Inr s" "st1 = upd_pids st n (\<lambda>_. s)"
    using assms(3) by (auto simp: try_charge_pids_def split: sum.splits)
  then have c: "ps_current s = usize_add (current_of st n) 1" "ps_maximum s = ps_maximum (cn_pids (node_at st n))"
    "current_of st n < ps_maximum (cn_pids (node_at st n))" "current_of st n \<noteq> UNLIMITED"
    by (auto simp: try_charge_def Let_def split: if_splits)
  then show lim: "current_of st n + 1 < usize_lim" "current_of st n < ps_maximum (cn_pids (node_at st n))"
    using assms(2) by (auto simp: UNLIMITED_def usize_max_def)
  show "same_tree st st1"
    unfolding s(2) by (rule upd_pids_tree [OF assms(1)]) (simp add: c)
  show "current_of st1 m = (if m = n then current_of st n + 1 else current_of st m)"
    using lim(1) by (simp add: s(2) upd_pids_current [OF assms(1)] c(1) usize_add_exact)
qed

lemma try_charge_Inl:
  assumes "try_charge_pids st n = Inl e"
  shows "e = LimitExceeded" "ps_maximum (cn_pids (node_at st n)) \<le> current_of st n \<or> current_of st n = UNLIMITED"
  using assms by (auto simp: try_charge_pids_def try_charge_def Let_def split: if_splits sum.splits)

text \<open>A charge that fails half-way gives back what it has charged.\<close>

lemma charge_loop_ok:
  assumes "distinct (charged @ ns)" "set (charged @ ns) \<subseteq> {..<nodes_of st}" "\<forall>m. m < nodes_of st \<longrightarrow> current_of st m < usize_lim"
  shows "case charge_loop st charged ns of
      (Inr _, st') \<Rightarrow> same_tree st st' \<and> (\<forall>m. current_of st' m = (if m \<in> set ns then current_of st m + 1 else current_of st m)) \<and>
        (\<forall>m\<in>set ns. current_of st m < ps_maximum (cn_pids (node_at st m)) \<and> current_of st m + 1 < usize_lim)
    | (Inl e, st') \<Rightarrow> e = LimitExceeded \<and> same_tree st st' \<and>
        (\<forall>m. current_of st' m = (if m \<in> set charged then usize_sub (current_of st m) 1 else current_of st m)) \<and>
        (\<exists>m\<in>set ns. ps_maximum (cn_pids (node_at st m)) \<le> current_of st m \<or> current_of st m = UNLIMITED)"
  using assms
proof (induction ns arbitrary: st charged)
  case (Cons n ns)
  show ?case
  proof (cases "try_charge_pids st n")
    case (Inl e)
    define st1 where "st1 = uncharge_path st charged 1"
    have "distinct charged" "set charged \<subseteq> {..<nodes_of st}"
      using Cons.prems(1,2) by auto
    note u = uncharge_path_ok [OF this, of 1, folded st1_def]
    have "set (n # ns) \<subseteq> {..<nodes_of st1}"
      using Cons.prems(2) same_tree_fields(1) [OF u(1)] by simp
    note rec = record_max_event_ok [OF this]
    have "same_tree st (record_max_event st1 (n # ns))"
      using u(1) rec by (blast intro: same_tree_trans)
    moreover have "charge_loop st charged (n # ns) = (Inl e, record_max_event st1 (n # ns))"
      by (simp only: charge_loop.simps Inl sum.case st1_def)
    ultimately show ?thesis
      using rec u(2) try_charge_Inl [OF Inl] by simp
  next
    case (Inr st1)
    have n: "n < nodes_of st" "current_of st n < usize_lim"
      using Cons.prems by simp_all
    note one = try_charge_Inr [OF n Inr]
    have dis: "distinct ((charged @ [n]) @ ns)" "set ((charged @ [n]) @ ns) \<subseteq> {..<nodes_of st1}"
      "\<forall>m. m < nodes_of st1 \<longrightarrow> current_of st1 m < usize_lim" "\<And>m. m \<in> set ns \<Longrightarrow> m \<noteq> n" "n \<notin> set charged"
      using Cons.prems same_tree_fields(1) [OF one(1)] one(2,4) by auto
    have mx: "ps_maximum (cn_pids (node_at st1 m)) = ps_maximum (cn_pids (node_at st m))" if "m \<in> set ns" for m
      using same_tree_fields(10) [OF one(1)] Cons.prems(2) that by auto
    obtain r st' where run: "charge_loop st1 (charged @ [n]) ns = (r, st')"
      by fastforce
    then have "charge_loop st charged (n # ns) = (r, st')"
      by (simp add: Inr)
    moreover have "usize_sub (current_of st n + 1) 1 = current_of st n"
      by (simp add: usize_sub_def)
    ultimately show ?thesis
      using Cons.IH [OF dis(1-3)] run dis(4,5) mx one same_tree_trans [OF one(1), of st']
      by (cases r) (auto split: if_splits)
  qed
qed simp

section \<open>The tree\<close>

definition tree_wf :: "cgroup_node list \<Rightarrow> bool" where
  "tree_wf ns \<longleftrightarrow> ns \<noteq> [] \<and> cn_parent (ns ! 0) = None \<and>
     (\<forall>c<length ns. c \<noteq> 0 \<longrightarrow> (\<exists>p<c. cn_parent (ns ! c) = Some p)) \<and>
     (\<forall>p<length ns. \<forall>name c. map_of (cn_children (ns ! p)) name = Some c \<longrightarrow>
        c < length ns \<and> cn_parent (ns ! c) = Some p \<and> cn_name (ns ! c) = name)"

definition child_link :: "cgroup_node list \<Rightarrow> node_id \<Rightarrow> bool" where
  "child_link ns c \<longleftrightarrow> (\<exists>p. cn_parent (ns ! c) = Some p \<and> map_of (cn_children (ns ! p)) (cn_name (ns ! c)) = Some c)"

text \<open>A node that can be reached from the root.\<close>

definition attached :: "cgroup_node list \<Rightarrow> node_id \<Rightarrow> bool" where
  "attached ns c \<longleftrightarrow> c < length ns \<and> (\<forall>a\<in>set (path ns c). a \<noteq> 0 \<longrightarrow> child_link ns a)"

lemma tree_parent: "tree_wf ns \<Longrightarrow> c < length ns \<Longrightarrow> c \<noteq> 0 \<Longrightarrow> \<exists>p<c. cn_parent (ns ! c) = Some p"
  unfolding tree_wf_def by blast

lemma path_Cons:
  assumes "tree_wf ns" "c < length ns"
  shows "path ns c = c # (case cn_parent (ns ! c) of Some p \<Rightarrow> path ns p | None \<Rightarrow> [])"
    "cn_parent (ns ! c) = Some p \<Longrightarrow> p < c"
proof -
  have lt: "\<forall>p. cn_parent (ns ! c) = Some p \<longrightarrow> p < c"
    using tree_parent [OF assms] assms(1) by (cases "c = 0") (auto simp: tree_wf_def)
  then show "path ns c = c # (case cn_parent (ns ! c) of Some p \<Rightarrow> path ns p | None \<Rightarrow> [])"
    by (subst path.simps) (auto split: option.splits)
  show "cn_parent (ns ! c) = Some p \<Longrightarrow> p < c"
    using lt by simp
qed

lemma attached_root [simp]: "ns \<noteq> [] \<Longrightarrow> tree_wf ns \<Longrightarrow> attached ns 0"
  by (auto simp: attached_def dest: path_le)

lemma attached_path: "attached ns c \<Longrightarrow> a \<in> set (path ns c) \<Longrightarrow> attached ns a"
  unfolding attached_def using path_suffix [of a ns c] path_le [of a ns c] by force

lemma path_range: "c < length ns \<Longrightarrow> set (path ns c) \<subseteq> {..<length ns}"
  using path_le by fastforce

text \<open>The loop over the parents ends, and as long as the node is attached it meets no dead parent.\<close>

lemma ancestry_total:
  assumes "tree_wf (cg_nodes st)" "c < nodes_of st"
  shows "\<exists>ps. ancestry st c = Some ps"
  using assms(2)
proof (induction c rule: less_induct)
  case (less c)
  show ?case
  proof (cases "parent st c")
    case None
    then show ?thesis
      by (subst ancestry.simps) simp
  next
    case (Some p)
    then have "cn_parent (cg_nodes st ! c) = Some p"
      by (auto simp: parent_def node_at_def split: option.splits if_splits)
    then have "p < c"
      using path_Cons(2) [OF assms(1) less(2)] by simp
    with less.IH [of p] less(2) obtain ps where "ancestry st p = Some ps"
      by auto
    with Some show ?thesis
      by (subst ancestry.simps) simp
  qed
qed

lemma ancestry_path:
  assumes "tree_wf (cg_nodes st)" "attached (cg_nodes st) c" "\<forall>n\<in>cg_freed st. \<not> attached (cg_nodes st) n"
  shows "ancestry st c = Some (path (cg_nodes st) c)"
  using assms(2)
proof (induction c rule: less_induct)
  case (less c)
  have c: "c < nodes_of st"
    using less(2) by (simp add: attached_def)
  note p = path_Cons [OF assms(1) c]
  show ?case
  proof (cases "cn_parent (cg_nodes st ! c)")
    case None
    then show ?thesis
      by (subst ancestry.simps) (simp add: parent_def node_at_def p(1))
  next
    case (Some q)
    then have "attached (cg_nodes st) q" "q < c"
      using attached_path [OF less(2), of q] p by auto
    with less(1) Some assms(3) show ?thesis
      by (subst ancestry.simps) (auto simp: parent_def node_at_def p(1))
  qed
qed

end
