(* ===== verification/CgroupLedger.thy ===== *)
theory CgroupLedger
  imports CgroupInv
begin

text \<open>
  Every task is charged to its cgroup and all ancestors of it. The ledger and the outstanding fork guards say
  which tasks there are; the invariant says that \<open>pids.current\<close> of a node is the number of tasks below it.
\<close>

section \<open>Counting\<close>

definition load :: "(process_id \<rightharpoonup> node_id) \<Rightarrow> cgroup_node list \<Rightarrow> node_id \<Rightarrow> nat" where
  "load ch ns n = card {t. \<exists>c. ch t = Some c \<and> n \<in> set (path ns c)}"

lemma load_finite: "finite (dom ch) \<Longrightarrow> finite {t. \<exists>c. ch t = Some c \<and> P c}"
  by (rule finite_subset [of _ "dom ch"]) auto

lemma load_upd:
  assumes "finite (dom ch)" "ch t = None"
  shows "load (ch(t \<mapsto> c)) ns n = load ch ns n + (if n \<in> set (path ns c) then 1 else 0)"
proof -
  let ?S = "{t. \<exists>c. ch t = Some c \<and> n \<in> set (path ns c)}"
  have "{t'. \<exists>c'. (ch(t \<mapsto> c)) t' = Some c' \<and> n \<in> set (path ns c')} = (if n \<in> set (path ns c) then insert t ?S else ?S)"
    using assms(2) by (auto split: if_splits)
  moreover have "t \<notin> ?S" "finite ?S"
    using assms(2) load_finite [OF assms(1)] by auto
  ultimately show ?thesis
    by (simp add: load_def)
qed

lemma load_del:
  assumes "finite (dom ch)" "ch t = Some c"
  shows "load ch ns n = load (ch(t := None)) ns n + (if n \<in> set (path ns c) then 1 else 0)"
proof -
  have "(ch(t := None))(t \<mapsto> c) = ch"
    using assms(2) by auto
  moreover have "finite (dom (ch(t := None)))"
    using assms(1) by simp
  ultimately show ?thesis
    using load_upd [of "ch(t := None)" t c ns n] by simp
qed

lemma load_rename:
  assumes "finite (dom ch)" "ch t = Some c" "ch t' = None"
  shows "load (ch(t := None, t' \<mapsto> c)) ns n = load ch ns n"
proof -
  have "finite (dom (ch(t := None)))" "(ch(t := None)) t' = None"
    using assms by auto
  then show ?thesis
    using load_upd [of "ch(t := None)" t' c ns n] load_del [OF assms(1,2), of ns n] by simp
qed

lemma load_move:
  assumes "finite (dom ch)" "\<forall>t\<in>T. ch t = Some a"
  shows "load (\<lambda>t. if t \<in> T then Some b else ch t) ns n + (if n \<in> set (path ns a) then card T else 0) =
    load ch ns n + (if n \<in> set (path ns b) then card T else 0)"
proof -
  let ?S = "{t. t \<notin> T \<and> (\<exists>c. ch t = Some c \<and> n \<in> set (path ns c))}"
  have fin: "finite T" "finite ?S"
    using finite_subset [OF _ assms(1), of T] finite_subset [OF _ assms(1), of ?S] assms(2) by auto
  have dis: "?S \<inter> T = {}"
    by auto
  have e1: "{t. \<exists>c. (if t \<in> T then Some b else ch t) = Some c \<and> n \<in> set (path ns c)} = ?S \<union> (if n \<in> set (path ns b) then T else {})"
    by auto
  have e2: "{t. \<exists>c. ch t = Some c \<and> n \<in> set (path ns c)} = ?S \<union> (if n \<in> set (path ns a) then T else {})"
    using assms(2) by (auto split: if_splits)
  note u = card_Un_disjoint [OF fin(2,1) dis]
  show ?thesis
    unfolding load_def e1 e2 by (cases "n \<in> set (path ns a)"; cases "n \<in> set (path ns b)") (simp_all only: if_True if_False u Un_empty_right)
qed

lemma load_bound:
  assumes "\<forall>t\<in>dom ch. 0 < t \<and> t < usize_lim"
  shows "finite (dom ch)" "load ch ns n < usize_lim"
proof -
  have sub: "dom ch \<subseteq> {0<..<usize_lim}"
    using assms unfolding subset_eq greaterThanLessThan_iff .
  then show "finite (dom ch)"
    using finite_greaterThanLessThan by (rule finite_subset)
  have "{t. \<exists>c. ch t = Some c \<and> n \<in> set (path ns c)} \<subseteq> {0<..<usize_lim}"
    using sub by blast
  then have "load ch ns n \<le> card {0<..<usize_lim}"
    unfolding load_def by (intro card_mono finite_greaterThanLessThan)
  then show "load ch ns n < usize_lim"
    using usize_lim_pos unfolding card_greaterThanLessThan by linarith
qed

section \<open>The invariant\<close>

text \<open>The hierarchy with the guards that forking threads hold and the membership of every process.\<close>

record session =
  se_st :: cgroups
  se_guards :: "process_id \<rightharpoonup> fork_guard"
  se_procs :: "process_id \<rightharpoonup> process_membership"

abbreviation tasks_of :: "membership_state \<Rightarrow> process_id \<rightharpoonup> task_membership" where
  "tasks_of ms \<equiv> bt_get (ms_tasks ms)"

abbreviation pending_of :: "membership_state \<Rightarrow> process_id \<rightharpoonup> process_id" where
  "pending_of ms \<equiv> bt_get (ms_pending_tasks ms)"

abbreviation members_of :: "cgroups \<Rightarrow> node_id \<Rightarrow> process_id set" where
  "members_of st n \<equiv> cn_members (node_at st n)"

definition charges :: "membership_state \<Rightarrow> (process_id \<rightharpoonup> fork_guard) \<Rightarrow> process_id \<rightharpoonup> node_id" where
  "charges ms G t = (case tasks_of ms t of Some m \<Rightarrow> Some (tm_cgroup m) | None \<Rightarrow> map_option fg_cgroup (G t))"

definition tree_ok :: "cgroups \<Rightarrow> bool" where
  "tree_ok st \<longleftrightarrow> tree_wf (cg_nodes st) \<and> (\<forall>n\<in>cg_freed st. n < nodes_of st \<and> \<not> attached (cg_nodes st) n)"

definition guard_ok :: "cgroups \<Rightarrow> membership_state \<Rightarrow> process_id \<Rightarrow> fork_guard \<Rightarrow> bool" where
  "guard_ok st ms t g \<longleftrightarrow> fg_task_id g = t \<and> pending_of ms t = Some (fg_task_process_id g) \<and>
     fg_charged_path g = path (cg_nodes st) (fg_cgroup g) \<and>
     (case fg_publication g of
        Prepared \<Rightarrow> tasks_of ms t = None
      | Published \<Rightarrow> tasks_of ms t = Some \<lparr>tm_process_id = fg_task_process_id g, tm_cgroup = fg_cgroup g\<rparr>
      | Committed \<Rightarrow> False) \<and>
     (fg_child_kind g = ChildProcess \<longrightarrow> fg_task_process_id g = t) \<and>
     (fg_child_kind g = ChildThread \<longrightarrow> fg_task_process_id g \<in> members_of st (fg_cgroup g))"

definition ledger_ok :: "cgroups \<Rightarrow> membership_state \<Rightarrow> (process_id \<rightharpoonup> fork_guard) \<Rightarrow> bool" where
  "ledger_ok st ms G \<longleftrightarrow> bt_wf (ms_pending_tasks ms) \<and> bt_wf (ms_tasks ms) \<and> dom (pending_of ms) = dom G \<and>
     (\<forall>t g. G t = Some g \<longrightarrow> guard_ok st ms t g) \<and>
     (\<forall>t m. tasks_of ms t = Some m \<longrightarrow> tm_process_id m \<in> members_of st (tm_cgroup m)) \<and>
     (\<forall>t c. charges ms G t = Some c \<longrightarrow> attached (cg_nodes st) c \<and> 0 < t \<and> t < usize_lim)"

text \<open>A process that is being forked is not yet used in any other place.\<close>

definition procs_ok ::
  "cgroups \<Rightarrow> membership_state \<Rightarrow> (process_id \<rightharpoonup> fork_guard) \<Rightarrow> (process_id \<rightharpoonup> process_membership) \<Rightarrow> bool" where
  "procs_ok st ms G P \<longleftrightarrow>
     (\<forall>p c. P p = Some (Active c) \<longrightarrow> attached (cg_nodes st) c \<and> p \<in> members_of st c) \<and>
     (\<forall>t g. G t = Some g \<and> fg_child_kind g = ChildProcess \<longrightarrow> P t = None \<and>
        (\<forall>t' m. tasks_of ms t' = Some m \<and> tm_process_id m = t \<longrightarrow> t' = t) \<and>
        (\<forall>t' g'. G t' = Some g' \<and> fg_task_process_id g' = t \<longrightarrow> t' = t))"

definition accounts_ok :: "cgroups \<Rightarrow> (process_id \<rightharpoonup> node_id) \<Rightarrow> bool" where
  "accounts_ok st ch \<longleftrightarrow> (\<forall>n<nodes_of st. current_of st n = load ch (cg_nodes st) n)"

definition cg_inv :: "cgroups \<Rightarrow> (process_id \<rightharpoonup> fork_guard) \<Rightarrow> (process_id \<rightharpoonup> process_membership) \<Rightarrow> bool" where
  "cg_inv st G P \<longleftrightarrow> tree_ok st \<and> (\<exists>ms. cg_ledger st = Some ms \<and> ledger_ok st ms G \<and> procs_ok st ms G P \<and>
     accounts_ok st (charges ms G))"

text \<open>The shape of the tree is the same.\<close>

definition frame :: "cgroups \<Rightarrow> cgroups \<Rightarrow> bool" where
  "frame st st' \<longleftrightarrow> nodes_of st' = nodes_of st \<and> cg_freed st' = cg_freed st \<and>
     (\<forall>n<nodes_of st. cn_parent (node_at st' n) = cn_parent (node_at st n) \<and>
        cn_children (node_at st' n) = cn_children (node_at st n) \<and> cn_name (node_at st' n) = cn_name (node_at st n))"

lemma same_tree_frame: "same_tree st st' \<Longrightarrow> frame st st'"
  by (simp add: frame_def same_tree_fields)

lemma frame_trans [trans]: "frame st st' \<Longrightarrow> frame st' st'' \<Longrightarrow> frame st st''"
  by (simp add: frame_def)

lemma frame_path:
  assumes "frame st st'" "c < nodes_of st"
  shows "path (cg_nodes st') c = path (cg_nodes st) c"
  by (rule path_cong) (use assms in \<open>auto simp: frame_def node_at_def\<close>)

lemma frame_tree:
  assumes "frame st st'" "tree_wf (cg_nodes st)"
  shows "tree_wf (cg_nodes st')"
proof -
  have len: "nodes_of st' = nodes_of st" and same: "\<And>n. n < nodes_of st \<Longrightarrow> cn_parent (cg_nodes st' ! n) = cn_parent (cg_nodes st ! n)"
    "\<And>n. n < nodes_of st \<Longrightarrow> cn_children (cg_nodes st' ! n) = cn_children (cg_nodes st ! n)"
    "\<And>n. n < nodes_of st \<Longrightarrow> cn_name (cg_nodes st' ! n) = cn_name (cg_nodes st ! n)"
    using assms(1) by (auto simp: frame_def node_at_def)
  have "0 < nodes_of st" "cg_nodes st' \<noteq> []"
    using assms(2) len by (auto simp: tree_wf_def)
  with assms(2) show ?thesis
    by (simp add: tree_wf_def same len cong: conj_cong)
qed

lemma frame_link:
  assumes "frame st st'" "tree_wf (cg_nodes st)" "c < nodes_of st"
  shows "child_link (cg_nodes st') c \<longleftrightarrow> child_link (cg_nodes st) c"
proof -
  have "p < nodes_of st" if "cn_parent (cg_nodes st ! c) = Some p" for p
    using path_Cons(2) [OF assms(2,3) that] assms(3) by simp
  moreover have "cn_parent (cg_nodes st' ! c) = cn_parent (cg_nodes st ! c)" "cn_name (cg_nodes st' ! c) = cn_name (cg_nodes st ! c)"
    "\<And>p. p < nodes_of st \<Longrightarrow> cn_children (cg_nodes st' ! p) = cn_children (cg_nodes st ! p)"
    using assms(1,3) by (simp_all add: frame_def node_at_def)
  ultimately show ?thesis
    unfolding child_link_def by (cases "cn_parent (cg_nodes st ! c)") auto
qed

lemma frame_attached:
  assumes "frame st st'" "tree_wf (cg_nodes st)"
  shows "attached (cg_nodes st') c \<longleftrightarrow> attached (cg_nodes st) c"
proof -
  have "nodes_of st' = nodes_of st"
    using assms(1) by (simp add: frame_def)
  then show ?thesis
    using frame_path [OF assms(1)] frame_link [OF assms] path_range [of c "cg_nodes st"]
    unfolding attached_def by (auto simp: subset_iff)
qed

lemma frame_tree_ok: "frame st st' \<Longrightarrow> tree_ok st \<Longrightarrow> tree_ok st'"
  using frame_tree [of st st'] frame_attached [of st st'] by (auto simp: tree_ok_def frame_def)

section \<open>Consequences of the invariant\<close>

lemma cg_invE:
  assumes "cg_inv st G P"
  obtains ms where "tree_ok st" "cg_ledger st = Some ms" "ledger_ok st ms G" "procs_ok st ms G P" "accounts_ok st (charges ms G)"
  using assms unfolding cg_inv_def by blast

lemma cg_invI:
  "tree_ok st \<Longrightarrow> cg_ledger st = Some ms \<Longrightarrow> ledger_ok st ms G \<Longrightarrow> procs_ok st ms G P \<Longrightarrow> accounts_ok st (charges ms G) \<Longrightarrow>
   cg_inv st G P"
  unfolding cg_inv_def by blast

lemma ledger_charges:
  assumes "ledger_ok st ms G"
  shows "finite (dom (charges ms G))" "load (charges ms G) ns n < usize_lim"
    "charges ms G t = Some c \<Longrightarrow> attached (cg_nodes st) c" "charges ms G t = Some c \<Longrightarrow> 0 < t \<and> t < usize_lim"
proof -
  have b: "\<forall>t\<in>dom (charges ms G). 0 < t \<and> t < usize_lim"
    using assms unfolding ledger_ok_def by blast
  show "finite (dom (charges ms G))" "load (charges ms G) ns n < usize_lim"
    by (rule load_bound [OF b])+
  show "charges ms G t = Some c \<Longrightarrow> attached (cg_nodes st) c" "charges ms G t = Some c \<Longrightarrow> 0 < t \<and> t < usize_lim"
    using assms unfolding ledger_ok_def by blast+
qed

lemma ledger_guard:
  assumes "ledger_ok st ms G" "G t = Some g"
  shows "guard_ok st ms t g" "charges ms G t = Some (fg_cgroup g)" "attached (cg_nodes st) (fg_cgroup g)"
proof -
  show g: "guard_ok st ms t g"
    using assms unfolding ledger_ok_def by blast
  show c: "charges ms G t = Some (fg_cgroup g)"
    using g assms(2) by (auto simp: guard_ok_def charges_def split: fork_publication.splits option.splits)
  show "attached (cg_nodes st) (fg_cgroup g)"
    by (rule ledger_charges(3) [OF assms(1) c])
qed

lemma ledger_absent:
  assumes "ledger_ok st ms G" "pending_of ms t = None"
  shows "G t = None"
  using assms unfolding ledger_ok_def by (metis domIff)

lemma attached_ancestry:
  assumes "tree_ok st" "attached (cg_nodes st) c"
  shows "ancestry st c = Some (path (cg_nodes st) c)" "set (path (cg_nodes st) c) \<subseteq> {..<nodes_of st}" "c < nodes_of st"
proof -
  show "ancestry st c = Some (path (cg_nodes st) c)"
    using assms by (intro ancestry_path) (auto simp: tree_ok_def)
  show "c < nodes_of st"
    using assms(2) by (simp add: attached_def)
  then show "set (path (cg_nodes st) c) \<subseteq> {..<nodes_of st}"
    by (rule path_range)
qed

text \<open>The invariant in a state with the same tree and the same members.\<close>

lemma guard_ok_same:
  assumes "same_tree st st'" "guard_ok st ms t g" "fg_cgroup g < nodes_of st"
  shows "guard_ok st' ms t g"
  using assms(2) frame_path [OF same_tree_frame [OF assms(1)] assms(3)] same_tree_fields(8) [OF assms(1,3)]
  by (simp add: guard_ok_def)

lemma ledger_ok_same:
  assumes s: "same_tree st st'" and t: "tree_ok st" and l: "ledger_ok st ms G"
  shows "ledger_ok st' ms G"
proof -
  have tw: "tree_wf (cg_nodes st)"
    using t by (simp add: tree_ok_def)
  note at = frame_attached [OF same_tree_frame [OF s] tw]
  have "guard_ok st' ms t g" if "G t = Some g" for t g
    using ledger_guard [OF l that] by (intro guard_ok_same [OF s]) (auto simp: attached_def)
  moreover have "tm_process_id m \<in> members_of st' (tm_cgroup m)" if m: "tasks_of ms t = Some m" for t m
  proof -
    have "attached (cg_nodes st) (tm_cgroup m)"
      using ledger_charges(3) [OF l, of t "tm_cgroup m"] m by (simp add: charges_def)
    with l m same_tree_fields(8) [OF s] show ?thesis
      by (auto simp: ledger_ok_def attached_def)
  qed
  ultimately show ?thesis
    using l unfolding ledger_ok_def at by blast
qed

lemma procs_ok_same:
  assumes s: "same_tree st st'" and t: "tree_ok st" and p: "procs_ok st ms G P"
  shows "procs_ok st' ms G P"
proof -
  have tw: "tree_wf (cg_nodes st)"
    using t by (simp add: tree_ok_def)
  note at = frame_attached [OF same_tree_frame [OF s] tw]
  have "p \<in> members_of st' c" if "P p = Some (Active c)" for p c
  proof -
    have "c < nodes_of st" "p \<in> members_of st c"
      using p that unfolding procs_ok_def attached_def by blast+
    with same_tree_fields(8) [OF s] show ?thesis
      by simp
  qed
  with p show ?thesis
    unfolding procs_ok_def at by blast
qed

lemma load_same:
  assumes "frame st st'" "ledger_ok st ms G"
  shows "load (charges ms G) (cg_nodes st') n = load (charges ms G) (cg_nodes st) n"
proof -
  have "path (cg_nodes st') c = path (cg_nodes st) c" if "charges ms G t = Some c" for t c
    using ledger_charges(3) [OF assms(2) that] by (intro frame_path [OF assms(1)]) (simp add: attached_def)
  then have "{t. \<exists>c. charges ms G t = Some c \<and> n \<in> set (path (cg_nodes st') c)} =
      {t. \<exists>c. charges ms G t = Some c \<and> n \<in> set (path (cg_nodes st) c)}"
    by auto
  then show ?thesis
    unfolding load_def by simp
qed

lemma cg_inv_same:
  assumes inv: "cg_inv st G P" and s: "same_tree st st'" and c: "\<forall>n<nodes_of st. current_of st' n = current_of st n"
  shows "cg_inv st' G P"
proof -
  from inv obtain ms where i: "tree_ok st" "cg_ledger st = Some ms" "ledger_ok st ms G" "procs_ok st ms G P"
    "accounts_ok st (charges ms G)"
    by (rule cg_invE)
  note f = same_tree_frame [OF s]
  have "accounts_ok st' (charges ms G)"
    using i(5) c load_same [OF f i(3)] same_tree_fields(1) [OF s] by (simp add: accounts_ok_def)
  then show ?thesis
    using frame_tree_ok [OF f i(1)] i(2) ledger_ok_same [OF s i(1,3)] procs_ok_same [OF s i(1,4)] same_tree_fields(4) [OF s]
    by (intro cg_invI) simp_all
qed

end
