(* ===== verification/CgroupOps.thy ===== *)
theory CgroupOps
  imports CgroupLedger
begin

text \<open>
  Every operation on the cgroup hierarchy keeps the accounts exact.
\<close>

lemma node_at_ledger [simp]: "node_at (st\<lparr>cg_ledger := l\<rparr>) n = node_at st n"
  by (simp add: node_at_def)

lemma state_ledger [simp]:
  "tree_ok (st\<lparr>cg_ledger := l\<rparr>) = tree_ok st" "accounts_ok (st\<lparr>cg_ledger := l\<rparr>) ch = accounts_ok st ch"
  "guard_ok (st\<lparr>cg_ledger := l\<rparr>) ms t g = guard_ok st ms t g" "ledger_ok (st\<lparr>cg_ledger := l\<rparr>) ms G = ledger_ok st ms G"
  "procs_ok (st\<lparr>cg_ledger := l\<rparr>) ms G P = procs_ok st ms G P"
  by (simp_all add: tree_ok_def accounts_ok_def guard_ok_def ledger_ok_def procs_ok_def)

lemma guard_ok_other:
  assumes "guard_ok st ms t g" "pending_of ms' t = pending_of ms t" "tasks_of ms' t = tasks_of ms t"
  shows "guard_ok st ms' t g"
  using assms by (cases "fg_publication g") (simp_all add: guard_ok_def)

lemma dom_upd_None: "f' = f(t := None) \<Longrightarrow> dom f' = dom f - {t}"
  by auto

lemma ledger_task:
  assumes "ledger_ok st ms G" "tasks_of ms t = Some m"
  shows "tm_process_id m \<in> members_of st (tm_cgroup m)" "attached (cg_nodes st) (tm_cgroup m)" "charges ms G t = Some (tm_cgroup m)"
proof -
  show "tm_process_id m \<in> members_of st (tm_cgroup m)"
    using assms unfolding ledger_ok_def by blast
  show c: "charges ms G t = Some (tm_cgroup m)"
    using assms(2) by (simp add: charges_def)
  show "attached (cg_nodes st) (tm_cgroup m)"
    by (rule ledger_charges(3) [OF assms(1) c])
qed

lemma ledger_thread:
  "ledger_ok st ms G \<Longrightarrow> G t = Some g \<Longrightarrow> fg_child_kind g = ChildThread \<Longrightarrow> fg_task_process_id g \<in> members_of st (fg_cgroup g)"
  using ledger_guard(1) [of st ms G t g] by (simp add: guard_ok_def)

lemma procs_okI:
  assumes "\<And>p c. P p = Some (Active c) \<Longrightarrow> attached (cg_nodes st) c \<and> p \<in> members_of st c"
    "\<And>t g. G t = Some g \<Longrightarrow> fg_child_kind g = ChildProcess \<Longrightarrow> P t = None"
    "\<And>t g t' m. G t = Some g \<Longrightarrow> fg_child_kind g = ChildProcess \<Longrightarrow> tasks_of ms t' = Some m \<Longrightarrow> tm_process_id m = t \<Longrightarrow> t' = t"
    "\<And>t g t' g'. G t = Some g \<Longrightarrow> fg_child_kind g = ChildProcess \<Longrightarrow> G t' = Some g' \<Longrightarrow> fg_task_process_id g' = t \<Longrightarrow> t' = t"
  shows "procs_ok st ms G P"
  unfolding procs_ok_def using assms by simp

lemma procs_okD:
  assumes "procs_ok st ms G P"
  shows "P p = Some (Active c) \<Longrightarrow> attached (cg_nodes st) c" "P p = Some (Active c) \<Longrightarrow> p \<in> members_of st c"
    "G t = Some g \<Longrightarrow> fg_child_kind g = ChildProcess \<Longrightarrow> P t = None"
    "G t = Some g \<Longrightarrow> fg_child_kind g = ChildProcess \<Longrightarrow> tasks_of ms t' = Some m \<Longrightarrow> tm_process_id m = t \<Longrightarrow> t' = t"
    "G t = Some g \<Longrightarrow> fg_child_kind g = ChildProcess \<Longrightarrow> G t' = Some g' \<Longrightarrow> fg_task_process_id g' = t \<Longrightarrow> t' = t"
  using assms unfolding procs_ok_def by blast+

section \<open>Reserving a task\<close>

lemma ledger_begin:
  assumes l: "ledger_ok st ms G" and none: "tasks_of ms t = None" "pending_of ms t = None"
    and at: "attached (cg_nodes st) (fg_cgroup g)" and t: "0 < t" "t < usize_lim"
    and g: "fg_task_id g = t" "fg_charged_path g = path (cg_nodes st) (fg_cgroup g)" "fg_publication g = Prepared"
      "fg_child_kind g = ChildProcess \<longrightarrow> fg_task_process_id g = t"
      "fg_child_kind g = ChildThread \<longrightarrow> fg_task_process_id g \<in> members_of st (fg_cgroup g)"
  defines "ms' \<equiv> ms\<lparr>ms_pending_tasks := bt_insert t (fg_task_process_id g) (ms_pending_tasks ms)\<rparr>"
  shows "ledger_ok st ms' (G(t \<mapsto> g))" "charges ms' (G(t \<mapsto> g)) = (charges ms G)(t \<mapsto> fg_cgroup g)"
proof -
  have wf: "bt_wf (ms_pending_tasks ms)" "bt_wf (ms_tasks ms)" "dom (pending_of ms) = dom G"
    using l by (simp_all add: ledger_ok_def)
  have ms': "pending_of ms' = (pending_of ms)(t \<mapsto> fg_task_process_id g)" "tasks_of ms' = tasks_of ms"
    by (simp_all add: ms'_def bt_get_insert wf fun_eq_iff)
  show ch: "charges ms' (G(t \<mapsto> g)) = (charges ms G)(t \<mapsto> fg_cgroup g)"
    using none(1) by (auto simp: charges_def ms' fun_eq_iff split: option.splits)
  have "guard_ok st ms' t' g'" if "(G(t \<mapsto> g)) t' = Some g'" for t' g'
  proof (cases "t' = t")
    case True
    then show ?thesis
      using that g none by (simp add: guard_ok_def ms')
  next
    case False
    then show ?thesis
      using that ledger_guard(1) [OF l, of t' g'] by (auto intro: guard_ok_other simp: ms')
  qed
  moreover have "bt_wf (ms_pending_tasks ms')" "bt_wf (ms_tasks ms')"
    using wf by (simp_all add: ms'_def bt_wf_insert)
  ultimately show "ledger_ok st ms' (G(t \<mapsto> g))"
    using l at t wf(3) unfolding ledger_ok_def ch by (auto simp: ms' split: if_splits)
qed

lemma procs_begin:
  assumes p: "procs_ok st ms G P" and ts: "tasks_of ms' = tasks_of ms"
    and proc: "fg_child_kind g = ChildProcess \<Longrightarrow> P t = None \<and> (\<forall>t' g'. G t' = Some g' \<longrightarrow> fg_task_process_id g' \<noteq> t) \<and>
      (\<forall>t' m. tasks_of ms t' = Some m \<longrightarrow> tm_process_id m \<noteq> t)"
    and thread: "fg_child_kind g = ChildThread \<Longrightarrow> P (fg_task_process_id g) \<noteq> None"
    and tp: "fg_child_kind g = ChildProcess \<Longrightarrow> fg_task_process_id g = t"
  shows "procs_ok st ms' (G(t \<mapsto> g)) P"
proof -
  have "P u = None \<and> (\<forall>t' m. tasks_of ms t' = Some m \<and> tm_process_id m = u \<longrightarrow> t' = u) \<and>
      (\<forall>t' g'. (G(t \<mapsto> g)) t' = Some g' \<and> fg_task_process_id g' = u \<longrightarrow> t' = u)"
    if u: "(G(t \<mapsto> g)) u = Some k" "fg_child_kind k = ChildProcess" for u k
  proof (cases "u = t")
    case True
    with u proc show ?thesis
      by auto
  next
    case False
    with u have k: "G u = Some k"
      by simp
    then have old: "P u = None" "\<forall>t' m. tasks_of ms t' = Some m \<and> tm_process_id m = u \<longrightarrow> t' = u"
      "\<forall>t' g'. G t' = Some g' \<and> fg_task_process_id g' = u \<longrightarrow> t' = u"
      using p u(2) unfolding procs_ok_def by blast+
    have ne: "fg_task_process_id g \<noteq> u"
      using thread tp False old(1) by (cases "fg_child_kind g") auto
    have "t' = u" if "(G(t \<mapsto> g)) t' = Some g'" "fg_task_process_id g' = u" for t' g'
      using that old(3) ne by (cases "t' = t") simp_all
    with old(1,2) show ?thesis
      by blast
  qed
  with p show ?thesis
    unfolding procs_ok_def ts by blast
qed

text \<open>What a caller guarantees: a new process has a number not in use, and a new thread belongs to a process that
  is active in the cgroup.\<close>

definition begin_ok ::
  "cgroups \<Rightarrow> (process_id \<rightharpoonup> fork_guard) \<Rightarrow> (process_id \<rightharpoonup> process_membership) \<Rightarrow> node_id \<Rightarrow> process_id \<Rightarrow> process_id \<Rightarrow>
   child_kind \<Rightarrow> bool" where
  "begin_ok st G P c pid t kind \<longleftrightarrow> attached (cg_nodes st) c \<and> 0 < t \<and> t < usize_lim \<and>
     (case kind of
        ChildProcess \<Rightarrow> P t = None \<and> (\<forall>t' g. G t' = Some g \<longrightarrow> fg_task_process_id g \<noteq> t) \<and>
          (\<forall>ms t' m. cg_ledger st = Some ms \<and> tasks_of ms t' = Some m \<longrightarrow> tm_process_id m \<noteq> t)
      | ChildThread \<Rightarrow> P pid = Some (Active c))"

lemma begin_task_ok:
  assumes inv: "cg_inv st G P" and ok: "begin_ok st G P c pid t kind"
  shows "\<exists>r st'. begin_task_at st c pid t kind = Some (r, st') \<and>
    (case r of
       Inr g \<Rightarrow> cg_inv st' (G(t \<mapsto> g)) P \<and> fg_cgroup g = c \<and> fg_publication g = Prepared \<and> fg_child_kind g = kind \<and>
         fg_task_id g = t \<and> G t = None \<and> nodes_of st' = nodes_of st \<and> path (cg_nodes st') c = path (cg_nodes st) c \<and>
         (\<forall>n<nodes_of st. current_of st' n = current_of st n + (if n \<in> set (path (cg_nodes st) c) then 1 else 0)) \<and>
         (\<forall>n\<in>set (path (cg_nodes st) c). current_of st n < ps_maximum (cn_pids (node_at st n)))
     | Inl e \<Rightarrow> cg_inv st' G P \<and> (\<forall>n<nodes_of st. current_of st' n = current_of st n) \<and>
         (e = LimitExceeded \<longrightarrow> (\<exists>n\<in>set (path (cg_nodes st) c). ps_maximum (cn_pids (node_at st n)) \<le> current_of st n \<or>
            current_of st n = UNLIMITED)))"
proof -
  from inv obtain ms where i: "tree_ok st" "cg_ledger st = Some ms" "ledger_ok st ms G" "procs_ok st ms G P"
    "accounts_ok st (charges ms G)"
    by (rule cg_invE)
  have at: "attached (cg_nodes st) c" "0 < t" "t < usize_lim"
    using ok by (simp_all add: begin_ok_def)
  note p = attached_ancestry [OF i(1) at(1)]
  show ?thesis
  proof (cases "pending_of ms t = None \<and> tasks_of ms t = None")
    case False
    then show ?thesis
      using inv i(2) by (auto simp: begin_task_at_def)
  next
    case True
    define ps where "ps = path (cg_nodes st) c"
    obtain r st1 where run: "charge_path st ps = (r, st1)"
      by fastforce
    have "\<forall>m. m < nodes_of st \<longrightarrow> current_of st m < usize_lim"
      using i(5) ledger_charges(2) [OF i(3)] by (simp add: accounts_ok_def)
    with charge_loop_ok [of "[]" ps st] p(2) path_distinct [of "cg_nodes st" c] run
    have loop: "case r of
        Inr _ \<Rightarrow> same_tree st st1 \<and> (\<forall>m. current_of st1 m = (if m \<in> set ps then current_of st m + 1 else current_of st m)) \<and>
          (\<forall>m\<in>set ps. current_of st m < ps_maximum (cn_pids (node_at st m)) \<and> current_of st m + 1 < usize_lim)
      | Inl e \<Rightarrow> e = LimitExceeded \<and> same_tree st st1 \<and> (\<forall>m. current_of st1 m = current_of st m) \<and>
          (\<exists>m\<in>set ps. ps_maximum (cn_pids (node_at st m)) \<le> current_of st m \<or> current_of st m = UNLIMITED)"
      by (cases r) (simp_all add: ps_def charge_path_def)
    show ?thesis
    proof (cases r)
      case (Inl e)
      then have "begin_task_at st c pid t kind = Some (Inl e, st1)"
        using True i(2) p(1) run by (simp add: begin_task_at_def ps_def)
      moreover have "cg_inv st1 G P"
        using loop Inl by (intro cg_inv_same [OF inv]) simp_all
      ultimately show ?thesis
        using loop Inl by (auto simp: ps_def)
    next
      case (Inr u)
      define g where "g = \<lparr>fg_cgroup = c, fg_task_id = t, fg_task_process_id = (case kind of ChildProcess \<Rightarrow> t | ChildThread \<Rightarrow> pid),
          fg_child_kind = kind, fg_charged_path = ps, fg_publication = Prepared\<rparr>"
      define ms' where "ms' = ms\<lparr>ms_pending_tasks := bt_insert t (fg_task_process_id g) (ms_pending_tasks ms)\<rparr>"
      have st: "same_tree st st1" and cur: "\<forall>m. current_of st1 m = (if m \<in> set ps then current_of st m + 1 else current_of st m)"
        using loop Inr by simp_all
      note fr = same_tree_frame [OF st]
      have lg: "ledger_ok st1 ms G" and pr: "procs_ok st1 ms G P"
        by (rule ledger_ok_same [OF st i(1,3)], rule procs_ok_same [OF st i(1,4)])
      have path1: "path (cg_nodes st1) c = ps"
        unfolding ps_def by (rule frame_path [OF fr p(3)])
      have at1: "attached (cg_nodes st1) c"
        using frame_attached [OF fr] i(1) at(1) by (simp add: tree_ok_def)
      have thread: "pid \<in> members_of st1 c" if "kind = ChildThread"
        using pr ok that by (auto simp: procs_ok_def begin_ok_def)
      have "ledger_ok st1 ms' (G(t \<mapsto> g))" and ch: "charges ms' (G(t \<mapsto> g)) = (charges ms G)(t \<mapsto> c)"
        using ledger_begin [OF lg, of t g] True at1 at(2,3) path1 thread by (auto simp: g_def ms'_def)
      moreover have none: "G t = None" "charges ms G t = None"
        using ledger_absent [OF i(3)] True by (simp_all add: charges_def)
      then have "accounts_ok st1 ((charges ms G)(t \<mapsto> c))"
        using i(5) cur load_upd [OF ledger_charges(1) [OF i(3)] none(2), of c "cg_nodes st1"] load_same [OF fr i(3)]
          same_tree_fields(1) [OF st] by (simp add: accounts_ok_def path1)
      moreover have "procs_ok st1 ms' (G(t \<mapsto> g)) P"
        using ok i(2) by (intro procs_begin [OF pr]) (auto simp: ms'_def g_def begin_ok_def)
      ultimately have "cg_inv (st1\<lparr>cg_ledger := Some ms'\<rparr>) (G(t \<mapsto> g)) P"
        using frame_tree_ok [OF fr i(1)] by (intro cg_invI [where ms = ms']) simp_all
      moreover have "begin_task_at st c pid t kind = Some (Inr g, st1\<lparr>cg_ledger := Some ms'\<rparr>)"
        using True i(2) p(1) run Inr by (simp add: begin_task_at_def ps_def g_def ms'_def Let_def)
      ultimately show ?thesis
        using loop Inr cur none(1) path1 same_tree_fields(1) [OF st] by (auto simp: g_def ps_def)
    qed
  qed
qed

section \<open>Changing members\<close>

lemma ledger_ok_frame:
  assumes f: "frame st st'" and t: "tree_ok st" and l: "ledger_ok st ms G"
    and ts: "\<forall>t m. tasks_of ms t = Some m \<longrightarrow> tm_process_id m \<in> members_of st' (tm_cgroup m)"
    and gs: "\<forall>t g. G t = Some g \<and> fg_child_kind g = ChildThread \<longrightarrow> fg_task_process_id g \<in> members_of st' (fg_cgroup g)"
  shows "ledger_ok st' ms G"
proof -
  have tw: "tree_wf (cg_nodes st)"
    using t by (simp add: tree_ok_def)
  note at = frame_attached [OF f tw]
  have "guard_ok st' ms t g" if "G t = Some g" for t g
  proof -
    have "fg_cgroup g < nodes_of st"
      using ledger_guard(3) [OF l that] by (simp add: attached_def)
    with frame_path [OF f] ledger_guard(1) [OF l that] gs that show ?thesis
      by (simp add: guard_ok_def)
  qed
  with l ts show ?thesis
    unfolding ledger_ok_def at by blast
qed

lemma procs_ok_frame:
  assumes f: "frame st st'" and t: "tree_ok st" and p: "procs_ok st ms G P"
    and ps: "\<forall>p c. P p = Some (Active c) \<longrightarrow> p \<in> members_of st' c"
  shows "procs_ok st' ms G P"
proof -
  have tw: "tree_wf (cg_nodes st)"
    using t by (simp add: tree_ok_def)
  show ?thesis
    using p ps unfolding procs_ok_def frame_attached [OF f tw] by blast
qed

lemma accounts_frame:
  assumes "frame st st'" "ledger_ok st ms G" "accounts_ok st (charges ms G)" "\<forall>n<nodes_of st. current_of st' n = current_of st n"
  shows "accounts_ok st' (charges ms G)"
  using assms(3,4) load_same [OF assms(1,2)] assms(1) by (simp add: accounts_ok_def frame_def)

lemma add_member_ok:
  fixes p :: process_id
  assumes "c < nodes_of st"
  defines "st' \<equiv> snd (add_member st c p)"
  shows "frame st st'" "cg_ledger st' = cg_ledger st" "current_of st' n = current_of st n"
    "members_of st' n = (if n = c then insert p (members_of st c) else members_of st n)"
    "p \<in> members_of st c \<Longrightarrow> st' = st"
  using assms(1) unfolding st'_def add_member_def
  by (simp_all add: frame_def node_at_upd) (simp add: upd_node_def node_at_def insert_absorb)

lemma remove_member_ok:
  fixes p :: process_id
  assumes "c < nodes_of st"
  defines "st' \<equiv> snd (remove_member st c p)"
  shows "frame st st'" "cg_ledger st' = cg_ledger st" "current_of st' n = current_of st n"
    "members_of st' n = (if n = c then members_of st c - {p} else members_of st n)"
    "p \<notin> members_of st c \<Longrightarrow> st' = st"
  using assms(1) unfolding st'_def remove_member_def
  by (simp_all add: frame_def node_at_upd) (simp add: upd_node_def node_at_def)

section \<open>Publishing and committing\<close>

lemma ledger_publish:
  assumes l: "ledger_ok st ms G" and g: "G t = Some g" "fg_publication g = Prepared"
    and mem: "fg_task_process_id g \<in> members_of st (fg_cgroup g)"
  defines "ms' \<equiv> ms\<lparr>ms_tasks := bt_insert t \<lparr>tm_process_id = fg_task_process_id g, tm_cgroup = fg_cgroup g\<rparr> (ms_tasks ms)\<rparr>"
  defines "G' \<equiv> G(t \<mapsto> g\<lparr>fg_publication := Published\<rparr>)"
  shows "ledger_ok st ms' G'" "charges ms' G' = charges ms G" "procs_ok st ms G P \<Longrightarrow> procs_ok st ms' G' P"
proof -
  have wf: "bt_wf (ms_pending_tasks ms)" "bt_wf (ms_tasks ms)" "dom (pending_of ms) = dom G"
    using l by (simp_all add: ledger_ok_def)
  have go: "guard_ok st ms t g" "charges ms G t = Some (fg_cgroup g)"
    using ledger_guard [OF l g(1)] by simp_all
  have ms': "pending_of ms' = pending_of ms"
    "tasks_of ms' = (tasks_of ms)(t \<mapsto> \<lparr>tm_process_id = fg_task_process_id g, tm_cgroup = fg_cgroup g\<rparr>)"
    by (simp_all add: ms'_def bt_get_insert wf fun_eq_iff)
  show ch: "charges ms' G' = charges ms G"
    using go(2) by (auto simp: charges_def ms' G'_def fun_eq_iff split: option.splits)
  have gs: "guard_ok st ms' t' g'" if "G' t' = Some g'" for t' g'
  proof (cases "t' = t")
    case True
    then show ?thesis
      using that go(1) g(2) by (auto simp: guard_ok_def ms' G'_def)
  next
    case False
    then have "guard_ok st ms t' g'"
      using that ledger_guard(1) [OF l, of t' g'] by (simp add: G'_def)
    with False show ?thesis
      by (auto intro: guard_ok_other simp: ms')
  qed
  have ts: "tm_process_id m \<in> members_of st (tm_cgroup m)" if "tasks_of ms' t' = Some m" for t' m
    using that l mem unfolding ms' ledger_ok_def by (cases "t' = t") auto
  have "dom (pending_of ms') = dom G'"
    using wf(3) g(1) by (auto simp: ms' G'_def)
  moreover have "bt_wf (ms_pending_tasks ms')" "bt_wf (ms_tasks ms')"
    using wf by (simp_all add: ms'_def bt_wf_insert)
  ultimately show "ledger_ok st ms' G'"
    unfolding ledger_ok_def ch using gs ts l [unfolded ledger_ok_def] by blast
  show "procs_ok st ms' G' P" if p: "procs_ok st ms G P"
  proof (rule procs_okI)
    have old: "\<exists>k'. G u = Some k' \<and> fg_child_kind k' = fg_child_kind k \<and> fg_task_process_id k' = fg_task_process_id k"
      if "G' u = Some k" for u k
      using that g(1) by (cases "u = t") (auto simp: G'_def)
    show "attached (cg_nodes st) c \<and> q \<in> members_of st c" if "P q = Some (Active c)" for q c
      using procs_okD(1,2) [OF p that] by simp
    show "P u = None" if "G' u = Some k" "fg_child_kind k = ChildProcess" for u k
      using old [OF that(1)] that(2) procs_okD(3) [OF p] by auto
    show "t' = u" if "G' u = Some k" "fg_child_kind k = ChildProcess" "tasks_of ms' t' = Some m" "tm_process_id m = u" for u k t' m
    proof (cases "t' = t")
      case True
      then show ?thesis
        using old [OF that(1)] that(2-) procs_okD(5) [OF p _ _ g(1)] by (auto simp: ms')
    next
      case False
      then show ?thesis
        using old [OF that(1)] that(2-) procs_okD(4) [OF p] by (auto simp: ms')
    qed
    show "t' = u" if "G' u = Some k" "fg_child_kind k = ChildProcess" "G' t' = Some g'" "fg_task_process_id g' = u" for u k t' g'
      using old [OF that(1)] old [OF that(3)] that(2,4) procs_okD(5) [OF p] by auto
  qed
qed

lemma guard_publish_ok:
  assumes inv: "cg_inv st G P" and g: "G t = Some g"
  shows "\<exists>r st' g'. guard_publish st g = (r, st', g') \<and> cg_inv st' (G(t \<mapsto> g')) P \<and>
    (\<forall>n<nodes_of st. current_of st' n = current_of st n) \<and>
    (case r of Inr _ \<Rightarrow> g' = g\<lparr>fg_publication := Published\<rparr> | Inl _ \<Rightarrow> st' = st \<and> g' = g)"
proof -
  from inv obtain ms where i: "tree_ok st" "cg_ledger st = Some ms" "ledger_ok st ms G" "procs_ok st ms G P"
    "accounts_ok st (charges ms G)"
    by (rule cg_invE)
  note go = ledger_guard [OF i(3) g]
  have tid: "fg_task_id g = t" "pending_of ms t = Some (fg_task_process_id g)"
    using go(1) by (simp_all add: guard_ok_def)
  have same: "G(t \<mapsto> g) = G"
    using g by auto
  show ?thesis
  proof (cases "fg_publication g = Prepared")
    case False
    then show ?thesis
      using inv same by (simp add: guard_publish_def)
  next
    case True
    then have none: "tasks_of ms t = None"
      using go(1) by (simp add: guard_ok_def)
    define c where "c = fg_cgroup g"
    have c: "c < nodes_of st"
      using go(3) by (simp add: c_def attached_def)
    define st1 where "st1 = (if fg_child_kind g = ChildProcess then snd (add_member st c t) else st)"
    note am = add_member_ok [OF c, of t]
    have s1: "frame st st1" "cg_ledger st1 = cg_ledger st" "\<And>n. current_of st1 n = current_of st n"
      "\<And>n. members_of st n \<subseteq> members_of st1 n"
      using am by (auto simp: st1_def frame_def)
    show ?thesis
    proof (cases "fg_child_kind g = ChildProcess \<and> t \<in> members_of st c")
      case busy: True
      then have "guard_publish st g = (Inl ResourceBusy, st, g)"
        using True none tid i(2) am(5) by (simp add: guard_publish_def add_member_def c_def)
      then show ?thesis
        using inv same by simp
    next
      case False
      define ms' where "ms' = ms\<lparr>ms_tasks := bt_insert t \<lparr>tm_process_id = fg_task_process_id g, tm_cgroup = c\<rparr> (ms_tasks ms)\<rparr>"
      have run: "guard_publish st g = (Inr (), st1\<lparr>cg_ledger := Some ms'\<rparr>, g\<lparr>fg_publication := Published\<rparr>)"
        using True False none tid i(2) by (auto simp: guard_publish_def add_member_def st1_def ms'_def c_def)
      have l1: "ledger_ok st1 ms G"
        using ledger_task(1) [OF i(3)] ledger_thread [OF i(3)] s1(4)
        by (intro ledger_ok_frame [OF s1(1) i(1,3)]) blast+
      have p1: "procs_ok st1 ms G P"
        using procs_okD(2) [OF i(4)] s1(4) by (intro procs_ok_frame [OF s1(1) i(1,4)]) (simp add: subset_iff)
      have mem: "fg_task_process_id g \<in> members_of st1 (fg_cgroup g)"
        using go(1) s1(4) am(4) by (cases "fg_child_kind g") (auto simp: guard_ok_def st1_def c_def)
      note pub = ledger_publish [OF l1 g True mem, folded c_def, folded ms'_def]
      have "cg_inv (st1\<lparr>cg_ledger := Some ms'\<rparr>) (G(t \<mapsto> g\<lparr>fg_publication := Published\<rparr>)) P"
        using frame_tree_ok [OF s1(1) i(1)] pub(1,2) pub(3) [OF p1] accounts_frame [OF s1(1) i(3,5)] s1(3)
        by (intro cg_invI [where ms = ms']) simp_all
      with run s1(3) show ?thesis
        by simp
    qed
  qed
qed

lemma guard_commit_ok:
  assumes inv: "cg_inv st G P" and g: "G t = Some g" "fg_publication g = Published"
  defines "P' \<equiv> (if fg_child_kind g = ChildProcess then P(t \<mapsto> membership_new (fg_cgroup g)) else P)"
  shows "\<exists>st'. guard_commit st g = Some st' \<and> cg_inv st' (G(t := None)) P' \<and> (\<forall>n<nodes_of st. current_of st' n = current_of st n)"
proof -
  from inv obtain ms where i: "tree_ok st" "cg_ledger st = Some ms" "ledger_ok st ms G" "procs_ok st ms G P"
    "accounts_ok st (charges ms G)"
    by (rule cg_invE)
  note go = ledger_guard [OF i(3) g(1)]
  have tid: "fg_task_id g = t" "pending_of ms t = Some (fg_task_process_id g)"
    "tasks_of ms t = Some \<lparr>tm_process_id = fg_task_process_id g, tm_cgroup = fg_cgroup g\<rparr>"
    using go(1) g(2) by (simp_all add: guard_ok_def)
  define ms' where "ms' = ms\<lparr>ms_pending_tasks := bt_remove t (ms_pending_tasks ms)\<rparr>"
  have ms': "pending_of ms' = (pending_of ms)(t := None)" "tasks_of ms' = tasks_of ms"
    by (simp_all add: ms'_def bt_get_remove fun_eq_iff)
  have ch: "charges ms' (G(t := None)) = charges ms G"
    using tid(3) by (auto simp: charges_def ms' fun_eq_iff split: option.splits)
  have "guard_ok st ms' t' g'" if "(G(t := None)) t' = Some g'" for t' g'
  proof -
    have "t' \<noteq> t" "guard_ok st ms t' g'"
      using that ledger_guard(1) [OF i(3), of t' g'] by (auto split: if_splits)
    then show ?thesis
      by (auto intro: guard_ok_other simp: ms')
  qed
  moreover have "dom (pending_of ms') = dom (G(t := None))"
    using i(3) dom_upd_None [OF ms'(1)] by (simp add: ledger_ok_def)
  moreover have "bt_wf (ms_pending_tasks ms')" "bt_wf (ms_tasks ms')"
    using i(3) by (simp_all add: ms'_def ledger_ok_def)
  ultimately have "ledger_ok st ms' (G(t := None))"
    using i(3) unfolding ledger_ok_def ch ms'(2) by blast
  moreover have "procs_ok st ms' (G(t := None)) P'"
  proof (rule procs_okI)
    show "attached (cg_nodes st) c \<and> p \<in> members_of st c" if "P' p = Some (Active c)" for p c
    proof (cases "p = t \<and> fg_child_kind g = ChildProcess")
      case True
      then have "c = fg_cgroup g" "fg_task_process_id g = t"
        using that go(1) by (simp_all add: P'_def membership_new_def guard_ok_def)
      moreover have "fg_task_process_id g \<in> members_of st (fg_cgroup g)"
        using i(3) tid(3) unfolding ledger_ok_def by force
      ultimately show ?thesis
        using True go(3) by simp
    next
      case False
      then have "P p = Some (Active c)"
        using that by (auto simp: P'_def split: if_splits)
      then show ?thesis
        using procs_okD(1,2) [OF i(4)] by simp
    qed
    have old: "u \<noteq> t \<and> G u = Some k" if "(G(t := None)) u = Some k" for u k
      using that by (simp split: if_splits)
    show "P' u = None" if "(G(t := None)) u = Some k" "fg_child_kind k = ChildProcess" for u k
      using old [OF that(1)] that(2) procs_okD(3) [OF i(4)] by (simp add: P'_def)
    show "t' = u" if "(G(t := None)) u = Some k" "fg_child_kind k = ChildProcess" "tasks_of ms' t' = Some m" "tm_process_id m = u"
      for u k t' m
      using old [OF that(1)] that(2-) procs_okD(4) [OF i(4)] by (simp add: ms'(2))
    show "t' = u" if "(G(t := None)) u = Some k" "fg_child_kind k = ChildProcess" "(G(t := None)) t' = Some g'"
      "fg_task_process_id g' = u" for u k t' g'
      using old [OF that(1)] old [OF that(3)] that(2,4) procs_okD(5) [OF i(4)] by simp
  qed
  ultimately have "cg_inv (st\<lparr>cg_ledger := Some ms'\<rparr>) (G(t := None)) P'"
    using i ch by (intro cg_invI [where ms = ms']) simp_all
  moreover have "guard_commit st g = Some (st\<lparr>cg_ledger := Some ms'\<rparr>)"
    using g(2) i(2) tid by (simp add: guard_commit_def ms'_def)
  ultimately show ?thesis
    by simp
qed

section \<open>Releasing a task\<close>

lemma ledger_forget:
  assumes l: "ledger_ok st ms G" and ms': "pending_of ms' = (pending_of ms)(t := None)" "tasks_of ms' = (tasks_of ms)(t := None)"
    and wf: "bt_wf (ms_pending_tasks ms')" "bt_wf (ms_tasks ms')"
  shows "ledger_ok st ms' (G(t := None))" "charges ms' (G(t := None)) = (charges ms G)(t := None)"
    "procs_ok st ms G P \<Longrightarrow> procs_ok st ms' (G(t := None)) P"
proof -
  have old: "u \<noteq> t \<and> G u = Some k" if "(G(t := None)) u = Some k" for u k
    using that by (simp split: if_splits)
  have oldt: "u \<noteq> t \<and> tasks_of ms u = Some m" if "tasks_of ms' u = Some m" for u m
    using that unfolding ms' by (simp split: if_splits)
  show ch: "charges ms' (G(t := None)) = (charges ms G)(t := None)"
    by (auto simp: charges_def ms' fun_eq_iff split: option.splits)
  have "guard_ok st ms' u k" if "(G(t := None)) u = Some k" for u k
    using old [OF that] ledger_guard(1) [OF l, of u k] by (auto intro: guard_ok_other simp: ms')
  moreover have "dom (pending_of ms') = dom (G(t := None))"
    using l dom_upd_None [OF ms'(1)] by (simp add: ledger_ok_def)
  moreover have "tm_process_id m \<in> members_of st (tm_cgroup m)" if "tasks_of ms' u = Some m" for u m
    using oldt [OF that] ledger_task(1) [OF l] by blast
  moreover have "attached (cg_nodes st) c \<and> 0 < u \<and> u < usize_lim" if "charges ms' (G(t := None)) u = Some c" for u c
    using that ledger_charges(3,4) [OF l, of u c] unfolding ch by (simp split: if_splits)
  ultimately show "ledger_ok st ms' (G(t := None))"
    using wf unfolding ledger_ok_def by blast
  show "procs_ok st ms' (G(t := None)) P" if p: "procs_ok st ms G P"
    using procs_okD [OF p] old oldt by (intro procs_okI) blast+
qed

lemma accounts_uncharge:
  assumes t: "tree_ok st" and ac: "accounts_ok st ch" and fin: "finite (dom ch)"
    and c: "ch u = Some c" "attached (cg_nodes st) c" and att: "\<And>v d. ch v = Some d \<Longrightarrow> d < nodes_of st"
  defines "st' \<equiv> uncharge_path st (path (cg_nodes st) c) 1"
  shows "same_tree st st'" "accounts_ok st' (ch(u := None))"
    "n < nodes_of st \<Longrightarrow> current_of st n = current_of st' n + (if n \<in> set (path (cg_nodes st) c) then 1 else 0)"
proof -
  note p = attached_ancestry [OF t c(2)]
  note un = uncharge_path_ok [OF path_distinct p(2), of 1, folded st'_def]
  show s: "same_tree st st'"
    by (rule un(1))
  have cur: "current_of st' m + (if m \<in> set (path (cg_nodes st) c) then 1 else 0) = current_of st m" if "m < nodes_of st" for m
    using ac that load_del [OF fin c(1), of "cg_nodes st" m] un(2) [of m] by (simp add: accounts_ok_def usize_sub_def)
  then show "n < nodes_of st \<Longrightarrow> current_of st n = current_of st' n + (if n \<in> set (path (cg_nodes st) c) then 1 else 0)"
    by simp
  have "load (ch(u := None)) (cg_nodes st') m = load (ch(u := None)) (cg_nodes st) m" for m
  proof -
    have "path (cg_nodes st') d = path (cg_nodes st) d" if "ch v = Some d" for v d
      by (rule frame_path [OF same_tree_frame [OF s] att [OF that]])
    then have "{v. \<exists>d. (ch(u := None)) v = Some d \<and> m \<in> set (path (cg_nodes st') d)} =
        {v. \<exists>d. (ch(u := None)) v = Some d \<and> m \<in> set (path (cg_nodes st) d)}"
      by (auto split: if_splits)
    then show ?thesis
      unfolding load_def by simp
  qed
  then show "accounts_ok st' (ch(u := None))"
    using ac cur load_del [OF fin c(1)] same_tree_fields(1) [OF s] by (fastforce simp: accounts_ok_def)
qed

text \<open>The common end of a dropped guard and of an exiting task: the entry is gone and the path is uncharged.\<close>

lemma release_task:
  assumes t: "tree_ok st" and l: "ledger_ok st ms G" and p: "procs_ok st ms G P" and ms: "cg_ledger st = Some ms"
    and ac: "accounts_ok st ((charges ms G)(u \<mapsto> c))" and c: "charges ms G u = None" "attached (cg_nodes st) c"
  defines "st' \<equiv> uncharge_path st (path (cg_nodes st) c) 1"
  shows "cg_inv st' G P"
    "\<forall>n<nodes_of st. current_of st n = current_of st' n + (if n \<in> set (path (cg_nodes st) c) then 1 else 0)"
proof -
  note ch = ledger_charges [OF l]
  have att: "d < nodes_of st" if "((charges ms G)(u \<mapsto> c)) v = Some d" for v d
    using that c(2) ch(3) [of v d] by (auto simp: attached_def split: if_splits)
  have fin: "finite (dom ((charges ms G)(u \<mapsto> c)))"
    using ch(1) by simp
  note un = accounts_uncharge [OF t ac fin _ c(2) att, of u, folded st'_def]
  have "((charges ms G)(u \<mapsto> c))(u := None) = charges ms G"
    using c(1) by auto
  with un(2) have "accounts_ok st' (charges ms G)"
    by simp
  moreover have "same_tree st st'"
    using un(1) by simp
  ultimately show "cg_inv st' G P"
    using frame_tree_ok [OF same_tree_frame t] ledger_ok_same [OF _ t l] procs_ok_same [OF _ t p] same_tree_fields(4) ms
    by (intro cg_invI [where ms = ms]) simp_all
  show "\<forall>n<nodes_of st. current_of st n = current_of st' n + (if n \<in> set (path (cg_nodes st) c) then 1 else 0)"
    using un(3) by simp
qed

lemma forget_eq:
  assumes "cg_ledger st = Some ms"
  shows "forget_pending st t = st\<lparr>cg_ledger := Some (ms\<lparr>ms_pending_tasks := bt_remove t (ms_pending_tasks ms)\<rparr>)\<rparr>"
    "forget_task (forget_pending st t) t =
     st\<lparr>cg_ledger := Some (ms\<lparr>ms_pending_tasks := bt_remove t (ms_pending_tasks ms), ms_tasks := bt_remove t (ms_tasks ms)\<rparr>)\<rparr>"
  using assms by (simp_all add: forget_pending_def forget_task_def)

lemma leave_ok:
  assumes t: "tree_ok st" and l: "ledger_ok st ms G" and p: "procs_ok st ms G P" and c: "c < nodes_of st"
    and no: "\<forall>u m. tasks_of ms u = Some m \<longrightarrow> tm_process_id m \<noteq> q"
      "\<forall>u k. G u = Some k \<and> fg_child_kind k = ChildThread \<longrightarrow> fg_task_process_id k \<noteq> q" "\<forall>d. P q \<noteq> Some (Active d)"
  defines "st' \<equiv> snd (remove_member st c q)"
  shows "ledger_ok st' ms G" "procs_ok st' ms G P"
proof -
  note rm = remove_member_ok [OF c, of q, folded st'_def]
  have mem: "x \<in> members_of st n \<Longrightarrow> x \<noteq> q \<Longrightarrow> x \<in> members_of st' n" for x n
    by (auto simp: rm(4))
  show "ledger_ok st' ms G"
    using ledger_task(1) [OF l] ledger_thread [OF l] no(1,2) by (intro ledger_ok_frame [OF rm(1) t l]) (blast intro: mem)+
  show "procs_ok st' ms G P"
    using procs_okD(2) [OF p] no(3) by (intro procs_ok_frame [OF rm(1) t p]) (metis mem)
qed

text \<open>The rollback of a fork takes back exactly what it has charged and published.\<close>

lemma guard_drop_ok:
  assumes inv: "cg_inv st G P" and g: "G t = Some g"
  shows "cg_inv (guard_drop st g) (G(t := None)) P"
    "\<forall>n<nodes_of st. current_of st n = current_of (guard_drop st g) n +
       (if n \<in> set (path (cg_nodes st) (fg_cgroup g)) then 1 else 0)"
proof -
  from inv obtain ms where i: "tree_ok st" "cg_ledger st = Some ms" "ledger_ok st ms G" "procs_ok st ms G P"
    "accounts_ok st (charges ms G)"
    by (rule cg_invE)
  note go = ledger_guard [OF i(3) g]
  define c where "c = fg_cgroup g"
  have tid: "fg_task_id g = t" "fg_charged_path g = path (cg_nodes st) c" "c < nodes_of st"
    using go(1,3) by (simp_all add: guard_ok_def c_def attached_def)
  have wf: "bt_wf (ms_pending_tasks ms)" "bt_wf (ms_tasks ms)"
    using i(3) by (simp_all add: ledger_ok_def)
  define ms' where "ms' = (if fg_publication g = Prepared then ms\<lparr>ms_pending_tasks := bt_remove t (ms_pending_tasks ms)\<rparr>
      else ms\<lparr>ms_pending_tasks := bt_remove t (ms_pending_tasks ms), ms_tasks := bt_remove t (ms_tasks ms)\<rparr>)"
  have ms': "pending_of ms' = (pending_of ms)(t := None)" "tasks_of ms' = (tasks_of ms)(t := None)"
    "bt_wf (ms_pending_tasks ms')" "bt_wf (ms_tasks ms')"
    using go(1) wf by (auto simp: ms'_def bt_get_remove fun_eq_iff guard_ok_def)
  note fo = ledger_forget [OF i(3) ms']
  define st1 where "st1 = st\<lparr>cg_ledger := Some ms'\<rparr>"
  define st2 where "st2 = (if fg_publication g = Published \<and> fg_child_kind g = ChildProcess then snd (remove_member st1 c t) else st1)"
  have c1: "c < nodes_of st1" "tree_ok st1" "ledger_ok st1 ms' (G(t := None))" "procs_ok st1 ms' (G(t := None)) P"
    using tid(3) i(1) fo(1) fo(3) [OF i(4)] by (simp_all add: st1_def)
  note rm = remove_member_ok [OF c1(1), of t]
  have s2: "frame st1 st2" "cg_ledger st2 = Some ms'" "\<And>n. current_of st2 n = current_of st1 n"
    using rm by (auto simp: st2_def st1_def frame_def)
  have run: "guard_drop st g = uncharge_path st2 (path (cg_nodes st2) c) 1"
    using forget_eq [OF i(2), of t] go(1) tid frame_path [OF s2(1) c1(1)]
    by (cases "fg_publication g") (auto simp: guard_drop_def st2_def st1_def ms'_def guard_ok_def c_def Let_def)
  have "ledger_ok st2 ms' (G(t := None)) \<and> procs_ok st2 ms' (G(t := None)) P"
  proof (cases "fg_publication g = Published \<and> fg_child_kind g = ChildProcess")
    case True
    then have proc: "fg_child_kind g = ChildProcess"
      by simp
    have "\<forall>u m. tasks_of ms' u = Some m \<longrightarrow> tm_process_id m \<noteq> t"
      using procs_okD(4) [OF i(4) g proc] by (auto simp: ms'(2) split: if_splits)
    moreover have "\<forall>u k. (G(t := None)) u = Some k \<and> fg_child_kind k = ChildThread \<longrightarrow> fg_task_process_id k \<noteq> t"
      using procs_okD(5) [OF i(4) g proc] by (auto split: if_splits)
    moreover have "\<forall>d. P t \<noteq> Some (Active d)"
      using procs_okD(3) [OF i(4) g proc] by simp
    ultimately show ?thesis
      using leave_ok [OF c1(2-4,1)] True by (simp add: st2_def)
  qed (use c1 in \<open>auto simp: st2_def\<close>)
  then have l2: "ledger_ok st2 ms' (G(t := None))" and p2: "procs_ok st2 ms' (G(t := None)) P"
    by simp_all
  have "frame st st2"
    using s2(1) by (simp add: st1_def frame_def)
  then have ac2: "accounts_ok st2 (charges ms G)"
    using s2(3) by (intro accounts_frame [OF _ i(3,5)]) (simp_all add: st1_def)
  have at2: "attached (cg_nodes st2) c"
    using frame_attached [OF \<open>frame st st2\<close>] i(1) go(3) by (simp add: tree_ok_def c_def)
  have "(charges ms' (G(t := None)))(t \<mapsto> c) = charges ms G" "charges ms' (G(t := None)) t = None"
    using go(2) by (auto simp: fo(2) c_def)
  then have "accounts_ok st2 ((charges ms' (G(t := None)))(t \<mapsto> c))"
    using ac2 by simp
  note rel = release_task [OF frame_tree_ok [OF \<open>frame st st2\<close> i(1)] l2 p2 s2(2) this
      \<open>charges ms' (G(t := None)) t = None\<close> at2, folded run]
  show "cg_inv (guard_drop st g) (G(t := None)) P"
    by (rule rel(1))
  show "\<forall>n<nodes_of st. current_of st n = current_of (guard_drop st g) n +
       (if n \<in> set (path (cg_nodes st) (fg_cgroup g)) then 1 else 0)"
    using rel(2) frame_path [OF \<open>frame st st2\<close> tid(3)] s2(3) \<open>frame st st2\<close> by (simp add: frame_def c_def st1_def)
qed

lemma pending_guard:
  assumes "ledger_ok st ms G" "\<not> has_pending_task ms q" "G u = Some k"
  shows "fg_task_process_id k \<noteq> q"
proof -
  have "pending_of ms u = Some (fg_task_process_id k)"
    using ledger_guard(1) [OF assms(1,3)] by (simp add: guard_ok_def)
  then have "fg_task_process_id k \<in> set (bt_values (ms_pending_tasks ms))"
    unfolding bt_values_def by (force dest: map_of_SomeD)
  with assms(2) show ?thesis
    by (auto simp: has_pending_task_def)
qed

lemma procs_exited:
  assumes "procs_ok st ms G P" "P q \<noteq> None"
  shows "procs_ok st ms G (P(q \<mapsto> Exited d))"
  using procs_okD [OF assms(1)] assms(2) by (intro procs_okI) (auto split: if_splits)

lemma exit_task_ok:
  assumes inv: "cg_inv st G P" and p: "P pid = Some p" and g: "G t = None"
  shows "\<exists>r st' p'. exit_task st p pid t kind = Some (r, st', p') \<and> cg_inv st' G (P(pid \<mapsto> p'))"
proof -
  from inv obtain ms where i: "tree_ok st" "cg_ledger st = Some ms" "ledger_ok st ms G" "procs_ok st ms G P"
    "accounts_ok st (charges ms G)"
    by (rule cg_invE)
  have same: "P(pid \<mapsto> p) = P"
    using p by auto
  have ex: "cg_inv st G (P(pid \<mapsto> Exited n))" for n
    using i procs_exited [OF i(4)] p by (intro cg_invI [OF i(1,2,3) _ i(5)]) simp
  show ?thesis
  proof (cases p)
    case (Exited n)
    with inv same show ?thesis
      by (simp add: exit_task_def)
  next
    case (Active n)
    show ?thesis
    proof (cases "tasks_of ms t")
      case None
      with inv same Active i(2) ex show ?thesis
        by (simp add: exit_task_def exit_task_at_def)
    next
      case (Some m)
      define busy where "busy \<longleftrightarrow> tm_process_id m \<noteq> pid \<or> tm_cgroup m \<noteq> n \<or> kind = ExitLastProcessTask \<and>
        (has_pending_task ms pid \<or> (\<exists>(t', m)\<in>set (ms_tasks ms). t' \<noteq> t \<and> tm_process_id m = pid))"
      show ?thesis
      proof (cases busy)
        case True
        with inv same Active i(2) Some show ?thesis
          by (auto simp: exit_task_def exit_task_at_def busy_def)
      next
        case False
        define ms' where "ms' = ms\<lparr>ms_tasks := bt_remove t (ms_tasks ms)\<rparr>"
        define st1 where "st1 = st\<lparr>cg_ledger := Some ms'\<rparr>"
        define st2 where "st2 = (if kind = ExitLastProcessTask then snd (remove_member st1 n pid) else st1)"
        define p' where "p' = (if kind = ExitLastProcessTask then Exited n else p)"
        have m: "tm_process_id m = pid" "tm_cgroup m = n"
          using False by (simp_all add: busy_def)
        note tk = ledger_task [OF i(3) Some, unfolded m]
        have n: "n < nodes_of st1"
          using tk(2) by (simp add: attached_def st1_def)
        have "pending_of ms t = None"
          using i(3) g unfolding ledger_ok_def by (metis domIff)
        then have ms': "pending_of ms' = (pending_of ms)(t := None)" "tasks_of ms' = (tasks_of ms)(t := None)"
          "bt_wf (ms_pending_tasks ms')" "bt_wf (ms_tasks ms')"
          using i(3) by (auto simp: ms'_def bt_get_remove fun_eq_iff ledger_ok_def)
        have gt: "G(t := None) = G"
          using g by auto
        note fo = ledger_forget [OF i(3) ms', unfolded gt]
        have s1: "tree_ok st1" "ledger_ok st1 ms' G" "procs_ok st1 ms' G (P(pid \<mapsto> p'))"
          using i(1) fo(1) fo(3) [OF i(4)] procs_exited p same by (simp_all add: st1_def p'_def)
        have s2: "frame st1 st2" "cg_ledger st2 = Some ms'" "\<And>n. current_of st2 n = current_of st1 n"
          using remove_member_ok [OF n, of pid] by (auto simp: st2_def st1_def frame_def)
        have "ledger_ok st2 ms' G \<and> procs_ok st2 ms' G (P(pid \<mapsto> p'))"
        proof (cases "kind = ExitLastProcessTask")
          case True
          have "\<forall>u m. tasks_of ms' u = Some m \<longrightarrow> tm_process_id m \<noteq> pid"
            using False True by (auto simp: ms'(2) busy_def dest: map_of_SomeD split: if_splits)
          moreover have "\<forall>u k. G u = Some k \<and> fg_child_kind k = ChildThread \<longrightarrow> fg_task_process_id k \<noteq> pid"
            using pending_guard [OF i(3)] False True by (auto simp: busy_def)
          moreover have "\<forall>d. (P(pid \<mapsto> p')) pid \<noteq> Some (Active d)"
            using True by (simp add: p'_def)
          ultimately show ?thesis
            using leave_ok [OF s1 n] True by (simp add: st2_def)
        qed (use s1 in \<open>simp add: st2_def\<close>)
        then have l2: "ledger_ok st2 ms' G" and p2: "procs_ok st2 ms' G (P(pid \<mapsto> p'))"
          by simp_all
        have f: "frame st st2"
          using s2(1) by (simp add: st1_def frame_def)
        have "accounts_ok st2 (charges ms G)"
          using s2(3) by (intro accounts_frame [OF f i(3,5)]) (simp add: st1_def)
        moreover have ch: "(charges ms' G)(t \<mapsto> n) = charges ms G" "charges ms' G t = None"
          using tk(3) by (auto simp: fo(2))
        ultimately have ac: "accounts_ok st2 ((charges ms' G)(t \<mapsto> n))"
          by simp
        have at: "attached (cg_nodes st2) n"
          using frame_attached [OF f] i(1) tk(2) by (simp add: tree_ok_def)
        note rel = release_task [OF frame_tree_ok [OF f i(1)] l2 p2 s2(2) ac ch(2) at]
        have "exit_task st p pid t kind = Some (Inr (), uncharge_path st2 (path (cg_nodes st2) n) 1, p')"
          using Active Some i(2) False m attached_ancestry(1) [OF frame_tree_ok [OF f i(1)] at]
          by (auto simp: exit_task_def exit_task_at_def busy_def st2_def st1_def ms'_def p'_def Let_def)
        with rel(1) show ?thesis
          by blast
      qed
    qed
  qed
qed

section \<open>Renaming and migrating\<close>

lemma rename_task_ok:
  assumes inv: "cg_inv st G P" and p: "P pid = Some p" and g: "G t = None" and t': "0 < t'" "t' < usize_lim"
  shows "\<exists>r st'. rename_task st p pid t t' = (r, st') \<and> cg_inv st' G P"
proof -
  from inv obtain ms where i: "tree_ok st" "cg_ledger st = Some ms" "ledger_ok st ms G" "procs_ok st ms G P"
    "accounts_ok st (charges ms G)"
    by (rule cg_invE)
  show ?thesis
  proof (cases "\<exists>n m. p = Active n \<and> tasks_of ms t = Some m \<and> tm_process_id m = pid \<and> tm_cgroup m = n \<and>
      (t \<noteq> t' \<longrightarrow> pending_of ms t' = None \<and> tasks_of ms t' = None)")
    case False
    then have "\<exists>e. rename_task st p pid t t' = (Inl e, st)"
      using i(2) by (auto simp: rename_task_def rename_task_at_def split: process_membership.splits option.splits)
    with inv show ?thesis
      by auto
  next
    case True
    then obtain m where m: "p = Active (tm_cgroup m)" "tasks_of ms t = Some m" "tm_process_id m = pid"
      and new: "t \<noteq> t' \<longrightarrow> pending_of ms t' = None \<and> tasks_of ms t' = None"
      by auto
    have gt': "G t' = None"
      using g new ledger_absent [OF i(3), of t'] by (cases "t = t'") auto
    define ms' where "ms' = ms\<lparr>ms_tasks := bt_insert t' m (bt_remove t (ms_tasks ms))\<rparr>"
    have wf: "bt_wf (ms_pending_tasks ms)" "bt_wf (ms_tasks ms)"
      using i(3) by (simp_all add: ledger_ok_def)
    have ms': "pending_of ms' = pending_of ms" "tasks_of ms' = (tasks_of ms)(t := None, t' \<mapsto> m)"
      using wf by (simp_all add: ms'_def bt_get_insert bt_get_remove fun_eq_iff)
    note tk = ledger_task [OF i(3) m(2)]
    have ch: "charges ms' G = (charges ms G)(t := None, t' \<mapsto> tm_cgroup m)"
      using g by (auto simp: charges_def ms' fun_eq_iff split: option.splits)
    have gs: "guard_ok st ms' u k" if "G u = Some k" for u k
    proof -
      have "u \<noteq> t" "u \<noteq> t'"
        using that g gt' by auto
      with ledger_guard(1) [OF i(3) that] show ?thesis
        by (auto intro: guard_ok_other simp: ms')
    qed
    have "tm_process_id m' \<in> members_of st (tm_cgroup m')" if "tasks_of ms' u = Some m'" for u m'
      using that tk(1) ledger_task(1) [OF i(3), of u m'] by (auto simp: ms' split: if_splits)
    moreover have "attached (cg_nodes st) c \<and> 0 < u \<and> u < usize_lim" if "charges ms' G u = Some c" for u c
      using that tk(2) t' ledger_charges(3,4) [OF i(3), of u c] by (auto simp: ch split: if_splits)
    moreover have "bt_wf (ms_pending_tasks ms')" "bt_wf (ms_tasks ms')" "dom (pending_of ms') = dom G"
      using i(3) wf by (simp_all add: ms' ledger_ok_def) (simp_all add: ms'_def bt_wf_insert)
    ultimately have "ledger_ok st ms' G"
      using gs unfolding ledger_ok_def by blast
    moreover have "procs_ok st ms' G P"
    proof (rule procs_okI)
      show "u' = u" if u: "G u = Some k" "fg_child_kind k = ChildProcess" "tasks_of ms' u' = Some m'" "tm_process_id m' = u" for u k u' m'
      proof (cases "u' = t'")
        case True
        then have "tm_process_id m = u"
          using u(3,4) by (simp add: ms')
        then have "t = u"
          using procs_okD(4) [OF i(4) u(1,2) m(2)] by simp
        with g u(1) show ?thesis
          by simp
      next
        case False
        then show ?thesis
          using procs_okD(4) [OF i(4) u(1,2)] u(3,4) by (auto simp: ms' split: if_splits)
      qed
    qed (use procs_okD [OF i(4)] in blast)+
    moreover have "accounts_ok st (charges ms' G)"
    proof (cases "t = t'")
      case True
      then have "charges ms' G = charges ms G"
        using tk(3) by (auto simp: ch)
      with i(5) show ?thesis
        by simp
    next
      case False
      then have "charges ms G t' = None"
        using new gt' by (simp add: charges_def)
      with i(5) load_rename [OF ledger_charges(1) [OF i(3)] tk(3)] show ?thesis
        by (simp add: accounts_ok_def ch)
    qed
    ultimately have "cg_inv (st\<lparr>cg_ledger := Some ms'\<rparr>) G P"
      using i(1) by (intro cg_invI [where ms = ms']) simp_all
    moreover have "rename_task st p pid t t' = (Inr (), st\<lparr>cg_ledger := Some ms'\<rparr>)"
      using m new i(2) by (auto simp: rename_task_def rename_task_at_def ms'_def)
    ultimately show ?thesis
      by simp
  qed
qed

lemma cg_inv_frame:
  assumes inv: "cg_inv st G P" and f: "frame st st'" and l: "cg_ledger st' = cg_ledger st"
    and m: "\<forall>n<nodes_of st. members_of st n \<subseteq> members_of st' n" and c: "\<forall>n<nodes_of st. current_of st' n = current_of st n"
  shows "cg_inv st' G P"
proof -
  from inv obtain ms where i: "tree_ok st" "cg_ledger st = Some ms" "ledger_ok st ms G" "procs_ok st ms G P"
    "accounts_ok st (charges ms G)"
    by (rule cg_invE)
  have mem: "x \<in> members_of st' n" if "x \<in> members_of st n" "attached (cg_nodes st) n" for x n
    using m that by (auto simp: attached_def)
  have "ledger_ok st' ms G"
    using ledger_task [OF i(3)] ledger_thread [OF i(3)] ledger_guard(3) [OF i(3)] mem
    by (intro ledger_ok_frame [OF f i(1,3)]) blast+
  moreover have "procs_ok st' ms G P"
    using procs_okD(1,2) [OF i(4)] mem by (intro procs_ok_frame [OF f i(1,4)]) blast
  ultimately show ?thesis
    using frame_tree_ok [OF f i(1)] accounts_frame [OF f i(3,5) c] l i(2) by (intro cg_invI [where ms = ms]) simp_all
qed

end
