(* ===== verification/CgroupMigrate.thy ===== *)
theory CgroupMigrate
  imports CgroupOps
begin

text \<open>
  Migration of a process with all its tasks, with the rollback when the target refuses it.
\<close>

section \<open>Migration\<close>

lemma map_of_keys: "map_of (map (\<lambda>(k, v). (k, f k v)) xs) k = map_option (f k) (map_of xs k)"
  by (induction xs) auto

definition moved :: "membership_state \<Rightarrow> process_id list \<Rightarrow> node_id \<Rightarrow> membership_state" where
  "moved ms ts target = ms\<lparr>ms_tasks :=
     map (\<lambda>(t, m). (t, if t \<in> set ts then m\<lparr>tm_cgroup := target\<rparr> else m)) (ms_tasks ms)\<rparr>"

lemma moved_tasks:
  "pending_of (moved ms ts target) = pending_of ms"
  "tasks_of (moved ms ts target) t = map_option (\<lambda>m. if t \<in> set ts then m\<lparr>tm_cgroup := target\<rparr> else m) (tasks_of ms t)"
  "bt_wf (ms_tasks (moved ms ts target)) = bt_wf (ms_tasks ms)"
  by (simp_all add: moved_def map_of_keys comp_def case_prod_beta)

text \<open>The tasks of a process move to another node and the process becomes a member there.\<close>

lemma ledger_move:
  assumes f: "frame st st'" and t: "tree_ok st" and l: "ledger_ok st ms G" and p: "procs_ok st ms G P"
    and ts: "\<And>u. u \<in> set ts \<longleftrightarrow> (\<exists>m. tasks_of ms u = Some m \<and> tm_process_id m = q)"
    and no: "\<not> has_pending_task ms q" and at: "attached (cg_nodes st) target"
    and mem: "q \<in> members_of st' target" "\<forall>x n. x \<noteq> q \<and> x \<in> members_of st n \<and> n < nodes_of st \<longrightarrow> x \<in> members_of st' n"
    and q: "P q \<noteq> None"
  defines "ms' \<equiv> moved ms ts target"
  shows "ledger_ok st' ms' G" "charges ms' G = (\<lambda>u. if u \<in> set ts then Some target else charges ms G u)"
    "procs_ok st' ms' G (P(q \<mapsto> Active target))"
proof -
  have tw: "tree_wf (cg_nodes st)"
    using t by (simp add: tree_ok_def)
  note att = frame_attached [OF f tw]
  note tk = moved_tasks [of ms ts target, folded ms'_def]
  show ch: "charges ms' G = (\<lambda>u. if u \<in> set ts then Some target else charges ms G u)"
    using ts by (auto simp: charges_def tk fun_eq_iff split: option.splits)
  have tasks: "tm_process_id m = tm_process_id m0 \<and> tasks_of ms u = Some m0 \<and>
      (tm_process_id m0 = q \<longrightarrow> tm_cgroup m = target) \<and> (tm_process_id m0 \<noteq> q \<longrightarrow> m = m0)"
    if "tasks_of ms' u = Some m" "tasks_of ms u = Some m0" for u m m0
    using that ts [of u] by (auto simp: tk(2) split: if_splits)
  have task: "\<exists>m0. tm_process_id m = tm_process_id m0 \<and> tasks_of ms u = Some m0 \<and>
      (tm_process_id m0 = q \<longrightarrow> tm_cgroup m = target) \<and> (tm_process_id m0 \<noteq> q \<longrightarrow> m = m0)"
    if "tasks_of ms' u = Some m" for u m
    using tasks [OF that] that by (cases "tasks_of ms u") (auto simp: tk(2))
  have gs: "guard_ok st' ms' u k" if k: "G u = Some k" for u k
  proof -
    note go = ledger_guard [OF l k]
    have in_range: "fg_cgroup k < nodes_of st"
      using go(3) by (simp add: attached_def)
    have nq: "fg_task_process_id k \<noteq> q"
      by (rule pending_guard [OF l no k])
    have "u \<notin> set ts"
      using ts [of u] go(1) nq by (auto simp: guard_ok_def split: fork_publication.splits)
    then have "tasks_of ms' u = tasks_of ms u"
      by (cases "tasks_of ms u") (simp_all add: tk(2))
    moreover have "path (cg_nodes st') (fg_cgroup k) = path (cg_nodes st) (fg_cgroup k)"
      by (rule frame_path [OF f in_range])
    moreover have "fg_child_kind k = ChildThread \<longrightarrow> fg_task_process_id k \<in> members_of st' (fg_cgroup k)"
      using ledger_thread [OF l k] mem(2) nq in_range by blast
    ultimately show ?thesis
      using go(1) tk(1) by (cases "fg_publication k") (simp_all add: guard_ok_def)
  qed
  have "tm_process_id m \<in> members_of st' (tm_cgroup m)" if "tasks_of ms' u = Some m" for u m
    using task [OF that] ledger_task(1,2) [OF l, of u] mem unfolding attached_def by metis
  moreover have "attached (cg_nodes st') c \<and> 0 < u \<and> u < usize_lim" if "charges ms' G u = Some c" for u c
  proof (cases "u \<in> set ts")
    case True
    then obtain m where "tasks_of ms u = Some m"
      using ts by blast
    with True that at ledger_charges(4) [OF l ledger_task(3) [OF l]] show ?thesis
      by (simp add: ch att)
  next
    case False
    with that ledger_charges(3,4) [OF l, of u c] show ?thesis
      by (simp add: ch att)
  qed
  moreover have "bt_wf (ms_pending_tasks ms')" "bt_wf (ms_tasks ms')" "dom (pending_of ms') = dom G"
    using l tk by (simp_all add: ledger_ok_def) (simp add: ms'_def moved_def)
  ultimately show "ledger_ok st' ms' G"
    using gs unfolding ledger_ok_def by blast
  show "procs_ok st' ms' G (P(q \<mapsto> Active target))"
  proof (rule procs_okI)
    show "attached (cg_nodes st') c \<and> x \<in> members_of st' c" if "(P(q \<mapsto> Active target)) x = Some (Active c)" for x c
      using that at mem procs_okD(1,2) [OF p, of x c] attached_def [of "cg_nodes st" c] by (auto simp: att split: if_splits)
    show "(P(q \<mapsto> Active target)) u = None" if "G u = Some k" "fg_child_kind k = ChildProcess" for u k
      using procs_okD(3) [OF p that] q by auto
    show "u' = u" if "G u = Some k" "fg_child_kind k = ChildProcess" "tasks_of ms' u' = Some m" "tm_process_id m = u" for u k u' m
      using task [OF that(3)] procs_okD(4) [OF p that(1,2)] that(4) by metis
    show "u' = u" if "G u = Some k" "fg_child_kind k = ChildProcess" "G u' = Some k'" "fg_task_process_id k' = u" for u k u' k'
      using procs_okD(5) [OF p] that by blast
  qed
qed

lemma usize_roundtrip: "c < usize_lim \<Longrightarrow> k < usize_lim \<Longrightarrow> usize_sub (usize_add c k) k = c"
proof (cases "c + k < usize_lim")
  case False
  assume "c < usize_lim" "k < usize_lim"
  with False have "(c + k) mod usize_lim = c + k - usize_lim"
    by (simp add: mod_if)
  with \<open>c < usize_lim\<close> \<open>k < usize_lim\<close> False show ?thesis
    unfolding usize_add_def usize_sub_def by auto
qed (simp add: usize_add_def usize_sub_def)

lemma frame_sym: "frame st st' \<Longrightarrow> frame st' st"
  by (simp add: frame_def)

text \<open>The whole of a successful move, and of one that is rolled back.\<close>

lemma move_accounts:
  assumes t: "tree_ok st" and ac: "accounts_ok st (charges ms G)" and l: "ledger_ok st ms G"
    and at: "attached (cg_nodes st) old" "attached (cg_nodes st) target"
    and ts: "\<forall>u\<in>T. charges ms G u = Some old" "k = card T"
    and u: "unique_paths (path (cg_nodes st) old) (path (cg_nodes st) target) = (ou, tu)"
    and new: "\<And>n. load (\<lambda>u. if u \<in> T then Some target else charges ms G u) (cg_nodes st) n < usize_lim"
    and n: "n < nodes_of st"
  shows "(if n \<in> set ou then usize_sub (if n \<in> set tu then usize_add (current_of st n) k else current_of st n) k
      else if n \<in> set tu then usize_add (current_of st n) k else current_of st n) =
    load (\<lambda>u. if u \<in> T then Some target else charges ms G u) (cg_nodes st) n"
proof -
  note up = unique_paths_set [OF u]
  have cur: "current_of st n = load (charges ms G) (cg_nodes st) n"
    using ac n by (simp add: accounts_ok_def)
  have mv: "load (\<lambda>u. if u \<in> T then Some target else charges ms G u) (cg_nodes st) n + (if n \<in> set (path (cg_nodes st) old) then k else 0) =
      current_of st n + (if n \<in> set (path (cg_nodes st) target) then k else 0)"
    unfolding cur ts(2) by (rule load_move [OF ledger_charges(1) [OF l] ts(1)])
  show ?thesis
    using mv new [of n] up(1,2) by (auto simp: usize_add_exact usize_sub_exact split: if_splits)
qed

lemma migrate_back:
  assumes inv: "cg_inv st G P" and c: "old < nodes_of st" "target < nodes_of st" "old \<noteq> target"
    and d: "distinct tu" "set tu \<subseteq> {..<nodes_of st}" and k: "k < usize_lim" and m: "q \<in> members_of st old" "q \<in> members_of st target"
  defines "st2 \<equiv> snd (remove_member (charge_path_unchecked st tu k) old q)"
  defines "st3 \<equiv> snd (add_member st2 target q)"
  shows "cg_inv (uncharge_path (snd (add_member st3 old q)) tu k) G P"
proof -
  note ch = charge_path_unchecked_ok [OF d, of k]
  define st1 where "st1 = charge_path_unchecked st tu k"
  define st4 where "st4 = snd (add_member st3 old q)"
  note ch = charge_path_unchecked_ok [OF d, of k, folded st1_def]
  have f1: "frame st st1"
    by (rule same_tree_frame [OF ch(1)])
  have n1: "nodes_of st1 = nodes_of st"
    using f1 by (simp add: frame_def)
  note rm = remove_member_ok [of old st1 q, folded st2_def [folded st1_def], unfolded n1, OF c(1)]
  have n2: "nodes_of st2 = nodes_of st"
    using rm(1) n1 by (simp add: frame_def)
  note ad = add_member_ok [of target st2 q, folded st3_def, unfolded n2, OF c(2)]
  have n3: "nodes_of st3 = nodes_of st"
    using ad(1) n2 by (simp add: frame_def)
  note ba = add_member_ok [of old st3 q, folded st4_def, unfolded n3, OF c(1)]
  have n4: "nodes_of st4 = nodes_of st"
    using ba(1) n3 by (simp add: frame_def)
  note un = uncharge_path_ok [of tu st4 k, unfolded n4, OF d]
  have f: "frame st (uncharge_path st4 tu k)"
    by (rule frame_trans [OF f1 frame_trans [OF rm(1) frame_trans [OF ad(1) frame_trans [OF ba(1) same_tree_frame [OF un(1)]]]]])
  have led: "cg_ledger (uncharge_path st4 tu k) = cg_ledger st"
    using ch(1) un(1) rm(2) ad(2) ba(2) by (simp add: same_tree_fields(4))
  have cur: "\<forall>n<nodes_of st. current_of (uncharge_path st4 tu k) n = current_of st n"
  proof -
    from inv obtain ms where "ledger_ok st ms G" "accounts_ok st (charges ms G)"
      by (rule cg_invE)
    then have "current_of st n < usize_lim" if "n < nodes_of st" for n
      using ledger_charges(2) that by (simp add: accounts_ok_def)
    then show ?thesis
      by (simp add: un(2) ba(3) ad(3) rm(3) ch(2) usize_roundtrip k)
  qed
  have "members_of st n \<subseteq> members_of (uncharge_path st4 tu k) n" if "n < nodes_of st" for n
    using that m same_tree_fields(8) [OF un(1), of n] same_tree_fields(8) [OF ch(1), of n] n4 c
    by (auto simp: ba(4) ad(4) rm(4))
  with cg_inv_frame [OF inv f led] cur show ?thesis
    unfolding st4_def by blast
qed

lemma migrate_move:
  assumes inv: "cg_inv st G P" and ms: "cg_ledger st = Some ms" and no: "\<not> has_pending_task ms q" and ne: "old \<noteq> target"
    and p: "P q = Some (Active old)" and at: "attached (cg_nodes st) target" and m: "q \<notin> members_of st target"
    and ts: "\<And>u. u \<in> set ts \<longleftrightarrow> (\<exists>m. tasks_of ms u = Some m \<and> tm_process_id m = q)" "distinct ts"
    and old: "\<forall>u\<in>set ts. map_option tm_cgroup (tasks_of ms u) = Some old"
    and u: "unique_paths (path (cg_nodes st) old) (path (cg_nodes st) target) = (ou, tu)"
  defines "st2 \<equiv> snd (remove_member (charge_path_unchecked st tu (length ts)) old q)"
  defines "st3 \<equiv> snd (add_member st2 target q)"
  shows "cg_inv (uncharge_path (st3\<lparr>cg_ledger := Some (moved ms ts target)\<rparr>) ou (length ts)) G (P(q \<mapsto> Active target))"
proof -
  from inv ms have i: "tree_ok st" "ledger_ok st ms G" "procs_ok st ms G P" "accounts_ok st (charges ms G)"
    by (auto elim: cg_invE)
  define st1 where "st1 = charge_path_unchecked st tu (length ts)"
  define st4 where "st4 = st3\<lparr>cg_ledger := Some (moved ms ts target)\<rparr>"
  define st5 where "st5 = uncharge_path st4 ou (length ts)"
  note ao = procs_okD(1,2) [OF i(3) p]
  note up = unique_paths_set [OF u]
  have c: "old < nodes_of st" "target < nodes_of st" and sub: "set ou \<subseteq> {..<nodes_of st}" "set tu \<subseteq> {..<nodes_of st}"
    using ao(1) at attached_ancestry(2) [OF i(1)] by (auto simp: up attached_def)
  note ch = charge_path_unchecked_ok [OF up(4) sub(2), of "length ts", folded st1_def]
  have f1: "frame st st1"
    by (rule same_tree_frame [OF ch(1)])
  have n1: "nodes_of st1 = nodes_of st"
    using f1 by (simp add: frame_def)
  note rm = remove_member_ok [of old st1 q, folded st2_def [folded st1_def], unfolded n1, OF c(1)]
  have n2: "nodes_of st2 = nodes_of st"
    using rm(1) n1 by (simp add: frame_def)
  note ad = add_member_ok [of target st2 q, folded st3_def, unfolded n2, OF c(2)]
  have f4: "frame st st4"
    using frame_trans [OF f1 frame_trans [OF rm(1) ad(1)]] by (simp add: st4_def frame_def)
  have n4: "nodes_of st4 = nodes_of st"
    using f4 by (simp add: frame_def)
  note un = uncharge_path_ok [of ou st4 "length ts", unfolded n4, OF up(3) sub(1), folded st5_def]
  have f: "frame st st5"
    by (rule frame_trans [OF f4 same_tree_frame [OF un(1)]])
  have mem4: "members_of st4 n = (if n = target then insert q (members_of st1 n) else if n = old then members_of st1 n - {q} else members_of st1 n)" for n
    using ne by (auto simp: st4_def ad(4) rm(4))
  have "q \<in> members_of st4 target"
    by (simp add: mem4)
  then have mq: "q \<in> members_of st5 target"
    using same_tree_fields(8) [OF un(1), of target] n4 c by simp
  have mo: "\<forall>x n. x \<noteq> q \<and> x \<in> members_of st n \<and> n < nodes_of st \<longrightarrow> x \<in> members_of st5 n"
    using same_tree_fields(8) [OF un(1)] same_tree_fields(8) [OF ch(1)] n4 by (auto simp: mem4)
  have "P q \<noteq> None"
    using p by simp
  note mv = ledger_move [OF f i(1-3) ts(1) no at mq mo this]
  have T: "\<forall>u\<in>set ts. charges ms G u = Some old" "length ts = card (set ts)"
    using old distinct_card [OF ts(2)] by (auto simp: charges_def)
  have ld: "load (charges (moved ms ts target) G) (cg_nodes st5) n = load (charges (moved ms ts target) G) (cg_nodes st) n" for n
    by (rule load_same [OF frame_sym [OF f] mv(1), symmetric])
  have bd: "load (\<lambda>u. if u \<in> set ts then Some target else charges ms G u) (cg_nodes st) n < usize_lim" for n
    using ledger_charges(2) [OF mv(1)] unfolding mv(2) by simp
  note cur = move_accounts [OF i(1,4,2) ao(1) at T u bd]
  have "accounts_ok st5 (charges (moved ms ts target) G)"
    unfolding accounts_ok_def ld unfolding mv(2)
    using f by (simp add: cur [symmetric] un(2) st4_def ad(3) rm(3) ch(2) frame_def)
  moreover have "cg_ledger st5 = Some (moved ms ts target)"
    using same_tree_fields(4) [OF un(1)] by (simp add: st4_def)
  ultimately show ?thesis
    using cg_invI [OF frame_tree_ok [OF f i(1)] _ mv(1,3)] by (simp add: st5_def st4_def)
qed

definition tasks_in :: "membership_state \<Rightarrow> process_id \<Rightarrow> process_id list" where
  "tasks_in ms q = map fst (filter (\<lambda>(t, m). tm_process_id m = q) (ms_tasks ms))"

lemma tasks_in:
  assumes "bt_wf (ms_tasks ms)"
  shows "u \<in> set (tasks_in ms q) \<longleftrightarrow> (\<exists>m. tasks_of ms u = Some m \<and> tm_process_id m = q)" "distinct (tasks_in ms q)"
proof -
  have d: "distinct (map fst (ms_tasks ms))"
    using assms by (simp add: strict_sorted_iff)
  show "u \<in> set (tasks_in ms q) \<longleftrightarrow> (\<exists>m. tasks_of ms u = Some m \<and> tm_process_id m = q)"
    using map_of_eq_Some_iff [OF d] by (force simp: tasks_in_def)
  show "distinct (tasks_in ms q)"
    using d unfolding tasks_in_def by (auto simp: distinct_map intro: distinct_filter inj_on_subset)
qed

lemma migrate_go:
  assumes inv: "cg_inv st G P" and ms: "cg_ledger st = Some ms" and no: "\<not> has_pending_task ms q" and ne: "old \<noteq> target"
    and p: "P q = Some (Active old)" and at: "attached (cg_nodes st) target"
    and all: "\<forall>u\<in>set (tasks_in ms q). map_option tm_cgroup (tasks_of ms u) = Some old" "tasks_in ms q \<noteq> []"
  shows "\<exists>r st'. migrate_process st q old target = Some (r, st') \<and>
    (case r of Inr _ \<Rightarrow> cg_inv st' G (P(q \<mapsto> Active target)) | Inl _ \<Rightarrow> cg_inv st' G P)"
proof -
  from inv ms have i: "tree_ok st" "ledger_ok st ms G" "procs_ok st ms G P" "accounts_ok st (charges ms G)"
    by (auto elim: cg_invE)
  note po = procs_okD(1,2) [OF i(3) p]
  note an = attached_ancestry [OF i(1) po(1)] and at' = attached_ancestry [OF i(1) at]
  have wf: "bt_wf (ms_tasks ms)"
    using i(2) by (simp add: ledger_ok_def)
  define ts where "ts = tasks_in ms q"
  note ts = tasks_in [OF wf, where q = q, folded ts_def]
  obtain ou tu where u: "unique_paths (path (cg_nodes st) old) (path (cg_nodes st) target) = (ou, tu)"
    by fastforce
  note up = unique_paths_set [OF u]
  have sub: "set tu \<subseteq> {..<nodes_of st}"
    using at'(2) up(2) by blast
  define st1 where "st1 = charge_path_unchecked st tu (length ts)"
  note ch = same_tree_fields [OF charge_path_unchecked_ok(1) [OF up(4) sub, of "length ts"], folded st1_def]
  define st2 where "st2 = snd (remove_member st1 old q)"
  have m2: "q \<in> members_of st2 target \<longleftrightarrow> q \<in> members_of st target"
    using remove_member_ok(4) [of old st1 q target] ch(1) an(3) ne ch(8) [OF at'(3)] by (simp add: st2_def)
  define st3 where "st3 = snd (add_member st2 target q)"
  have mp: "migrate_process st q old target = Some (if q \<notin> members_of st target
      then (Inr (), uncharge_path (st3\<lparr>cg_ledger := Some (moved ms ts target)\<rparr>) ou (length ts))
      else (Inl ResourceBusy, uncharge_path (snd (add_member st3 old q)) tu (length ts)))"
    using ms no ne all an(1) at'(1) u po(2) ch(8) [OF an(3)] m2
    unfolding migrate_process_def tasks_in_def [symmetric]
    unfolding ts_def [symmetric] st3_def st2_def st1_def moved_def
    by (simp add: Let_def remove_member_def add_member_def ts_def [symmetric])
  show ?thesis
  proof (cases "q \<in> members_of st target")
    case True
    have "set ts \<subseteq> {0<..<usize_lim}"
      using ts(1) ledger_task(3) [OF i(2)] ledger_charges(4) [OF i(2)] by fastforce
    then have "length ts \<le> card {0<..<usize_lim}"
      using distinct_card [OF ts(2)] by (metis card_mono finite_greaterThanLessThan)
    then have "length ts < usize_lim"
      using usize_lim_pos unfolding card_greaterThanLessThan by linarith
    from migrate_back [OF inv an(3) at'(3) ne up(4) sub this po(2) True] mp True show ?thesis
      unfolding st3_def st2_def st1_def by simp
  next
    case False
    from migrate_move [OF inv ms no ne p at False ts(1,2) all(1) [folded ts_def] u] mp False show ?thesis
      unfolding st3_def st2_def st1_def by simp
  qed
qed

text \<open>Every outcome of a migration keeps the invariant, and an error leaves the membership as it was.\<close>

lemma migrate_ok:
  assumes inv: "cg_inv st G P" and p: "P q = Some p" and at: "attached (cg_nodes st) target"
  shows "\<exists>r st' p'. migrate st p q target = Some (r, st', p') \<and> cg_inv st' G (P(q \<mapsto> p')) \<and>
    (case r of Inr _ \<Rightarrow> p' = Active target | Inl _ \<Rightarrow> p' = p)"
proof (cases p)
  case (Exited n)
  with inv p show ?thesis
    by (auto simp: migrate_def fun_upd_idem)
next
  case (Active old)
  have same: "P(q \<mapsto> p) = P"
    using p by auto
  from inv obtain ms where i: "tree_ok st" "cg_ledger st = Some ms" "ledger_ok st ms G" "procs_ok st ms G P"
    "accounts_ok st (charges ms G)"
    by (rule cg_invE)
  have old: "q \<in> members_of st old"
    using procs_okD(2) [OF i(4)] p Active by simp
  show ?thesis
  proof (cases "\<not> has_pending_task ms q \<and> old \<noteq> target \<and> tasks_in ms q \<noteq> [] \<and>
      (\<forall>u\<in>set (tasks_in ms q). map_option tm_cgroup (tasks_of ms u) = Some old)")
    case True
    then have go: "\<not> has_pending_task ms q" "old \<noteq> target" "tasks_in ms q \<noteq> []"
      "\<forall>u\<in>set (tasks_in ms q). map_option tm_cgroup (tasks_of ms u) = Some old"
      by blast+
    from migrate_go [OF inv i(2) go(1,2) _ at go(4,3)] p Active obtain r st' where
      "migrate_process st q old target = Some (r, st')"
      "case r of Inr _ \<Rightarrow> cg_inv st' G (P(q \<mapsto> Active target)) | Inl _ \<Rightarrow> cg_inv st' G P"
      by auto
    with Active same show ?thesis
      by (cases r) (auto simp: migrate_def)
  next
    case False
    have "\<exists>r. migrate_process st q old target = Some (r, st) \<and> (case r of Inr _ \<Rightarrow> old = target | Inl _ \<Rightarrow> True)"
      using i(2) old False unfolding migrate_process_def tasks_in_def [symmetric]
      by (cases "has_pending_task ms q"; cases "old = target") (auto simp: has_member_def Let_def)
    then obtain r where "migrate_process st q old target = Some (r, st)" "case r of Inr _ \<Rightarrow> old = target | Inl _ \<Rightarrow> True"
      by blast
    with inv same Active show ?thesis
      by (cases r) (auto simp: migrate_def)
  qed
qed

end
