(* ===== verification/CgroupTree.thy ===== *)
theory CgroupTree
  imports CgroupMigrate
begin

text \<open>
  Changes of the hierarchy: making and removing a child, freeing a node that is no longer linked, and the writes that
  only touch one node; and the first process.
\<close>

section \<open>Writes to one node\<close>

lemma upd_node_inv:
  assumes inv: "cg_inv st G P" and n: "n < nodes_of st"
    and f: "cn_parent (f nd) = cn_parent nd" "cn_children (f nd) = cn_children nd" "cn_name (f nd) = cn_name nd"
      "cn_members (f nd) = cn_members nd" "ps_current (cn_pids (f nd)) = ps_current (cn_pids nd)"
    and nd: "nd = node_at st n"
  shows "cg_inv (upd_node st n f) G P"
proof (rule cg_inv_frame [OF inv])
  show "frame st (upd_node st n f)"
    using n f by (simp add: frame_def node_at_upd nd)
  show "\<forall>m<nodes_of st. members_of st m \<subseteq> members_of (upd_node st n f) m"
    "\<forall>m<nodes_of st. current_of (upd_node st n f) m = current_of st m"
    using n f by (simp_all add: node_at_upd nd)
qed simp

lemma pin_ok: "cg_inv st G P \<Longrightarrow> n < nodes_of st \<Longrightarrow> cg_inv (pin st n) G P"
  unfolding pin_def by (rule upd_node_inv) simp_all

lemma pin_drop_ok: "cg_inv st G P \<Longrightarrow> n < nodes_of st \<Longrightarrow> cg_inv (pin_drop st n) G P"
  unfolding pin_drop_def by (rule upd_node_inv) simp_all

lemma write_subtree_control_ok:
  "cg_inv st G P \<Longrightarrow> n < nodes_of st \<Longrightarrow> write_subtree_control st n data = Inr st' \<Longrightarrow> cg_inv st' G P"
  unfolding write_subtree_control_def by (auto split: if_splits intro: upd_node_inv)

lemma set_maximum_fields:
  "set_maximum s data = Inr s' \<Longrightarrow> ps_current s' = ps_current s \<and> ps_peak s' = ps_peak s \<and> ps_max_events s' = ps_max_events s"
  unfolding set_maximum_def by (auto simp: Let_def split: if_splits option.splits)

lemma write_pids_max_ok:
  "cg_inv st G P \<Longrightarrow> n < nodes_of st \<Longrightarrow> write_pids_max st n data = Inr st' \<Longrightarrow> cg_inv st' G P"
  unfolding write_pids_max_def upd_pids_def
  by (auto split: if_splits sum.splits dest!: set_maximum_fields intro!: upd_node_inv)

section \<open>Changes of the tree\<close>

text \<open>The invariant after a change that adds nodes or unlinks nodes that are not in use.\<close>

lemma cg_inv_tree:
  assumes inv: "cg_inv st G P" and t: "tree_ok st'" and l: "cg_ledger st' = cg_ledger st" and len: "nodes_of st \<le> nodes_of st'"
    and old: "\<And>n. n < nodes_of st \<Longrightarrow> cn_parent (node_at st' n) = cn_parent (node_at st n) \<and> members_of st' n = members_of st n \<and>
      current_of st' n = current_of st n"
    and new: "\<And>n. nodes_of st \<le> n \<Longrightarrow> n < nodes_of st' \<Longrightarrow> current_of st' n = 0"
    and att: "\<And>ms u c. cg_ledger st = Some ms \<Longrightarrow> charges ms G u = Some c \<Longrightarrow> attached (cg_nodes st') c"
      "\<And>q c. P q = Some (Active c) \<Longrightarrow> attached (cg_nodes st') c"
  shows "cg_inv st' G P"
proof -
  from inv obtain ms where i: "tree_ok st" "cg_ledger st = Some ms" "ledger_ok st ms G" "procs_ok st ms G P"
    "accounts_ok st (charges ms G)"
    by (rule cg_invE)
  note at = ledger_charges(3) [OF i(3)]
  have p: "path (cg_nodes st') c = path (cg_nodes st) c" if "c < nodes_of st" for c
    by (rule path_cong) (use that old in \<open>auto simp: node_at_def\<close>)
  have g: "guard_ok st' ms u k" if k: "G u = Some k" for u k
  proof -
    have c: "fg_cgroup k < nodes_of st"
      using ledger_guard(3) [OF i(3) k] by (simp add: attached_def)
    show ?thesis
      using ledger_guard(1) [OF i(3) k] p [OF c] old [OF c] by (simp add: guard_ok_def)
  qed
  have ts: "tm_process_id m \<in> members_of st' (tm_cgroup m)" if "tasks_of ms u = Some m" for u m
    using ledger_task(1,2) [OF i(3) that] old by (simp add: attached_def)
  have "ledger_ok st' ms G"
    using i(3) g ts att(1) [OF i(2)] ledger_charges(4) [OF i(3)] unfolding ledger_ok_def by blast
  moreover have "procs_ok st' ms G P"
  proof (rule procs_okI)
    show "attached (cg_nodes st') c \<and> q \<in> members_of st' c" if "P q = Some (Active c)" for q c
      using procs_okD(1,2) [OF i(4) that] att(2) [OF that] old by (simp add: attached_def)
  qed (use procs_okD(3-) [OF i(4)] in blast)+
  moreover have "current_of st' n = load (charges ms G) (cg_nodes st') n" if n: "n < nodes_of st'" for n
  proof -
    have ld: "load (charges ms G) (cg_nodes st') n = card {u. \<exists>c. charges ms G u = Some c \<and> n \<in> set (path (cg_nodes st) c)}"
      unfolding load_def using at p by (intro arg_cong [where f = card]) (auto simp: attached_def)
    show ?thesis
    proof (cases "n < nodes_of st")
      case True
      with i(5) old show ?thesis
        unfolding ld by (simp add: accounts_ok_def load_def)
    next
      case False
      have none: "{u. \<exists>c. charges ms G u = Some c \<and> n \<in> set (path (cg_nodes st) c)} = {}"
        using False at path_le [of n "cg_nodes st"] by (force simp: attached_def)
      show ?thesis
        unfolding ld none using False new [of n] n by simp
    qed
  qed
  ultimately show ?thesis
    using i(2) l by (intro cg_invI [OF t, of ms]) (simp_all add: accounts_ok_def)
qed

lemma attached_mono:
  assumes "tree_wf ns" "attached ns c" "length ns \<le> length ns'"
    and "\<And>n. n < length ns \<Longrightarrow> cn_parent (ns' ! n) = cn_parent (ns ! n)"
    and "\<And>a. a \<in> set (path ns c) \<Longrightarrow> a \<noteq> 0 \<Longrightarrow> child_link ns a \<Longrightarrow> child_link ns' a"
  shows "attached ns' c"
proof -
  have "path ns' c = path ns c"
    by (rule path_cong) (use assms(2,4) in \<open>auto simp: attached_def\<close>)
  with assms(2,3,5) show ?thesis
    by (auto simp: attached_def)
qed

lemma create_child_ok:
  assumes inv: "cg_inv st G P" and n: "n < nodes_of st" and c: "create_child st n name = Inr (child, st')"
  shows "cg_inv st' G P" "child = nodes_of st" "nodes_of st' = Suc (nodes_of st)" "lookup_child st' n name = Inr child"
proof -
  from inv obtain ms where i: "tree_ok st" "cg_ledger st = Some ms" "ledger_ok st ms G" "procs_ok st ms G P"
    "accounts_ok st (charges ms G)"
    by (rule cg_invE)
  define ns where "ns = cg_nodes st"
  define ns' where "ns' = cg_nodes st'"
  have tw: "tree_wf ns"
    using i(1) by (simp add: tree_ok_def ns_def)
  have fresh: "map_of (cn_children (ns ! n)) name = None" and ch: "child = length ns"
    and st': "ns' = (ns @ [new_node (cg_next_id st) name (Some n)])
        [n := (ns ! n)\<lparr>cn_children := AList.update name child (cn_children (ns ! n))\<rparr>]"
      "cg_freed st' = cg_freed st" "cg_ledger st' = cg_ledger st"
    using c n by (auto simp: create_child_def Let_def upd_node_def node_at_def ns_def ns'_def nth_append split: if_splits)
  have len: "length ns' = Suc (length ns)" "n < length ns"
    using n by (simp_all add: st' ns_def)
  have old: "ns' ! m = (if m = n then (ns ! n)\<lparr>cn_children := AList.update name child (cn_children (ns ! n))\<rparr> else ns ! m)" if "m < length ns" for m
    using that len(2) by (auto simp: st' nth_list_update nth_append)
  have new: "ns' ! child = new_node (cg_next_id st) name (Some n)"
    using len(2) by (simp add: st' ch nth_list_update nth_append)
  show "child = nodes_of st" "nodes_of st' = Suc (nodes_of st)"
    using ch len by (simp_all add: ns_def ns'_def)
  show "lookup_child st' n name = Inr child"
    using old [OF len(2)] by (simp add: lookup_child_def node_at_def ns'_def update_conv)
  have kids: "map_of (cn_children (ns' ! p)) x = (if p = n \<and> x = name then Some child else map_of (cn_children (ns ! p)) x)" if "p < length ns" for p x
    using old [OF that] by (simp add: update_conv)
  have par: "cn_parent (ns' ! m) = cn_parent (ns ! m)" "cn_name (ns' ! m) = cn_name (ns ! m)" if "m < length ns" for m
    using old [OF that] by simp_all
  have link: "child_link ns' a \<longleftrightarrow> child_link ns a" if "a < length ns" for a
  proof -
    show ?thesis
    proof (cases "cn_parent (ns ! a)")
      case (Some p)
      then have "p < length ns"
        using path_Cons(2) [OF tw that] that by fastforce
      with Some that fresh ch show ?thesis
        by (auto simp: child_link_def par [OF that] kids)
    qed (simp add: child_link_def par [OF that])
  qed
  have att: "attached ns' c \<longleftrightarrow> attached ns c" if "c < length ns" for c
  proof -
    have "path ns' c = path ns c"
      by (rule path_cong) (use that par in auto)
    then show ?thesis
      using link path_range [OF that] that len(1) by (auto simp: attached_def)
  qed
  have "tree_wf ns'"
    unfolding tree_wf_def
  proof (intro conjI allI impI)
    have "0 < length ns"
      using len(2) by linarith
    then show "ns' \<noteq> []" "cn_parent (ns' ! 0) = None"
      using tw par(1) [of 0] len(1) by (auto simp: tree_wf_def)
    show "\<exists>p<c. cn_parent (ns' ! c) = Some p" if "c < length ns'" "c \<noteq> 0" for c
      using that len tree_parent [OF tw, of c] new par(1) [of c] by (cases "c = child") (auto simp: ch new_node_def)
    have "c < length ns' \<and> cn_parent (ns' ! c) = Some p \<and> cn_name (ns' ! c) = x"
      if p: "p < length ns'" and m: "map_of (cn_children (ns' ! p)) x = Some c" for p x c
    proof -
      have pl: "p < length ns"
        using p m new len(1) by (cases "p = child") (simp_all add: ch new_node_def)
      show ?thesis
      proof (cases "p = n \<and> x = name")
        case True
        with m kids [OF pl] new len(1) show ?thesis
          by (simp add: ch new_node_def)
      next
        case False
        then have "map_of (cn_children (ns ! p)) x = Some c"
          using m kids [OF pl, of x] by (simp split: if_splits)
        then have "c < length ns \<and> cn_parent (ns ! c) = Some p \<and> cn_name (ns ! c) = x"
          using tw pl unfolding tree_wf_def by blast
        with par [of c] len(1) show ?thesis
          by simp
      qed
    qed
    then show "c < length ns'" "cn_parent (ns' ! c) = Some p" "cn_name (ns' ! c) = x"
      if "p < length ns'" "map_of (cn_children (ns' ! p)) x = Some c" for p x c
      using that by blast+
  qed
  then have t: "tree_ok st'"
    using i(1) att st'(2) len(1) by (auto simp: tree_ok_def ns_def ns'_def)
  show "cg_inv st' G P"
  proof (rule cg_inv_tree [OF inv t])
    show "cn_parent (node_at st' m) = cn_parent (node_at st m) \<and> members_of st' m = members_of st m \<and> current_of st' m = current_of st m"
      if "m < nodes_of st" for m
      using old [of m] that by (simp add: node_at_def ns_def ns'_def)
    show "current_of st' m = 0" if "nodes_of st \<le> m" "m < nodes_of st'" for m
      using that new len(1) ch by (auto simp: node_at_def ns_def ns'_def new_node_def pids_new_def less_Suc_eq)
    show "attached (cg_nodes st') c" if "cg_ledger st = Some ms" "charges ms G u = Some c" for ms u c
      using ledger_charges(3) [OF i(3), of u c] that i(2) att [of c] by (simp add: ns_def ns'_def attached_def)
    show "attached (cg_nodes st') c" if "P q = Some (Active c)" for q c
      using procs_okD(1) [OF i(4) that] att [of c] by (simp add: ns_def ns'_def attached_def)
  qed (use st' len in \<open>simp_all add: ns_def ns'_def\<close>)
qed

section \<open>Removing a child\<close>

text \<open>A node without children is on no path but its own.\<close>

lemma path_leaf:
  assumes "tree_wf ns" "attached ns d" "c \<in> set (path ns d)" "cn_children (ns ! c) = []"
  shows "d = c"
  using assms(2,3)
proof (induction d rule: less_induct)
  case (less d)
  have d: "d < length ns"
    using less(2) by (simp add: attached_def)
  note pc = path_Cons [OF assms(1) d]
  show ?case
  proof (cases "cn_parent (ns ! d)")
    case (Some p)
    show ?thesis
    proof (rule ccontr)
      assume ne: "d \<noteq> c"
      have at: "attached ns p" and lt: "p < d"
        using attached_path [OF less(2), of p] pc Some by simp_all
      then have "p = c"
        using less.IH [OF lt at] less(3) ne pc(1) Some by simp
      moreover have "child_link ns d"
        using less(2) lt by (simp add: attached_def)
      ultimately show False
        using Some assms(4) by (simp add: child_link_def)
    qed
  qed (use less(3) pc in simp)
qed

lemma remove_child_ok:
  assumes inv: "cg_inv st G P" and n: "n < nodes_of st" and r: "remove_child st n name = Inr st'"
    and look: "lookup_child st n name = Inr child" and free: "\<forall>t g. G t = Some g \<longrightarrow> fg_cgroup g \<noteq> child"
  shows "cg_inv st' G P" "\<not> attached (cg_nodes st') child" "lookup_child st' n name = Inl NotFound"
proof -
  from inv obtain ms where i: "tree_ok st" "cg_ledger st = Some ms" "ledger_ok st ms G" "procs_ok st ms G P"
    "accounts_ok st (charges ms G)"
    by (rule cg_invE)
  define ns where "ns = cg_nodes st"
  define ns' where "ns' = cg_nodes st'"
  have tw: "tree_wf ns"
    using i(1) by (simp add: tree_ok_def ns_def)
  have ch: "map_of (cn_children (ns ! n)) name = Some child"
    using look by (auto simp: lookup_child_def node_at_def ns_def split: option.splits)
  have r': "cn_children (ns ! child) = []" "cn_members (ns ! child) = {}"
    and st': "ns' = ns[n := (ns ! n)\<lparr>cn_children := AList.delete name (cn_children (ns ! n))\<rparr>]"
      "cg_freed st' = cg_freed st" "cg_ledger st' = cg_ledger st"
    using r ch by (auto simp: remove_child_def node_at_def ns_def ns'_def upd_node_def split: if_splits)
  have len: "length ns' = length ns" "n < length ns"
    using n by (simp_all add: st' ns_def)
  have c: "child < length ns" "cn_parent (ns ! child) = Some n" "cn_name (ns ! child) = name"
    using tw len(2) ch unfolding tree_wf_def by blast+
  have old: "ns' ! m = (if m = n then (ns ! n)\<lparr>cn_children := AList.delete name (cn_children (ns ! n))\<rparr> else ns ! m)" for m
    using len(2) by (auto simp: st' nth_list_update)
  have kids: "map_of (cn_children (ns' ! p)) x = (if p = n \<and> x = name then None else map_of (cn_children (ns ! p)) x)" for p x
    by (simp add: old delete_conv)
  have par: "cn_parent (ns' ! m) = cn_parent (ns ! m)" "cn_name (ns' ! m) = cn_name (ns ! m)" for m
    by (simp_all add: old)
  have link: "child_link ns' a \<longleftrightarrow> child_link ns a \<and> a \<noteq> child" for a
    using c ch by (cases "cn_parent (ns ! a)") (auto simp: child_link_def par kids)
  have pth: "path ns' a = path ns a" for a
    by (rule path_cong) (simp add: par)
  have nz: "child \<noteq> 0"
    using c(2) tw by (metis tree_wf_def option.distinct(1))
  have self: "a \<in> set (path ns a)" for a
    by simp
  have att: "attached ns' a \<longleftrightarrow> attached ns a \<and> a \<noteq> child" for a
  proof
    assume "attached ns' a"
    then show "attached ns a \<and> a \<noteq> child"
      using link nz self [of child] unfolding attached_def pth len(1) by blast
  next
    assume a: "attached ns a \<and> a \<noteq> child"
    then show "attached ns' a"
      using path_leaf [OF tw _ _ r'(1), of a] link unfolding attached_def pth len(1) by blast
  qed
  show "\<not> attached (cg_nodes st') child"
    using att by (simp add: ns'_def)
  show "lookup_child st' n name = Inl NotFound"
    using kids [of n name] by (simp add: lookup_child_def node_at_def ns'_def)
  have "tree_wf ns'"
    using tw unfolding tree_wf_def par kids len(1) by (auto simp: st' split: if_splits)
  then have t: "tree_ok st'"
    using i(1) att st'(2) len(1) by (simp add: tree_ok_def ns_def ns'_def)
  show "cg_inv st' G P"
  proof (rule cg_inv_tree [OF inv t])
    show "cn_parent (node_at st' m) = cn_parent (node_at st m) \<and> members_of st' m = members_of st m \<and> current_of st' m = current_of st m"
      for m
      using old [of m] by (simp add: node_at_def ns_def ns'_def)
    show "attached (cg_nodes st') c" if "cg_ledger st = Some ms'" "charges ms' G u = Some c" for ms' u c
    proof -
      have "c \<noteq> child"
      proof (cases "tasks_of ms u")
        case (Some m)
        with that i(2) ledger_task(1) [OF i(3) Some] r'(2) show ?thesis
          by (auto simp: charges_def node_at_def ns_def)
      qed (use that i(2) free in \<open>auto simp: charges_def\<close>)
      with ledger_charges(3) [OF i(3), of u c] that i(2) show ?thesis
        using att [of c] by (simp add: ns_def ns'_def)
    qed
    show "attached (cg_nodes st') c" if "P q = Some (Active c)" for q c
      using procs_okD(1,2) [OF i(4) that] att [of c] r'(2) by (auto simp: ns_def ns'_def node_at_def)
  qed (use st' len in \<open>simp_all add: ns_def ns'_def\<close>)
qed

text \<open>The last reference to a node that is not linked any more goes away.\<close>

definition reclaim :: "cgroups \<Rightarrow> node_id \<Rightarrow> cgroups" where
  "reclaim st n = st\<lparr>cg_freed := insert n (cg_freed st)\<rparr>"

lemma reclaim_inv:
  assumes "cg_inv st G P" "n < nodes_of st" "\<not> attached (cg_nodes st) n"
  shows "cg_inv (reclaim st n) G P"
proof -
  have "tree_ok st"
    using assms(1) by (rule cg_invE)
  then have "tree_ok (reclaim st n)"
    using assms(2,3) by (simp add: tree_ok_def reclaim_def)
  from cg_inv_tree [OF assms(1) this] show ?thesis
    using assms(1) ledger_charges(3) procs_okD(1) by (auto simp: reclaim_def node_at_def elim!: cg_invE)
qed

end
