(* ===== verification/CgroupSession.thy ===== *)
theory CgroupSession
  imports CgroupTree
begin

text \<open>
  The first process, and sessions: any interleaving of forks, exits, migrations and changes of the hierarchy keeps
  the accounts exact.
\<close>

section \<open>The first process\<close>

lemma ledger_attach:
  assumes l: "ledger_ok st ms G" and none: "tasks_of ms q = None" "pending_of ms q = None"
    and at: "attached (cg_nodes st) c" "q \<in> members_of st c" and q: "0 < q" "q < usize_lim"
  defines "ms' \<equiv> ms\<lparr>ms_tasks := bt_insert q \<lparr>tm_process_id = q, tm_cgroup = c\<rparr> (ms_tasks ms)\<rparr>"
  shows "ledger_ok st ms' G" "charges ms' G = (charges ms G)(q \<mapsto> c)" "procs_ok st ms G P \<Longrightarrow> procs_ok st ms' G (P(q \<mapsto> Active c))"
proof -
  have wf: "bt_wf (ms_pending_tasks ms)" "bt_wf (ms_tasks ms)" "dom (pending_of ms) = dom G"
    using l by (simp_all add: ledger_ok_def)
  have ms': "pending_of ms' = pending_of ms" "tasks_of ms' = (tasks_of ms)(q \<mapsto> \<lparr>tm_process_id = q, tm_cgroup = c\<rparr>)"
    by (simp_all add: ms'_def bt_get_insert wf fun_eq_iff)
  note gq = ledger_absent [OF l none(2)]
  show ch: "charges ms' G = (charges ms G)(q \<mapsto> c)"
    unfolding charges_def ms' by (auto simp: fun_eq_iff)
  have "guard_ok st ms' t g" if g: "G t = Some g" for t g
  proof -
    have "t \<noteq> q"
      using g gq by auto
    then show ?thesis
      by (intro guard_ok_other [OF ledger_guard(1) [OF l g]]) (simp_all add: ms')
  qed
  moreover have "tm_process_id m \<in> members_of st (tm_cgroup m)" if "tasks_of ms' t = Some m" for t m
    using that ledger_task(1) [OF l, of t m] at(2) unfolding ms' by (auto split: if_splits)
  moreover have "attached (cg_nodes st) d \<and> 0 < t \<and> t < usize_lim" if "charges ms' G t = Some d" for t d
    using that ledger_charges(3,4) [OF l, of t d] at(1) q unfolding ch by (auto split: if_splits)
  moreover have "bt_wf (ms_tasks ms')" "bt_wf (ms_pending_tasks ms')" "dom (pending_of ms') = dom G"
    using wf ms'(1) by (simp_all add: ms'_def bt_wf_insert)
  ultimately show "ledger_ok st ms' G"
    unfolding ledger_ok_def by blast
  show "procs_ok st ms' G (P(q \<mapsto> Active c))" if p: "procs_ok st ms G P"
  proof (rule procs_okI)
    show "attached (cg_nodes st) d \<and> x \<in> members_of st d" if "(P(q \<mapsto> Active c)) x = Some (Active d)" for x d
      using that at procs_okD(1,2) [OF p, of x d] by (auto split: if_splits)
    show "(P(q \<mapsto> Active c)) t = None" if "G t = Some g" "fg_child_kind g = ChildProcess" for t g
      using procs_okD(3) [OF p that] that gq by auto
    show "t' = t" if "G t = Some g" "fg_child_kind g = ChildProcess" "tasks_of ms' t' = Some m" "tm_process_id m = t" for t g t' m
      using procs_okD(4) [OF p that(1,2)] that(1,3,4) gq unfolding ms' by (auto split: if_splits)
    show "t' = t" if "G t = Some g" "fg_child_kind g = ChildProcess" "G t' = Some g'" "fg_task_process_id g' = t" for t g t' g'
      by (rule procs_okD(5) [OF p that])
  qed
qed

lemma attach_new:
  assumes inv: "cg_inv st G P" and ms: "cg_ledger st = Some ms" and none: "tasks_of ms q = None" "pending_of ms q = None"
    and c: "attached (cg_nodes st) c" and q: "0 < q" "q < usize_lim"
  defines "st2 \<equiv> snd (add_member (charge_path_unchecked st (path (cg_nodes st) c) 1) c q)"
  defines "ms' \<equiv> ms\<lparr>ms_tasks := bt_insert q \<lparr>tm_process_id = q, tm_cgroup = c\<rparr> (ms_tasks ms)\<rparr>"
  shows "cg_inv (st2\<lparr>cg_ledger := Some ms'\<rparr>) G (P(q \<mapsto> Active c))"
proof -
  from inv ms have i: "tree_ok st" "ledger_ok st ms G" "procs_ok st ms G P" "accounts_ok st (charges ms G)"
    by (auto elim: cg_invE)
  note an = attached_ancestry [OF i(1) c]
  define st1 where "st1 = charge_path_unchecked st (path (cg_nodes st) c) 1"
  note ch = charge_path_unchecked_ok [OF path_distinct an(2), of 1, folded st1_def]
  have c1: "c < nodes_of st1"
    using same_tree_fields(1) [OF ch(1)] an(3) by simp
  note ad = add_member_ok [OF c1, of q, folded st2_def [folded st1_def]]
  have f: "frame st st2"
    by (rule frame_trans [OF same_tree_frame [OF ch(1)] ad(1)])
  have mem: "x \<in> members_of st2 n" if "x \<in> members_of st n" "attached (cg_nodes st) n" for x n
    using that same_tree_fields(8) [OF ch(1), of n] by (auto simp: ad(4) attached_def)
  have l2: "ledger_ok st2 ms G"
    using ledger_task [OF i(2)] ledger_thread [OF i(2)] ledger_guard(3) [OF i(2)] mem
    by (intro ledger_ok_frame [OF f i(1,2)]) blast+
  have p2: "procs_ok st2 ms G P"
    using procs_okD(1,2) [OF i(3)] mem by (intro procs_ok_frame [OF f i(1,3)]) blast
  have t2: "tree_ok st2"
    by (rule frame_tree_ok [OF f i(1)])
  have at2: "attached (cg_nodes st2) c" "q \<in> members_of st2 c"
    using frame_attached [OF f] i(1) c by (simp_all add: tree_ok_def ad(4))
  note la = ledger_attach [OF l2 none at2 q, folded ms'_def]
  have "charges ms G q = None"
    using none ledger_absent [OF i(2) none(2)] by (simp add: charges_def)
  note up = load_upd [OF ledger_charges(1) [OF i(2)] this, of c "cg_nodes st", folded la(2)]
  have "current_of st2 n = load (charges ms' G) (cg_nodes st2) n" if n: "n < nodes_of st" for n
  proof -
    have "load (charges ms' G) (cg_nodes st2) n = load (charges ms' G) (cg_nodes st) n"
      using load_same [OF frame_sym [OF f] la(1)] by simp
    moreover have "load (charges ms' G) (cg_nodes st) n < usize_lim"
      by (rule ledger_charges(2) [OF la(1)])
    ultimately show ?thesis
      using up [of n] i(4) n
      by (cases "n \<in> set (path (cg_nodes st) c)") (simp_all add: ad(3) ch(2) accounts_ok_def usize_add_exact)
  qed
  then have "accounts_ok st2 (charges ms' G)"
    using f by (simp add: accounts_ok_def frame_def)
  then show ?thesis
    using t2 la(1) la(3) [OF p2] by (intro cg_invI [where ms = ms']) simp_all
qed

lemma attach_ok:
  assumes inv: "cg_inv st G P" and c: "attached (cg_nodes st) c" and q: "0 < q" "q < usize_lim"
  shows "\<exists>r st'. attach_initial_process st c q = Some (r, st') \<and>
    (case r of Inr _ \<Rightarrow> cg_inv st' G (P(q \<mapsto> Active c)) | Inl _ \<Rightarrow> cg_inv st' G P)"
proof -
  from inv obtain ms where i: "tree_ok st" "cg_ledger st = Some ms" "ledger_ok st ms G" "procs_ok st ms G P"
    "accounts_ok st (charges ms G)"
    by (rule cg_invE)
  note an = attached_ancestry [OF i(1) c]
  define pt where "pt = path (cg_nodes st) c"
  have d: "distinct pt" "set pt \<subseteq> {..<nodes_of st}"
    using path_distinct an(2) by (simp_all add: pt_def)
  define st1 where "st1 = charge_path_unchecked st pt 1"
  define st2 where "st2 = snd (add_member st1 c q)"
  note ch = charge_path_unchecked_ok [OF d, of 1, folded st1_def]
  have c1: "c < nodes_of st1"
    using same_tree_fields(1) [OF ch(1)] an(3) by simp
  note ad = add_member_ok [OF c1, of q, folded st2_def]
  have f: "frame st st2"
    by (rule frame_trans [OF same_tree_frame [OF ch(1)] ad(1)])
  have led: "cg_ledger st2 = Some ms"
    using ad(2) same_tree_fields(4) [OF ch(1)] i(2) by simp
  have m1: "members_of st1 c = members_of st c"
    by (rule same_tree_fields(8) [OF ch(1) an(3)])
  show ?thesis
  proof (cases "pending_of ms q \<noteq> None \<or> tasks_of ms q \<noteq> None")
    case True
    with inv i(2) show ?thesis
      by (auto simp: attach_initial_process_def)
  next
    case False
    then have none: "tasks_of ms q = None" "pending_of ms q = None"
      by simp_all
    show ?thesis
    proof (cases "q \<in> members_of st c")
      case True
      then have "st2 = st1"
        using ad(5) m1 by simp
      moreover define st3 where "st3 = uncharge_path st1 pt 1"
      ultimately have "attach_initial_process st c q = Some (Inl ResourceBusy, st3)"
        using i(2) none an(1) True m1 by (simp add: attach_initial_process_def Let_def st2_def add_member_def st3_def st1_def pt_def)
      moreover have "same_tree st st3" "\<forall>n<nodes_of st. current_of st3 n = current_of st n"
      proof -
        have d1: "set pt \<subseteq> {..<nodes_of st1}"
          using d(2) same_tree_fields(1) [OF ch(1)] by simp
        note un = uncharge_path_ok [OF d(1) d1, of 1, folded st3_def]
        show "same_tree st st3"
          by (rule same_tree_trans [OF ch(1) un(1)])
        have "current_of st n < usize_lim" if "n < nodes_of st" for n
          using i(5) ledger_charges(2) [OF i(3)] that by (simp add: accounts_ok_def)
        then show "\<forall>n<nodes_of st. current_of st3 n = current_of st n"
          by (simp add: un(2) ch(2) usize_roundtrip)
      qed
      ultimately show ?thesis
        using cg_inv_same [OF inv] by auto
    next
      case False
      have "attach_initial_process st c q = Some (Inr (), st2\<lparr>cg_ledger :=
          Some (ms\<lparr>ms_tasks := bt_insert q \<lparr>tm_process_id = q, tm_cgroup = c\<rparr> (ms_tasks ms)\<rparr>)\<rparr>)"
        using i(2) none an(1) False m1
        by (simp add: attach_initial_process_def Let_def st2_def add_member_def st1_def pt_def)
      with attach_new [OF inv i(2) none c q] show ?thesis
        by (simp add: st2_def st1_def pt_def)
    qed
  qed
qed

section \<open>Sessions\<close>

definition session_start :: "session \<Rightarrow> bool" where
  "session_start se \<longleftrightarrow> cgroup_init empty_cgroups = Some (se_st se) \<and> se_guards se = Map.empty \<and> se_procs se = Map.empty"

text \<open>
  One call of a user of the hierarchy. The premises beside the call are what the kernel guarantees: a node it names
  exists and a target is still linked into the tree; numbers of tasks are fresh; a task under construction is only
  handled through its guard; and a child is not removed while a fork into it is under way (the last one is
  not checked by \<open>remove_child\<close>).
\<close>

inductive session_step :: "session \<Rightarrow> session \<Rightarrow> bool" where
  step_attach: "attached (cg_nodes st) c \<Longrightarrow> 0 < q \<Longrightarrow> q < usize_lim \<Longrightarrow> attach_initial_process st c q = Some (r, st') \<Longrightarrow>
    session_step \<lparr>se_st = st, se_guards = G, se_procs = P\<rparr>
      \<lparr>se_st = st', se_guards = G, se_procs = (case r of Inr _ \<Rightarrow> P(q \<mapsto> membership_new c) | Inl _ \<Rightarrow> P)\<rparr>"
| step_begin: "P q = Some p \<Longrightarrow> begin_ok st G P (membership_current p) q t kind \<Longrightarrow> begin_task st p q t kind = Some (r, st') \<Longrightarrow>
    session_step \<lparr>se_st = st, se_guards = G, se_procs = P\<rparr>
      \<lparr>se_st = st', se_guards = (case r of Inr g \<Rightarrow> G(t \<mapsto> g) | Inl _ \<Rightarrow> G), se_procs = P\<rparr>"
| step_begin_at: "begin_ok st G P c t t ChildProcess \<Longrightarrow> begin_process_at st c t = Some (r, st') \<Longrightarrow>
    session_step \<lparr>se_st = st, se_guards = G, se_procs = P\<rparr>
      \<lparr>se_st = st', se_guards = (case r of Inr g \<Rightarrow> G(t \<mapsto> g) | Inl _ \<Rightarrow> G), se_procs = P\<rparr>"
| step_publish: "G t = Some g \<Longrightarrow> guard_publish st g = (r, st', g') \<Longrightarrow>
    session_step \<lparr>se_st = st, se_guards = G, se_procs = P\<rparr> \<lparr>se_st = st', se_guards = G(t \<mapsto> g'), se_procs = P\<rparr>"
| step_commit: "G t = Some g \<Longrightarrow> fg_publication g = Published \<Longrightarrow> guard_commit st g = Some st' \<Longrightarrow>
    session_step \<lparr>se_st = st, se_guards = G, se_procs = P\<rparr>
      \<lparr>se_st = st', se_guards = G(t := None),
       se_procs = (if fg_child_kind g = ChildProcess then P(t \<mapsto> membership_new (fg_cgroup g)) else P)\<rparr>"
| step_drop: "G t = Some g \<Longrightarrow>
    session_step \<lparr>se_st = st, se_guards = G, se_procs = P\<rparr> \<lparr>se_st = guard_drop st g, se_guards = G(t := None), se_procs = P\<rparr>"
| step_exit: "P q = Some p \<Longrightarrow> G t = None \<Longrightarrow> exit_task st p q t kind = Some (r, st', p') \<Longrightarrow>
    session_step \<lparr>se_st = st, se_guards = G, se_procs = P\<rparr> \<lparr>se_st = st', se_guards = G, se_procs = P(q \<mapsto> p')\<rparr>"
| step_rename: "P q = Some p \<Longrightarrow> G t = None \<Longrightarrow> 0 < t' \<Longrightarrow> t' < usize_lim \<Longrightarrow> rename_task st p q t t' = (r, st') \<Longrightarrow>
    session_step \<lparr>se_st = st, se_guards = G, se_procs = P\<rparr> \<lparr>se_st = st', se_guards = G, se_procs = P\<rparr>"
| step_migrate: "P q = Some p \<Longrightarrow> attached (cg_nodes st) target \<Longrightarrow> migrate st p q target = Some (r, st', p') \<Longrightarrow>
    session_step \<lparr>se_st = st, se_guards = G, se_procs = P\<rparr> \<lparr>se_st = st', se_guards = G, se_procs = P(q \<mapsto> p')\<rparr>"
| step_mkdir: "n < nodes_of st \<Longrightarrow> create_child st n name = Inr (child, st') \<Longrightarrow>
    session_step \<lparr>se_st = st, se_guards = G, se_procs = P\<rparr> \<lparr>se_st = st', se_guards = G, se_procs = P\<rparr>"
| step_rmdir: "n < nodes_of st \<Longrightarrow> lookup_child st n name = Inr child \<Longrightarrow> \<forall>t g. G t = Some g \<longrightarrow> fg_cgroup g \<noteq> child \<Longrightarrow>
    remove_child st n name = Inr st' \<Longrightarrow>
    session_step \<lparr>se_st = st, se_guards = G, se_procs = P\<rparr> \<lparr>se_st = st', se_guards = G, se_procs = P\<rparr>"
| step_reclaim: "n < nodes_of st \<Longrightarrow> \<not> attached (cg_nodes st) n \<Longrightarrow>
    session_step \<lparr>se_st = st, se_guards = G, se_procs = P\<rparr> \<lparr>se_st = reclaim st n, se_guards = G, se_procs = P\<rparr>"
| step_limit: "n < nodes_of st \<Longrightarrow> write_pids_max st n data = Inr st' \<Longrightarrow>
    session_step \<lparr>se_st = st, se_guards = G, se_procs = P\<rparr> \<lparr>se_st = st', se_guards = G, se_procs = P\<rparr>"
| step_control: "n < nodes_of st \<Longrightarrow> write_subtree_control st n data = Inr st' \<Longrightarrow>
    session_step \<lparr>se_st = st, se_guards = G, se_procs = P\<rparr> \<lparr>se_st = st', se_guards = G, se_procs = P\<rparr>"
| step_pin: "n < nodes_of st \<Longrightarrow>
    session_step \<lparr>se_st = st, se_guards = G, se_procs = P\<rparr> \<lparr>se_st = pin st n, se_guards = G, se_procs = P\<rparr>"
| step_unpin: "n < nodes_of st \<Longrightarrow>
    session_step \<lparr>se_st = st, se_guards = G, se_procs = P\<rparr> \<lparr>se_st = pin_drop st n, se_guards = G, se_procs = P\<rparr>"

inductive session_reachable :: "session \<Rightarrow> bool" where
  session_init: "session_start se \<Longrightarrow> session_reachable se"
| session_next: "session_reachable se \<Longrightarrow> session_step se se' \<Longrightarrow> session_reachable se'"

abbreviation session_inv :: "session \<Rightarrow> bool" where
  "session_inv se \<equiv> cg_inv (se_st se) (se_guards se) (se_procs se)"

lemma start_inv:
  assumes "session_start se"
  shows "session_inv se"
proof -
  define st where "st = \<lparr>cg_nodes = [new_root], cg_freed = {}, cg_next_id = 2, cg_ledger = Some membership_init\<rparr>"
  have se: "se_st se = st" "se_guards se = Map.empty" "se_procs se = Map.empty"
    using assms by (simp_all add: session_start_def cgroup_init_def empty_cgroups_def st_def)
  have "tree_ok st"
    by (simp add: st_def tree_ok_def tree_wf_def new_root_def new_node_def)
  moreover have ch: "charges membership_init Map.empty = Map.empty"
    by (simp add: charges_def membership_init_def fun_eq_iff)
  moreover have "ledger_ok st membership_init Map.empty"
    unfolding ledger_ok_def ch by (simp add: membership_init_def)
  moreover have "accounts_ok st Map.empty"
    by (simp add: accounts_ok_def st_def node_at_def new_root_def new_node_def pids_new_def load_def)
  ultimately show ?thesis
    unfolding se by (intro cg_invI [where ms = membership_init]) (simp_all add: st_def procs_ok_def)
qed

lemma begin_inv:
  assumes "cg_inv st G P" "begin_ok st G P c q t kind" "begin_task_at st c q t kind = Some (r, st')"
  shows "cg_inv st' (case r of Inr g \<Rightarrow> G(t \<mapsto> g) | Inl _ \<Rightarrow> G) P"
  using begin_task_ok [OF assms(1,2)] assms(3) by (cases r) auto

lemma step_inv:
  assumes "session_step se se'" "session_inv se"
  shows "session_inv se'"
  using assms
proof cases
  case (step_attach st c q r st' G P)
  then show ?thesis
    using attach_ok [of st G P c q] assms(2) by (cases r) (auto simp: membership_new_def)
next
  case (step_begin P q p st G t kind r st')
  then show ?thesis
    using begin_inv [of st G P _ q t kind r st'] assms(2) by (cases p) (auto simp: begin_task_def membership_current_def)
next
  case (step_begin_at st G P c t r st')
  then show ?thesis
    using begin_inv [of st G P c t t ChildProcess r st'] assms(2) by (simp add: begin_process_at_def)
next
  case (step_publish G t g st r st' g' P)
  then show ?thesis
    using guard_publish_ok [of st G P t g] assms(2) by auto
next
  case (step_commit G t g st st' P)
  then show ?thesis
    using guard_commit_ok [of st G P t g] assms(2) by auto
next
  case (step_drop G t g st P)
  then show ?thesis
    using guard_drop_ok(1) [of st G P t g] assms(2) by simp
next
  case (step_exit P q p G t st kind r st' p')
  then show ?thesis
    using exit_task_ok [of st G P q p t kind] assms(2) by auto
next
  case (step_rename P q p G t t' st r st')
  then show ?thesis
    using rename_task_ok [of st G P q p t t'] assms(2) by auto
next
  case (step_migrate P q p st target r st' p' G)
  then show ?thesis
    using migrate_ok [of st G P q p target] assms(2) by auto
next
  case (step_mkdir n st name child st' G P)
  then show ?thesis
    using create_child_ok(1) [of st G P n name child st'] assms(2) by simp
next
  case (step_rmdir n st name child G st' P)
  then show ?thesis
    using remove_child_ok(1) [of st G P n name st' child] assms(2) by simp
next
  case (step_reclaim n st G P)
  then show ?thesis
    using reclaim_inv [of st G P n] assms(2) by simp
next
  case (step_limit n st data st' G P)
  then show ?thesis
    using write_pids_max_ok [of st G P n data st'] assms(2) by simp
next
  case (step_control n st data st' G P)
  then show ?thesis
    using write_subtree_control_ok [of st G P n data st'] assms(2) by simp
next
  case (step_pin n st G P)
  then show ?thesis
    using pin_ok [of st G P n] assms(2) by simp
next
  case (step_unpin n st G P)
  then show ?thesis
    using pin_drop_ok [of st G P n] assms(2) by simp
qed

lemma reachable_inv: "session_reachable se \<Longrightarrow> session_inv se"
  by (induction rule: session_reachable.induct) (simp_all add: start_inv step_inv)

end
