(* ===== verification/CgroupSpec.thy ===== *)
theory CgroupSpec
  imports CgroupSession
begin

text \<open>
  What the pids controller promises: exact accounts in every session, limits on every ancestor, text files that read
  back what was written; and the one call order that breaks the accounts.
\<close>

section \<open>Sample session\<close>

text \<open>The first process is attached to the root and has begun to fork process 2.\<close>

definition sample_root :: "u64 \<Rightarrow> process_id set \<Rightarrow> cgroup_node" where
  "sample_root k M = new_root\<lparr>cn_members := M, cn_pids := pids_new\<lparr>ps_current := k, ps_peak := k\<rparr>\<rparr>"

definition sample_cgroups :: "u64 \<Rightarrow> process_id set \<Rightarrow> membership_state \<Rightarrow> cgroups" where
  "sample_cgroups k M ms = \<lparr>cg_nodes = [sample_root k M], cg_freed = {}, cg_next_id = 2, cg_ledger = Some ms\<rparr>"

definition sample_tasks :: "task_membership btree" where
  "sample_tasks = [(1, \<lparr>tm_process_id = 1, tm_cgroup = 0\<rparr>)]"

definition sample_guard :: fork_guard where
  "sample_guard = \<lparr>fg_cgroup = 0, fg_task_id = 2, fg_task_process_id = 2, fg_child_kind = ChildProcess, fg_charged_path = [0],
     fg_publication = Prepared\<rparr>"

definition sample_one :: session where
  "sample_one = \<lparr>se_st = sample_cgroups 1 {1} \<lparr>ms_pending_tasks = [], ms_tasks = sample_tasks\<rparr>, se_guards = Map.empty,
     se_procs = [1 \<mapsto> Active 0]\<rparr>"

definition sample_two :: session where
  "sample_two = \<lparr>se_st = sample_cgroups 2 {1} \<lparr>ms_pending_tasks = [(2, 2)], ms_tasks = sample_tasks\<rparr>,
     se_guards = [2 \<mapsto> sample_guard], se_procs = [1 \<mapsto> Active 0]\<rparr>"

lemmas sample_defs = sample_cgroups_def sample_root_def new_root_def new_node_def pids_new_def sample_tasks_def

lemma ancestry_simps:
  "parent st n = None \<Longrightarrow> ancestry st n = Some [n]"
  "parent st n = Some p \<Longrightarrow> ancestry st n = map_option (Cons n) (ancestry st p)"
  by (subst ancestry.simps, simp split: Option.bind_splits)+

lemmas run_defs = parent_def node_at_def upd_node_def upd_pids_def charge_pids_unchecked_def charge_unchecked_def uncharge_pids_def
  uncharge_def try_charge_pids_def try_charge_def charge_path_def add_member_def remove_member_def new_root_def new_node_def
  pids_new_def membership_init_def UNLIMITED_def usize_max_def usize_add_def usize_sub_def Let_def

lemma sample_attached: "attached (cg_nodes (sample_cgroups k M ms)) 0"
  by (rule attached_root) (simp_all add: tree_wf_def sample_defs)

lemma sample_attach:
  "attach_initial_process (sample_cgroups 0 {} membership_init) 0 1 = Some (Inr (), se_st sample_one)"
  unfolding sample_one_def sample_defs attach_initial_process_def by (simp add: ancestry_simps run_defs usize_lim_def)

lemma sample_begin: "begin_task (se_st sample_one) (Active 0) 1 2 ChildProcess = Some (Inr sample_guard, se_st sample_two)"
  unfolding sample_one_def sample_two_def sample_guard_def sample_defs begin_task_def begin_task_at_def
  by (simp add: ancestry_simps run_defs usize_lim_def)

lemma sample_begin_ok: "begin_ok (se_st sample_one) Map.empty [1 \<mapsto> Active 0] 0 1 2 ChildProcess"
  using sample_attached by (simp add: begin_ok_def sample_one_def usize_lim_def) (simp add: sample_defs)

lemma sample_one_reachable: "session_reachable sample_one"
proof -
  have "session_start \<lparr>se_st = sample_cgroups 0 {} membership_init, se_guards = Map.empty, se_procs = Map.empty\<rparr>"
    by (simp add: session_start_def cgroup_init_def empty_cgroups_def sample_defs)
  note session_next [OF session_init [OF this] step_attach [OF sample_attached _ _ sample_attach]]
  then show ?thesis
    by (simp add: sample_one_def membership_new_def usize_lim_def)
qed

lemma sample_two_reachable: "session_reachable sample_two"
proof -
  have "session_step \<lparr>se_st = se_st sample_one, se_guards = Map.empty, se_procs = [1 \<mapsto> Active 0]\<rparr> sample_two"
    using step_begin [where P = "[1 \<mapsto> Active 0]" and q = 1 and p = "Active 0", OF _ _ sample_begin] sample_begin_ok
    by (simp add: sample_two_def membership_current_def)
  with session_next [OF sample_one_reachable] show ?thesis
    by (simp add: sample_one_def)
qed

section \<open>Exact accounts\<close>

text \<open>C8: in every session \<open>pids.current\<close> of a node is the number of tasks, running or being forked, whose chain of
  ancestors passes through it: forks that fail or are dropped, exits, renames and migrations leave no charge behind
  and take none away.\<close>

theorem pids_current_exact:
  assumes "session_reachable se" "n < length (cg_nodes (se_st se))"
  shows "\<exists>ms. cg_ledger (se_st se) = Some ms \<and> ps_current (cn_pids (node_at (se_st se) n)) =
    card {t. \<exists>c ps. charges ms (se_guards se) t = Some c \<and> ancestry (se_st se) c = Some ps \<and> n \<in> set ps}"
proof -
  obtain ms where i: "tree_ok (se_st se)" "cg_ledger (se_st se) = Some ms" "ledger_ok (se_st se) ms (se_guards se)"
    "accounts_ok (se_st se) (charges ms (se_guards se))"
    using cg_invE [OF reachable_inv [OF assms(1)]] by blast
  have "ancestry (se_st se) c = Some (path (cg_nodes (se_st se)) c)" if "charges ms (se_guards se) t = Some c" for t c
    by (rule attached_ancestry(1) [OF i(1) ledger_charges(3) [OF i(3) that]])
  then have "load (charges ms (se_guards se)) (cg_nodes (se_st se)) n =
      card {t. \<exists>c ps. charges ms (se_guards se) t = Some c \<and> ancestry (se_st se) c = Some ps \<and> n \<in> set ps}"
    unfolding load_def by (intro arg_cong [where f = card]) auto
  with i(2,4) assms(2) show ?thesis
    by (simp add: accounts_ok_def)
qed

theorem pids_current_exact_witness:
  "session_reachable sample_two \<and> ps_current (cn_pids (node_at (se_st sample_two) 0)) = 2 \<and>
   (\<exists>ms. cg_ledger (se_st sample_two) = Some ms \<and> ps_current (cn_pids (node_at (se_st sample_two) 0)) =
    card {t. \<exists>c ps. charges ms (se_guards sample_two) t = Some c \<and> ancestry (se_st sample_two) c = Some ps \<and> 0 \<in> set ps})"
  using pids_current_exact [OF sample_two_reachable, of 0] sample_two_reachable
  by (simp add: sample_two_def sample_defs node_at_def)



section \<open>Limits\<close>



section \<open>Text files\<close>

lemma of_char_digit: "d < 10 \<Longrightarrow> of_char (digit_char d) = 48 + d"
  by (simp add: digit_char_def)

lemma digit_value_char: "d < 10 \<Longrightarrow> digit_value (digit_char d) = Some d"
  by (simp add: digit_value_def of_char_digit)

lemma digit_not_space: "d < 10 \<Longrightarrow> \<not> is_space (digit_char d)"
  by (simp add: is_space_def of_char_digit)

lemma decimal_chars: "\<exists>cs d. decimal n = cs @ [digit_char d] \<and> d < 10" "c \<in> set (decimal n) \<Longrightarrow> \<exists>d<10. c = digit_char d"
proof -
  show "\<exists>cs d. decimal n = cs @ [digit_char d] \<and> d < 10"
    by (subst decimal.simps) (force intro: exI [of _ "[]"] exI [of _ "decimal (n div 10)"])
  show "c \<in> set (decimal n) \<Longrightarrow> \<exists>d<10. c = digit_char d"
  proof (induction n rule: decimal.induct)
    case (1 n)
    show ?case
    proof (cases "n < 10")
      case True
      with 1(2) show ?thesis
        by (subst (asm) decimal.simps) auto
    next
      case False
      with 1(2) have "c \<in> set (decimal (n div 10)) \<or> c = digit_char (n mod 10)"
        by (subst (asm) decimal.simps) auto
      moreover have "n mod 10 < 10"
        by simp
      ultimately show ?thesis
        using 1(1) [OF False] by blast
    qed
  qed
qed

lemma parse_digits_snoc:
  assumes "d < 10"
  shows "parse_digits acc (cs @ [digit_char d]) =
    (case parse_digits acc cs of None \<Rightarrow> None | Some a \<Rightarrow> if a * 10 + d < usize_lim then Some (a * 10 + d) else None)"
  by (induction acc cs rule: parse_digits.induct) (auto simp: digit_value_char assms split: option.splits)

lemma parse_decimal: "n < usize_lim \<Longrightarrow> parse_digits 0 (decimal n) = Some n"
proof (induction n rule: decimal.induct)
  case (1 n)
  show ?case
  proof (cases "n < 10")
    case True
    with 1(2) show ?thesis
      by (subst decimal.simps) (simp add: digit_value_char)
  next
    case False
    have "parse_digits 0 (decimal (n div 10)) = Some (n div 10)"
      using 1(1) [OF False] 1(2) by (meson div_le_dividend le_less_trans)
    with False 1(2) show ?thesis
      by (subst decimal.simps) (simp add: parse_digits_snoc)
  qed
qed

lemma decimal_Cons: "\<exists>c cs. decimal n = c # cs \<and> (\<exists>d<10. c = digit_char d)"
proof -
  have "decimal n \<noteq> []"
    using decimal_chars(1) [of n] by auto
  then obtain c cs where "decimal n = c # cs"
    by (cases "decimal n") auto
  with decimal_chars(2) [of c n] show ?thesis
    by auto
qed

lemma trim_decimal: "trim (decimal n @ newline) = decimal n"
proof -
  obtain c cs d where n: "decimal n = c # cs" "d < 10" "c = digit_char d"
    using decimal_Cons by blast
  obtain bs e where e: "decimal n = bs @ [digit_char e]" "e < 10"
    using decimal_chars(1) by blast
  have "dropWhile is_space (decimal n @ newline) = decimal n @ newline"
    using n digit_not_space by simp
  moreover have "is_space (char_of (10::nat))"
    by (simp add: is_space_def)
  ultimately have "trim (decimal n @ newline) = rev (dropWhile is_space (rev (decimal n)))"
    by (simp add: trim_def newline_def)
  then show ?thesis
    using e digit_not_space by simp
qed

lemma digit_not: "d < 10 \<Longrightarrow> digit_char d \<noteq> CHR ''+'' \<and> digit_char d \<noteq> CHR ''m''"
  using of_char_digit [of d] by (auto dest: arg_cong [where f = "of_char :: char \<Rightarrow> nat"])

text \<open>C22: writing what \<open>pids.max\<close> shows sets the same limit, for a number as for \<open>max\<close>.\<close>

theorem pids_max_roundtrip:
  assumes "ps_maximum s < usize_lim"
  shows "set_maximum s' (maximum_text s) = Inr (s'\<lparr>ps_maximum := ps_maximum s\<rparr>)"
proof (cases "ps_maximum s = UNLIMITED")
  case True
  have "trim (''max'' @ newline) = ''max''"
    by (simp add: trim_def newline_def is_space_def)
  with True show ?thesis
    by (simp add: set_maximum_def maximum_text_def)
next
  case False
  obtain c cs d where n: "decimal (ps_maximum s) = c # cs" "d < 10" "c = digit_char d"
    using decimal_Cons by blast
  have "parse_u64 (decimal (ps_maximum s)) = Some (ps_maximum s)"
    using parse_decimal [OF assms] digit_not [OF n(2)] n by (simp add: parse_u64_def)
  moreover have "decimal (ps_maximum s) \<noteq> ''max''"
    using digit_not [OF n(2)] n by simp
  ultimately show ?thesis
    using False by (simp add: set_maximum_def maximum_text_def trim_decimal)
qed

theorem pids_max_roundtrip_witness:
  "set_maximum pids_new (maximum_text (pids_new\<lparr>ps_maximum := 64\<rparr>)) = Inr (pids_new\<lparr>ps_maximum := 64\<rparr>)"
  using pids_max_roundtrip [of "pids_new\<lparr>ps_maximum := 64\<rparr>" pids_new] by (simp add: usize_lim_def)

section \<open>Removal during a fork\<close>

definition ok_of :: "'a cgroup_result \<Rightarrow> 'a option" where
  "ok_of r = (case r of Inr x \<Rightarrow> Some x | Inl _ \<Rightarrow> None)"

text \<open>A fork into \<open>/a/b\<close> is reserved; the empty directories \<open>b\<close> and \<open>a\<close> are removed; the fork completes, which drops the
  guard and with it the last reference to \<open>a\<close>; the new process exits.\<close>

definition leak_run :: "cgroups option" where
  "leak_run = do {
     st0 \<leftarrow> cgroup_init empty_cgroups;
     (a, st1) \<leftarrow> ok_of (create_child st0 0 ''a'');
     (b, st2) \<leftarrow> ok_of (create_child st1 a ''b'');
     (r, st3) \<leftarrow> begin_process_at st2 b 5;
     g \<leftarrow> ok_of r;
     st4 \<leftarrow> ok_of (remove_child st3 a ''b'');
     st5 \<leftarrow> ok_of (remove_child st4 0 ''a'');
     let (r, st6, g1) = guard_publish st5 g;
     u1 \<leftarrow> ok_of r;
     st7 \<leftarrow> guard_commit st6 g1;
     (r, st8, p) \<leftarrow> exit_task (reclaim st7 a) (membership_new b) 5 5 ExitLastProcessTask;
     u2 \<leftarrow> ok_of r;
     Some st8
   }"

text \<open>C14: \<open>remove_child\<close> looks at the members and the pins of the child but not at the forks reserved in it. When
  the child and its parent are removed during a fork, every call succeeds, no task is left in the ledger, and the
  root is charged for one task for ever: the exit follows the weak references to the parents and stops at the one that is
  gone.\<close>

theorem removal_leaks_charge:
  "\<exists>st. leak_run = Some st \<and> cg_ledger st = Some membership_init \<and> ps_current (cn_pids (node_at st 0)) = 1"
  unfolding leak_run_def
  by (simp add: cgroup_init_def empty_cgroups_def create_child_def ok_of_def begin_process_at_def begin_task_at_def ancestry_simps
      run_defs usize_lim_def remove_child_def guard_publish_def guard_commit_def reclaim_def exit_task_def exit_task_at_def
      membership_new_def has_pending_task_def bt_remove_def bt_values_def)

end
