(* ===== verification/Spec2Isabelle.thy ===== *)
theory Spec2Isabelle
  imports MemorySetOps SlabSpec RemoteRace CgroupSpec
begin

text \<open>
  HEADER
\<close>

section \<open>Properties that span components\<close>

lemma allocatable_complement:
  "allocatable (- M) lo up sz al x \<longleftrightarrow> 0 < sz \<and> is_power_of_two al \<and> al dvd sz \<and> al dvd x \<and> lo \<le> x \<and>
     x + sz \<le> up \<and> {x..<x + sz} \<inter> M = {}"
  by (auto simp: allocatable_def)

definition placeable :: "('b, 'f) memory_set \<Rightarrow> usize \<Rightarrow> usize \<Rightarrow> addr_range \<Rightarrow> usize \<Rightarrow> usize \<Rightarrow> bool" where
  "placeable ms hint sz limit al x \<longleftrightarrow> 0 < sz \<and> is_power_of_two al \<and> al dvd sz \<and> al dvd x \<and>
     max hint (ar_start limit) \<le> x \<and> x + sz \<le> ar_end limit \<and>
     {x..<x + sz} \<inter> mapped (ms_areas ms) = {}"

text \<open>C23: \<open>find_free_area\<close>, which consults only the gap index, agrees with the areas of the set: an
  address it returns is aligned, within the limits, not below the hint, the lowest such one, and starts
  a range that no area touches, so that publishing an area there succeeds; it returns \<open>None\<close> only when
  there is no such address.\<close>

theorem find_free_area_correct:
  assumes inv: "ms_inv ms" and lim: "ar_end limit < usize_lim"
  shows "case find_free_area ms hint sz limit al of
      Some x \<Rightarrow> placeable ms hint sz limit al x \<and> (\<forall>y. placeable ms hint sz limit al y \<longrightarrow> x \<le> y) \<and>
        (\<forall>a. ma_range a = \<lparr>ar_start = x, ar_end = x + sz\<rparr> \<longrightarrow>
          (\<exists>ms'. insert_prepared_area ms a = Some (Inr (), ms') \<and> ms_inv ms'))
    | None \<Rightarrow> \<forall>y. \<not> placeable ms hint sz limit al y"
proof -
  have gaps: "gap_index_inv (ms_gaps ms)" "gap_free (ms_gaps ms) = - mapped (ms_areas ms)"
    using inv by (simp_all add: ms_inv_def)
  have good: "allocatable (gap_free (ms_gaps ms)) (max hint (ar_start limit)) (ar_end limit) sz al y \<longleftrightarrow>
      placeable ms hint sz limit al y" for y
    by (simp add: gaps(2) allocatable_complement placeable_def)
  show ?thesis
  proof (cases "find_free_area ms hint sz limit al")
    case None
    then have "\<forall>y. \<not> placeable ms hint sz limit al y"
      unfolding find_free_area_def gap_space.find_None [OF gaps(1) lim] good .
    with None show ?thesis
      by simp
  next
    case (Some x)
    from gap_space.find_Some [OF gaps(1) lim Some [unfolded find_free_area_def]]
    have x: "placeable ms hint sz limit al x" "\<forall>y. placeable ms hint sz limit al y \<longrightarrow> x \<le> y"
      unfolding good by auto
    have "\<exists>ms'. insert_prepared_area ms a = Some (Inr (), ms') \<and> ms_inv ms'"
      if "ma_range a = \<lparr>ar_start = x, ar_end = x + sz\<rparr>" for a
    proof -
      have a: "area_start a = x" "area_end a = x + sz" "area_addrs a = {x..<x + sz}"
        using that by (simp_all add: area_start_def area_end_def area_addrs_def)
      with x(1) lim have "area_end a < usize_lim"
        by (simp add: placeable_def)
      from insert_prepared_outcome [OF inv this] a x(1) show ?thesis
        by (auto simp: placeable_def)
    qed
    with x Some show ?thesis
      by simp
  qed
qed

theorem find_free_area_correct_witness:
  "find_free_area sample_set 0 8192 \<lparr>ar_start = 0, ar_end = 65536\<rparr> 4096 = Some 16384 \<and>
   {16384..<16384 + 8192} \<inter> mapped (ms_areas sample_set) = {}"
proof -
  have h: "ar_end \<lparr>ar_start = 0, ar_end = 65536\<rparr> < usize_lim"
    by code_simp
  have "find_free_area sample_set 0 8192 \<lparr>ar_start = 0, ar_end = 65536\<rparr> 4096 = Some 16384"
    by code_simp
  with find_free_area_correct [OF sample_set_inv h, of 0 8192 4096] show ?thesis
    by (simp add: placeable_def)
qed

end
